(* ===== verification/Fon9_Prelude.thy ===== *)
theory Fon9_Prelude
  imports Main "HOL-Library.Word" "HOL-Library.Multiset"
begin

text \<open>
  Shared vocabulary of the libfon9 development: byte and integer types, unsigned
  arithmetic at a fixed width, the stream-reading conventions, the contract locales that
  several components share, and the lemma collections that carry their proofs.

  Conventions.
  \<^item> An unsigned C++ integer is either a \<open>w word\<close>, where the code works on its bits, or a
    \<open>nat\<close> whose wrap-around is written out with \<open>uadd\<close> and \<open>usub\<close>, where the code
    counts and compares.
  \<^item> A raise is a value \<open>Inl e\<close>; a normal return is \<open>Inr v\<close>.
  \<^item> A cursor into a buffer (\<open>StrView&\<close>, \<open>DcQueue&\<close>) is the list of what is left to read;
    a reader returns the value and the rest.
  \<^item> A \<open>RevBuffer\<close>, which is filled from its end towards its front, is the list of bytes
    from its front: putting a byte is a cons.
\<close>

unbundle bit_operations_syntax

type_synonym byte = "8 word"
type_synonym u16 = "16 word"
type_synonym u32 = "32 word"
type_synonym u64 = "64 word"

named_theorems wrap_simps "unsigned arithmetic that stays in range"

subsection \<open>Unsigned arithmetic at width w on natural numbers\<close>

definition uadd :: "nat \<Rightarrow> nat \<Rightarrow> nat \<Rightarrow> nat" where
  "uadd w a b = (a + b) mod 2 ^ w"

definition usub :: "nat \<Rightarrow> nat \<Rightarrow> nat \<Rightarrow> nat" where
  "usub w a b = (a + (2 ^ w - b mod 2 ^ w)) mod 2 ^ w"

abbreviation add64 :: "nat \<Rightarrow> nat \<Rightarrow> nat" where
  "add64 \<equiv> uadd 64"

abbreviation sub64 :: "nat \<Rightarrow> nat \<Rightarrow> nat" where
  "sub64 \<equiv> usub 64"

lemma uadd_less [simp]: "uadd w a b < 2 ^ w"
  by (simp add: uadd_def)

lemma usub_less [simp]: "usub w a b < 2 ^ w"
  by (simp add: usub_def)

lemma uadd_eq [wrap_simps]: "a + b < 2 ^ w \<Longrightarrow> uadd w a b = a + b"
  by (simp add: uadd_def)

lemma usub_eq [wrap_simps]: "b \<le> a \<Longrightarrow> a < 2 ^ w \<Longrightarrow> usub w a b = a - b"
proof -
  assume le: "b \<le> a" and lt: "a < 2 ^ w"
  then have "b mod 2 ^ w = b" by simp
  moreover have "a + (2 ^ w - b) = (a - b) + 2 ^ w" using le lt by simp
  ultimately have "usub w a b = ((a - b) + 2 ^ w) mod 2 ^ w" by (simp only: usub_def)
  then show ?thesis using lt by simp
qed

lemma usub_self [simp]: "a < 2 ^ w \<Longrightarrow> usub w a a = 0"
  by (simp add: usub_eq)

subsection \<open>Characters\<close>

text \<open>A \<open>char\<close> of the source is its byte; \<open>ascii\<close> reads a string literal as bytes.\<close>

definition ascii :: "string \<Rightarrow> byte list" where
  "ascii s = map of_char s"

lemma length_ascii [simp]: "length (ascii s) = length s"
  by (simp add: ascii_def)

subsection \<open>Lists\<close>

lemma sorted_wrt_less_insert:
  "sorted_wrt (<) (xs @ ys) \<Longrightarrow> (\<forall>x\<in>set xs. x < k) \<Longrightarrow> (\<forall>y\<in>set ys. (k::'a::linorder) < y) \<Longrightarrow>
   sorted_wrt (<) (xs @ k # ys)"
  by (auto simp: sorted_wrt_append)

subsection \<open>Contracts\<close>

text \<open>
  The contract of a component with state: an invariant that holds initially and that every
  operation keeps. \<open>foldl step\<close> runs the component over a sequence of operations.
\<close>

locale invariant_system =
  fixes step :: "'s \<Rightarrow> 'e \<Rightarrow> 's"
    and init :: "'s"
    and ok :: "'e \<Rightarrow> bool"
    and inv :: "'s \<Rightarrow> bool"
  assumes init_inv: "inv init"
    and step_inv: "inv s \<Longrightarrow> ok e \<Longrightarrow> inv (step s e)"
begin

lemma run_inv_from: "inv s \<Longrightarrow> (\<forall>e\<in>set es. ok e) \<Longrightarrow> inv (foldl step s es)"
  by (induction es arbitrary: s) (auto intro: step_inv)

lemma run_inv: "(\<forall>e\<in>set es. ok e) \<Longrightarrow> inv (foldl step init es)"
  using init_inv by (rule run_inv_from)

end

end
