(* ===== verification/SortedVector.thy ===== *)
theory SortedVector
  imports Fon9_Prelude
begin

text \<open>
  \<open>fon9/SortedVector.hpp\<close>: a \<open>std::vector\<close> kept sorted by a comparison \<open>Cmp_\<close>. An
  iterator is the index of its element, \<open>end()\<close> the length. The standard algorithms
  \<open>std::lower_bound\<close> and \<open>std::upper_bound\<close> return the partition point of a sorted range.
  The hinted insert of the source may start its search one before \<open>begin()\<close>; that access
  is undefined in C++ and is the result \<open>None\<close>.
\<close>

subsection \<open>Searching\<close>

definition lower_i :: "('v \<Rightarrow> 'k \<Rightarrow> bool) \<Rightarrow> 'v list \<Rightarrow> 'k \<Rightarrow> nat" where
  "lower_i cmp xs k = length (takeWhile (\<lambda>v. cmp v k) xs)"

definition upper_i :: "('k \<Rightarrow> 'v \<Rightarrow> bool) \<Rightarrow> 'v list \<Rightarrow> 'k \<Rightarrow> nat" where
  "upper_i cmp xs k = length (takeWhile (\<lambda>v. \<not> cmp k v) xs)"

definition find_i :: "('v \<Rightarrow> 'v \<Rightarrow> bool) \<Rightarrow> 'v list \<Rightarrow> 'v \<Rightarrow> nat \<times> bool" where
  "find_i cmp xs k = (let res = lower_i cmp xs k in (res, res \<noteq> length xs \<and> \<not> cmp k (xs ! res)))"

definition sv_find :: "('v \<Rightarrow> 'v \<Rightarrow> bool) \<Rightarrow> 'v list \<Rightarrow> 'v \<Rightarrow> nat" where
  "sv_find cmp xs k = (case find_i cmp xs k of (i, found) \<Rightarrow> if found then i else length xs)"

subsection \<open>Changing\<close>

definition vec_insert :: "'v list \<Rightarrow> nat \<Rightarrow> 'v \<Rightarrow> 'v list" where
  "vec_insert xs i v = take i xs @ v # drop i xs"

definition sv_insert :: "('v \<Rightarrow> 'v \<Rightarrow> bool) \<Rightarrow> 'v list \<Rightarrow> 'v \<Rightarrow> 'v list \<times> nat \<times> bool" where
  "sv_insert cmp xs v =
     (case find_i cmp xs v of (i, found) \<Rightarrow>
        if found then (xs, i, False) else (vec_insert xs i v, i, True))"

definition sv_insert_range :: "('v \<Rightarrow> 'v \<Rightarrow> bool) \<Rightarrow> 'v list \<Rightarrow> nat \<Rightarrow> 'v \<Rightarrow> 'v list \<times> nat" where
  "sv_insert_range cmp xs iend v =
     (let i = lower_i cmp (take iend xs) v
      in if i \<noteq> iend \<and> \<not> cmp v (xs ! i) then (xs, i) else (vec_insert xs i v, i))"

definition sv_insert_hint ::
  "('v \<Rightarrow> 'v \<Rightarrow> bool) \<Rightarrow> 'v list \<Rightarrow> nat \<Rightarrow> 'v \<Rightarrow> ('v list \<times> nat) option" where
  "sv_insert_hint cmp xs ihint v =
     (if ihint = length xs then
        (if xs = [] \<or> cmp (xs ! (ihint - 1)) v then Some (xs @ [v], length xs)
         else Some (sv_insert_range cmp xs (length xs) v))
      else if cmp v (xs ! ihint) then
        (if ihint = 0 \<or> cmp (xs ! (ihint - 1)) v then Some (vec_insert xs ihint v, ihint)
         else Some (sv_insert_range cmp xs ihint v))
      else if ihint \<noteq> 0 then None
      else Some (sv_insert_range cmp xs (length xs) v))"

definition sv_erase :: "'v list \<Rightarrow> nat \<Rightarrow> nat \<Rightarrow> 'v list" where
  "sv_erase xs ifrom ito = take ifrom xs @ drop ito xs"

definition sv_remove_if :: "'v list \<Rightarrow> nat \<Rightarrow> nat \<Rightarrow> ('v \<Rightarrow> bool) \<Rightarrow> 'v list \<times> nat" where
  "sv_remove_if xs ifirst ilast p =
     (if ifirst \<ge> ilast then (xs, 0)
      else let mid = drop ifirst (take ilast xs); kept = filter (\<lambda>v. \<not> p v) mid
           in (take ifirst xs @ kept @ drop ilast xs, length mid - length kept))"

subsection \<open>The map view: \<open>SortedVector<K,V>\<close>\<close>

abbreviation kless :: "'k::linorder \<times> 'v \<Rightarrow> 'k \<times> 'v \<Rightarrow> bool" where
  "kless a b \<equiv> fst a < fst b"

definition sv_kfetch :: "('k::linorder \<times> 'v) list \<Rightarrow> 'k \<Rightarrow> 'v \<Rightarrow> ('k \<times> 'v) list \<times> nat" where
  "sv_kfetch xs k def =
     (let i = sv_find kless xs (k, def)
      in if i \<noteq> length xs then (xs, i)
         else case sv_insert kless xs (k, def) of (ys, j, _) \<Rightarrow> (ys, j))"

definition ksorted :: "('k::linorder \<times> 'v) list \<Rightarrow> bool" where
  "ksorted xs \<longleftrightarrow> sorted_wrt (<) (map fst xs)"

subsection \<open>Lemmas\<close>

lemma ksorted_Nil [simp]: "ksorted []"
  by (simp add: ksorted_def)

lemma ksorted_Cons: "ksorted (x # xs) \<longleftrightarrow> (\<forall>y\<in>set xs. fst x < fst y) \<and> ksorted xs"
  by (auto simp: ksorted_def)

lemma ksorted_append:
  "ksorted (xs @ ys) \<longleftrightarrow> ksorted xs \<and> ksorted ys \<and> (\<forall>x\<in>set xs. \<forall>y\<in>set ys. fst x < fst y)"
  by (auto simp: ksorted_def sorted_wrt_append)

lemma ksorted_distinct: "ksorted xs \<Longrightarrow> distinct (map fst xs)"
  by (simp add: ksorted_def strict_sorted_iff)

text \<open>The partition point splits a sorted vector into smaller and not smaller keys.\<close>

lemma ksorted_split:
  fixes k :: "'k::linorder" and d :: 'v
  assumes "ksorted xs"
  defines "i \<equiv> lower_i kless xs (k, d)"
  shows "i \<le> length xs" and "\<forall>x\<in>set (take i xs). fst x < k" and "\<forall>x\<in>set (drop i xs). k \<le> fst x"
proof -
  let ?P = "\<lambda>v. fst v < k"
  have i: "i = length (takeWhile ?P xs)" by (simp add: i_def lower_i_def)
  have t: "take i xs = takeWhile ?P xs" by (simp add: i takeWhile_eq_take[symmetric])
  have d: "drop i xs = dropWhile ?P xs" by (simp add: i dropWhile_eq_drop[symmetric])
  show "i \<le> length xs" by (simp add: i length_takeWhile_le)
  show "\<forall>x\<in>set (take i xs). fst x < k" by (auto simp: t dest: set_takeWhileD)
  show "\<forall>x\<in>set (drop i xs). k \<le> fst x"
    unfolding d using assms(1)
    by (induction xs) (auto simp: ksorted_Cons dest: less_imp_le)
qed

lemma ksorted_at:
  assumes "ksorted xs" "lower_i kless xs (k, d) < length xs"
  shows "k \<le> fst (xs ! lower_i kless xs (k, d))"
    and "\<forall>x\<in>set (drop (Suc (lower_i kless xs (k, d))) xs). k < fst x"
proof -
  let ?i = "lower_i kless xs (k, d)"
  have dr: "drop ?i xs = xs ! ?i # drop (Suc ?i) xs"
    using assms(2) by (simp add: Cons_nth_drop_Suc)
  show "k \<le> fst (xs ! ?i)" using ksorted_split(3)[OF assms(1), of k d] by (simp add: dr)
  have "ksorted (drop ?i xs)"
    using assms(1) by (metis append_take_drop_id ksorted_append)
  then show "\<forall>x\<in>set (drop (Suc ?i) xs). k < fst x"
    using \<open>k \<le> fst (xs ! ?i)\<close> by (auto simp: dr ksorted_Cons)
qed

lemma sv_insert_cases:
  assumes "ksorted xs"
  shows "(\<exists>v'. (k, v') \<in> set xs) \<and> sv_insert kless xs (k, v) = (xs, lower_i kless xs (k, v), False)
    \<or> k \<notin> fst ` set xs \<and>
      sv_insert kless xs (k, v) =
        (vec_insert xs (lower_i kless xs (k, v)) (k, v), lower_i kless xs (k, v), True)"
proof -
  let ?i = "lower_i kless xs (k, v)"
  note sp = ksorted_split[OF assms, of k v]
  show ?thesis
  proof (cases "?i < length xs \<and> \<not> k < fst (xs ! ?i)")
    case True
    with ksorted_at(1)[OF assms, of k v] have "fst (xs ! ?i) = k" by simp
    then have "(k, snd (xs ! ?i)) \<in> set xs"
      using True by (metis nth_mem prod.collapse)
    then show ?thesis using True by (auto simp: sv_insert_def find_i_def)
  next
    case False
    have "k \<notin> fst ` set (take ?i xs)" using sp(2) by auto
    moreover have "k \<notin> fst ` set (drop ?i xs)"
    proof (cases "?i < length xs")
      case True
      with False have lt: "k < fst (xs ! ?i)" by simp
      have "drop ?i xs = xs ! ?i # drop (Suc ?i) xs"
        using True by (simp add: Cons_nth_drop_Suc)
      with lt ksorted_at(2)[OF assms True] show ?thesis by auto
    next
      case False
      then show ?thesis by simp
    qed
    ultimately have "k \<notin> fst ` set xs"
      by (metis Un_iff append_take_drop_id image_Un set_append)
    moreover have "sv_insert kless xs (k, v) = (vec_insert xs ?i (k, v), ?i, True)"
      using False sp(1) by (auto simp: sv_insert_def find_i_def)
    ultimately show ?thesis by blast
  qed
qed

lemma set_vec_insert [simp]: "set (vec_insert xs i v) = insert v (set xs)"
  by (metis Un_insert_right append_take_drop_id list.simps(15) set_append vec_insert_def)

lemma ksorted_vec_insert:
  assumes "ksorted xs" "k \<notin> fst ` set xs"
  shows "ksorted (vec_insert xs (lower_i kless xs (k, v)) (k, v))"
proof -
  let ?i = "lower_i kless xs (k, v)"
  note sp = ksorted_split[OF assms(1), of k v]
  have up: "\<forall>x\<in>set (drop ?i xs). k < fst x"
    using sp(3) assms(2) by (metis image_eqI in_set_dropD order_le_less)
  have "ksorted (take ?i xs @ drop ?i xs)" using assms(1) by simp
  then have tk: "ksorted (take ?i xs)" and dr: "ksorted (drop ?i xs)"
    and td: "\<forall>x\<in>set (take ?i xs). \<forall>y\<in>set (drop ?i xs). fst x < fst y"
    unfolding ksorted_append by blast+
  have "ksorted ((k, v) # drop ?i xs)" unfolding ksorted_Cons using up dr by simp
  moreover have "\<forall>x\<in>set (take ?i xs). \<forall>y\<in>set ((k, v) # drop ?i xs). fst x < fst y"
    using td sp(2) by (simp only: list.set ball_simps fst_conv) blast
  ultimately show ?thesis
    unfolding vec_insert_def ksorted_append using tk by blast
qed

lemma map_of_vec_insert:
  assumes "k \<notin> fst ` set xs"
  shows "map_of (vec_insert xs i (k, v)) = (map_of xs)(k \<mapsto> v)"
proof -
  have "k \<notin> fst ` set (take i xs)" using assms by (auto dest: in_set_takeD)
  then have none: "map_of (take i xs) k = None" by (simp add: map_of_eq_None_iff)
  have "map_of (vec_insert xs i (k, v)) = ((map_of (drop i xs))(k \<mapsto> v)) ++ map_of (take i xs)"
    by (simp add: vec_insert_def)
  also have "\<dots> = (map_of (drop i xs) ++ map_of (take i xs))(k \<mapsto> v)"
    using none by (auto simp: fun_eq_iff map_add_def split: option.splits)
  also have "map_of (drop i xs) ++ map_of (take i xs) = map_of xs"
    by (metis append_take_drop_id map_of_append)
  finally show ?thesis .
qed

lemma sv_insert_ksorted:
  "ksorted xs \<Longrightarrow> sv_insert kless xs (k, v) = (ys, j, b) \<Longrightarrow> ksorted ys"
  using sv_insert_cases[of xs k v] ksorted_vec_insert[of xs k v] by auto

lemma sv_insert_map_of:
  "ksorted xs \<Longrightarrow> sv_insert kless xs (k, v) = (ys, j, b) \<Longrightarrow>
   b = (k \<notin> dom (map_of xs)) \<and> map_of ys = (if b then (map_of xs)(k \<mapsto> v) else map_of xs)"
  using sv_insert_cases[of xs k v] by (auto simp: map_of_vec_insert dom_map_of_conv_image_fst intro: rev_image_eqI)

lemma sv_find_spec:
  assumes "ksorted xs"
  shows "(if sv_find kless xs (k, d) = length xs then map_of xs k = None
          else sv_find kless xs (k, d) < length xs \<and>
               xs ! sv_find kless xs (k, d) = (k, the (map_of xs k)) \<and> k \<in> dom (map_of xs))"
proof -
  let ?i = "lower_i kless xs (k, d)"
  note sp = ksorted_split[OF assms, of k d]
  show ?thesis
  proof (cases "?i < length xs \<and> \<not> k < fst (xs ! ?i)")
    case True
    with ksorted_at(1)[OF assms, of k d] have k: "fst (xs ! ?i) = k" by simp
    then have "xs ! ?i = (k, snd (xs ! ?i))" by (metis prod.collapse)
    moreover have "xs ! ?i \<in> set xs" using True by simp
    ultimately have "map_of xs k = Some (snd (xs ! ?i))"
      using ksorted_distinct[OF assms] by (metis map_of_is_SomeI)
    with True \<open>xs ! ?i = _\<close> show ?thesis by (auto simp: sv_find_def find_i_def)
  next
    case False
    then have "k \<notin> fst ` set xs"
      using sv_insert_cases[OF assms, of k d] sp(1)
      by (auto simp: sv_insert_def find_i_def split: if_splits)
    with False sp(1) show ?thesis
      by (auto simp: sv_find_def find_i_def map_of_eq_None_iff)
  qed
qed

lemma vec_insert_nth:
  "i \<le> length xs \<Longrightarrow> vec_insert xs i v ! i = v" "length (vec_insert xs i v) = Suc (length xs)"
  by (simp_all add: vec_insert_def nth_append)

lemma lower_i_take:
  assumes "ksorted xs" "n \<le> length xs" "\<forall>x\<in>set (drop n xs). k < fst x"
  shows "lower_i kless (take n xs) (k, d) = lower_i kless xs (k, d)"
proof -
  have "takeWhile (\<lambda>v. fst v < k) (take n xs @ drop n xs) = takeWhile (\<lambda>v. fst v < k) (take n xs)"
  proof (cases "\<forall>x\<in>set (take n xs). fst x < k")
    case True
    then have "takeWhile (\<lambda>v. fst v < k) (take n xs @ drop n xs)
             = take n xs @ takeWhile (\<lambda>v. fst v < k) (drop n xs)"
      by (intro takeWhile_append2) blast
    moreover have "takeWhile (\<lambda>v. fst v < k) (drop n xs) = []"
      using assms(3) by (cases "drop n xs") auto
    moreover have "takeWhile (\<lambda>v. fst v < k) (take n xs) = take n xs"
      using True by simp
    ultimately show ?thesis by (simp only: append_Nil2)
  next
    case False
    then obtain x where "x \<in> set (take n xs)" "\<not> fst x < k" by blast
    then show ?thesis by (rule takeWhile_append1)
  qed
  then show ?thesis by (simp add: lower_i_def)
qed

lemma lower_i_eqI:
  assumes "ksorted xs" "h \<le> length xs"
    and "h = 0 \<or> fst (xs ! (h - 1)) < k" and "h = length xs \<or> \<not> fst (xs ! h) < k"
  shows "lower_i kless xs (k, d) = h"
proof -
  have "fst (xs ! i) < k" if "i < h" for i
  proof (cases "i = h - 1")
    case True
    with assms(3) that show ?thesis by auto
  next
    case False
    with that have lt: "i < h - 1" and h: "h - 1 < length xs" using assms(2) by auto
    with assms(1) have "map fst xs ! i < map fst xs ! (h - 1)"
      unfolding ksorted_def by (intro sorted_wrt_nth_less) auto
    then have "fst (xs ! i) < fst (xs ! (h - 1))" using lt h by simp
    with assms(3) that show ?thesis by (auto intro: less_trans)
  qed
  then have "takeWhile (\<lambda>v. fst v < k) xs = take h xs"
    using assms(4) by (intro takeWhile_eq_take_P_nth) auto
  then show ?thesis using assms(2) by (simp add: lower_i_def)
qed

lemma sv_insert_range_all:
  "sv_insert_range cmp xs (length xs) v = (case sv_insert cmp xs v of (ys, j, b) \<Rightarrow> (ys, j))"
  by (simp add: sv_insert_range_def sv_insert_def find_i_def Let_def)

lemma sv_insert_range_prefix:
  assumes "ksorted xs" "n < length xs" "k < fst (xs ! n)"
  shows "sv_insert_range kless xs n (k, v) = (case sv_insert kless xs (k, v) of (ys, j, b) \<Rightarrow> (ys, j))"
proof -
  have dr: "drop n xs = xs ! n # drop (Suc n) xs" using assms(2) by (simp add: Cons_nth_drop_Suc)
  have "ksorted (drop n xs)" using assms(1) by (metis append_take_drop_id ksorted_append)
  then have "\<forall>x\<in>set (drop n xs). k < fst x"
    using assms(3) unfolding dr ksorted_Cons by auto
  then have low: "lower_i kless (take n xs) (k, v) = lower_i kless xs (k, v)"
    using assms(1,2) by (intro lower_i_take) auto
  have le: "lower_i kless xs (k, v) \<le> n"
    using low ksorted_split(1)[of "take n xs" k v] assms(1,2)
    by (metis append_take_drop_id ksorted_append length_take min.absorb4)
  show ?thesis
    using le assms(2,3)
    by (cases "lower_i kless xs (k, v) = n")
       (auto simp: sv_insert_range_def sv_insert_def find_i_def Let_def low)
qed

lemma sv_insert_hint_Some:
  assumes "ksorted xs" "h \<le> length xs" "sv_insert_hint kless xs h (k, v) = Some r"
  shows "r = (case sv_insert kless xs (k, v) of (ys, j, b) \<Rightarrow> (ys, j))"
proof -
  let ?std = "case sv_insert kless xs (k, v) of (ys, j, b) \<Rightarrow> (ys, j)"
  have at: "?std = (vec_insert xs h (k, v), h)"
    if "h = 0 \<or> fst (xs ! (h - 1)) < k" "h = length xs \<or> k < fst (xs ! h)"
  proof -
    have "lower_i kless xs (k, v) = h" using assms(1,2) that by (intro lower_i_eqI) auto
    with that(2) show ?thesis by (auto simp: sv_insert_def find_i_def)
  qed
  consider "h = length xs" | "h < length xs" "k < fst (xs ! h)" | "h < length xs" "\<not> k < fst (xs ! h)"
    using assms(2) by linarith
  then show ?thesis
  proof cases
    case 1
    then show ?thesis
      using assms(3) at by (auto simp: sv_insert_hint_def sv_insert_range_all vec_insert_def split: if_splits)
  next
    case 2
    then show ?thesis
      using assms(3) at sv_insert_range_prefix[OF assms(1) 2, of v]
      by (auto simp: sv_insert_hint_def split: if_splits)
  next
    case 3
    then show ?thesis
      using assms(3) by (auto simp: sv_insert_hint_def sv_insert_range_all split: if_splits)
  qed
qed

lemma sv_insert_hint_None:
  "h \<le> length xs \<Longrightarrow>
   sv_insert_hint kless xs h (k, v) = None \<longleftrightarrow> 0 < h \<and> h < length xs \<and> fst (xs ! h) \<le> k"
  by (auto simp: sv_insert_hint_def not_less)

end
