(* ===== verification/PkCont.thy ===== *)
theory PkCont
  imports SortedVector
begin

text \<open>
  \<open>fon9/PkCont.hpp\<close> and \<open>fon9/PkCont.cpp\<close>: \<open>PkContFeeder\<close>, the reorder buffer that
  keeps numbered packets in sequence. The record holds the class's members; \<open>PkPendings\<close>
  is the \<open>SortedVectorSet<PkRec>\<close> as pairs of sequence number and bytes, \<open>TimerArmed\<close>
  says that \<open>Timer_.RunAfter\<close> was called and has not fired, and \<open>Owner\<close> is the state of
  the derived class, whose two overridable callbacks are a parameter of every operation.
  \<open>SeqT\<close> is \<open>uint64_t\<close>: additions and subtractions go through \<open>add64\<close> and \<open>sub64\<close>.
  Writing the log text is not modelled, the state changes around it are.
\<close>

record 'o pkcont =
  MaxSeqNo :: nat
  FirstSeqNoAfterOverflow :: nat
  NextSeq :: nat
  ReceivedCount :: nat
  DroppedCount :: nat
  LostCount :: nat
  AfterNextSeq :: nat
  WaitInterval :: int
  PkPendings :: "(nat \<times> byte list) list"
  TimerArmed :: bool
  Owner :: 'o

record 'o pk_owner =
  PkContOnReceived :: "byte list \<Rightarrow> nat \<Rightarrow> 'o pkcont \<Rightarrow> 'o pkcont"
  PkContOnDropped :: "byte list \<Rightarrow> nat \<Rightarrow> 'o pkcont \<Rightarrow> 'o pkcont"

definition PkContFeeder :: "nat \<Rightarrow> nat \<Rightarrow> 'o \<Rightarrow> 'o pkcont" where
  "PkContFeeder maxSeqNo firstSeqNo own =
     \<lparr>MaxSeqNo = maxSeqNo, FirstSeqNoAfterOverflow = firstSeqNo, NextSeq = 0, ReceivedCount = 0,
      DroppedCount = 0, LostCount = 0, AfterNextSeq = 0, WaitInterval = 5000, PkPendings = [],
      TimerArmed = False, Owner = own\<rparr>"

definition Clear :: "'o pkcont \<Rightarrow> 'o pkcont" where
  "Clear s = s\<lparr>TimerArmed := False, PkPendings := [], ReceivedCount := 0, DroppedCount := 0,
               LostCount := 0, NextSeq := 0\<rparr>"

definition CallOnReceived :: "'o pk_owner \<Rightarrow> byte list \<Rightarrow> nat \<Rightarrow> 'o pkcont \<Rightarrow> 'o pkcont" where
  "CallOnReceived vt pk seq s0 =
     (let s1 = PkContOnReceived vt pk seq (s0\<lparr>AfterNextSeq := add64 seq 1\<rparr>);
          s2 = (if AfterNextSeq s1 \<le> MaxSeqNo s1 then s1\<lparr>NextSeq := AfterNextSeq s1\<rparr>
                else let n = sub64 (AfterNextSeq s1) (MaxSeqNo s1)
                     in s1\<lparr>NextSeq := (if n = 1 then FirstSeqNoAfterOverflow s1 else n)\<rparr>)
      in s2\<lparr>ReceivedCount := add64 (ReceivedCount s2) 1\<rparr>)"

definition flush_one :: "'o pk_owner \<Rightarrow> 'o pkcont \<Rightarrow> nat \<times> byte list \<Rightarrow> 'o pkcont" where
  "flush_one vt s i =
     CallOnReceived vt (snd i) (fst i)
       (s\<lparr>LostCount := add64 (LostCount s) (sub64 (fst i) (NextSeq s))\<rparr>)"

definition PkContOnTimer :: "'o pk_owner \<Rightarrow> 'o pkcont \<Rightarrow> 'o pkcont" where
  "PkContOnTimer vt s = (foldl (flush_one vt) s (PkPendings s))\<lparr>PkPendings := []\<rparr>"

definition EmitOnTimer :: "'o pk_owner \<Rightarrow> 'o pkcont \<Rightarrow> 'o pkcont" where
  "EmitOnTimer vt s = (if TimerArmed s then PkContOnTimer vt (s\<lparr>TimerArmed := False\<rparr>) else s)"

text \<open>
  The loop after a packet in sequence: it delivers pendings from the front as long as their
  (re-adjusted) number is the next one and returns what is left of the vector.
\<close>

fun drain :: "'o pk_owner \<Rightarrow> (nat \<times> byte list) list \<Rightarrow> 'o pkcont \<Rightarrow> 'o pkcont \<times> (nat \<times> byte list) list" where
  "drain vt [] s = (s, [])"
| "drain vt (i # pks) s =
     (let iSeq = (if fst i > MaxSeqNo s then sub64 (fst i) (add64 (MaxSeqNo s) 1) else fst i)
      in if iSeq \<noteq> NextSeq s then (s, i # pks)
         else drain vt pks (CallOnReceived vt (snd i) iSeq s))"

definition pk_received :: "'o pk_owner \<Rightarrow> byte list \<Rightarrow> nat \<Rightarrow> 'o pkcont \<Rightarrow> 'o pkcont" where
  "pk_received vt pk seq s =
     (case drain vt (PkPendings s) (CallOnReceived vt pk seq s) of
        (s', rest) \<Rightarrow> s'\<lparr>PkPendings := rest\<rparr>)"

definition pk_drop :: "'o pk_owner \<Rightarrow> byte list \<Rightarrow> nat \<Rightarrow> 'o pkcont \<Rightarrow> 'o pkcont" where
  "pk_drop vt pk seq s = PkContOnDropped vt pk seq (s\<lparr>DroppedCount := add64 (DroppedCount s) 1\<rparr>)"

definition pk_pend :: "byte list \<Rightarrow> nat \<Rightarrow> 'o pkcont \<Rightarrow> 'o pkcont" where
  "pk_pend pk seq s =
     (let isNeedsRunAfter = (PkPendings s = [])
      in case sv_insert kless (PkPendings s) (seq, []) of (pks, i, inserted) \<Rightarrow>
           if \<not> inserted then s
           else s\<lparr>PkPendings := pks[i := (seq, pk)], TimerArmed := (TimerArmed s \<or> isNeedsRunAfter)\<rparr>)"

definition FeedPacket :: "'o pk_owner \<Rightarrow> byte list \<Rightarrow> nat \<Rightarrow> 'o pkcont \<Rightarrow> 'o pkcont" where
  "FeedPacket vt pk seq s =
     (if seq = NextSeq s then pk_received vt pk seq s
      else let kMaxGapAllow = MaxSeqNo s div 2
      in if seq < NextSeq s then
           (if sub64 (add64 seq (MaxSeqNo s)) (NextSeq s) < kMaxGapAllow
            then pk_pend pk (add64 seq (add64 (MaxSeqNo s) 1)) s
            else pk_drop vt pk seq s)
         else if NextSeq s = 0 \<and> ReceivedCount s = 0 then pk_received vt pk seq s
         else if sub64 seq (NextSeq s) > kMaxGapAllow then pk_drop vt pk seq s
         else if WaitInterval s = 0 then pk_received vt pk seq s
         else pk_pend pk seq s)"

definition LogSeqGap :: "nat \<Rightarrow> 'o pkcont \<Rightarrow> 'o pkcont" where
  "LogSeqGap seq s =
     (if NextSeq s = 0 then
        (let lostCount = sub64 seq 1
         in if lostCount = 0 then s\<lparr>NextSeq := 1\<rparr>
            else s\<lparr>NextSeq := 1, LostCount := add64 (LostCount s) lostCount\<rparr>)
      else s)"

definition CheckLogLost :: "nat \<Rightarrow> 'o pkcont \<Rightarrow> 'o pkcont" where
  "CheckLogLost seq s = (if sub64 seq (NextSeq s) \<noteq> 0 then LogSeqGap seq s else s)"

definition ResetBiggerNextSeq :: "nat \<Rightarrow> 'o pkcont \<Rightarrow> 'o pkcont" where
  "ResetBiggerNextSeq newNextSeq s =
     (if NextSeq s < newNextSeq
      then s\<lparr>LostCount := add64 (LostCount s) (sub64 newNextSeq (NextSeq s)), NextSeq := newNextSeq\<rparr>
      else s)"

subsection \<open>Runs\<close>

datatype pk_event = Feed nat "byte list" | TimerFire | DailyClear

fun pk_step :: "'o pk_owner \<Rightarrow> 'o pkcont \<Rightarrow> pk_event \<Rightarrow> 'o pkcont" where
  "pk_step vt s (Feed seq pk) = FeedPacket vt pk seq s"
| "pk_step vt s TimerFire = EmitOnTimer vt s"
| "pk_step vt s DailyClear = Clear s"

text \<open>The owner that logs what it is given, and one that logs and counts gaps as the
  market-data handlers do.\<close>

definition log_owner :: "(nat \<times> byte list) list pk_owner" where
  "log_owner = \<lparr>PkContOnReceived = (\<lambda>pk seq s. s\<lparr>Owner := Owner s @ [(seq, pk)]\<rparr>),
                PkContOnDropped = (\<lambda>pk seq s. s)\<rparr>"

subsection \<open>Well-behaved owners and the timer invariant\<close>

text \<open>An owner's callbacks may change the class's counters but not its buffer, its timer or
  its configuration.\<close>

definition owner_ok :: "'o pk_owner \<Rightarrow> bool" where
  "owner_ok vt \<longleftrightarrow>
     (\<forall>pk seq s. PkPendings (PkContOnReceived vt pk seq s) = PkPendings s
               \<and> TimerArmed (PkContOnReceived vt pk seq s) = TimerArmed s
               \<and> PkPendings (PkContOnDropped vt pk seq s) = PkPendings s
               \<and> TimerArmed (PkContOnDropped vt pk seq s) = TimerArmed s)"

definition pk_inv :: "'o pkcont \<Rightarrow> bool" where
  "pk_inv s \<longleftrightarrow> ksorted (PkPendings s) \<and> (PkPendings s \<noteq> [] \<longrightarrow> TimerArmed s)"

lemma log_owner_ok: "owner_ok log_owner"
  by (simp add: owner_ok_def log_owner_def)

lemma CallOnReceived_frame [simp]:
  assumes "owner_ok vt"
  shows "PkPendings (CallOnReceived vt pk seq s) = PkPendings s"
    and "TimerArmed (CallOnReceived vt pk seq s) = TimerArmed s"
  using assms by (simp_all add: CallOnReceived_def owner_ok_def Let_def)

lemma drain_frame:
  "owner_ok vt \<Longrightarrow> drain vt pks s = (s', rest) \<Longrightarrow>
   TimerArmed s' = TimerArmed s \<and> (\<exists>pre. pks = pre @ rest)"
proof (induction vt pks s arbitrary: s' rest rule: drain.induct)
  case (1 vt s)
  then show ?case by simp
next
  case (2 vt i pks s)
  show ?case
  proof (cases "(if fst i > MaxSeqNo s then sub64 (fst i) (add64 (MaxSeqNo s) 1) else fst i) = NextSeq s")
    case True
    with "2.prems" "2.IH"[OF refl] show ?thesis by (fastforce simp: Let_def)
  next
    case False
    with "2.prems" show ?thesis by (auto simp: Let_def)
  qed
qed

lemma ksorted_update_data:
  "i < length xs \<Longrightarrow> ksorted xs \<Longrightarrow> fst (xs ! i) = q \<Longrightarrow> ksorted (xs[i := (q, d)])"
  by (simp add: ksorted_def map_update list_update_id [of "map fst xs" i, simplified]
      del: list_update_id) (metis list_update_id nth_map)

lemma pk_pend_cases:
  assumes "ksorted (PkPendings s)"
  shows "seq \<in> fst ` set (PkPendings s) \<and> pk_pend pk seq s = s
    \<or> seq \<notin> fst ` set (PkPendings s) \<and>
      (\<exists>pks. pk_pend pk seq s = s\<lparr>PkPendings := pks, TimerArmed := (TimerArmed s \<or> PkPendings s = [])\<rparr>
           \<and> ksorted pks \<and> set pks = insert (seq, pk) (set (PkPendings s)))"
proof -
  let ?xs = "PkPendings s" and ?i = "lower_i kless (PkPendings s) (seq, [] :: byte list)"
  consider "seq \<in> fst ` set ?xs" "sv_insert kless ?xs (seq, []) = (?xs, ?i, False)"
    | "seq \<notin> fst ` set ?xs" "sv_insert kless ?xs (seq, []) = (vec_insert ?xs ?i (seq, []), ?i, True)"
    using sv_insert_cases[OF assms, of seq "[]"] by force
  then show ?thesis
  proof cases
    case 1
    then show ?thesis by (simp add: pk_pend_def Let_def)
  next
    case 2
    have le: "?i \<le> length ?xs" by (rule ksorted_split(1)[OF assms])
    then have upd: "(vec_insert ?xs ?i (seq, []))[?i := (seq, pk)] = vec_insert ?xs ?i (seq, pk)"
      by (simp add: vec_insert_def list_update_append)
    have "ksorted ((vec_insert ?xs ?i (seq, []))[?i := (seq, pk)])"
      using ksorted_vec_insert[OF assms 2(1), of "[]"] le
      by (intro ksorted_update_data) (simp_all add: vec_insert_nth)
    then show ?thesis using 2 by (auto simp: pk_pend_def Let_def upd)
  qed
qed

lemma pk_pend_inv:
  assumes "pk_inv s" shows "pk_inv (pk_pend pk seq s)"
proof -
  have "ksorted (PkPendings s)" using assms by (simp add: pk_inv_def)
  from pk_pend_cases[OF this, of seq pk] show ?thesis
    using assms by (auto simp: pk_inv_def)
qed

lemma pk_received_inv:
  assumes "owner_ok vt" "pk_inv s" shows "pk_inv (pk_received vt pk seq s)"
proof -
  obtain s' rest where dr: "drain vt (PkPendings s) (CallOnReceived vt pk seq s) = (s', rest)"
    by (cases "drain vt (PkPendings s) (CallOnReceived vt pk seq s)") auto
  have eq: "pk_received vt pk seq s = s'\<lparr>PkPendings := rest\<rparr>" by (simp add: pk_received_def dr)
  from drain_frame[OF assms(1) dr] obtain pre where
    "TimerArmed s' = TimerArmed s" and "PkPendings s = pre @ rest" using assms(1) by auto
  then show ?thesis using assms(2) by (auto simp: eq pk_inv_def ksorted_append)
qed

lemma pk_drop_inv: "owner_ok vt \<Longrightarrow> pk_inv s \<Longrightarrow> pk_inv (pk_drop vt pk seq s)"
  by (simp add: pk_drop_def pk_inv_def owner_ok_def)

lemma pk_step_inv: "owner_ok vt \<Longrightarrow> pk_inv s \<Longrightarrow> pk_inv (pk_step vt s e)"
proof (cases e)
  case (Feed seq pk)
  moreover assume "owner_ok vt" "pk_inv s"
  ultimately show ?thesis
    by (simp add: FeedPacket_def Let_def pk_received_inv pk_drop_inv pk_pend_inv)
qed (auto simp: EmitOnTimer_def PkContOnTimer_def Clear_def pk_inv_def)

interpretation pk_timer: invariant_system "pk_step vt" "PkContFeeder mx first own"
  "\<lambda>_. True" "\<lambda>s. owner_ok vt \<longrightarrow> pk_inv s"
proof unfold_locales
  show "owner_ok vt \<longrightarrow> pk_inv (PkContFeeder mx first own)" by (simp add: PkContFeeder_def pk_inv_def)
qed (auto intro: pk_step_inv)

subsection \<open>Accounting of delivered and lost packets\<close>

text \<open>
  What holds as long as sequence numbers stay in the lower half of the number space: the log
  is strictly increasing, and the counters split the range from the first delivered number
  to the next expected one into received and lost numbers.
\<close>

definition acct :: "nat \<Rightarrow> (nat \<times> byte list) list pkcont \<Rightarrow> bool" where
  "acct mx s \<longleftrightarrow> MaxSeqNo s = mx \<and> mx < 2 ^ 62 \<and> WaitInterval s \<noteq> 0 \<and> LostCount s < 2 ^ 62 \<and>
     NextSeq s \<le> mx div 2 + 1 \<and>
     (if Owner s = [] then NextSeq s = 0 \<and> ReceivedCount s = 0 \<and> LostCount s = 0
      else ksorted (Owner s) \<and> NextSeq s = Suc (fst (last (Owner s))) \<and>
           ReceivedCount s = length (Owner s) \<and>
           NextSeq s = fst (hd (Owner s)) + ReceivedCount s + LostCount s)"

definition acct_inv :: "nat \<Rightarrow> (nat \<times> byte list) list pkcont \<Rightarrow> bool" where
  "acct_inv mx s \<longleftrightarrow> acct mx s \<and> ksorted (PkPendings s) \<and> (Owner s = [] \<longrightarrow> PkPendings s = []) \<and>
     (\<forall>p\<in>set (PkPendings s). NextSeq s < fst p \<and> fst p \<le> mx div 2)"

fun seq_in_half :: "nat \<Rightarrow> pk_event \<Rightarrow> bool" where
  "seq_in_half mx (Feed seq pk) = (1 \<le> seq \<and> seq \<le> mx div 2)"
| "seq_in_half mx TimerFire = True"
| "seq_in_half mx DailyClear = False"

lemma ksorted_snoc: "ksorted (xs @ [y]) \<longleftrightarrow> ksorted xs \<and> (xs = [] \<or> fst (last xs) < fst y)"
proof (cases xs rule: rev_cases)
  case (snoc ys z)
  then show ?thesis by (auto simp: ksorted_append ksorted_Cons)
qed (simp add: ksorted_Cons)

lemma deliver_fields:
  assumes "seq + 1 \<le> MaxSeqNo s" "MaxSeqNo s < 2 ^ 62" "ReceivedCount s < 2 ^ 62"
  shows "NextSeq (CallOnReceived log_owner pk seq s) = seq + 1"
    and "Owner (CallOnReceived log_owner pk seq s) = Owner s @ [(seq, pk)]"
    and "ReceivedCount (CallOnReceived log_owner pk seq s) = ReceivedCount s + 1"
    and "LostCount (CallOnReceived log_owner pk seq s) = LostCount s"
    and "MaxSeqNo (CallOnReceived log_owner pk seq s) = MaxSeqNo s"
    and "WaitInterval (CallOnReceived log_owner pk seq s) = WaitInterval s"
  using assms by (simp_all add: CallOnReceived_def log_owner_def Let_def wrap_simps)

lemma acct_flush:
  assumes "acct mx s" "Owner s \<noteq> []" "NextSeq s \<le> fst p" "fst p \<le> mx div 2"
  shows "acct mx (flush_one log_owner s p)" and "NextSeq (flush_one log_owner s p) = Suc (fst p)"
    and "Owner (flush_one log_owner s p) = Owner s @ [p]"
proof -
  have b: "MaxSeqNo s = mx" "mx < 2 ^ 62" "ReceivedCount s \<le> mx" "LostCount s \<le> mx"
    "Suc (fst p) \<le> mx" "NextSeq s \<le> mx"
    using assms by (auto simp: acct_def)
  then have lost: "add64 (LostCount s) (sub64 (fst p) (NextSeq s)) = LostCount s + (fst p - NextSeq s)"
    using assms by (simp add: wrap_simps)
  let ?t = "s\<lparr>LostCount := LostCount s + (fst p - NextSeq s)\<rparr>"
  have d: "NextSeq (flush_one log_owner s p) = fst p + 1"
     "Owner (flush_one log_owner s p) = Owner s @ [(fst p, snd p)]"
     "ReceivedCount (flush_one log_owner s p) = ReceivedCount s + 1"
     "LostCount (flush_one log_owner s p) = LostCount s + (fst p - NextSeq s)"
     "MaxSeqNo (flush_one log_owner s p) = mx"
     "WaitInterval (flush_one log_owner s p) = WaitInterval s"
    using b deliver_fields[of "fst p" ?t "snd p"] by (simp_all add: flush_one_def lost)
  then show "NextSeq (flush_one log_owner s p) = Suc (fst p)"
    and "Owner (flush_one log_owner s p) = Owner s @ [p]" by simp_all
  show "acct mx (flush_one log_owner s p)"
    using assms b by (auto simp: acct_def d ksorted_snoc)
qed

lemma acct_next:
  assumes "acct mx s" "Owner s \<noteq> []" "NextSeq s \<le> mx div 2"
  shows "acct mx (CallOnReceived log_owner pk (NextSeq s) s)"
    and "NextSeq (CallOnReceived log_owner pk (NextSeq s) s) = Suc (NextSeq s)"
    and "Owner (CallOnReceived log_owner pk (NextSeq s) s) = Owner s @ [(NextSeq s, pk)]"
proof -
  have "NextSeq s < 2 ^ 64" "LostCount s < 2 ^ 64" using assms by (auto simp: acct_def)
  then have "flush_one log_owner s (NextSeq s, pk) = CallOnReceived log_owner pk (NextSeq s) s"
    by (simp add: flush_one_def wrap_simps)
  then show "acct mx (CallOnReceived log_owner pk (NextSeq s) s)"
    "NextSeq (CallOnReceived log_owner pk (NextSeq s) s) = Suc (NextSeq s)"
    "Owner (CallOnReceived log_owner pk (NextSeq s) s) = Owner s @ [(NextSeq s, pk)]"
    using acct_flush[of mx s "(NextSeq s, pk)"] assms by simp_all
qed

lemma acct_first:
  assumes "acct mx s" "Owner s = []" "seq \<le> mx div 2" "1 \<le> seq"
  shows "acct mx (CallOnReceived log_owner pk seq s)"
    and "NextSeq (CallOnReceived log_owner pk seq s) = Suc seq"
    and "Owner (CallOnReceived log_owner pk seq s) = [(seq, pk)]"
  using assms deliver_fields[of seq s pk] by (auto simp: acct_def ksorted_Cons)

lemma acct_flush_all:
  "acct mx s \<Longrightarrow> Owner s \<noteq> [] \<Longrightarrow> ksorted pks \<Longrightarrow> (\<forall>p\<in>set pks. NextSeq s \<le> fst p \<and> fst p \<le> mx div 2) \<Longrightarrow>
   acct mx (foldl (flush_one log_owner) s pks) \<and> Owner (foldl (flush_one log_owner) s pks) = Owner s @ pks"
proof (induction pks arbitrary: s)
  case (Cons p pks)
  let ?t = "flush_one log_owner s p"
  have t: "acct mx ?t" "NextSeq ?t = Suc (fst p)" "Owner ?t = Owner s @ [p]"
    using acct_flush[of mx s p] Cons.prems by auto
  have "\<forall>q\<in>set pks. fst p < fst q" using Cons.prems(3) unfolding ksorted_Cons by blast
  then have "\<forall>q\<in>set pks. NextSeq ?t \<le> fst q \<and> fst q \<le> mx div 2"
    using Cons.prems(4) t(2) by (simp add: Suc_le_eq)
  with Cons.IH[of ?t] t Cons.prems(3) show ?case by (simp add: ksorted_Cons)
qed simp

lemma acct_drain:
  "acct mx s \<Longrightarrow> Owner s \<noteq> [] \<Longrightarrow> ksorted pks \<Longrightarrow> (\<forall>p\<in>set pks. NextSeq s \<le> fst p \<and> fst p \<le> mx div 2) \<Longrightarrow>
   drain log_owner pks s = (s', rest) \<Longrightarrow>
   acct mx s' \<and> Owner s' \<noteq> [] \<and> ksorted rest \<and> (\<forall>p\<in>set rest. NextSeq s' < fst p \<and> fst p \<le> mx div 2)"
proof (induction pks arbitrary: s)
  case (Cons p pks)
  have mx: "MaxSeqNo s = mx" "fst p \<le> mx" using Cons.prems(1,4) by (auto simp: acct_def)
  show ?case
  proof (cases "fst p = NextSeq s")
    case True
    let ?t = "CallOnReceived log_owner (snd p) (NextSeq s) s"
    have t: "acct mx ?t" "NextSeq ?t = Suc (fst p)" "Owner ?t \<noteq> []"
      using acct_next[of mx s "snd p"] Cons.prems True by auto
    have "\<forall>q\<in>set pks. fst p < fst q" using Cons.prems(3) unfolding ksorted_Cons by blast
    then have "\<forall>q\<in>set pks. NextSeq ?t \<le> fst q \<and> fst q \<le> mx div 2"
      using Cons.prems(4) t(2) by (simp add: Suc_le_eq)
    moreover have "drain log_owner pks ?t = (s', rest)"
      using Cons.prems(5) mx True by (simp add: Let_def)
    ultimately show ?thesis
      using Cons.IH[of ?t] t Cons.prems(3) by (simp add: ksorted_Cons)
  next
    case False
    then have "s' = s" "rest = p # pks"
      using Cons.prems(5) mx by (auto simp: Let_def)
    moreover have "NextSeq s < fst p" using Cons.prems(4) False by auto
    moreover have "\<forall>q\<in>set pks. fst p < fst q" using Cons.prems(3) unfolding ksorted_Cons by blast
    ultimately show ?thesis using Cons.prems by auto
  qed
qed simp

lemma acct_cong:
  "acct mx (s\<lparr>PkPendings := p\<rparr>) = acct mx s" "acct mx (s\<lparr>TimerArmed := t\<rparr>) = acct mx s"
  "acct mx (s\<lparr>DroppedCount := d\<rparr>) = acct mx s"
  by (simp_all add: acct_def)

lemma acct_received:
  assumes "acct_inv mx s" "Owner s \<noteq> []" "NextSeq s \<le> mx div 2"
  shows "acct_inv mx (pk_received log_owner pk (NextSeq s) s)"
proof -
  let ?t = "CallOnReceived log_owner pk (NextSeq s) s"
  obtain s' rest where dr: "drain log_owner (PkPendings s) ?t = (s', rest)"
    by (cases "drain log_owner (PkPendings s) ?t") auto
  have a: "acct mx s" and k: "ksorted (PkPendings s)"
    and b: "\<forall>p\<in>set (PkPendings s). NextSeq s < fst p \<and> fst p \<le> mx div 2"
    using assms(1) by (simp_all add: acct_inv_def)
  have "acct mx ?t" "Owner ?t \<noteq> []" "\<forall>p\<in>set (PkPendings s). NextSeq ?t \<le> fst p \<and> fst p \<le> mx div 2"
    using acct_next[OF a assms(2,3), of pk] b by auto
  from acct_drain[OF this(1,2) k this(3) dr]
  show ?thesis by (simp add: pk_received_def dr acct_inv_def acct_cong)
qed

lemma acct_pend:
  assumes "acct_inv mx s" "Owner s \<noteq> []" "NextSeq s < seq" "seq \<le> mx div 2"
  shows "acct_inv mx (pk_pend pk seq s)"
proof -
  have "ksorted (PkPendings s)" using assms(1) by (simp add: acct_inv_def)
  from pk_pend_cases[OF this, of seq pk] show ?thesis
    using assms by (elim disjE conjE exE) (simp_all add: acct_inv_def acct_cong)
qed

lemma acct_step:
  assumes "acct_inv mx s" "seq_in_half mx e"
  shows "acct_inv mx (pk_step log_owner s e)"
proof (cases e)
  case (Feed seq pk)
  have a: "acct mx s" and mx: "MaxSeqNo s = mx" "mx < 2 ^ 62" "WaitInterval s \<noteq> 0" "NextSeq s \<le> mx div 2 + 1"
    using assms(1) by (auto simp: acct_inv_def acct_def)
  have sq: "1 \<le> seq" "seq \<le> mx div 2" using assms(2) Feed by auto
  show ?thesis
  proof (cases "Owner s = []")
    case True
    then have z: "NextSeq s = 0" "ReceivedCount s = 0" "PkPendings s = []"
      using assms(1) by (auto simp: acct_inv_def acct_def)
    then have "FeedPacket log_owner pk seq s = (CallOnReceived log_owner pk seq s)\<lparr>PkPendings := []\<rparr>"
      using sq by (simp add: FeedPacket_def pk_received_def Let_def)
    then show ?thesis
      using acct_first[OF a True sq(2,1), of pk] Feed by (simp add: acct_inv_def acct_cong)
  next
    case False
    consider "seq = NextSeq s" | "seq < NextSeq s" | "NextSeq s < seq" by linarith
    then show ?thesis
    proof cases
      case 1
      then show ?thesis
        using acct_received[OF assms(1) False, of pk] sq Feed by (simp add: FeedPacket_def)
    next
      case 2
      have "sub64 (add64 seq mx) (NextSeq s) = seq + mx - NextSeq s"
        using mx sq by (simp add: wrap_simps)
      then have "FeedPacket log_owner pk seq s = pk_drop log_owner pk seq s"
        using 2 mx sq by (simp add: FeedPacket_def Let_def)
      then show ?thesis
        using assms(1) Feed by (simp add: pk_drop_def log_owner_def acct_inv_def acct_cong)
    next
      case 3
      have "sub64 seq (NextSeq s) = seq - NextSeq s" using mx sq 3 by (simp add: wrap_simps)
      moreover have "NextSeq s \<noteq> 0" using a False by (simp add: acct_def)
      ultimately have "FeedPacket log_owner pk seq s = pk_pend pk seq s"
        using 3 mx sq by (simp add: FeedPacket_def Let_def)
      then show ?thesis using acct_pend[OF assms(1) False 3 sq(2), of pk] Feed by simp
    qed
  qed
next
  case TimerFire
  show ?thesis
  proof (cases "PkPendings s = []")
    case True
    then show ?thesis
      using TimerFire assms(1) by (simp add: EmitOnTimer_def PkContOnTimer_def acct_inv_def acct_cong)
  next
    case False
    let ?t = "s\<lparr>TimerArmed := False\<rparr>"
    have "acct mx ?t" "Owner ?t \<noteq> []" "ksorted (PkPendings s)"
      "\<forall>p\<in>set (PkPendings s). NextSeq ?t \<le> fst p \<and> fst p \<le> mx div 2"
      using assms(1) False by (auto simp: acct_inv_def acct_cong)
    from acct_flush_all[OF this] show ?thesis
      using TimerFire assms(1) by (simp add: EmitOnTimer_def PkContOnTimer_def acct_inv_def acct_cong)
  qed
next
  case DailyClear
  then show ?thesis using assms(2) by simp
qed

interpretation pk_acct: invariant_system "pk_step log_owner" "PkContFeeder mx first []"
  "seq_in_half mx" "\<lambda>s. mx < 2 ^ 62 \<longrightarrow> acct_inv mx s"
proof unfold_locales
  show "mx < 2 ^ 62 \<longrightarrow> acct_inv mx (PkContFeeder mx first [])"
    by (simp add: PkContFeeder_def acct_inv_def acct_def)
qed (auto intro: acct_step)

subsection \<open>Reordering\<close>

text \<open>A vector sorted by distinct keys is determined by its set of entries.\<close>

lemma ksorted_unique: "ksorted xs \<Longrightarrow> ksorted ys \<Longrightarrow> set xs = set ys \<Longrightarrow> xs = ys"
proof -
  assume a: "ksorted xs" "ksorted ys" "set xs = set ys"
  then have "sorted (map fst xs)" "distinct (map fst xs)" "sorted (map fst ys)" "distinct (map fst ys)"
    by (simp_all add: ksorted_def strict_sorted_iff)
  moreover from this have "inj_on fst (set xs \<union> set ys)" using a(3) by (simp add: distinct_map)
  ultimately show "xs = ys" using a(3) by (intro map_sorted_distinct_set_unique)
qed

text \<open>
  \<open>reorder_inv n pkts F m s\<close>: the packets of \<open>F\<close> have arrived, the first \<open>m\<close> are delivered,
  the others wait in the buffer, and packet \<open>m\<close> has not arrived.
\<close>

definition reorder_inv ::
  "nat \<Rightarrow> (nat \<times> byte list) list \<Rightarrow> (nat \<times> byte list) set \<Rightarrow> nat \<Rightarrow> (nat \<times> byte list) list pkcont \<Rightarrow> bool" where
  "reorder_inv n pkts F m s \<longleftrightarrow>
     m \<le> length pkts \<and> NextSeq s = n + m \<and> Owner s = take m pkts \<and> set (take m pkts) \<subseteq> F \<and>
     PkPendings s = filter (\<lambda>p. p \<in> F) (drop m pkts) \<and>
     0 < n \<and> n + length pkts \<le> MaxSeqNo s \<and> length pkts \<le> MaxSeqNo s div 2 \<and> MaxSeqNo s < 2 ^ 62 \<and>
     WaitInterval s \<noteq> 0 \<and> map fst pkts = [n..<n + length pkts] \<and>
     (m < length pkts \<longrightarrow> pkts ! m \<notin> F)"

lemma upt_nth_fst: "map fst pkts = [n..<n + length pkts] \<Longrightarrow> j < length pkts \<Longrightarrow> fst (pkts ! j) = n + j"
  by (metis length_upt nth_map nth_upt add_diff_cancel_left' add_less_cancel_left)

lemma filter_drop_step:
  "m < length pkts \<Longrightarrow> filter P (drop m pkts) =
     (if P (pkts ! m) then pkts ! m # filter P (drop (Suc m) pkts) else filter P (drop (Suc m) pkts))"
  by (metis Cons_nth_drop_Suc filter.simps(2))

lemma upt_ksorted: "map fst pkts = [n..<n + length pkts] \<Longrightarrow> ksorted (filter P (drop m pkts))"
proof -
  assume "map fst pkts = [n..<n + length pkts]"
  then have "ksorted pkts" by (simp add: ksorted_def)
  then have "ksorted (drop m pkts)" by (metis append_take_drop_id ksorted_append)
  then show ?thesis by (simp add: ksorted_def sorted_wrt_map sorted_wrt_filter)
qed

lemma reorder_drain:
  assumes "m \<le> length pkts" "NextSeq s = n + m" "Owner s = take m pkts"
    and "n + length pkts \<le> MaxSeqNo s" "MaxSeqNo s < 2 ^ 62"
    and "map fst pkts = [n..<n + length pkts]"
    and "drain log_owner (filter P (drop m pkts)) s = (s', rest)"
  shows "\<exists>m'\<ge>m. m' \<le> length pkts \<and> NextSeq s' = n + m' \<and> Owner s' = take m' pkts \<and>
     rest = filter P (drop m' pkts) \<and> MaxSeqNo s' = MaxSeqNo s \<and> WaitInterval s' = WaitInterval s \<and>
     LostCount s' = LostCount s \<and> (\<forall>j. m \<le> j \<and> j < m' \<longrightarrow> P (pkts ! j)) \<and>
     (m' < length pkts \<longrightarrow> \<not> P (pkts ! m'))"
  using assms
proof (induction "length pkts - m" arbitrary: m s)
  case 0
  then show ?case by (intro exI[of _ m]) auto
next
  case (Suc d)
  then have m: "m < length pkts" by simp
  have fm: "fst (pkts ! m) = n + m" using Suc.prems(6) m by (rule upt_nth_fst)
  show ?case
  proof (cases "P (pkts ! m)")
    case True
    let ?t = "CallOnReceived log_owner (snd (pkts ! m)) (n + m) s"
    have fields: "NextSeq ?t = n + Suc m" "Owner ?t = take (Suc m) pkts" "MaxSeqNo ?t = MaxSeqNo s"
      "WaitInterval ?t = WaitInterval s" "LostCount ?t = LostCount s"
      using Suc.prems m fm
      by (simp_all add: CallOnReceived_def log_owner_def Let_def wrap_simps take_Suc_conv_app_nth
          prod_eq_iff)
    have "drain log_owner (filter P (drop (Suc m) pkts)) ?t = (s', rest)"
      using Suc.prems(2,4,7) True m fm by (simp add: filter_drop_step Let_def)
    moreover have "d = length pkts - Suc m" "Suc m \<le> length pkts" using Suc.hyps(2) m by auto
    ultimately have "\<exists>m'\<ge>Suc m. m' \<le> length pkts \<and> NextSeq s' = n + m' \<and> Owner s' = take m' pkts \<and>
       rest = filter P (drop m' pkts) \<and> MaxSeqNo s' = MaxSeqNo s \<and> WaitInterval s' = WaitInterval s \<and>
       LostCount s' = LostCount s \<and> (\<forall>j. Suc m \<le> j \<and> j < m' \<longrightarrow> P (pkts ! j)) \<and>
       (m' < length pkts \<longrightarrow> \<not> P (pkts ! m'))"
      using Suc.hyps(1)[of "Suc m" ?t] Suc.prems(4-6) unfolding fields by blast
    then obtain m' where m': "m' \<ge> Suc m" "m' \<le> length pkts" "NextSeq s' = n + m'" "Owner s' = take m' pkts"
      "rest = filter P (drop m' pkts)" "MaxSeqNo s' = MaxSeqNo s" "WaitInterval s' = WaitInterval s"
      "LostCount s' = LostCount s" "\<forall>j. Suc m \<le> j \<and> j < m' \<longrightarrow> P (pkts ! j)"
      "m' < length pkts \<longrightarrow> \<not> P (pkts ! m')"
      by blast
    moreover have "\<forall>j. m \<le> j \<and> j < m' \<longrightarrow> P (pkts ! j)"
      using m'(9) True by (metis Suc_leI le_neq_implies_less)
    ultimately show ?thesis by (intro exI[of _ m']) auto
  next
    case False
    have "s' = s \<and> rest = filter P (drop m pkts)"
    proof (cases "filter P (drop m pkts)")
      case Nil
      then show ?thesis using Suc.prems(7) by simp
    next
      case (Cons q qs)
      then have "q \<in> set (drop (Suc m) pkts)"
        using False m by (metis filter_drop_step filter_is_subset list.set_intros(1) subsetD)
      then obtain i where "i < length pkts - Suc m" "q = pkts ! (Suc m + i)"
        by (auto simp: in_set_conv_nth)
      then obtain j where "j < length pkts" "q = pkts ! j" "j > m"
        using that[of "Suc m + i"] by simp
      then have "fst q = n + j" "n + j \<le> MaxSeqNo s" using Suc.prems(4,6) by (auto intro: upt_nth_fst)
      then show ?thesis
        using Suc.prems(2,7) \<open>j > m\<close> by (simp add: Cons Let_def)
    qed
    then show ?thesis using Suc.prems m False by (intro exI[of _ m]) auto
  qed
qed

lemma reorder_in_sequence:
  assumes inv: "reorder_inv n pkts F m s" and m: "m < length pkts"
  shows "\<exists>m'. reorder_inv n pkts (insert (pkts ! m) F) m' (pk_received log_owner (snd (pkts ! m)) (n + m) s) \<and>
     LostCount (pk_received log_owner (snd (pkts ! m)) (n + m) s) = LostCount s"
proof -
  let ?p = "pkts ! m" and ?F = "insert (pkts ! m) F"
  let ?t = "CallOnReceived log_owner (snd ?p) (n + m) s"
  obtain s' rest where dr: "drain log_owner (PkPendings s) ?t = (s', rest)"
    by (cases "drain log_owner (PkPendings s) ?t") auto
  note i = inv[unfolded reorder_inv_def]
  have f: "map fst pkts = [n..<n + length pkts]" using i by blast
  have fm: "fst ?p = n + m" using f m by (rule upt_nth_fst)
  have t: "NextSeq ?t = n + Suc m" "Owner ?t = take (Suc m) pkts" "MaxSeqNo ?t = MaxSeqNo s"
    "WaitInterval ?t = WaitInterval s" "LostCount ?t = LostCount s"
    using i m fm
    by (simp_all add: CallOnReceived_def log_owner_def Let_def wrap_simps take_Suc_conv_app_nth prod_eq_iff)
  have "ksorted pkts" using f by (simp add: ksorted_def)
  then have "ksorted (drop m pkts)" by (metis append_take_drop_id ksorted_append)
  then have "?p \<notin> set (drop (Suc m) pkts)"
    unfolding Cons_nth_drop_Suc[OF m, symmetric] ksorted_Cons by blast
  then have "filter (\<lambda>p. p \<in> F) (drop (Suc m) pkts) = filter (\<lambda>p. p \<in> ?F) (drop (Suc m) pkts)"
    by (intro filter_cong) auto
  then have pend: "PkPendings s = filter (\<lambda>p. p \<in> ?F) (drop (Suc m) pkts)"
    using i m by (simp add: filter_drop_step)
  have cfg: "0 < n" "n + length pkts \<le> MaxSeqNo s" "length pkts \<le> MaxSeqNo s div 2" "MaxSeqNo s < 2 ^ 62"
    "WaitInterval s \<noteq> 0" using i by blast+
  obtain m' where m': "m' \<ge> Suc m" "m' \<le> length pkts" "NextSeq s' = n + m'" "Owner s' = take m' pkts"
      "rest = filter (\<lambda>p. p \<in> ?F) (drop m' pkts)" "MaxSeqNo s' = MaxSeqNo s" "WaitInterval s' = WaitInterval s"
      "LostCount s' = LostCount s" "\<forall>j. Suc m \<le> j \<and> j < m' \<longrightarrow> pkts ! j \<in> ?F"
      "m' < length pkts \<longrightarrow> \<not> pkts ! m' \<in> ?F"
    using reorder_drain[of "Suc m" pkts ?t n "\<lambda>p. p \<in> ?F" s' rest] dr cfg f m unfolding pend t by auto
  have "set (take m' pkts) \<subseteq> ?F"
  proof
    fix q assume "q \<in> set (take m' pkts)"
    then obtain j where j: "j < m'" "q = pkts ! j" "j < length pkts" by (auto simp: in_set_conv_nth)
    consider "j < m" | "j = m" | "Suc m \<le> j" by linarith
    then show "q \<in> ?F"
    proof cases
      case 1
      then have "q \<in> set (take m pkts)" using j by (auto simp: in_set_conv_nth)
      then show ?thesis using i by blast
    qed (use j m'(9) in auto)
  qed
  then have "reorder_inv n pkts ?F m' (s'\<lparr>PkPendings := rest\<rparr>)"
    unfolding reorder_inv_def using m'(2-7,10) cfg f by simp
  moreover have "pk_received log_owner (snd ?p) (n + m) s = s'\<lparr>PkPendings := rest\<rparr>"
    by (simp add: pk_received_def dr)
  ultimately show ?thesis using m'(8) by (intro exI[of _ m']) simp
qed

lemma reorder_later:
  assumes inv: "reorder_inv n pkts F m s" and j: "m < j" "j < length pkts"
  shows "reorder_inv n pkts (insert (pkts ! j) F) m (pk_pend (snd (pkts ! j)) (n + j) s)"
proof -
  let ?p = "pkts ! j"
  note i = inv[unfolded reorder_inv_def]
  have f: "map fst pkts = [n..<n + length pkts]" using i by blast
  have fp: "fst ?p = n + j" using f j(2) by (rule upt_nth_fst)
  have "drop m pkts ! (j - m) \<in> set (drop m pkts)" using j by (intro nth_mem) simp
  then have pin: "?p \<in> set (drop m pkts)" using j by simp
  have uniq: "x = ?p" if "x \<in> set pkts" "fst x = n + j" for x
    using that f j by (metis add_left_cancel in_set_conv_nth upt_nth_fst)
  have pend: "PkPendings s = filter (\<lambda>p. p \<in> F) (drop m pkts)" using i by blast
  have k: "ksorted (PkPendings s)" unfolding pend using f by (rule upt_ksorted)
  have diff: "m < length pkts \<longrightarrow> pkts ! m \<noteq> ?p"
    using f j by (metis add_left_cancel less_irrefl order_less_trans upt_nth_fst)
  from pk_pend_cases[OF k, of "n + j" "snd ?p"] show ?thesis
  proof (elim disjE conjE exE)
    assume a: "n + j \<in> fst ` set (PkPendings s)" "pk_pend (snd ?p) (n + j) s = s"
    then obtain x where x: "x \<in> F" "x \<in> set (drop m pkts)" "fst x = n + j" unfolding pend by auto
    then have "x = ?p" using uniq in_set_dropD by metis
    with x have "?p \<in> F" by simp
    then show ?thesis using a inv by (simp add: insert_absorb)
  next
    fix pks assume a: "pk_pend (snd ?p) (n + j) s =
         s\<lparr>PkPendings := pks, TimerArmed := (TimerArmed s \<or> PkPendings s = [])\<rparr>"
      "ksorted pks" "set pks = insert (n + j, snd ?p) (set (PkPendings s))"
    have "(n + j, snd ?p) = ?p" using fp by (simp add: prod_eq_iff)
    then have "set pks = set (filter (\<lambda>p. p \<in> insert ?p F) (drop m pkts))"
      using a(3) pin unfolding pend by auto
    then have "pks = filter (\<lambda>p. p \<in> insert ?p F) (drop m pkts)"
      using a(2) upt_ksorted[OF f] by (intro ksorted_unique)
    then show ?thesis using a(1) i diff by (auto simp: reorder_inv_def)
  qed
qed

lemma reorder_feed:
  assumes inv: "reorder_inv n pkts F m s" and p: "p \<in> set pkts"
  shows "\<exists>m'. reorder_inv n pkts (insert p F) m' (FeedPacket log_owner (snd p) (fst p) s) \<and>
     LostCount (FeedPacket log_owner (snd p) (fst p) s) = LostCount s"
proof -
  note i = inv[unfolded reorder_inv_def]
  obtain j where j: "j < length pkts" "p = pkts ! j" using p by (auto simp: in_set_conv_nth)
  have fp: "fst p = n + j" using i j by (auto intro: upt_nth_fst)
  consider "j = m" | "j < m" | "m < j" by linarith
  then show ?thesis
  proof cases
    case 1
    then have "FeedPacket log_owner (snd p) (fst p) s = pk_received log_owner (snd (pkts ! m)) (n + m) s"
      using fp i j by (simp add: FeedPacket_def)
    then show ?thesis using reorder_in_sequence[OF inv] 1 j by simp
  next
    case 2
    have "sub64 (add64 (n + j) (MaxSeqNo s)) (n + m) = n + j + MaxSeqNo s - (n + m)"
      using i 2 by (auto simp: wrap_simps)
    then have "FeedPacket log_owner (snd p) (fst p) s = pk_drop log_owner (snd p) (fst p) s"
      using fp i 2 j by (auto simp: FeedPacket_def Let_def)
    moreover have "p \<in> F"
    proof -
      have "p \<in> set (take m pkts)" using 2 j by (auto simp: in_set_conv_nth)
      then show ?thesis using i by blast
    qed
    ultimately show ?thesis
      using i by (intro exI[of _ m]) (simp add: reorder_inv_def pk_drop_def log_owner_def insert_absorb)
  next
    case 3
    have "sub64 (n + j) (n + m) = j - m" using i 3 j by (auto simp: wrap_simps)
    then have "FeedPacket log_owner (snd p) (fst p) s = pk_pend (snd (pkts ! j)) (n + j) s"
      using fp i 3 j by (auto simp: FeedPacket_def Let_def)
    moreover have "LostCount (pk_pend (snd (pkts ! j)) (n + j) s) = LostCount s"
      by (auto simp: pk_pend_def Let_def split: prod.splits)
    ultimately show ?thesis using reorder_later[OF inv 3 j(1)] j by auto
  qed
qed

lemma reorder_run:
  assumes "reorder_inv n pkts F m s" "set evs \<subseteq> set pkts"
  shows "\<exists>m'. reorder_inv n pkts (F \<union> set evs) m'
           (foldl (pk_step log_owner) s (map (\<lambda>p. Feed (fst p) (snd p)) evs)) \<and>
         LostCount (foldl (pk_step log_owner) s (map (\<lambda>p. Feed (fst p) (snd p)) evs)) = LostCount s"
  using assms
proof (induction evs arbitrary: F m s)
  case Nil
  then show ?case by auto
next
  case (Cons p evs)
  then obtain m' where "reorder_inv n pkts (insert p F) m' (FeedPacket log_owner (snd p) (fst p) s)"
    "LostCount (FeedPacket log_owner (snd p) (fst p) s) = LostCount s"
    using reorder_feed[of n pkts F m s p] by auto
  with Cons.IH[of "insert p F" m' "FeedPacket log_owner (snd p) (fst p) s"] Cons.prems(2)
  show ?case by (simp add: insert_commute)
qed

subsection \<open>Properties\<close>



text \<open>C9: for an owner that logs what it is given, with the waiting time of a new feeder and without \<open>Clear\<close>: over any
  interleaving of arrivals and timer events whose numbers stay in the lower half of the number space, the delivered numbers
  are strictly increasing (no packet is delivered twice or out of order), the next number expected
  follows the last one delivered, and the range from the first delivered number to the next one
  expected is divided exactly between \<open>ReceivedCount\<close> and \<open>LostCount\<close>. What comes before the first number delivered
  is not counted as lost.\<close>

theorem delivered_and_lost_account:
  fixes first :: nat
  assumes "mx < 2 ^ 62" "\<forall>e\<in>set es. seq_in_half mx e"
  defines "s \<equiv> foldl (pk_step log_owner) (PkContFeeder mx first []) es"
  shows "ksorted (Owner s) \<and> ReceivedCount s = length (Owner s) \<and>
    (Owner s \<noteq> [] \<longrightarrow> NextSeq s = Suc (fst (last (Owner s))) \<and>
       NextSeq s - fst (hd (Owner s)) = ReceivedCount s + LostCount s) \<and>
    (\<forall>p\<in>set (PkPendings s). NextSeq s < fst p)"
proof -
  have "acct_inv mx s" unfolding s_def using pk_acct.run_inv assms(1,2) by blast
  then show ?thesis by (auto simp: acct_inv_def acct_def split: if_splits)
qed

lemma delivered_and_lost_account_witness:
  "let s = foldl (pk_step log_owner) (PkContFeeder 9999 1 [])
             [Feed 7 [7], Feed 10 [10], Feed 9 [9], Feed 7 [7], TimerFire]
   in ksorted (Owner s) \<and> ReceivedCount s = 3"
  using delivered_and_lost_account[of 9999 "[Feed 7 [7], Feed 10 [10], Feed 9 [9], Feed 7 [7], TimerFire]" 1]
  by (simp add: Let_def PkContFeeder_def FeedPacket_def pk_received_def pk_pend_def pk_drop_def CallOnReceived_def
      log_owner_def uadd_def usub_def sv_insert_def find_i_def lower_i_def vec_insert_def
      EmitOnTimer_def PkContOnTimer_def flush_one_def)

text \<open>C10: whenever packets wait in the buffer its timer is armed, and the buffer is sorted without
  duplicate numbers, after any sequence of arrivals, timer events and clears, with any owner
  whose callbacks leave the buffer and the timer alone: no packet can be stuck.\<close>

theorem waiting_packets_have_a_timer:
  assumes "owner_ok vt"
  shows "pk_inv (foldl (pk_step vt) (PkContFeeder mx first own) es)"
  using pk_timer.run_inv[of es vt mx first own] assms by blast

lemma waiting_packets_have_a_timer_witness:
  "pk_inv (foldl (pk_step log_owner) (PkContFeeder 9999 1 []) [Feed 7 [7], Feed 9 [9]])"
  by (rule waiting_packets_have_a_timer) (rule log_owner_ok)

text \<open>after the numbers roll over, a packet \<open>q\<close> that waits in the buffer is stored under
  \<open>q + MaxSeqNo + 1\<close>. Delivered by a packet that fills the gap it is given its own number back
  and \<open>q + 1\<close> is expected next; delivered by the timer it is not, and \<open>q + 2\<close> is expected, so that
  packet \<open>q + 1\<close> is dropped as a duplicate when it arrives.\<close>

theorem timer_after_rollover_skips_one:
  assumes "PkPendings s = [(q + MaxSeqNo s + 1, pk)]" "TimerArmed s" "0 < q" "q + 2 \<le> MaxSeqNo s"
    and "MaxSeqNo s < 2 ^ 62"
  shows "NextSeq (EmitOnTimer log_owner s) = q + 2 \<and>
    Owner (FeedPacket log_owner pk' (q + 1) (EmitOnTimer log_owner s)) = Owner (EmitOnTimer log_owner s) \<and>
    snd (drain log_owner (PkPendings s) (s\<lparr>NextSeq := q\<rparr>)) = [] \<and>
    NextSeq (fst (drain log_owner (PkPendings s) (s\<lparr>NextSeq := q\<rparr>))) = q + 1"
proof -
  let ?t = "EmitOnTimer log_owner s"
  have t: "NextSeq ?t = q + 2" "MaxSeqNo ?t = MaxSeqNo s"
    using assms
    by (simp_all add: EmitOnTimer_def PkContOnTimer_def flush_one_def CallOnReceived_def log_owner_def
        Let_def wrap_simps)
  have "sub64 (add64 (q + 1) (MaxSeqNo s)) (q + 2) = MaxSeqNo s - 1"
    using assms by (simp add: wrap_simps)
  then have "FeedPacket log_owner pk' (q + 1) ?t = pk_drop log_owner pk' (q + 1) ?t"
    using t assms(3,4) by (auto simp: FeedPacket_def Let_def)
  then have drop: "Owner (FeedPacket log_owner pk' (q + 1) ?t) = Owner ?t"
    by (simp add: pk_drop_def log_owner_def)
  have "sub64 (q + MaxSeqNo s + 1) (add64 (MaxSeqNo s) 1) = q" using assms by (simp add: wrap_simps)
  then have "snd (drain log_owner (PkPendings s) (s\<lparr>NextSeq := q\<rparr>)) = []"
    and "NextSeq (fst (drain log_owner (PkPendings s) (s\<lparr>NextSeq := q\<rparr>))) = q + 1"
    using assms by (simp_all add: CallOnReceived_def log_owner_def Let_def wrap_simps)
  with t drop show ?thesis by simp
qed

lemma timer_after_rollover_skips_one_witness:
  "NextSeq (EmitOnTimer log_owner ((PkContFeeder 9999 1 [])
     \<lparr>NextSeq := 9999, PkPendings := [(10002, [2])], TimerArmed := True\<rparr>)) = 4"
  using timer_after_rollover_skips_one[of "(PkContFeeder 9999 1 [])
     \<lparr>NextSeq := 9999, PkPendings := [(10002, [2])], TimerArmed := True\<rparr>" 2 "[2]"]
  by (simp add: PkContFeeder_def)

end
