(* ===== verification/NumText.thy ===== *)
theory NumText
  imports Fon9_Prelude
begin

text \<open>
  Numbers as text: \<open>fon9/StrTools.hpp\<close> (character classes, digit tables, fetching),
  \<open>fon9/StrTo.hpp\<close> and \<open>StrTo.cpp\<close> (\<open>StrToNum\<close> with its auxiliary classes for integers,
  the naive and the hexadecimal readers, fixed-width fields) and \<open>fon9/ToStr.hpp\<close> and
  \<open>ToStr.cpp\<close> (the writers, which fill a buffer from its end, so that writing is consing).
  \<open>endptr\<close> is the list that is left to read.
\<close>

subsection \<open>Character tables\<close>

definition isspace :: "byte \<Rightarrow> bool" where
  "isspace ch \<longleftrightarrow> 0x20 = ch \<or> (0x9 \<le> ch \<and> ch \<le> 0xd)"

definition Alpha2Hex :: "byte \<Rightarrow> int" where
  "Alpha2Hex ch =
     (if 0x30 \<le> ch \<and> ch \<le> 0x39 then int (unat (ch - 0x30))
      else if 0x41 \<le> ch \<and> ch \<le> 0x46 then int (unat (ch - 0x41)) + 10
      else if 0x61 \<le> ch \<and> ch \<le> 0x66 then int (unat (ch - 0x61)) + 10
      else -1)"

definition Alpha2Seq :: "byte \<Rightarrow> int" where
  "Alpha2Seq ch =
     (if 0x30 \<le> ch \<and> ch \<le> 0x39 then int (unat (ch - 0x30))
      else if 0x41 \<le> ch \<and> ch \<le> 0x5a then int (unat (ch - 0x41)) + 10
      else if 0x61 \<le> ch \<and> ch \<le> 0x7a then int (unat (ch - 0x61)) + 36
      else -1)"

definition Seq2Alpha :: "nat \<Rightarrow> byte" where
  "Seq2Alpha seq =
     ascii ''0123456789ABCDEFGHIJKLMNOPQRSTUVWXYZabcdefghijklmnopqrstuvwxyz'' ! seq"

definition Digs0099 :: "byte list" where
  "Digs0099 = ascii (''0001020304050607080910111213141516171819''
     @ ''2021222324252627282930313233343536373839'' @ ''4041424344454647484950515253545556575859''
     @ ''6061626364656667686970717273747576777879'' @ ''8081828384858687888990919293949596979899'')"

definition Put2Digs :: "byte list \<Rightarrow> nat \<Rightarrow> byte list" where
  "Put2Digs pout i00_99 = Digs0099 ! (2 * i00_99) # Digs0099 ! (2 * i00_99 + 1) # pout"

definition StrTrimHead :: "byte list \<Rightarrow> byte list" where
  "StrTrimHead str = dropWhile isspace str"

definition StrTrimTail :: "byte list \<Rightarrow> byte list" where
  "StrTrimTail str = rev (dropWhile isspace (rev str))"

definition StrTrim :: "byte list \<Rightarrow> byte list" where
  "StrTrim str = StrTrimTail (StrTrimHead str)"

definition StrFetchNoTrim :: "byte list \<Rightarrow> byte \<Rightarrow> byte list \<times> byte list" where
  "StrFetchNoTrim src chDelim =
     (takeWhile (\<lambda>c. c \<noteq> chDelim) src,
      (case dropWhile (\<lambda>c. c \<noteq> chDelim) src of [] \<Rightarrow> [] | d # rest \<Rightarrow> rest))"

definition StrFetchTrim :: "byte list \<Rightarrow> byte \<Rightarrow> byte list \<times> byte list" where
  "StrFetchTrim src chDelim =
     (let src1 = StrTrimHead src
      in (StrTrimTail (takeWhile (\<lambda>c. c \<noteq> chDelim) src1),
          (case dropWhile (\<lambda>c. c \<noteq> chDelim) src1 of [] \<Rightarrow> [] | d # rest \<Rightarrow> rest)))"

definition digval :: "byte \<Rightarrow> nat" where
  "digval c = unat (c - 0x30)"

abbreviation isdigit :: "byte \<Rightarrow> bool" where
  "isdigit c \<equiv> digval c \<le> 9"

definition dig :: "nat \<Rightarrow> byte" where
  "dig n = 0x30 + word_of_nat n"

subsection \<open>\<open>StrToNum\<close> with the integer auxiliary classes\<close>

datatype sign_flag = IsNegative | IsNegativeMin | IsPositive

record str_aux =
  TempMax :: nat
  CheckSign :: "byte \<Rightarrow> sign_flag \<times> bool"
  OnOverflow :: "sign_flag \<Rightarrow> nat \<Rightarrow> sign_flag \<times> nat"
  MakeResult :: "sign_flag \<Rightarrow> nat \<Rightarrow> int"

fun StrToNum_loop :: "str_aux \<Rightarrow> sign_flag \<Rightarrow> nat \<Rightarrow> byte list \<Rightarrow> sign_flag \<times> nat \<times> byte list" where
  "StrToNum_loop aux flag res [] = (flag, res, [])"
| "StrToNum_loop aux flag res (c # cs) =
     (let d = digval c; maxA = TempMax aux div 10; maxB = TempMax aux mod 10
      in if d \<le> 9 then
           (if res < maxA \<or> (res = maxA \<and> d \<le> maxB) then StrToNum_loop aux flag (res * 10 + d) cs
            else case OnOverflow aux flag res of
                   (flag', res') \<Rightarrow> (flag', res', dropWhile isdigit cs))
         else (flag, res, c # cs))"

definition StrToNum_at :: "str_aux \<Rightarrow> sign_flag \<Rightarrow> byte list \<Rightarrow> int \<Rightarrow> int \<times> byte list" where
  "StrToNum_at aux flag s out =
     (case StrToNum_loop aux flag 0 s of (flag', res, rest) \<Rightarrow>
        (if length rest \<noteq> length s then MakeResult aux flag' res else out, rest))"

definition StrToNum :: "str_aux \<Rightarrow> byte list \<Rightarrow> int \<Rightarrow> int \<times> byte list" where
  "StrToNum aux str out =
     (case StrTrimHead str of
        [] \<Rightarrow> (out, [])
      | c # cs \<Rightarrow>
          (case CheckSign aux c of
             (flag, hasSign) \<Rightarrow>
               if hasSign then
                 (case StrTrimHead cs of [] \<Rightarrow> (out, []) | s \<Rightarrow> StrToNum_at aux flag s out)
               else StrToNum_at aux flag (c # cs) out))"

definition StrToUIntAux :: "nat \<Rightarrow> str_aux" where
  "StrToUIntAux w =
     \<lparr>TempMax = 2 ^ w - 1, CheckSign = (\<lambda>ch. (IsPositive, ch = 0x2b)),
      OnOverflow = (\<lambda>flag res. (flag, 2 ^ w - 1)), MakeResult = (\<lambda>flag res. int res)\<rparr>"

fun sint_result :: "nat \<Rightarrow> sign_flag \<Rightarrow> nat \<Rightarrow> int" where
  "sint_result w IsPositive res = (if res > 2 ^ (w - 1) - 1 then 2 ^ (w - 1) - 1 else int res)"
| "sint_result w IsNegative res = (if res > 2 ^ (w - 1) - 1 then - (2 ^ (w - 1)) else - int res)"
| "sint_result w IsNegativeMin res = - (2 ^ (w - 1))"

definition StrToSIntAux :: "nat \<Rightarrow> str_aux" where
  "StrToSIntAux w =
     \<lparr>TempMax = 2 ^ w - 1,
      CheckSign = (\<lambda>ch. if ch = 0x2b then (IsPositive, True)
                        else if ch = 0x2d then (IsNegative, True) else (IsPositive, False)),
      OnOverflow = (\<lambda>flag res. if flag = IsNegative then (IsNegativeMin, res) else (flag, 2 ^ (w - 1) - 1)),
      MakeResult = sint_result w\<rparr>"

definition StrTo_u :: "nat \<Rightarrow> byte list \<Rightarrow> nat \<Rightarrow> nat \<times> byte list" where
  "StrTo_u w str value = (case StrToNum (StrToUIntAux w) str (int value) of (v, rest) \<Rightarrow> (nat v, rest))"

definition StrTo_s :: "nat \<Rightarrow> byte list \<Rightarrow> int \<Rightarrow> int \<times> byte list" where
  "StrTo_s w str value = StrToNum (StrToSIntAux w) str value"

subsection \<open>Readers that do not look for overflow\<close>

fun NaiveStrToUInt_loop :: "nat \<Rightarrow> byte list \<Rightarrow> nat \<times> byte list" where
  "NaiveStrToUInt_loop res [] = (res, [])"
| "NaiveStrToUInt_loop res (c # cs) =
     (if digval c > 9 then (res, c # cs) else NaiveStrToUInt_loop ((res * 10 + digval c) mod 2 ^ 64) cs)"

definition NaiveStrToUInt :: "byte list \<Rightarrow> nat \<times> byte list" where
  "NaiveStrToUInt s = NaiveStrToUInt_loop 0 s"

definition NaiveStrToSInt :: "byte list \<Rightarrow> 64 word \<times> byte list" where
  "NaiveStrToSInt s =
     (case s of
        [] \<Rightarrow> (0, [])
      | c # cs \<Rightarrow>
          (if c = 0x2d then (case NaiveStrToUInt cs of (v, rest) \<Rightarrow> (- word_of_nat v, rest))
           else case NaiveStrToUInt (if c = 0x2b then cs else s) of (v, rest) \<Rightarrow> (word_of_nat v, rest)))"

fun HexStrTo_loop :: "64 word \<Rightarrow> byte list \<Rightarrow> 64 word \<times> byte list" where
  "HexStrTo_loop value [] = (value, [])"
| "HexStrTo_loop value (c # cs) =
     (if Alpha2Hex c < 0 then (value, c # cs)
      else HexStrTo_loop (push_bit 4 value OR word_of_int (Alpha2Hex c)) cs)"

definition HexStrTo :: "byte list \<Rightarrow> 64 word \<Rightarrow> 64 word \<times> byte list" where
  "HexStrTo hexstr null =
     (let s = StrTrimHead hexstr;
          s1 = (case s of c # cs \<Rightarrow> if c = 0x78 \<or> c = 0x58 then cs else s | [] \<Rightarrow> s)
      in case HexStrTo_loop 0 s1 of (value, rest) \<Rightarrow>
           (if length rest = length s1 then null else value, rest))"

definition HIntStrTo :: "byte list \<Rightarrow> 64 word \<Rightarrow> 64 word \<times> byte list" where
  "HIntStrTo str null =
     (let s0 = StrTrimHead str;
          s1 = (case s0 of c # cs \<Rightarrow> if c = 0x30 then cs else s0 | [] \<Rightarrow> s0)
      in if (case s1 of c # cs \<Rightarrow> c = 0x78 \<or> c = 0x58 | [] \<Rightarrow> False) then HexStrTo s1 null
         else case NaiveStrToUInt s1 of (res, rest) \<Rightarrow>
                (if length rest = length s0 then null else word_of_nat res, rest))"

text \<open>\<open>AuxPic9StrTo\<close> reads from the last character towards the first.\<close>

fun RStrTo :: "byte list \<Rightarrow> 'w::len word" where
  "RStrTo [] = 0"
| "RStrTo (c # left) = (scast c - 0x30) + RStrTo left * 10"

definition Pic9StrTo :: "nat \<Rightarrow> byte list \<Rightarrow> 'w::len word" where
  "Pic9StrTo width str = RStrTo (rev (take width str))"

subsection \<open>Writers\<close>

function UIntToStrRev :: "byte list \<Rightarrow> nat \<Rightarrow> byte list" where
  "UIntToStrRev pout value =
     (if value \<ge> 100 then UIntToStrRev (Put2Digs pout (value mod 100)) (value div 100)
      else if value < 10 then dig value # pout
      else Put2Digs pout value)"
  by pat_completeness auto
termination by (relation "measure snd") auto

declare UIntToStrRev.simps [simp del]

definition abs_cast :: "int \<Rightarrow> nat" where
  "abs_cast value = nat \<bar>value\<bar>"

definition SIntToStrRev :: "byte list \<Rightarrow> int \<Rightarrow> byte list" where
  "SIntToStrRev pout value =
     (let p = UIntToStrRev pout (abs_cast value) in if value < 0 then 0x2d # p else p)"

function HexToStrRev_map :: "byte list \<Rightarrow> nat \<Rightarrow> byte list \<Rightarrow> byte list" where
  "HexToStrRev_map pout value map2Hchar =
     (let p = map2Hchar ! (value mod 16) # pout
      in if value div 16 \<noteq> 0 then HexToStrRev_map p (value div 16) map2Hchar else p)"
  by pat_completeness auto
termination by (relation "measure (\<lambda>(_, v, _). v)") auto

declare HexToStrRev_map.simps [simp del]

definition HexToStrRev :: "byte list \<Rightarrow> nat \<Rightarrow> byte list" where
  "HexToStrRev pout value = HexToStrRev_map pout value (ascii ''0123456789abcdef'')"

definition HEXToStrRev :: "byte list \<Rightarrow> nat \<Rightarrow> byte list" where
  "HEXToStrRev pout value = HexToStrRev_map pout value (ascii ''0123456789ABCDEF'')"

function OctToStrRev :: "byte list \<Rightarrow> nat \<Rightarrow> byte list" where
  "OctToStrRev pout value =
     (let p = dig (value mod 8) # pout in if value div 8 \<noteq> 0 then OctToStrRev p (value div 8) else p)"
  by pat_completeness auto
termination by (relation "measure snd") auto

declare OctToStrRev.simps [simp del]

function BinToStrRev :: "byte list \<Rightarrow> nat \<Rightarrow> byte list" where
  "BinToStrRev pout value =
     (let p = dig (value mod 2) # pout in if value div 2 \<noteq> 0 then BinToStrRev p (value div 2) else p)"
  by pat_completeness auto
termination by (relation "measure snd") auto

declare BinToStrRev.simps [simp del]

text \<open>\<open>AuxPic9ToStr\<close> for a width: two digits at a time, the leftmost one or two digits show \<open>#\<close>
  when the value does not fit.\<close>

fun AuxPic9ToStr :: "nat \<Rightarrow> byte list \<Rightarrow> nat \<Rightarrow> byte list" where
  "AuxPic9ToStr 0 pout value = pout"
| "AuxPic9ToStr (Suc 0) pout value = (if value \<le> 9 then dig value else 0x23) # pout"
| "AuxPic9ToStr (Suc (Suc 0)) pout value =
     (if value \<le> 99 then Put2Digs pout value else 0x23 # dig (value mod 10) # pout)"
| "AuxPic9ToStr (Suc (Suc w)) pout value = AuxPic9ToStr w (Put2Digs pout (value mod 100)) (value div 100)"

definition Pic9ToStrRev :: "nat \<Rightarrow> byte list \<Rightarrow> nat \<Rightarrow> byte list" where
  "Pic9ToStrRev width pout value = AuxPic9ToStr width pout value"

subsection \<open>Lemmas\<close>

definition numval :: "nat \<Rightarrow> byte list \<Rightarrow> nat" where
  "numval v ds = foldl (\<lambda>v c. v * 10 + digval c) v ds"

lemma numval_simps [simp]:
  "numval v [] = v" "numval v (c # cs) = numval (v * 10 + digval c) cs"
  "numval v (xs @ ys) = numval (numval v xs) ys"
  by (simp_all add: numval_def)

lemma numval_mono: "v \<le> numval v ds"
proof (induction ds arbitrary: v)
  case (Cons c ds)
  have "v \<le> v * 10 + digval c" by simp
  with Cons.IH[of "v * 10 + digval c"] show ?case by simp
qed simp

lemma numval_shift: "numval v ds = v * 10 ^ length ds + numval 0 ds"
proof (induction ds arbitrary: v)
  case (Cons c ds)
  show ?case using Cons.IH[of "v * 10 + digval c"] Cons.IH[of "digval c"]
    by (simp add: algebra_simps)
qed simp

lemma digval_dig [simp]: "n < 10 \<Longrightarrow> digval (dig n) = n"
  by (simp add: digval_def dig_def unat_of_nat)

lemma less10_cases:
  "(n::nat) < 10 \<Longrightarrow> n = 0 \<or> n = 1 \<or> n = 2 \<or> n = 3 \<or> n = 4 \<or> n = 5 \<or> n = 6 \<or> n = 7 \<or> n = 8 \<or> n = 9"
  by presburger

lemma dig_not_space [simp]: "n < 10 \<Longrightarrow> \<not> isspace (dig n)"
  by (drule less10_cases) (elim disjE; simp add: dig_def isspace_def)

lemma dig_not_sign [simp]: "n < 10 \<Longrightarrow> dig n \<noteq> 0x2b" "n < 10 \<Longrightarrow> dig n \<noteq> 0x2d"
  by (drule less10_cases, elim disjE; simp add: dig_def)+

lemma Digs0099_eq: "Digs0099 = concat (map (\<lambda>i. [dig (i div 10), dig (i mod 10)]) [0..<100])"
  by (simp add: Digs0099_def ascii_def dig_def upt_rec)

lemma Put2Digs_eq: "i < 100 \<Longrightarrow> Put2Digs pout i = dig (i div 10) # dig (i mod 10) # pout"
proof -
  have pair: "concat (map (\<lambda>i. [f i, g i]) [0..<n]) ! (2 * i) = f i \<and>
      concat (map (\<lambda>i. [f i, g i]) [0..<n]) ! (2 * i + 1) = g i" if "i < n" for f g :: "nat \<Rightarrow> byte" and n i
    using that
  proof (induction n)
    case (Suc n)
    have len: "length (concat (map (\<lambda>i. [f i, g i]) [0..<n])) = 2 * n" by (induction n) auto
    show ?case using Suc by (cases "i = n") (auto simp: nth_append len)
  qed simp
  assume "i < 100"
  then show ?thesis using pair[of i 100 "\<lambda>i. dig (i div 10)" "\<lambda>i. dig (i mod 10)"]
    by (simp add: Put2Digs_def Digs0099_eq)
qed

lemma dropWhile_all_app: "(\<forall>x\<in>set xs. P x) \<Longrightarrow> ys = [] \<or> \<not> P (hd ys) \<Longrightarrow> dropWhile P (xs @ ys) = ys"
  by (cases ys) (auto simp: dropWhile_append2)

lemma StrToNum_loop_digits:
  assumes "\<forall>c\<in>set ds. isdigit c" "rest = [] \<or> \<not> isdigit (hd rest)" "res \<le> TempMax aux"
  shows "if numval res ds \<le> TempMax aux
         then StrToNum_loop aux flag res (ds @ rest) = (flag, numval res ds, rest)
         else \<exists>r. StrToNum_loop aux flag res (ds @ rest)
                = (fst (OnOverflow aux flag r), snd (OnOverflow aux flag r), rest)"
  using assms
proof (induction ds arbitrary: res)
  case Nil
  then show ?case by (cases rest) (auto simp: Let_def)
next
  case (Cons c ds)
  let ?v = "res * 10 + digval c" and ?m = "TempMax aux"
  have d: "digval c \<le> 9" using Cons.prems(1) by simp
  have fits: "(res < ?m div 10 \<or> res = ?m div 10 \<and> digval c \<le> ?m mod 10) \<longleftrightarrow> ?v \<le> ?m"
  proof -
    obtain q r where qr: "?m div 10 = q" "?m mod 10 = r" "?m = q * 10 + r" "r < 10"
      by (metis div_mult_mod_eq mod_less_divisor zero_less_numeral)
    consider "res + 1 \<le> q" | "res = q" | "q + 1 \<le> res" by linarith
    then show ?thesis unfolding qr(1,2) unfolding qr(3) using d qr(4) by cases auto
  qed
  show ?case
  proof (cases "?v \<le> ?m")
    case True
    with Cons.IH[of ?v] Cons.prems d fits show ?thesis by (simp add: Let_def)
  next
    case False
    then have "\<not> numval ?v ds \<le> ?m" using numval_mono[of ?v ds] by simp
    moreover have "dropWhile isdigit (ds @ rest) = rest"
      using Cons.prems(1,2) by (intro dropWhile_all_app) auto
    moreover from this have "StrToNum_loop aux flag res ((c # ds) @ rest)
        = (fst (OnOverflow aux flag res), snd (OnOverflow aux flag res), rest)"
      using d fits False by (auto simp: Let_def split_beta)
    ultimately show ?thesis by auto
  qed
qed

lemma StrToNum_at_digits:
  assumes "\<forall>c\<in>set ds. isdigit c" "rest = [] \<or> \<not> isdigit (hd rest)" "ds \<noteq> []"
  shows "\<exists>r. StrToNum_at aux flag (ds @ rest) out =
    (if numval 0 ds \<le> TempMax aux then MakeResult aux flag (numval 0 ds)
     else MakeResult aux (fst (OnOverflow aux flag r)) (snd (OnOverflow aux flag r)), rest)"
  using StrToNum_loop_digits[OF assms(1,2), of 0 aux flag] assms(3)
  by (auto simp: StrToNum_at_def split: if_splits)

lemma isdigit_dig: "isdigit c \<Longrightarrow> c = dig (digval c)"
  by (simp add: dig_def digval_def)

lemma isdigit_not [simp]:
  assumes "isdigit c"
  shows "\<not> isspace c" "c \<noteq> 0x2b" "c \<noteq> 0x2d"
proof -
  have "digval c < 10" using assms by simp
  from dig_not_space[OF this] dig_not_sign[OF this] isdigit_dig[OF assms]
  show "\<not> isspace c" "c \<noteq> 0x2b" "c \<noteq> 0x2d" by simp_all
qed

lemma StrTrimHead_app:
  "(\<forall>c\<in>set sp. isspace c) \<Longrightarrow> s \<noteq> [] \<Longrightarrow> \<not> isspace (hd s) \<Longrightarrow> StrTrimHead (sp @ s) = s"
  unfolding StrTrimHead_def by (rule dropWhile_all_app) auto

text \<open>The shapes of input that hold a number: spaces, an optional sign that the auxiliary class
  accepts, spaces, digits, and something that is no digit.\<close>

lemma StrToNum_digits:
  assumes "\<forall>c\<in>set sp. isspace c" "\<forall>c\<in>set sp2. isspace c"
    and "\<forall>c\<in>set ds. isdigit c" "ds \<noteq> []" "rest = [] \<or> \<not> isdigit (hd rest)"
    and "case sg of [] \<Rightarrow> sp2 = [] \<and> CheckSign aux (hd ds) = (flag, False)
         | [c] \<Rightarrow> \<not> isspace c \<and> CheckSign aux c = (flag, True) | _ \<Rightarrow> False"
  shows "\<exists>r. StrToNum aux (sp @ sg @ sp2 @ ds @ rest) out =
    (if numval 0 ds \<le> TempMax aux then MakeResult aux flag (numval 0 ds)
     else MakeResult aux (fst (OnOverflow aux flag r)) (snd (OnOverflow aux flag r)), rest)"
proof -
  obtain d ds' where ds: "ds = d # ds'" "isdigit d" using assms(3,4) by (cases ds) auto
  have trim2: "StrTrimHead (sp2 @ ds @ rest) = ds @ rest"
    using assms(2) ds by (intro StrTrimHead_app) auto
  have "StrToNum aux (sp @ sg @ sp2 @ ds @ rest) out = StrToNum_at aux flag (ds @ rest) out"
  proof (cases sg)
    case Nil
    have "StrTrimHead (sp @ ds @ rest) = ds @ rest"
      using assms(1) ds by (intro StrTrimHead_app) auto
    then show ?thesis using assms(6) Nil ds by (simp add: StrToNum_def)
  next
    case (Cons c cs)
    then have c: "sg = [c]" "\<not> isspace c" "CheckSign aux c = (flag, True)"
      using assms(6) by (auto split: list.splits)
    have "StrTrimHead (sp @ sg @ sp2 @ ds @ rest) = c # sp2 @ ds @ rest"
      using assms(1) c StrTrimHead_app[of sp "c # sp2 @ ds @ rest"] by simp
    then show ?thesis using c trim2 ds by (simp add: StrToNum_def)
  qed
  then show ?thesis using StrToNum_at_digits[OF assms(3,5,4)] by metis
qed

subsection \<open>Properties\<close>

lemma StrTo_unsigned_saturates_aux:
  assumes "\<forall>c\<in>set sp. isspace c" "\<forall>c\<in>set sp2. isspace c" "sg = [] \<and> sp2 = [] \<or> sg = [0x2b]"
    and "\<forall>c\<in>set ds. isdigit c" "ds \<noteq> []" "rest = [] \<or> \<not> isdigit (hd rest)"
  shows "StrTo_u w (sp @ sg @ sp2 @ ds @ rest) value = (min (numval 0 ds) (2 ^ w - 1), rest)"
proof -
  have "case sg of [] \<Rightarrow> sp2 = [] \<and> CheckSign (StrToUIntAux w) (hd ds) = (IsPositive, False)
      | [c] \<Rightarrow> \<not> isspace c \<and> CheckSign (StrToUIntAux w) c = (IsPositive, True) | _ \<Rightarrow> False"
    using assms(3-5) by (cases ds) (auto simp: StrToUIntAux_def isspace_def)
  from StrToNum_digits[OF assms(1,2,4,5,6) this, of "int value"]
  show ?thesis
    by (auto simp: StrTo_u_def StrToUIntAux_def min_def nat_diff_distrib nat_power_eq split: if_splits)
qed

text \<open>the unsigned reader takes optional spaces and a plus sign, then all digits, and returns
  their value if it fits the type and the largest value of the type if it does not, with the
  first character after the digits as its end.\<close>

theorem StrTo_unsigned_saturates:
  assumes "\<forall>c\<in>set sp. isspace c" "\<forall>c\<in>set sp2. isspace c" "sg = [] \<and> sp2 = [] \<or> sg = [0x2b]"
    and "\<forall>c\<in>set ds. isdigit c" "ds \<noteq> []" "rest = [] \<or> \<not> isdigit (hd rest)"
  shows "StrTo_u w (sp @ sg @ sp2 @ ds @ rest) value = (min (numval 0 ds) (2 ^ w - 1), rest)"
  using assms by (rule StrTo_unsigned_saturates_aux)

lemma StrTo_unsigned_saturates_witness:
  "StrTo_u 8 (ascii '' +300|'') 0 = (255, ascii ''|'')"
  using StrTo_unsigned_saturates[of "ascii '' ''" "[]" "ascii ''+''" "ascii ''300''" "ascii ''|''" 8 0]
  by (simp add: ascii_def isspace_def digval_def)

lemma StrTo_signed_clamps_aux:
  assumes "\<forall>c\<in>set sp. isspace c" "\<forall>c\<in>set sp2. isspace c"
    and "sg = [] \<and> sp2 = [] \<or> sg = [0x2b] \<or> sg = [0x2d]"
    and "\<forall>c\<in>set ds. isdigit c" "ds \<noteq> []" "rest = [] \<or> \<not> isdigit (hd rest)" "0 < w"
  defines "v \<equiv> if sg = [0x2d] then - int (numval 0 ds) else int (numval 0 ds)"
  shows "StrTo_s w (sp @ sg @ sp2 @ ds @ rest) value = (max (- (2 ^ (w - 1))) (min v (2 ^ (w - 1) - 1)), rest)"
proof -
  let ?flag = "if sg = [0x2d] then IsNegative else IsPositive" and ?n = "numval 0 ds"
  have "case sg of [] \<Rightarrow> sp2 = [] \<and> CheckSign (StrToSIntAux w) (hd ds) = (?flag, False)
      | [c] \<Rightarrow> \<not> isspace c \<and> CheckSign (StrToSIntAux w) c = (?flag, True) | _ \<Rightarrow> False"
    using assms(3-5) by (cases ds) (auto simp: StrToSIntAux_def isspace_def)
  from StrToNum_digits[OF assms(1,2,4,5,6) this, of "value"]
  obtain r where r: "StrTo_s w (sp @ sg @ sp2 @ ds @ rest) value =
    (if ?n \<le> 2 ^ w - 1 then sint_result w ?flag ?n
     else sint_result w (if ?flag = IsNegative then IsNegativeMin else ?flag)
            (if ?flag = IsNegative then r else 2 ^ (w - 1) - 1), rest)"
    by (auto simp: StrTo_s_def StrToSIntAux_def split: if_splits)
  obtain M where M: "(2::nat) ^ (w - 1) = M" "(2::int) ^ (w - 1) = int M" "(2::nat) ^ w = 2 * M" "1 \<le> M"
  proof
    show "(2::nat) ^ (w - 1) = 2 ^ (w - 1)" "(2::int) ^ (w - 1) = int (2 ^ (w - 1))"
      "(2::nat) ^ w = 2 * 2 ^ (w - 1)" "1 \<le> (2::nat) ^ (w - 1)"
      using assms(7) by (cases w; simp)+
  qed
  have res: "sint_result w IsPositive n = min (int n) (int M - 1)"
    "sint_result w IsNegative n = max (- int M) (- int n)" "sint_result w IsNegativeMin n = - int M" for n
    unfolding sint_result.simps M(1,2) using M(4) by (auto simp: min_def max_def)
  show ?thesis
  proof (cases "sg = [0x2d]")
    case True
    then show ?thesis unfolding r v_def M using M(4) by (simp add: res del: sint_result.simps)
  next
    case False
    then show ?thesis unfolding r v_def M using M(4) by (simp add: res del: sint_result.simps)
  qed
qed

text \<open>the signed reader returns the value clamped to the range of the type.\<close>

theorem StrTo_signed_clamps:
  assumes "\<forall>c\<in>set sp. isspace c" "\<forall>c\<in>set sp2. isspace c"
    and "sg = [] \<and> sp2 = [] \<or> sg = [0x2b] \<or> sg = [0x2d]"
    and "\<forall>c\<in>set ds. isdigit c" "ds \<noteq> []" "rest = [] \<or> \<not> isdigit (hd rest)" "0 < w"
  defines "v \<equiv> if sg = [0x2d] then - int (numval 0 ds) else int (numval 0 ds)"
  shows "StrTo_s w (sp @ sg @ sp2 @ ds @ rest) value = (max (- (2 ^ (w - 1))) (min v (2 ^ (w - 1) - 1)), rest)"
  unfolding v_def using assms(1-7) by (rule StrTo_signed_clamps_aux)

lemma StrTo_signed_clamps_witness:
  "StrTo_s 8 (ascii '' -129x'') 0 = (-128, ascii ''x'')"
  using StrTo_signed_clamps[of "ascii '' ''" "[]" "ascii ''-''" "ascii ''129''" "ascii ''x''" 8 0]
  by (simp add: ascii_def isspace_def digval_def)

subsection \<open>Writers and their readers\<close>

definition no_leading_zero :: "byte list \<Rightarrow> bool" where
  "no_leading_zero ds \<longleftrightarrow> ds \<noteq> [] \<and> (hd ds = dig 0 \<longrightarrow> length ds = 1)"

lemma dig_eq_iff: "n < 10 \<Longrightarrow> m < 10 \<Longrightarrow> dig n = dig m \<longleftrightarrow> n = m"
  by (metis digval_dig)

lemma UIntToStrRev_spec:
  "\<exists>ds. UIntToStrRev pout n = ds @ pout \<and> (\<forall>c\<in>set ds. isdigit c) \<and> numval 0 ds = n \<and>
        ds \<noteq> [] \<and> (n \<noteq> 0 \<longrightarrow> hd ds \<noteq> dig 0) \<and> (n = 0 \<longrightarrow> length ds = 1)"
proof (induction pout n rule: UIntToStrRev.induct)
  case (1 pout n)
  consider "n \<ge> 100" | "n < 10" | "10 \<le> n" "n < 100" by linarith
  then show ?case
  proof cases
    case 1
    let ?q = "n div 100" and ?r = "n mod 100"
    obtain ds where ds: "UIntToStrRev (Put2Digs pout ?r) ?q = ds @ Put2Digs pout ?r" "\<forall>c\<in>set ds. isdigit c"
      "numval 0 ds = ?q" "ds \<noteq> []" "?q \<noteq> 0 \<longrightarrow> hd ds \<noteq> dig 0"
      using "1.IH"[OF 1] by blast
    have q: "?q \<noteq> 0" using 1 by simp
    have two: "Put2Digs pout ?r = [dig (?r div 10), dig (?r mod 10)] @ pout" by (simp add: Put2Digs_eq)
    have digs: "digval (dig (?r div 10)) = ?r div 10" "digval (dig (?r mod 10)) = ?r mod 10"
      by (rule digval_dig; simp add: less_mult_imp_div_less)+
    have "?r div 10 * 10 + ?r mod 10 = ?r" "?q * 100 + ?r = n" by (rule div_mult_mod_eq)+
    moreover have "(q * 10 + a) * 10 + b = m" if "a * 10 + b = r" "q * 100 + r = m" for a b q r m :: nat
      using that by simp
    ultimately have sum: "(?q * 10 + ?r div 10) * 10 + ?r mod 10 = n" by blast
    have "numval 0 (ds @ [dig (?r div 10), dig (?r mod 10)]) = n"
      using sum unfolding numval_simps digs ds(3) .
    moreover have "UIntToStrRev pout n = (ds @ [dig (?r div 10), dig (?r mod 10)]) @ pout"
      using 1 ds(1) by (simp add: UIntToStrRev.simps[of pout n] two)
    moreover have "\<forall>c\<in>set (ds @ [dig (?r div 10), dig (?r mod 10)]). isdigit c"
      using ds(2) digs by (auto simp: div_le_dividend)
    ultimately show ?thesis using ds(4,5) q 1
      by (intro exI[of _ "ds @ [dig (?r div 10), dig (?r mod 10)]"]) simp
  next
    case 2
    then show ?thesis
      by (intro exI[of _ "[dig n]"]) (auto simp: UIntToStrRev.simps[of pout n] dig_eq_iff)
  next
    case 3
    then have "dig (n div 10) \<noteq> dig 0" "n div 10 < 10" using dig_eq_iff[of "n div 10" 0] by auto
    then show ?thesis using 3
      by (intro exI[of _ "[dig (n div 10), dig (n mod 10)]"])
         (auto simp: UIntToStrRev.simps[of pout n] Put2Digs_eq)
  qed
qed

lemma SIntToStrRev_spec:
  "\<exists>ds. SIntToStrRev pout v = (if v < 0 then [0x2d] else []) @ ds @ pout \<and>
        (\<forall>c\<in>set ds. isdigit c) \<and> int (numval 0 ds) = \<bar>v\<bar> \<and> ds \<noteq> []"
  using UIntToStrRev_spec[of pout "abs_cast v"] by (force simp: SIntToStrRev_def abs_cast_def Let_def)

lemma StrTo_u_UIntToStrRev:
  assumes "rest = [] \<or> \<not> isdigit (hd rest)" "n < 2 ^ w"
  shows "StrTo_u w (UIntToStrRev rest n) null = (n, rest)"
proof -
  obtain ds where ds: "UIntToStrRev rest n = ds @ rest" "\<forall>c\<in>set ds. isdigit c" "numval 0 ds = n"
    "ds \<noteq> []" using UIntToStrRev_spec[of rest n] by blast
  then show ?thesis
    using StrTo_unsigned_saturates_aux[of "[]" "[]" "[]" ds rest w null] assms by simp
qed

lemma UIntToStrRev_append: "UIntToStrRev (xs @ ys) n = UIntToStrRev xs n @ ys"
proof (induction xs n rule: UIntToStrRev.induct)
  case (1 xs n)
  then show ?case
    by (simp add: UIntToStrRev.simps[of xs n] UIntToStrRev.simps[of "xs @ ys" n] Put2Digs_def)
qed

lemma UIntToStrRev_length_le: "length (UIntToStrRev pout n) \<le> length pout + n + 1"
proof (induction pout n rule: UIntToStrRev.induct)
  case (1 pout n)
  then show ?case
    by (cases "n \<ge> 100") (force simp: UIntToStrRev.simps[of pout n] Put2Digs_def)+
qed

lemma decimal_text_roundtrip_facts:
  assumes "rest = [] \<or> \<not> isdigit (hd rest)"
  shows "n < 2 ^ w \<Longrightarrow> StrTo_u w (UIntToStrRev rest n) null = (n, rest)"
    and "0 < w \<Longrightarrow> - (2 ^ (w - 1)) \<le> v \<Longrightarrow> v < 2 ^ (w - 1) \<Longrightarrow> StrTo_s w (SIntToStrRev rest v) null' = (v, rest)"
    and "n \<noteq> 0 \<Longrightarrow> hd (UIntToStrRev rest n) \<noteq> dig 0"
proof -
  obtain ds where ds: "UIntToStrRev rest n = ds @ rest" "\<forall>c\<in>set ds. isdigit c" "numval 0 ds = n"
    "ds \<noteq> []" "n \<noteq> 0 \<longrightarrow> hd ds \<noteq> dig 0" using UIntToStrRev_spec[of rest n] by blast
  show "n < 2 ^ w \<Longrightarrow> StrTo_u w (UIntToStrRev rest n) null = (n, rest)"
    using assms by (rule StrTo_u_UIntToStrRev)
  show "n \<noteq> 0 \<Longrightarrow> hd (UIntToStrRev rest n) \<noteq> dig 0" using ds by simp
  obtain es where es: "SIntToStrRev rest v = [] @ (if v < 0 then [0x2d] else []) @ [] @ es @ rest"
    "\<forall>c\<in>set es. isdigit c" "int (numval 0 es) = \<bar>v\<bar>" "es \<noteq> []"
    using SIntToStrRev_spec[of rest v] by auto
  show "StrTo_s w (SIntToStrRev rest v) null' = (v, rest)"
    if "0 < w" "- (2 ^ (w - 1)) \<le> v" "v < 2 ^ (w - 1)"
    unfolding es(1)
    using that StrTo_signed_clamps_aux[of "[]" "[]" "if v < 0 then [0x2d] else []" es rest w null'] es assms
    by (auto split: if_splits)
qed

text \<open>what the decimal writers put in front of a text that does not begin with a digit, the
  readers take off again, with the same value, for every value of the type, the smallest
  signed one included; the writer uses no leading zero.\<close>

theorem decimal_text_roundtrip:
  assumes "rest = [] \<or> \<not> isdigit (hd rest)"
  shows "(n < 2 ^ w \<longrightarrow> StrTo_u w (UIntToStrRev rest n) null = (n, rest)) \<and>
    (0 < w \<longrightarrow> - (2 ^ (w - 1)) \<le> v \<longrightarrow> v < 2 ^ (w - 1) \<longrightarrow> StrTo_s w (SIntToStrRev rest v) null' = (v, rest)) \<and>
    (n \<noteq> 0 \<longrightarrow> hd (UIntToStrRev rest n) \<noteq> dig 0)"
  using decimal_text_roundtrip_facts[OF assms] by blast

lemma decimal_text_roundtrip_witness:
  "StrTo_u 64 (UIntToStrRev (ascii ''|x'') 1234567) 0 = (1234567, ascii ''|x'')"
proof -
  have "ascii ''|x'' = [] \<or> \<not> isdigit (hd (ascii ''|x''))" by (simp add: ascii_def digval_def)
  from decimal_text_roundtrip[OF this, of 1234567 64 0] show ?thesis by simp
qed

subsection \<open>Fixed-width fields\<close>

lemma AuxPic9ToStr_spec:
  "v < 10 ^ w \<Longrightarrow> \<exists>ds. AuxPic9ToStr w pout v = ds @ pout \<and> length ds = w \<and>
     (\<forall>c\<in>set ds. isdigit c) \<and> numval 0 ds = v"
proof (induction w pout v rule: AuxPic9ToStr.induct)
  case (2 pout v)
  then show ?case by (intro exI[of _ "[dig v]"]) auto
next
  case (3 pout v)
  then show ?case
    by (intro exI[of _ "[dig (v div 10), dig (v mod 10)]"]) (auto simp: Put2Digs_eq less_mult_imp_div_less)
next
  case (4 w pout v)
  let ?q = "v div 100" and ?r = "v mod 100"
  have "?q < 10 ^ Suc w" using "4.prems" by (simp add: less_mult_imp_div_less)
  from "4.IH"[OF this] obtain ds where ds: "AuxPic9ToStr (Suc w) (Put2Digs pout ?r) ?q = ds @ Put2Digs pout ?r"
    "length ds = Suc w" "\<forall>c\<in>set ds. isdigit c" "numval 0 ds = ?q" by blast
  have two: "Put2Digs pout ?r = [dig (?r div 10), dig (?r mod 10)] @ pout" by (simp add: Put2Digs_eq)
  have digs: "digval (dig (?r div 10)) = ?r div 10" "digval (dig (?r mod 10)) = ?r mod 10"
    by (rule digval_dig; simp add: less_mult_imp_div_less)+
  have "?r div 10 * 10 + ?r mod 10 = ?r" "?q * 100 + ?r = v" by (rule div_mult_mod_eq)+
  moreover have "(q * 10 + a) * 10 + b = m" if "a * 10 + b = r" "q * 100 + r = m" for a b q r m :: nat
    using that by simp
  ultimately have sum: "(?q * 10 + ?r div 10) * 10 + ?r mod 10 = v" by blast
  have "numval 0 (ds @ [dig (?r div 10), dig (?r mod 10)]) = v"
    using sum unfolding numval_simps digs ds(4) .
  moreover have "\<forall>c\<in>set (ds @ [dig (?r div 10), dig (?r mod 10)]). isdigit c"
    using ds(3) digs by auto
  moreover have "AuxPic9ToStr (Suc (Suc (Suc w))) pout v = (ds @ [dig (?r div 10), dig (?r mod 10)]) @ pout"
    using ds(1) two by simp
  ultimately show ?case
    using ds(2) by (intro exI[of _ "ds @ [dig (?r div 10), dig (?r mod 10)]"]) simp
qed simp

lemma scast_digit: "isdigit c \<Longrightarrow> scast c - 0x30 = (word_of_nat (digval c) :: 'w::len word)"
proof -
  assume "isdigit c"
  then have "c = dig (digval c)" and "digval c < 10" by (simp_all add: isdigit_dig[symmetric])
  moreover have "scast (dig n) - 0x30 = (word_of_nat n :: 'w word)" if "n < 10" for n
    using less10_cases[OF that] by (elim disjE; simp add: dig_def scast_eq)
  ultimately show ?thesis by metis
qed

lemma RStrTo_digits:
  "(\<forall>c\<in>set ds. isdigit c) \<Longrightarrow> RStrTo (rev ds) = (word_of_nat (numval 0 ds) :: 'w::len word)"
  by (induction ds rule: rev_induct) (simp_all add: scast_digit)

text \<open>a value written as a fixed-width field of digits takes exactly that width and is read
  back; so is the value of a byte in a field of three.\<close>

theorem pic9_roundtrip:
  assumes "v < 10 ^ width"
  shows "Pic9StrTo width (Pic9ToStrRev width pout v) = (word_of_nat v :: 'w::len word) \<and>
    drop width (Pic9ToStrRev width pout v) = pout \<and>
    (\<forall>c\<in>set (take width (Pic9ToStrRev width pout v)). isdigit c)"
  using AuxPic9ToStr_spec[OF assms, of pout]
  by (auto simp: Pic9StrTo_def Pic9ToStrRev_def RStrTo_digits)

lemma pic9_roundtrip_witness:
  "Pic9StrTo 3 (Pic9ToStrRev 3 (ascii ''|'') 97) = (97 :: 8 word)"
  using pic9_roundtrip[of 97 3 "ascii ''|''", where 'w = 8] by simp

end
