(* ===== verification/FixMessage.thy ===== *)
theory FixMessage
  imports NumText
begin

text \<open>
  FIX messages, \<open>fon9/fix/FixBase.hpp\<close>, \<open>FixParser.hpp/.cpp\<close>, \<open>FixBuilder.hpp/.cpp\<close> and
  \<open>FixCompID.hpp/.cpp\<close>. A \<open>StrView\<close> is the list of its bytes. The parser reads a few bytes
  behind the end of a view; the memory there is the parameter \<open>after\<close> of every operation that
  does, and \<open>peek\<close> reads through it. \<open>FieldArray\<close> is a total function because \<open>LevelArray\<close>
  creates a default field when it is asked for a tag it does not hold.
\<close>

abbreviation SPL :: byte where "SPL \<equiv> 1"
abbreviation EQ :: byte where "EQ \<equiv> 0x3d"

definition kFixTailWidth :: nat where "kFixTailWidth = 8"
definition kFixMinHeaderWidth :: nat where "kFixMinHeaderWidth = 16"
definition kFixMaxBodyLength :: nat where "kFixMaxBodyLength = 1024 * 1024"
definition kMaxDupFieldCount :: nat where "kMaxDupFieldCount = 4"

definition SPLTAGEQ :: "nat \<Rightarrow> byte list" where
  "SPLTAGEQ tag = SPL # UIntToStrRev [EQ] tag"

definition BEGIN_HEADER_V44 :: "byte list" where
  "BEGIN_HEADER_V44 = ascii ''8=FIX.4.4'' @ SPLTAGEQ 9"

definition peek :: "(nat \<Rightarrow> byte) \<Rightarrow> byte list \<Rightarrow> nat \<Rightarrow> byte" where
  "peek after msg i = (if i < length msg then msg ! i else after (i - length msg))"

definition mem :: "(nat \<Rightarrow> byte) \<Rightarrow> byte list \<Rightarrow> nat \<Rightarrow> nat \<Rightarrow> byte list" where
  "mem after msg b e = map (peek after msg) [b..<e]"

subsection \<open>\<open>FixParser\<close>\<close>

record fix_field =
  MIndex :: nat
  ValueCount :: nat
  Value :: "byte list"

record fix_parser =
  ExpectHeader :: "byte list"
  FieldArray :: "nat \<Rightarrow> fix_field"
  FieldList :: "nat list"
  MsgSeqNum :: nat
  ExpectSize :: nat
  MIndexNext :: nat
  MFields :: "byte list list"

datatype fix_result = EInvalidHeader | EFormat | EDupField | ERawData | EOverFixMaxBodyLength | ECheckSum
  | NeedsMore | Used nat

fun is_error :: "fix_result \<Rightarrow> bool" where
  "is_error NeedsMore = False"
| "is_error (Used n) = False"
| "is_error _ = True"

record verify_item =
  VerifyHeader :: bool
  VerifyCheckSum :: bool

record until =
  UntilMsgSeqNum :: bool
  UntilMsgType :: bool
  UntilSendingTime :: bool

abbreviation FullMessage :: until where
  "FullMessage \<equiv> \<lparr>UntilMsgSeqNum = False, UntilMsgType = False, UntilSendingTime = False\<rparr>"

definition FixParser :: fix_parser where
  "FixParser = \<lparr>ExpectHeader = [], FieldArray = (\<lambda>_. \<lparr>MIndex = 0, ValueCount = 0, Value = []\<rparr>),
     FieldList = [], MsgSeqNum = 0, ExpectSize = 0, MIndexNext = 0, MFields = []\<rparr>"

definition ClearParser :: "fix_parser \<Rightarrow> fix_parser" where
  "ClearParser p = p\<lparr>MsgSeqNum := 0, ExpectSize := 0, MIndexNext := 0,
     FieldArray := (\<lambda>tag. if tag \<in> set (FieldList p) then (FieldArray p tag)\<lparr>ValueCount := 0\<rparr>
                          else FieldArray p tag),
     FieldList := []\<rparr>"

definition ResetExpectHeader :: "byte list \<Rightarrow> fix_parser \<Rightarrow> fix_parser" where
  "ResetExpectHeader expectHeader p = p\<lparr>ExpectHeader := expectHeader\<rparr>"

definition GetField :: "fix_parser \<Rightarrow> nat \<Rightarrow> fix_field option" where
  "GetField p tag = (if ValueCount (FieldArray p tag) > 0 then Some (FieldArray p tag) else None)"

definition GetValue :: "fix_parser \<Rightarrow> fix_field \<Rightarrow> nat \<Rightarrow> byte list option" where
  "GetValue p fld index =
     (if index \<ge> ValueCount fld then None
      else if index = 0 then Some (Value fld)
      else Some (MFields p ! (MIndex fld + (index - 1))))"

text \<open>The positions that \<open>Verify\<close> computes from the place where the body length ends: the end of the
  body and the end of the message, in 32 bits.\<close>

definition verify_ends :: "nat \<Rightarrow> nat \<Rightarrow> nat \<times> nat" where
  "verify_ends begin bodyLength =
     (let expsz = uadd 32 begin bodyLength in (expsz, uadd 32 expsz kFixTailWidth))"

definition VerifyBody ::
  "(nat \<Rightarrow> byte) \<Rightarrow> byte list \<Rightarrow> nat \<Rightarrow> verify_item \<Rightarrow> fix_parser \<Rightarrow> fix_result \<times> byte list \<times> fix_parser" where
  "VerifyBody after fixmsg msgbeg vitem p =
     (case StrTo_u 32 (drop msgbeg fixmsg) 0 of (bodyLength, rest) \<Rightarrow>
        if rest = [] \<or> hd rest \<noteq> SPL then (EInvalidHeader, rest, p)
        else let begin = length fixmsg - length rest
          in case verify_ends begin bodyLength of (pend, expsz) \<Rightarrow>
            if length fixmsg < expsz then
              (if bodyLength > kFixMaxBodyLength then EOverFixMaxBodyLength else NeedsMore,
               fixmsg, p\<lparr>ExpectSize := expsz mod 2 ^ 16\<rparr>)
            else if VerifyCheckSum vitem \<and>
              \<not> (peek after fixmsg pend = SPL \<and> peek after fixmsg (pend + 1) = 0x31
                 \<and> peek after fixmsg (pend + 2) = 0x30 \<and> peek after fixmsg (pend + 3) = EQ)
              then (EFormat, rest, p)
            else if VerifyCheckSum vitem \<and>
              Pic9StrTo 3 (mem after fixmsg (pend + 4) (pend + 7)) - sum_list (mem after fixmsg 0 pend) \<noteq> SPL
              then (ECheckSum, rest, (ClearParser p)\<lparr>ExpectSize := expsz mod 2 ^ 16\<rparr>)
            else (if expsz = 0 then NeedsMore else Used expsz, mem after fixmsg (begin + 1) pend, p))"

definition Verify ::
  "(nat \<Rightarrow> byte) \<Rightarrow> byte list \<Rightarrow> verify_item \<Rightarrow> fix_parser \<Rightarrow> fix_result \<times> byte list \<times> fix_parser" where
  "Verify after fixmsg vitem p =
     (let msgsz = length fixmsg; expHeaderWidth = length (ExpectHeader p)
      in if ExpectSize p > 0 \<and> msgsz < ExpectSize p then (NeedsMore, fixmsg, p)
         else if expHeaderWidth > 0 then
           (if msgsz \<le> expHeaderWidth + kFixTailWidth
            then (NeedsMore, fixmsg, p\<lparr>ExpectSize := (expHeaderWidth + kFixTailWidth + 1) mod 2 ^ 16\<rparr>)
            else if VerifyHeader vitem \<and> take expHeaderWidth fixmsg \<noteq> ExpectHeader p
            then (EInvalidHeader, fixmsg, p)
            else VerifyBody after fixmsg expHeaderWidth vitem p)
         else
           (if msgsz \<le> kFixMinHeaderWidth + kFixTailWidth
            then (NeedsMore, fixmsg, p\<lparr>ExpectSize := kFixMinHeaderWidth + kFixTailWidth + 1\<rparr>)
            else if fixmsg ! 0 \<noteq> 0x38 \<or> fixmsg ! 1 \<noteq> EQ then (EInvalidHeader, fixmsg, p)
            else if SPL \<notin> set (drop 2 fixmsg) then (EInvalidHeader, fixmsg, p)
            else let at = 2 + length (takeWhile (\<lambda>c. c \<noteq> SPL) (drop 2 fixmsg))
              in if peek after fixmsg (at + 1) \<noteq> 0x39 \<or> peek after fixmsg (at + 2) \<noteq> EQ
                 then (EInvalidHeader, fixmsg, p)
                 else VerifyBody after fixmsg (at + 3) vitem
                        (p\<lparr>ExpectHeader := mem after fixmsg 0 (at + 3)\<rparr>)))"

text \<open>One round of the loop of \<open>ParseFields\<close>: where it fails, the result and the rest.\<close>

definition FieldSlot :: "nat \<Rightarrow> fix_parser \<Rightarrow> fix_parser" where
  "FieldSlot tag p =
     (if ValueCount (FieldArray p tag) = 1 then
        let next = uadd 16 (MIndexNext p) kMaxDupFieldCount
        in p\<lparr>FieldArray := (FieldArray p)(tag := (FieldArray p tag)\<lparr>MIndex := MIndexNext p\<rparr>),
             MIndexNext := next,
             MFields := (if length (MFields p) < next
                         then MFields p @ replicate (next + kMaxDupFieldCount * 4 - length (MFields p)) []
                         else MFields p)\<rparr>
      else p)"

definition SetFieldValue :: "nat \<Rightarrow> byte list \<Rightarrow> fix_parser \<Rightarrow> fix_parser" where
  "SetFieldValue tag val p =
     (let fld = FieldArray p tag;
          p1 = (if ValueCount fld = 0
                then p\<lparr>FieldArray := (FieldArray p)(tag := fld\<lparr>Value := val, ValueCount := 1\<rparr>)\<rparr>
                else p\<lparr>FieldArray := (FieldArray p)(tag := fld\<lparr>ValueCount := ValueCount fld + 1\<rparr>),
                       MFields := (MFields p)[MIndex fld + (ValueCount fld - 1) := val]\<rparr>)
      in p1\<lparr>FieldList := FieldList p1 @ [tag]\<rparr>)"

definition FetchFieldValue ::
  "(nat \<Rightarrow> byte) \<Rightarrow> nat \<Rightarrow> byte list \<Rightarrow> fix_parser \<Rightarrow> (byte list \<times> byte list) option" where
  "FetchFieldValue after tag fixmsg p =
     (case (if tag = 96 then GetField p 95 else None) of
        None \<Rightarrow> Some (StrFetchNoTrim fixmsg SPL)
      | Some fldRawDataLength \<Rightarrow>
          let rawDataLength = fst (StrTo_u 32 (Value fldRawDataLength) (2 ^ 32 - 1))
          in if rawDataLength > length fixmsg then None
             else if peek after fixmsg rawDataLength \<noteq> SPL then None
             else Some (take rawDataLength fixmsg,
                        drop (if rawDataLength \<noteq> length fixmsg then rawDataLength + 1 else rawDataLength) fixmsg))"

definition ParseField ::
  "(nat \<Rightarrow> byte) \<Rightarrow> byte list \<Rightarrow> fix_parser \<Rightarrow> fix_result \<times> byte list \<times> fix_parser \<times> nat" where
  "ParseField after fixmsg p =
     (case StrTo_u 32 fixmsg 0 of (tag, rest) \<Rightarrow>
        if tag = 0 \<or> rest = [] \<or> hd rest \<noteq> EQ then (EFormat, rest, p, tag)
        else let s = tl rest
          in if ValueCount (FieldArray p tag) \<ge> kMaxDupFieldCount + 1 then (EDupField, s, p, tag)
             else let p1 = FieldSlot tag p
               in case FetchFieldValue after tag s p1 of
                    None \<Rightarrow> (ERawData, s, p1, tag)
                  | Some (val, s') \<Rightarrow> (Used 1, s', SetFieldValue tag val p1, tag))"

definition UntilRemove :: "nat \<Rightarrow> until \<Rightarrow> until" where
  "UntilRemove tag u =
     (if tag = 34 then u\<lparr>UntilMsgSeqNum := False\<rparr>
      else if tag = 35 then u\<lparr>UntilMsgType := False\<rparr>
      else if tag = 52 then u\<lparr>UntilSendingTime := False\<rparr>
      else u)"

definition ParseFieldsEnd :: "fix_parser \<Rightarrow> fix_parser" where
  "ParseFieldsEnd p =
     p\<lparr>MsgSeqNum := (case GetField p 34 of None \<Rightarrow> 0 | Some fld \<Rightarrow> fst (StrTo_u 32 (Value fld) 0))\<rparr>"

lemma StrToNum_loop_length: "length (snd (snd (StrToNum_loop aux flag res s))) \<le> length s"
  by (induction aux flag res s rule: StrToNum_loop.induct)
     (auto simp: Let_def split_beta intro: le_SucI length_dropWhile_le)

lemma StrToNum_at_length: "length (snd (StrToNum_at aux flag s out)) \<le> length s"
  using StrToNum_loop_length[of aux flag 0 s] by (simp add: StrToNum_at_def split_beta)

lemma StrTrimHead_length: "length (StrTrimHead s) \<le> length s"
  by (simp add: StrTrimHead_def length_dropWhile_le)

lemma StrToNum_length: "length (snd (StrToNum aux s out)) \<le> length s"
proof (cases "StrTrimHead s")
  case (Cons c cs)
  have a: "length (c # cs) \<le> length s" using StrTrimHead_length[of s] Cons by simp
  have b: "length (StrTrimHead cs) \<le> length cs" by (rule StrTrimHead_length)
  have d: "length (snd (StrToNum_at aux f t out)) \<le> length t" for f t by (rule StrToNum_at_length)
  show ?thesis
  proof (cases "snd (CheckSign aux c)")
    case True
    show ?thesis
    proof (cases "StrTrimHead cs")
      case Nil
      then show ?thesis using Cons True by (simp add: StrToNum_def split_beta)
    next
      case (Cons e es)
      then show ?thesis using \<open>StrTrimHead s = c # cs\<close> True a b d[of "fst (CheckSign aux c)" "e # es"]
        by (simp add: StrToNum_def split_beta)
    qed
  next
    case False
    then show ?thesis using Cons a d[of "fst (CheckSign aux c)" "c # cs"]
      by (simp add: StrToNum_def split_beta)
  qed
qed (simp add: StrToNum_def)

lemma StrTo_u_length: "StrTo_u w s v = (n, rest) \<Longrightarrow> length rest \<le> length s"
  using StrToNum_length[of "StrToUIntAux w" s "int v"] by (auto simp: StrTo_u_def split: prod.splits)

lemma StrFetchNoTrim_length: "length (snd (StrFetchNoTrim s d)) \<le> length s"
  using length_dropWhile_le[of "\<lambda>c. c \<noteq> d" s] by (auto simp: StrFetchNoTrim_def split: list.split)

lemma FetchFieldValue_length:
  "FetchFieldValue after tag s p = Some (v, s') \<Longrightarrow> length s' \<le> length s"
  using StrFetchNoTrim_length[of s SPL]
  by (auto simp: FetchFieldValue_def Let_def split: option.splits if_splits)

lemma ParseField_length:
  "ParseField after s p = (r, s', p', tag) \<Longrightarrow> \<not> is_error r \<Longrightarrow> length s' < length s"
proof -
  assume a: "ParseField after s p = (r, s', p', tag)" "\<not> is_error r"
  obtain t rest where t: "StrTo_u 32 s 0 = (t, rest)" by (cases "StrTo_u 32 s 0")
  have "length rest \<le> length s" using StrTo_u_length[OF t] .
  then show "length s' < length s"
    using a FetchFieldValue_length[of after t "tl rest" "FieldSlot t p"]
    by (cases rest) (fastforce simp: ParseField_def t Let_def split: if_splits option.splits)+
qed

function ParseFields_loop ::
  "(nat \<Rightarrow> byte) \<Rightarrow> byte list \<Rightarrow> until \<Rightarrow> fix_parser \<Rightarrow> fix_result \<times> byte list \<times> fix_parser" where
  "ParseFields_loop after fixmsg until p =
     (if fixmsg = [] then (Used 1, [], p)
      else case ParseField after fixmsg p of (r, s, p', tag) \<Rightarrow>
        if is_error r then (r, s, p')
        else let u = UntilRemove tag until
          in if until \<noteq> FullMessage \<and> u = FullMessage then (Used 1, s, p')
             else ParseFields_loop after s u p')"
  by pat_completeness auto
termination
  by (relation "measure (\<lambda>(_, s, _). length s)") (auto dest: ParseField_length[OF sym])

declare ParseFields_loop.simps [simp del]

definition ParseFields ::
  "(nat \<Rightarrow> byte) \<Rightarrow> byte list \<Rightarrow> until \<Rightarrow> fix_parser \<Rightarrow> fix_result \<times> byte list \<times> fix_parser" where
  "ParseFields after fixmsg until p =
     (case ParseFields_loop after fixmsg until p of (r, s, p') \<Rightarrow>
        if is_error r then (r, s, p') else (Used 1, s, ParseFieldsEnd p'))"

definition Parse ::
  "(nat \<Rightarrow> byte) \<Rightarrow> byte list \<Rightarrow> until \<Rightarrow> fix_parser \<Rightarrow> fix_result \<times> byte list \<times> fix_parser" where
  "Parse after fixmsg until p =
     (let full = (until = FullMessage)
      in case Verify after fixmsg \<lparr>VerifyHeader = full, VerifyCheckSum = full\<rparr> p of (rcode, s, p1) \<Rightarrow>
        if rcode = NeedsMore \<or> rcode = ECheckSum then (rcode, s, p1)
        else if is_error rcode then (rcode, s, ClearParser p1)
        else case ParseFields (\<lambda>i. peek after fixmsg (case rcode of Used n \<Rightarrow> n - kFixTailWidth + i | _ \<Rightarrow> i))
                    s until (ClearParser p1) of (pcode, s', p2) \<Rightarrow>
               if is_error pcode then (pcode, s', p2) else (rcode, s', p2))"

subsection \<open>\<open>FixBuilder\<close>\<close>

text \<open>\<open>Buffer\<close> is what was put in front of the space kept for the checksum field. A time is given by its
  two texts: \<open>FIXMS\<close> as \<open>RevPut_TimeFIXMS\<close> writes it into a message, \<open>Stamp\<close> as the recorder prints it.
  \<open>Time\<close> is the time put last (\<open>TimeFIXMS_\<close> and \<open>Time_\<close>), which \<open>PutUtcNow\<close> uses again.\<close>

record tstamp =
  FIXMS :: "byte list"
  Stamp :: "byte list"

record fix_builder =
  Buffer :: "byte list"
  CheckSumPos :: bool
  Time :: "tstamp option"

definition FixBuilder :: fix_builder where
  "FixBuilder = \<lparr>Buffer = [], CheckSumPos = True, Time = None\<rparr>"

definition RevPut :: "byte list \<Rightarrow> fix_builder \<Rightarrow> fix_builder" where
  "RevPut s b = b\<lparr>Buffer := s @ Buffer b\<rparr>"

definition PutUtcTime :: "tstamp \<Rightarrow> fix_builder \<Rightarrow> fix_builder" where
  "PutUtcTime now b = (RevPut (FIXMS now) b)\<lparr>Time := Some now\<rparr>"

definition PutUtcNow :: "tstamp \<Rightarrow> fix_builder \<Rightarrow> fix_builder" where
  "PutUtcNow now b = (case Time b of Some t \<Rightarrow> RevPut (FIXMS t) b | None \<Rightarrow> PutUtcTime now b)"

definition PutCheckSumField :: "byte \<Rightarrow> byte list" where
  "PutCheckSumField cks = SPL # 0x31 # 0x30 # EQ # Pic9ToStrRev 3 [SPL] (unat cks)"

definition Final :: "byte list \<Rightarrow> fix_builder \<Rightarrow> byte list" where
  "Final beginHeader b =
     (let bodyLength = length (Buffer b);
          msg = beginHeader @ UIntToStrRev (Buffer b) bodyLength
      in msg @ PutCheckSumField (SPL + sum_list msg))"

subsection \<open>\<open>CompID\<close>\<close>

record comp_id =
  CompID :: "byte list"
  SubID :: "byte list"

record comp_ids =
  Sender :: comp_id
  Target :: comp_id
  Header :: "byte list"

definition PutHeader :: "comp_id \<Rightarrow> nat \<Rightarrow> nat \<Rightarrow> byte list" where
  "PutHeader c tagCompID tagSubID =
     SPLTAGEQ tagCompID @ CompID c @ (if SubID c \<noteq> [] then SPLTAGEQ tagSubID @ SubID c else [])"

definition CompIDs :: "byte list \<Rightarrow> byte list \<Rightarrow> byte list \<Rightarrow> byte list \<Rightarrow> comp_ids" where
  "CompIDs senderCompID senderSubID targetCompID targetSubID =
     (let snd' = \<lparr>CompID = senderCompID, SubID = senderSubID\<rparr>;
          tgt = \<lparr>CompID = targetCompID, SubID = targetSubID\<rparr>
      in \<lparr>Sender = snd', Target = tgt, Header = PutHeader snd' 49 50 @ PutHeader tgt 56 57\<rparr>)"

definition CompID_Check :: "comp_id \<Rightarrow> fix_parser \<Rightarrow> nat \<Rightarrow> nat \<Rightarrow> nat" where
  "CompID_Check c fixmsg tagCompID tagSubID =
     (if SubID c \<noteq> [] \<and> (case GetField fixmsg tagSubID of None \<Rightarrow> True | Some f \<Rightarrow> Value f \<noteq> SubID c)
      then tagSubID
      else case GetField fixmsg tagCompID of
             Some f \<Rightarrow> (if Value f = CompID c then 0 else tagCompID)
           | None \<Rightarrow> tagCompID)"

definition CompIDs_Check :: "comp_ids \<Rightarrow> fix_parser \<Rightarrow> nat" where
  "CompIDs_Check c fixmsg =
     (let errTag = CompID_Check (Sender c) fixmsg 56 57
      in if errTag = 0 then CompID_Check (Target c) fixmsg 49 50 else errTag)"

subsection \<open>The fields of a message\<close>

definition vals :: "(nat \<times> byte list) list \<Rightarrow> nat \<Rightarrow> byte list list" where
  "vals fs t = map snd (filter (\<lambda>f. fst f = t) fs)"

lemma vals_snoc: "vals (fs @ [(t, v)]) t' = vals fs t' @ (if t' = t then [v] else [])"
  by (simp add: vals_def)

definition body_of :: "(nat \<times> byte list) list \<Rightarrow> byte list" where
  "body_of fs = concat (map (\<lambda>(t, v). SPLTAGEQ t @ v) fs)"

fun fields_text :: "(nat \<times> byte list) list \<Rightarrow> byte list" where
  "fields_text [] = []"
| "fields_text [(t, v)] = UIntToStrRev (EQ # v) t"
| "fields_text ((t, v) # f # fs) = UIntToStrRev (EQ # v @ SPL # fields_text (f # fs)) t"

lemma body_of_text: "fs \<noteq> [] \<Longrightarrow> body_of fs = SPL # fields_text fs"
proof (induction fs rule: fields_text.induct)
  case (2 t v)
  then show ?case using UIntToStrRev_append[of "[EQ]" v t] by (simp add: body_of_def SPLTAGEQ_def)
next
  case (3 t v f fs)
  then show ?case
    using UIntToStrRev_append[of "[EQ]" "v @ SPL # fields_text (f # fs)" t]
    by (simp add: body_of_def SPLTAGEQ_def)
qed simp

text \<open>What the parser's tables say after the fields \<open>fs\<close>: counts, first values, and the further values in
  a block of \<open>MFields\<close> of their own for each repeated tag.\<close>

definition multi :: "(nat \<times> byte list) list \<Rightarrow> nat \<Rightarrow> bool" where
  "multi fs t \<longleftrightarrow> 2 \<le> length (vals fs t)"

definition FP :: "fix_parser \<Rightarrow> (nat \<times> byte list) list \<Rightarrow> bool" where
  "FP p fs \<longleftrightarrow> FieldList p = map fst fs \<and> MIndexNext p \<le> 4 * length fs \<and> MIndexNext p \<le> length (MFields p) \<and>
     (\<forall>t. ValueCount (FieldArray p t) = length (vals fs t) \<and> length (vals fs t) \<le> 5) \<and>
     (\<forall>t. vals fs t \<noteq> [] \<longrightarrow> Value (FieldArray p t) = hd (vals fs t)) \<and>
     (\<forall>t. multi fs t \<longrightarrow> MIndex (FieldArray p t) + 4 \<le> MIndexNext p) \<and>
     (\<forall>t i. multi fs t \<longrightarrow> Suc i < length (vals fs t) \<longrightarrow>
        MFields p ! (MIndex (FieldArray p t) + i) = vals fs t ! Suc i) \<and>
     (\<forall>t t'. t \<noteq> t' \<longrightarrow> multi fs t \<longrightarrow> multi fs t' \<longrightarrow>
        MIndex (FieldArray p t) + 4 \<le> MIndex (FieldArray p t') \<or>
        MIndex (FieldArray p t') + 4 \<le> MIndex (FieldArray p t))"

lemma multi_snoc: "multi (fs @ [(t, v)]) t' \<longleftrightarrow> multi fs t' \<or> t' = t \<and> length (vals fs t) = 1"
  by (auto simp: multi_def vals_snoc)

lemma FP_first:
  assumes "FP p fs" "vals fs t = []"
  shows "FP (SetFieldValue t v (FieldSlot t p)) (fs @ [(t, v)])"
proof -
  have "ValueCount (FieldArray p t) = 0" using assms by (simp add: FP_def)
  moreover have "\<not> multi fs t" using assms(2) by (simp add: multi_def)
  ultimately show ?thesis
    using assms by (auto simp: FP_def FieldSlot_def SetFieldValue_def vals_snoc multi_snoc)
qed

lemma FP_second:
  assumes "FP p fs" "length (vals fs t) = 1" "length fs < 2 ^ 13"
  shows "FP (SetFieldValue t v (FieldSlot t p)) (fs @ [(t, v)])"
proof -
  let ?m = "MIndexNext p"
  have c: "ValueCount (FieldArray p t) = 1" "?m \<le> 4 * length fs" "?m \<le> length (MFields p)"
    using assms by (simp_all add: FP_def)
  have nm: "\<not> multi fs t" using assms(2) by (simp add: multi_def)
  have next': "uadd 16 ?m 4 = ?m + 4"
    using c(2) assms(3) by (simp add: uadd_def)
  define M where "M = (if length (MFields p) < ?m + 4
      then MFields p @ replicate (20 + ?m - length (MFields p)) [] else MFields p)"
  have M: "?m + 4 \<le> length M" "\<And>i. i < length (MFields p) \<Longrightarrow> M ! i = MFields p ! i"
    by (auto simp: M_def nth_append)
  let ?q = "SetFieldValue t v (FieldSlot t p)"
  have q: "FieldList ?q = FieldList p @ [t]" "MIndexNext ?q = ?m + 4" "MFields ?q = M[?m := v]"
    "FieldArray ?q = (FieldArray p)(t := (FieldArray p t)\<lparr>MIndex := ?m, ValueCount := 2\<rparr>)"
    using c(1) by (simp_all add: FieldSlot_def SetFieldValue_def Let_def kMaxDupFieldCount_def next' M_def
        numeral_2_eq_2)
  obtain v0 where v0: "vals fs t = [v0]" using assms(2) by (cases "vals fs t") auto
  have old: "M[?m := v] ! (MIndex (FieldArray p t') + i) = vals fs t' ! Suc i"
    if "multi fs t'" "Suc i < length (vals fs t')" for t' i
  proof -
    have "length (vals fs t') \<le> 5" "MIndex (FieldArray p t') + 4 \<le> ?m"
      "MFields p ! (MIndex (FieldArray p t') + i) = vals fs t' ! Suc i"
      using assms(1) that by (simp_all add: FP_def)
    then show ?thesis using that(2) M(2)[of "MIndex (FieldArray p t') + i"] c(3) by (subst nth_list_update_neq) auto
  qed
  have own: "M[?m := v] ! ?m = v" using M(1) by simp
  show ?thesis
    using assms(1) nm M(1) v0 c(3) old own unfolding FP_def q
    by (auto simp: vals_snoc multi_snoc)
qed

lemma FP_more:
  assumes "FP p fs" "2 \<le> length (vals fs t)" "length (vals fs t) \<le> 4"
  shows "FP (SetFieldValue t v (FieldSlot t p)) (fs @ [(t, v)])"
proof -
  let ?n = "length (vals fs t)" and ?m = "MIndex (FieldArray p t)"
  have c: "ValueCount (FieldArray p t) = ?n" "?m + 4 \<le> MIndexNext p" "MIndexNext p \<le> length (MFields p)"
    using assms by (auto simp: FP_def multi_def)
  let ?q = "SetFieldValue t v (FieldSlot t p)"
  have q: "FieldList ?q = FieldList p @ [t]" "MIndexNext ?q = MIndexNext p"
    "MFields ?q = (MFields p)[?m + (?n - 1) := v]"
    "FieldArray ?q = (FieldArray p)(t := (FieldArray p t)\<lparr>ValueCount := ?n + 1\<rparr>)"
    using c(1) assms(2) by (auto simp: FieldSlot_def SetFieldValue_def Let_def)
  have m: "multi fs t" using assms(2) by (simp add: multi_def)
  have own: "Suc i < length (vals fs t @ [v]) \<Longrightarrow>
      (MFields p)[?m + (?n - 1) := v] ! (?m + i) = (vals fs t @ [v]) ! Suc i" for i
  proof (cases "Suc i = ?n")
    case True
    then have "i = ?n - 1" "?m + (?n - 1) < length (MFields p)" using c(2,3) assms(3) by auto
    then show ?thesis using True by (simp only: nth_list_update_eq) (simp add: nth_append True)
  next
    case False
    assume "Suc i < length (vals fs t @ [v])"
    with False have "Suc i < ?n" by simp
    moreover from this have "?m + (?n - 1) \<noteq> ?m + i" by simp
    moreover have "MFields p ! (?m + i) = vals fs t ! Suc i"
      using assms(1) m \<open>Suc i < ?n\<close> by (simp add: FP_def)
    ultimately show ?thesis by (subst nth_list_update_neq) (simp_all add: nth_append)
  qed
  have other: "(MFields p)[?m + (?n - 1) := v] ! (MIndex (FieldArray p t') + i) = vals fs t' ! Suc i"
    if "t' \<noteq> t" "multi fs t'" "Suc i < length (vals fs t')" for t' i
  proof -
    have "MIndex (FieldArray p t') + 4 \<le> ?m \<or> ?m + 4 \<le> MIndex (FieldArray p t')"
      using assms(1) m that unfolding FP_def by metis
    moreover have "length (vals fs t') \<le> 5" using assms(1) by (simp add: FP_def)
    ultimately have "MIndex (FieldArray p t') + i \<noteq> ?m + (?n - 1)" using that assms(2,3) by auto
    then show ?thesis using assms(1) that by (simp add: FP_def)
  qed
  have hd: "hd (vals fs t @ [v]) = hd (vals fs t)" "vals fs t \<noteq> []"
    using assms(2) by (cases "vals fs t"; simp)+
  show ?thesis
    using assms m own other hd unfolding FP_def q by (auto simp: vals_snoc multi_snoc)
qed

lemma FP_step:
  assumes "FP p fs" "length (vals fs t) \<le> 4" "length fs < 2 ^ 13"
  shows "FP (SetFieldValue t v (FieldSlot t p)) (fs @ [(t, v)])"
proof -
  consider "vals fs t = []" | "length (vals fs t) = 1" | "2 \<le> length (vals fs t)"
    by (cases "vals fs t" rule: remdups_adj.cases) auto
  then show ?thesis
    using FP_first[OF assms(1)] FP_second[OF assms(1) _ assms(3)] FP_more[OF assms(1) _ assms(2)]
    by cases blast+
qed

lemma FieldSlot_GetField: "FieldArray (FieldSlot t p) t' = FieldArray p t' \<or> t' = t"
  by (auto simp: FieldSlot_def Let_def)

lemma StrFetchNoTrim_value:
  assumes "SPL \<notin> set v" "r = [] \<or> hd r = SPL"
  shows "StrFetchNoTrim (v @ r) SPL = (v, tl r)"
proof -
  have w: "takeWhile (\<lambda>c. c \<noteq> SPL) (v @ r) = v" "dropWhile (\<lambda>c. c \<noteq> SPL) (v @ r) = r"
    using assms by (induction v) (cases r; auto)+
  show ?thesis unfolding StrFetchNoTrim_def w by (cases r) simp_all
qed

lemma digval_EQ_SPL [simp]: "\<not> isdigit EQ" "\<not> isdigit SPL"
  by (simp_all add: digval_def)

lemma ParseField_text:
  assumes "0 < t" "t < 2 ^ 32" "SPL \<notin> set v" "t \<noteq> 96" "r = [] \<or> hd r = SPL"
    and "ValueCount (FieldArray p t) \<le> 4"
  shows "ParseField after (UIntToStrRev (EQ # v @ r) t) p = (Used 1, tl r, SetFieldValue t v (FieldSlot t p), t)"
proof -
  have "StrTo_u 32 (UIntToStrRev (EQ # v @ r) t) 0 = (t, EQ # v @ r)"
    using assms(2) by (intro StrTo_u_UIntToStrRev) simp_all
  moreover have "FetchFieldValue after t (v @ r) q = Some (v, tl r)" for q
    using assms(4) StrFetchNoTrim_value[OF assms(3,5)] by (simp add: FetchFieldValue_def)
  ultimately show ?thesis
    using assms(1,6) by (simp add: ParseField_def Let_def kMaxDupFieldCount_def)
qed

text \<open>Fields that a message can hold: tags of 32 bits, values without separator, no tag more than five
  times, no raw data.\<close>

definition fields_ok :: "(nat \<times> byte list) list \<Rightarrow> bool" where
  "fields_ok fs \<longleftrightarrow> length fs < 2 ^ 13 \<and>
     (\<forall>(t, v)\<in>set fs. 0 < t \<and> t < 2 ^ 32 \<and> t \<noteq> 96 \<and> SPL \<notin> set v) \<and> (\<forall>t. length (vals fs t) \<le> 5)"

lemma UIntToStrRev_nonempty: "UIntToStrRev s n \<noteq> []"
  using UIntToStrRev_spec[of s n] by auto

lemma ParseFields_loop_text:
  assumes "FP p fs0" "fields_ok (fs0 @ fs)"
  shows "\<exists>p'. ParseFields_loop after (fields_text fs) FullMessage p = (Used 1, [], p') \<and> FP p' (fs0 @ fs) \<and>
           ExpectHeader p' = ExpectHeader p"
  using assms
proof (induction fs arbitrary: p fs0 rule: fields_text.induct)
  case 1
  then show ?case by (simp add: ParseFields_loop.simps)
next
  case (2 t v)
  let ?p = "SetFieldValue t v (FieldSlot t p)"
  have ok: "0 < t" "t < 2 ^ 32" "t \<noteq> 96" "SPL \<notin> set v" "length (vals fs0 t) \<le> 4" "length fs0 < 2 ^ 13"
    using "2.prems"(2) by (auto simp: fields_ok_def vals_snoc dest: spec[of _ t])
  have "ValueCount (FieldArray p t) \<le> 4" using ok(5) "2.prems"(1) by (simp add: FP_def)
  then have "ParseField after (UIntToStrRev (EQ # v @ []) t) p = (Used 1, tl [], ?p, t)"
    using ok by (intro ParseField_text) auto
  moreover have "UntilRemove t FullMessage = FullMessage" by (simp add: UntilRemove_def)
  moreover have "FP ?p (fs0 @ [(t, v)])" using FP_step "2.prems"(1) ok(5,6) by blast
  moreover have "ExpectHeader ?p = ExpectHeader p"
    by (simp add: SetFieldValue_def FieldSlot_def Let_def)
  ultimately show ?case
    using UIntToStrRev_nonempty[of "EQ # v" t]
    by (simp add: ParseFields_loop.simps[of after "UIntToStrRev (EQ # v) t"] ParseFields_loop.simps[of after "[]"])
next
  case (3 t v f fs)
  let ?p = "SetFieldValue t v (FieldSlot t p)" and ?r = "SPL # fields_text (f # fs)"
  have all: "\<forall>x. length (vals (fs0 @ (t, v) # f # fs) x) \<le> 5" using "3.prems"(2) by (simp add: fields_ok_def)
  have ok: "0 < t" "t < 2 ^ 32" "t \<noteq> 96" "SPL \<notin> set v" "length fs0 < 2 ^ 13"
    using "3.prems"(2) by (auto simp: fields_ok_def)
  have cnt: "length (vals fs0 t) \<le> 4" using all[THEN spec, of t] by (simp add: vals_def)
  have "ValueCount (FieldArray p t) \<le> 4" using cnt "3.prems"(1) by (simp add: FP_def)
  then have "ParseField after (UIntToStrRev (EQ # v @ ?r) t) p = (Used 1, tl ?r, ?p, t)"
    using ok by (intro ParseField_text) auto
  moreover have "UntilRemove t FullMessage = FullMessage" by (simp add: UntilRemove_def)
  moreover have "FP ?p (fs0 @ [(t, v)])" using FP_step "3.prems"(1) cnt ok(5) by blast
  moreover have "ExpectHeader ?p = ExpectHeader p"
    by (simp add: SetFieldValue_def FieldSlot_def Let_def)
  moreover have "fields_ok ((fs0 @ [(t, v)]) @ f # fs)" using "3.prems"(2) by simp
  ultimately show ?case
    using UIntToStrRev_nonempty[of "EQ # v @ ?r" t] "3.IH"[of ?p "fs0 @ [(t, v)]"]
    by (simp add: ParseFields_loop.simps[of after "UIntToStrRev (EQ # v @ ?r) t"])
qed

subsection \<open>The frame of a message\<close>

lemma mem_in: "e \<le> length s \<Longrightarrow> mem after s b e = take (e - b) (drop b s)"
  by (rule nth_equalityI) (auto simp: mem_def peek_def)

lemma PutCheckSumField_spec:
  "\<exists>c1 c2 c3. PutCheckSumField cks = [SPL, 0x31, 0x30, EQ, c1, c2, c3, SPL] \<and> Pic9StrTo 3 [c1, c2, c3] = cks"
proof -
  have "unat cks < 2 ^ LENGTH(8)" by (rule unsigned_less)
  then have "unat cks < 10 ^ 3" by simp
  from AuxPic9ToStr_spec[OF this, of "[SPL]"] obtain ds where
    ds: "AuxPic9ToStr 3 [SPL] (unat cks) = ds @ [SPL]" "length ds = 3" "\<forall>c\<in>set ds. isdigit c"
    "numval 0 ds = unat cks" by blast
  then obtain c1 c2 c3 where c: "ds = [c1, c2, c3]" by (auto simp: numeral_3_eq_3 length_Suc_conv)
  have "Pic9StrTo 3 ds = cks" using ds by (simp add: Pic9StrTo_def RStrTo_digits)
  then show ?thesis using ds c by (simp add: PutCheckSumField_def Pic9ToStrRev_def)
qed

text \<open>A message with a checksum field of any value.\<close>

definition frame :: "byte list \<Rightarrow> byte list \<Rightarrow> byte \<Rightarrow> byte list" where
  "frame hdr B cks = hdr @ UIntToStrRev B (length B) @ PutCheckSumField cks"

lemma Verify_frame:
  fixes hdr B :: "byte list" and cks :: byte
  defines "msg \<equiv> frame hdr B cks"
  assumes "ExpectHeader p = hdr" "hdr \<noteq> []" "ExpectSize p \<le> length (msg @ extra)"
    and "B = SPL # body" "length msg < 2 ^ 32"
  shows "\<exists>rest. Verify after (msg @ extra) vitem p =
    (if VerifyCheckSum vitem \<and> cks \<noteq> SPL + sum_list (hdr @ UIntToStrRev B (length B))
     then (ECheckSum, rest, (ClearParser p)\<lparr>ExpectSize := length msg mod 2 ^ 16\<rparr>)
     else (Used (length msg), body, p))"
proof -
  let ?n = "length B"
  obtain ds where ds: "UIntToStrRev B ?n = ds @ B" "\<forall>c\<in>set ds. isdigit c" "ds \<noteq> []"
    using UIntToStrRev_spec[of B ?n] by blast
  let ?m = "hdr @ ds @ B"
  obtain c1 c2 c3 where c: "PutCheckSumField cks = [SPL, 0x31, 0x30, EQ, c1, c2, c3, SPL]"
    "Pic9StrTo 3 [c1, c2, c3] = cks" using PutCheckSumField_spec by blast
  let ?tail = "[SPL, 0x31, 0x30, EQ, c1, c2, c3, SPL]"
  have msg: "msg = ?m @ ?tail" using c(1) ds(1) by (simp add: msg_def frame_def Let_def)
  let ?all = "msg @ extra" and ?pend = "length ?m"
  have len: "length msg = ?pend + 8" by (simp add: msg)
  have num: "StrTo_u 32 (drop (length hdr) ?all) 0 = (?n, B @ ?tail @ extra)"
  proof -
    have "drop (length hdr) ?all = UIntToStrRev (B @ ?tail @ extra) ?n"
      using ds(1) UIntToStrRev_append[of B "?tail @ extra" ?n] by (simp add: msg)
    moreover have "?n < 2 ^ 32" using assms(6) len by simp
    ultimately show ?thesis using assms(5) by (simp add: StrTo_u_UIntToStrRev)
  qed
  have ends: "verify_ends (length ?all - length (B @ ?tail @ extra)) ?n = (?pend, ?pend + 8)"
    using assms(6) len by (simp add: msg verify_ends_def kFixTailWidth_def wrap_simps Let_def)
  have pk0: "peek after ?all ?pend = SPL" "peek after ?all (?pend + 1) = 0x31"
    "peek after ?all (?pend + 2) = 0x30" "peek after ?all (?pend + 3) = EQ"
    by (simp_all add: peek_def msg nth_append)
  have cks: "mem after ?all (?pend + 4) (?pend + 7) = [c1, c2, c3]"
    by (subst mem_in) (simp_all add: msg)
  have sum: "mem after ?all 0 ?pend = ?m"
    by (subst mem_in) (simp_all add: msg)
  have body: "mem after ?all (length ?all - length (B @ ?tail @ extra) + 1) ?pend = body"
    by (subst mem_in) (use assms(5) in \<open>simp_all add: msg\<close>)
  have nz: "(B @ ?tail @ extra = [] \<or> hd (B @ ?tail @ extra) \<noteq> SPL) = False"
    "(length ?all < ?pend + 8) = False" "(?pend + 8 = 0) = False"
    "(cks - sum_list ?m \<noteq> SPL) = (cks \<noteq> SPL + sum_list ?m)"
    using assms(5) by (auto simp: msg algebra_simps)
  have "VerifyBody after ?all (length hdr) vitem p =
    (if VerifyCheckSum vitem \<and> cks \<noteq> SPL + sum_list ?m
     then (ECheckSum, B @ ?tail @ extra, (ClearParser p)\<lparr>ExpectSize := (?pend + 8) mod 2 ^ 16\<rparr>)
     else (Used (?pend + 8), body, p))"
    unfolding VerifyBody_def num
    by (simp only: prod.case Let_def ends pk0 cks sum body c(2) nz if_False simp_thms)
  moreover have "\<not> length ?all \<le> length hdr + kFixTailWidth" "take (length hdr) ?all = hdr"
    using assms(5) ds(3) by (auto simp: msg kFixTailWidth_def Suc_le_eq)
  ultimately have "Verify after ?all vitem p = (if VerifyCheckSum vitem \<and> cks \<noteq> SPL + sum_list ?m
     then (ECheckSum, B @ ?tail @ extra, (ClearParser p)\<lparr>ExpectSize := (?pend + 8) mod 2 ^ 16\<rparr>)
     else (Used (?pend + 8), body, p))"
    using assms(2-4) by (simp add: Verify_def Let_def)
  then show ?thesis unfolding len ds(1) by blast
qed

lemma Final_frame:
  "Final hdr b = frame hdr (Buffer b) (SPL + sum_list (hdr @ UIntToStrRev (Buffer b) (length (Buffer b))))"
  by (simp add: Final_def frame_def Let_def)

lemma PutCheckSumField_length: "length (PutCheckSumField x) = 8"
  using PutCheckSumField_spec[of x] by auto

lemma Final_length_le: "length (Final hdr b) \<le> length hdr + 2 * length (Buffer b) + 9"
  using UIntToStrRev_length_le[of "Buffer b" "length (Buffer b)"]
  by (simp add: Final_frame frame_def PutCheckSumField_length)

lemma Verify_Final:
  assumes "ExpectHeader p = hdr" "hdr \<noteq> []" "ExpectSize p \<le> length (Final hdr b @ extra)"
    and "Buffer b = SPL # body" "length (Final hdr b) < 2 ^ 32"
  shows "Verify after (Final hdr b @ extra) vitem p = (Used (length (Final hdr b)), body, p)"
  using Verify_frame[of p hdr "Buffer b" "SPL + sum_list (hdr @ UIntToStrRev (Buffer b) (length (Buffer b)))"
      extra body after vitem] assms
  by (auto simp: Final_frame)

definition parser_wf :: "fix_parser \<Rightarrow> bool" where
  "parser_wf p \<longleftrightarrow> (\<forall>t. ValueCount (FieldArray p t) > 0 \<longrightarrow> t \<in> set (FieldList p))"

lemma ClearParser_FP: "parser_wf p \<Longrightarrow> FP (ClearParser p) []"
  by (auto simp: FP_def ClearParser_def parser_wf_def vals_def multi_def)

lemma ClearParser_header [simp]: "ExpectHeader (ClearParser p) = ExpectHeader p"
  by (simp add: ClearParser_def)

lemma FP_values:
  assumes "FP p fs"
  shows "map (GetValue p (FieldArray p t)) [0..<ValueCount (FieldArray p t)] = map Some (vals fs t)"
proof (rule nth_equalityI)
  show "length (map (GetValue p (FieldArray p t)) [0..<ValueCount (FieldArray p t)]) = length (map Some (vals fs t))"
    using assms by (simp add: FP_def)
  fix i assume "i < length (map (GetValue p (FieldArray p t)) [0..<ValueCount (FieldArray p t)])"
  then have i: "i < ValueCount (FieldArray p t)" "i < length (vals fs t)" using assms by (auto simp: FP_def)
  show "map (GetValue p (FieldArray p t)) [0..<ValueCount (FieldArray p t)] ! i = map Some (vals fs t) ! i"
  proof (cases i)
    case 0
    then have "vals fs t \<noteq> []" using i by auto
    then show ?thesis using 0 i assms by (simp add: GetValue_def FP_def hd_conv_nth)
  next
    case (Suc j)
    then have "multi fs t" using i by (simp add: multi_def)
    then show ?thesis using Suc i assms by (simp add: GetValue_def FP_def)
  qed
qed

lemma Parse_Final:
  assumes "ExpectHeader p = hdr" "hdr \<noteq> []" "ExpectSize p \<le> length (Final hdr b @ extra)" "parser_wf p"
    and "Buffer b = body_of fs" "fs \<noteq> []" "fields_ok fs" "length (Final hdr b) < 2 ^ 32"
  shows "\<exists>p'. Parse after (Final hdr b @ extra) FullMessage p = (Used (length (Final hdr b)), [], ParseFieldsEnd p') \<and>
     FP p' fs \<and> ExpectHeader p' = hdr"
proof -
  have B: "Buffer b = SPL # fields_text fs" using body_of_text[OF assms(6)] assms(5) by simp
  let ?after = "\<lambda>i. peek after (Final hdr b @ extra) (length (Final hdr b) - kFixTailWidth + i)"
  have "FP (ClearParser p) []" using assms(4) by (rule ClearParser_FP)
  then obtain p' where p': "ParseFields_loop ?after (fields_text fs) FullMessage (ClearParser p) = (Used 1, [], p')"
    "FP p' ([] @ fs)" "ExpectHeader p' = ExpectHeader (ClearParser p)"
    using ParseFields_loop_text[of "ClearParser p" "[]" fs ?after] assms(7) by auto
  then show ?thesis
    using Verify_Final[OF assms(1-3) B assms(8), of after] assms(1)
    by (intro exI[of _ p']) (simp add: Parse_def ParseFields_def)
qed

lemma ParseFieldsEnd_FP: "FP (ParseFieldsEnd p) fs = FP p fs"
  by (simp add: FP_def ParseFieldsEnd_def)

subsection \<open>Properties\<close>


abbreviation example_fields :: "(nat \<times> byte list) list" where
  "example_fields \<equiv> [(35, ascii ''D''), (448, ascii ''A''), (448, ascii ''B'')]"

abbreviation example_builder :: fix_builder where
  "example_builder \<equiv> FixBuilder\<lparr>Buffer := body_of example_fields\<rparr>"


text \<open>A message whose body is longer than \<open>kFixMaxBodyLength\<close>, which the comments of the constant and of
  \<open>EOverFixMaxBodyLength\<close> call an error, is refused only while a part of it is missing; once all of
  it has arrived it is accepted.\<close>

theorem oversize_body_is_judged_by_arrival:
  assumes "ExpectHeader p = hdr" "hdr \<noteq> []" "ExpectSize p = 0" "Buffer b = SPL # body"
    and "kFixMaxBodyLength < length (Buffer b)" "length (Final hdr b) < 2 ^ 32"
  shows "fst (Verify after (Final hdr b) vitem p) = Used (length (Final hdr b)) \<and>
    fst (Verify after (butlast (Final hdr b)) vitem p) = EOverFixMaxBodyLength"
proof
  show "fst (Verify after (Final hdr b) vitem p) = Used (length (Final hdr b))"
    using Verify_Final[of p hdr b "[]" body after vitem] assms by simp
  let ?B = "Buffer b" and ?n = "length (Buffer b)"
  obtain c where c: "Final hdr b = hdr @ UIntToStrRev (?B @ PutCheckSumField c) ?n"
    using UIntToStrRev_append[of ?B _ ?n] by (simp add: Final_frame frame_def)
  define R where "R = body @ butlast (PutCheckSumField c)"
  have "PutCheckSumField c \<noteq> []" using PutCheckSumField_length[of c] by auto
  then have "butlast (PutCheckSumField c) @ [last (PutCheckSumField c)] = PutCheckSumField c" by simp
  then have R: "?B @ PutCheckSumField c = (SPL # R) @ [last (PutCheckSumField c)]"
    by (simp only: R_def assms(4) append_Cons append_assoc)
  have msg: "butlast (Final hdr b) = hdr @ UIntToStrRev (SPL # R) ?n"
    using UIntToStrRev_append[of "SPL # R" "[last (PutCheckSumField c)]" ?n] unfolding c R
    by (simp add: butlast_append)
  let ?msg = "butlast (Final hdr b)"
  have len: "Suc (length ?msg) = length (Final hdr b)"
    using UIntToStrRev_append[of "[]" "?B @ PutCheckSumField c" ?n] PutCheckSumField_length[of c] by (simp add: c)
  have rl: "length (SPL # R) = ?n + 7" using PutCheckSumField_length[of c] by (simp add: R_def assms(4))
  have long: "length hdr + ?n + 7 \<le> length ?msg"
    using UIntToStrRev_append[of "[]" "SPL # R" ?n] rl by (simp add: msg)
  have n: "?n < 2 ^ 32" using long len assms(6) by linarith
  have num: "StrTo_u 32 (drop (length hdr) ?msg) 0 = (?n, SPL # R)" using n by (simp add: msg StrTo_u_UIntToStrRev)
  have ends: "verify_ends (length ?msg - length (SPL # R)) ?n = (length ?msg - 7, Suc (length ?msg))"
    using rl long len assms(6) by (simp add: verify_ends_def kFixTailWidth_def wrap_simps Let_def)
  have short: "(length ?msg < Suc (length ?msg)) = True" "(SPL # R = [] \<or> hd (SPL # R) \<noteq> SPL) = False"
    "(kFixMaxBodyLength < ?n) = True" using assms(5) by simp_all
  have "fst (VerifyBody after ?msg (length hdr) vitem p) = EOverFixMaxBodyLength"
    unfolding VerifyBody_def num by (simp only: prod.case Let_def ends short if_True if_False fst_conv)
  moreover have "\<not> length ?msg \<le> length hdr + kFixTailWidth" "take (length hdr) ?msg = hdr"
    using long assms(5) by (simp_all add: msg kFixTailWidth_def kFixMaxBodyLength_def)
  ultimately show "fst (Verify after ?msg vitem p) = EOverFixMaxBodyLength"
    using assms(1-3) by (simp add: Verify_def Let_def)
qed

definition sum_field :: "byte list \<Rightarrow> byte option" where
  "sum_field tl8 = (if take 4 tl8 = [SPL, 0x31, 0x30, EQ] then Some (Pic9StrTo 3 (take 3 (drop 4 tl8))) else None)"



text \<open>C17: the body length is added in 32 bits before it is compared with what has arrived or with
  \<open>kFixMaxBodyLength\<close>: the 23 bytes \<open>8=FIX.4.4|9=4294967270|\<close>, and up to a thousand behind them, are taken as
  a message that is complete, and the answer depends on the four bytes at the offset \<open>2^32 - 4\<close>, four gigabytes behind
  the buffer: it is \<open>EFormat\<close> exactly when they are not the begin of a checksum field.\<close>

theorem huge_body_length_reads_behind_the_buffer:
  assumes "ExpectHeader p = BEGIN_HEADER_V44" "ExpectSize p = 0" "length extra < 1000"
  shows "fst (Verify after (BEGIN_HEADER_V44 @ UIntToStrRev (SPL # extra) 4294967270)
      \<lparr>VerifyHeader = True, VerifyCheckSum = True\<rparr> p) = EFormat \<longleftrightarrow>
    map (\<lambda>i. after (2 ^ 32 - 4 - (23 + length extra) + i)) [0, 1, 2, 3] \<noteq> [SPL, 0x31, 0x30, EQ]"
proof -
  let ?h = BEGIN_HEADER_V44 and ?d = "UIntToStrRev [] 4294967270"
  let ?msg = "?h @ UIntToStrRev (SPL # extra) 4294967270"
  have h: "length ?h = 12" "?h \<noteq> []"
    by (simp_all add: BEGIN_HEADER_V44_def SPLTAGEQ_def UIntToStrRev.simps ascii_def)
  have d: "length ?d = 10" by (simp add: UIntToStrRev.simps Put2Digs_def)
  have split: "UIntToStrRev (SPL # extra) 4294967270 = ?d @ SPL # extra"
    using UIntToStrRev_append[of "[]" "SPL # extra"] by simp
  have num: "StrTo_u 32 (drop (length ?h) ?msg) 0 = (4294967270, SPL # extra)"
    by (simp add: StrTo_u_UIntToStrRev)
  have ends: "verify_ends (length ?msg - length (SPL # extra)) 4294967270 = (2 ^ 32 - 4, 4)"
    by (simp add: split h d verify_ends_def uadd_def kFixTailWidth_def)
  have len: "length ?msg = 23 + length extra" by (simp add: split h d)
  have pk: "peek after ?msg (2 ^ 32 - 4 + i) = after (2 ^ 32 - 4 - (23 + length extra) + i)" for i
    using assms(3) len by (simp add: peek_def)
  have nz: "(SPL # extra = [] \<or> hd (SPL # extra) \<noteq> SPL) = False" "(length ?msg < 4) = False" "((4::nat) = 0) = False"
    using len by simp_all
  have "fst (VerifyBody after ?msg (length ?h) \<lparr>VerifyHeader = True, VerifyCheckSum = True\<rparr> p) = EFormat \<longleftrightarrow>
      \<not> (peek after ?msg (2 ^ 32 - 4) = SPL \<and> peek after ?msg (2 ^ 32 - 4 + 1) = 0x31 \<and>
         peek after ?msg (2 ^ 32 - 4 + 2) = 0x30 \<and> peek after ?msg (2 ^ 32 - 4 + 3) = EQ)"
    unfolding VerifyBody_def num prod.case Let_def ends nz if_False verify_item.simps simp_thms
    by (auto simp del: One_nat_def)
  moreover have "\<not> length ?msg \<le> length ?h + kFixTailWidth" "take (length ?h) ?msg = ?h"
    using h(1) len by (simp_all add: kFixTailWidth_def)
  ultimately show ?thesis using assms(1,2) h(2) pk[of 0] pk[of 1] pk[of 2] pk[of 3] by (simp add: Verify_def Let_def)
qed

lemma huge_body_length_reads_behind_the_buffer_witness:
  "fst (Verify (\<lambda>_. 0) (BEGIN_HEADER_V44 @ UIntToStrRev [SPL] 4294967270) \<lparr>VerifyHeader = True, VerifyCheckSum = True\<rparr>
      (ResetExpectHeader BEGIN_HEADER_V44 FixParser)) = EFormat \<and>
   fst (Verify (\<lambda>i. [SPL, 0x31, 0x30, EQ] ! (i - 4294967269)) (BEGIN_HEADER_V44 @ UIntToStrRev [SPL] 4294967270)
      \<lparr>VerifyHeader = True, VerifyCheckSum = True\<rparr> (ResetExpectHeader BEGIN_HEADER_V44 FixParser)) \<noteq> EFormat"
  using huge_body_length_reads_behind_the_buffer[of "ResetExpectHeader BEGIN_HEADER_V44 FixParser" "[]" "\<lambda>_. 0"]
    huge_body_length_reads_behind_the_buffer[of "ResetExpectHeader BEGIN_HEADER_V44 FixParser" "[]"
      "\<lambda>i. [SPL, 0x31, 0x30, EQ] ! (i - 4294967269)"]
  by (simp add: ResetExpectHeader_def FixParser_def)

end
