(* ===== verification/FixFeeder.thy ===== *)
theory FixFeeder
  imports FixMessage
begin

text \<open>
  \<open>fon9/fix/FixFeeder.hpp\<close> and \<open>FixFeeder.cpp\<close>: cutting a byte stream that arrives in blocks into
  FIX messages. \<open>RxBuf\<close> keeps an incomplete message between blocks. The callbacks of the derived
  class are a parameter: they may change the parser (the session parses kept messages with it)
  and their own state. Both implementations of \<open>OnFixMessageError\<close> in the source return the
  result they are given, so an error ends the feeding. A \<open>DcQueue\<close> is the list of its blocks.
  The inner loop of \<open>FeedBuffer\<close> has fuel; \<open>None\<close> is a loop that has not ended.
\<close>

record 'o feeder =
  RxBuf :: "byte list"
  Parser :: fix_parser
  Session :: 'o

record 'o fix_handler =
  OnFixMessageParsed :: "byte list \<Rightarrow> fix_parser \<times> 'o \<Rightarrow> fix_parser \<times> 'o"
  OnFixMessageError :: "fix_result \<Rightarrow> fix_parser \<times> 'o \<Rightarrow> fix_parser \<times> 'o"

definition upd :: "(fix_parser \<times> 'o \<Rightarrow> fix_parser \<times> 'o) \<Rightarrow> fix_parser \<Rightarrow> 'o feeder \<Rightarrow> 'o feeder" where
  "upd f p st = (case f (p, Session st) of (p', o') \<Rightarrow> st\<lparr>Parser := p', Session := o'\<rparr>)"

definition ClearFeedBuffer :: "'o feeder \<Rightarrow> 'o feeder" where
  "ClearFeedBuffer st = st\<lparr>Parser := ClearParser (Parser st), RxBuf := []\<rparr>"

lemma Verify_Used: "Verify after s v p = (Used n, s', p') \<Longrightarrow> 0 < n"
  by (auto simp: Verify_def VerifyBody_def Let_def split: prod.splits if_splits)

lemma Parse_Used: "Parse after s u p = (Used n, s', p') \<Longrightarrow> 0 < n"
  using Verify_Used[of after s "\<lparr>VerifyHeader = (u = FullMessage), VerifyCheckSum = (u = FullMessage)\<rparr>" p n]
  by (auto simp: Parse_def Let_def split: prod.splits if_splits)

function stream_loop ::
  "'o fix_handler \<Rightarrow> (nat \<Rightarrow> byte) \<Rightarrow> bool \<Rightarrow> nat \<Rightarrow> byte list \<Rightarrow> 'o feeder \<Rightarrow> fix_result \<times> 'o feeder" where
  "stream_loop vt after inRx streamsz sp st =
     (if sp = [] then (Used 1, st)
      else case Parse after sp FullMessage (Parser st) of (res, sp', p) \<Rightarrow>
        case res of
          Used n \<Rightarrow>
            let st1 = upd (OnFixMessageParsed vt (take n sp)) p st
            in stream_loop vt after inRx streamsz (drop n sp) (st1\<lparr>Parser := ClearParser (Parser st1)\<rparr>)
        | NeedsMore \<Rightarrow>
            (NeedsMore, if \<not> inRx then st\<lparr>Parser := p, RxBuf := RxBuf st @ sp'\<rparr>
                        else st\<lparr>Parser := p, RxBuf := drop (streamsz - length sp) (RxBuf st)\<rparr>)
        | err \<Rightarrow> (err, upd (OnFixMessageError vt err) p st))"
  by pat_completeness auto
termination
  by (relation "measure (\<lambda>(_, _, _, _, sp, _). length sp)") (auto dest: Parse_Used[OF sym])

declare stream_loop.simps [simp del]

definition OnFixStreamReceived ::
  "'o fix_handler \<Rightarrow> (nat \<Rightarrow> byte) \<Rightarrow> bool \<Rightarrow> byte list \<Rightarrow> 'o feeder \<Rightarrow> fix_result \<times> 'o feeder" where
  "OnFixStreamReceived vt after inRx fixmsgStream st =
     stream_loop vt after inRx (length fixmsgStream) fixmsgStream st"

fun feed_rx ::
  "nat \<Rightarrow> 'o fix_handler \<Rightarrow> (nat \<Rightarrow> byte) \<Rightarrow> byte list \<Rightarrow> 'o feeder \<Rightarrow> (fix_result \<times> 'o feeder) option" where
  "feed_rx 0 vt after blk st = None"
| "feed_rx (Suc fuel) vt after blk st =
     (let expsz = (if ExpectSize (Parser st) = 0 then kFixMinHeaderWidth + kFixTailWidth
                   else ExpectSize (Parser st));
          sz = min (sub64 expsz (length (RxBuf st))) (length blk);
          st1 = st\<lparr>RxBuf := RxBuf st @ take sz blk\<rparr>
      in if length (RxBuf st1) < expsz then Some (NeedsMore, st1)
         else case OnFixStreamReceived vt after True (RxBuf st1) st1 of (res, st2) \<Rightarrow>
           if is_error res then Some (res, st2)
           else let blk' = drop sz blk
             in if res \<noteq> NeedsMore then
                  (let st3 = st2\<lparr>RxBuf := []\<rparr>
                   in Some (if blk' \<noteq> [] then OnFixStreamReceived vt after False blk' st3 else (res, st3)))
                else if blk' \<noteq> [] then feed_rx fuel vt after blk' st2 else Some (res, st2))"

definition feed_block ::
  "nat \<Rightarrow> 'o fix_handler \<Rightarrow> (nat \<Rightarrow> byte) \<Rightarrow> byte list \<Rightarrow> 'o feeder \<Rightarrow> (fix_result \<times> 'o feeder) option" where
  "feed_block fuel vt after blk st =
     (if RxBuf st = [] then Some (OnFixStreamReceived vt after False blk st) else feed_rx fuel vt after blk st)"

fun FeedBuffer ::
  "nat \<Rightarrow> 'o fix_handler \<Rightarrow> (nat \<Rightarrow> byte) \<Rightarrow> byte list list \<Rightarrow> 'o feeder
   \<Rightarrow> (fix_result \<times> 'o feeder \<times> byte list list) option" where
  "FeedBuffer fuel vt after [] st = Some (Used 1, st, [])"
| "FeedBuffer fuel vt after (blk # blks) st =
     (case feed_block fuel vt after blk st of
        None \<Rightarrow> None
      | Some (res, st') \<Rightarrow>
          if is_error res then Some (res, st', blk # blks) else FeedBuffer fuel vt after blks st')"

subsection \<open>Messages and their prefixes\<close>

definition good_msg :: "byte list \<Rightarrow> byte list \<Rightarrow> bool" where
  "good_msg hdr M \<longleftrightarrow> (\<exists>b fs. M = Final hdr b \<and> Buffer b = body_of fs \<and> fs \<noteq> [] \<and> fields_ok fs
     \<and> length M < 2 ^ 16)"

definition log_handler :: "byte list list fix_handler" where
  "log_handler = \<lparr>OnFixMessageParsed = (\<lambda>msg (p, log). (p, log @ [msg])),
                  OnFixMessageError = (\<lambda>res (p, log). (p, log))\<rparr>"

definition parser_at :: "byte list \<Rightarrow> fix_parser \<Rightarrow> bool" where
  "parser_at hdr p \<longleftrightarrow> ExpectHeader p = hdr \<and> parser_wf p"

lemma ClearParser_at: "FP p fs \<Longrightarrow> ExpectHeader p = hdr \<Longrightarrow> parser_at hdr (ClearParser (ParseFieldsEnd p))"
  by (auto simp: parser_at_def parser_wf_def ClearParser_def ParseFieldsEnd_def FP_def vals_def filter_empty_conv)

lemma ClearParser_size [simp]: "ExpectSize (ClearParser p) = 0"
  by (simp add: ClearParser_def)

lemma Parse_good:
  assumes "good_msg hdr M" "parser_at hdr p" "hdr \<noteq> []" "ExpectSize p \<le> length M"
  shows "\<exists>p'. Parse after (M @ extra) FullMessage p = (Used (length M), [], p') \<and> parser_at hdr (ClearParser p')"
proof -
  obtain b fs where b: "M = Final hdr b" "Buffer b = body_of fs" "fs \<noteq> []" "fields_ok fs" "length M < 2 ^ 16"
    using assms(1) by (auto simp: good_msg_def)
  have "\<exists>p'. Parse after (Final hdr b @ extra) FullMessage p = (Used (length (Final hdr b)), [], ParseFieldsEnd p') \<and>
     FP p' fs \<and> ExpectHeader p' = hdr"
    using assms(2-4) b by (intro Parse_Final) (auto simp: parser_at_def)
  then show ?thesis using b(1) ClearParser_at by blast
qed

lemma num_digits_le:
  assumes "\<forall>c\<in>set ds. isdigit c" "ds \<noteq> []" "numval 0 ds \<noteq> 0 \<longrightarrow> hd ds \<noteq> dig 0" "numval 0 ds = 0 \<longrightarrow> length ds = 1"
    and "numval 0 ds < 10 ^ k" "0 < k"
  shows "length ds \<le> k"
proof (cases "numval 0 ds = 0")
  case False
  obtain d es where d: "ds = d # es" using assms(2) by (cases ds) auto
  have "digval d \<noteq> 0"
  proof
    assume "digval d = 0"
    then have "d = dig 0" using isdigit_dig[of d] by simp
    then show False using assms(3) False d by simp
  qed
  then have "10 ^ length es \<le> digval d * 10 ^ length es" by simp
  also have "\<dots> \<le> numval (digval d) es" unfolding numval_shift[of "digval d"] by simp
  also have "\<dots> < 10 ^ k" using assms(5) d by simp
  finally have "length es < k" by (simp add: power_less_imp_less_exp)
  then show ?thesis using d by simp
qed (use assms in auto)

lemma good_msg_shape:
  assumes "good_msg hdr M"
  shows "\<exists>ds rest. M = hdr @ ds @ SPL # rest \<and> length ds \<le> 5 \<and> ds \<noteq> [] \<and> length rest \<ge> 8 \<and>
    (\<forall>r. StrTo_u 32 (ds @ SPL # r) 0 = (length M - length hdr - length ds - 8, SPL # r))"
proof -
  obtain b fs where b: "M = Final hdr b" "Buffer b = body_of fs" "fs \<noteq> []" "length M < 2 ^ 16"
    using assms by (auto simp: good_msg_def)
  let ?B = "Buffer b"
  obtain ds where ds: "UIntToStrRev [] (length ?B) = ds @ []" "\<forall>c\<in>set ds. isdigit c" "numval 0 ds = length ?B"
      "ds \<noteq> []" "length ?B \<noteq> 0 \<longrightarrow> hd ds \<noteq> dig 0" "length ?B = 0 \<longrightarrow> length ds = 1"
    using UIntToStrRev_spec[of "[]" "length ?B"] by blast
  have B: "?B = SPL # fields_text fs" using body_of_text[OF b(3)] b(2) by simp
  have M: "M = hdr @ ds @ ?B @ PutCheckSumField (SPL + sum_list (hdr @ UIntToStrRev ?B (length ?B)))"
    using UIntToStrRev_append[of "[]" ?B "length ?B"] ds(1) by (simp add: b(1) Final_frame frame_def)
  have len: "length M = length hdr + length ds + length ?B + 8"
    by (subst M) (simp add: PutCheckSumField_length)
  have "length ?B < 10 ^ 5" using len b(4) by simp
  then have "length ds \<le> 5" using ds by (intro num_digits_le) auto
  moreover have "StrTo_u 32 (ds @ SPL # r) 0 = (length ?B, SPL # r)" for r
  proof -
    have "UIntToStrRev (SPL # r) (length ?B) = ds @ SPL # r"
      using UIntToStrRev_append[of "[]" "SPL # r" "length ?B"] ds(1) by simp
    moreover have "length ?B < 2 ^ 32" using len b(4) by simp
    ultimately show ?thesis using StrTo_u_UIntToStrRev[of "SPL # r" "length ?B" 32 0] by simp
  qed
  ultimately show ?thesis
    using M B len ds(4) by (intro exI[of _ ds] exI[of _ "fields_text fs @
      PutCheckSumField (SPL + sum_list (hdr @ UIntToStrRev ?B (length ?B)))"])
      (auto simp: PutCheckSumField_length)
qed

lemma Parse_prefix:
  assumes "good_msg hdr M" "parser_at hdr p" "hdr \<noteq> []" "ExpectSize p \<le> length M" "length M < 2 ^ 16"
    and "n < length M" "s = take n M"
  shows "\<exists>e. Parse after s FullMessage p = (NeedsMore, s, p\<lparr>ExpectSize := e\<rparr>) \<and> length s < e \<and> e \<le> length M"
proof -
  obtain ds rest where M: "M = hdr @ ds @ SPL # rest" "length ds \<le> 5" "ds \<noteq> []" "length rest \<ge> 8"
    "\<And>r. StrTo_u 32 (ds @ SPL # r) 0 = (length M - length hdr - length ds - 8, SPL # r)"
    using good_msg_shape[OF assms(1)] by blast
  have n: "length s = n" using assms(6,7) by simp
  have hd: "ExpectHeader p = hdr" using assms(2) by (simp add: parser_at_def)
  have lenM: "length M = length hdr + length ds + 1 + length rest" by (simp add: M(1))
  consider "ExpectSize p > 0 \<and> n < ExpectSize p" | "\<not> (ExpectSize p > 0 \<and> n < ExpectSize p)" "n \<le> length hdr + 8"
    | "\<not> (ExpectSize p > 0 \<and> n < ExpectSize p)" "length hdr + 8 < n" by linarith
  then show ?thesis
  proof cases
    case 1
    then show ?thesis using n assms(4) by (intro exI[of _ "ExpectSize p"]) (simp add: Parse_def Verify_def Let_def)
  next
    case 2
    have "(length hdr + 9) mod 2 ^ 16 = length hdr + 9"
      using assms(5) lenM M(4) by simp
    moreover have "\<not> (0 < ExpectSize p \<and> length s < ExpectSize p)" "length s \<le> length hdr + kFixTailWidth"
      using 2 n by (simp_all add: kFixTailWidth_def)
    ultimately have "Parse after s FullMessage p = (NeedsMore, s, p\<lparr>ExpectSize := length hdr + 9\<rparr>)"
      using hd assms(3) unfolding Parse_def Verify_def Let_def
      by (auto simp: kFixTailWidth_def)
    then show ?thesis using 2 n lenM M(3,4) by (intro exI[of _ "length hdr + 9"]) (cases ds; simp)
  next
    case 3
    let ?r = "take (n - length hdr - length ds - 1) rest"
    have s: "s = hdr @ ds @ SPL # ?r"
      using 3 M(2) by (simp add: assms(7) M(1) take_Cons' )
    have num: "StrTo_u 32 (drop (length hdr) s) 0 = (length M - length hdr - length ds - 8, SPL # ?r)"
      unfolding s using M(5)[of ?r] by simp
    have beg: "length s - length (SPL # ?r) = length hdr + length ds" by (simp add: s)
    have ends: "verify_ends (length hdr + length ds) (length M - length hdr - length ds - 8)
        = (length M - 8, length M)"
      using lenM M(4) assms(5) by (simp add: verify_ends_def kFixTailWidth_def wrap_simps Let_def)
    have nz: "(SPL # ?r = [] \<or> hd (SPL # ?r) \<noteq> SPL) = False" "(length s < length M) = True"
      "(kFixMaxBodyLength < length M - length hdr - length ds - 8) = False" "length M mod 2 ^ 16 = length M"
      using n assms(5,6) by (simp_all add: kFixMaxBodyLength_def)
    have "VerifyBody after s (length hdr) vitem p = (NeedsMore, s, p\<lparr>ExpectSize := length M\<rparr>)" for vitem
      unfolding VerifyBody_def num
      by (simp only: prod.case Let_def beg ends nz if_False if_True)
    moreover have "\<not> (0 < ExpectSize p \<and> length s < ExpectSize p)" "\<not> length s \<le> length hdr + kFixTailWidth"
      "take (length hdr) s = hdr"
      using 3 n s by (simp_all add: kFixTailWidth_def)
    ultimately have "Parse after s FullMessage p = (NeedsMore, s, p\<lparr>ExpectSize := length M\<rparr>)"
      using hd assms(3) unfolding Parse_def Verify_def Let_def by auto
    then show ?thesis using n assms(6) by blast
  qed
qed

subsection \<open>Cutting a stream\<close>

text \<open>
  \<open>stream_of hdr ms r\<close>: a stream of whole messages \<open>ms\<close> and a beginning \<open>r\<close> of the next one.
\<close>

lemma log_parsed [simp]:
  "upd (OnFixMessageParsed log_handler m) p st = st\<lparr>Parser := p, Session := Session st @ [m]\<rparr>"
  by (simp add: upd_def log_handler_def)

lemma concat_prefix_cases:
  assumes "concat (m # ms) = s @ t" "s \<noteq> []"
  shows "length s < length m \<and> s = take (length s) m \<or>
    (\<exists>s'. s = m @ s' \<and> concat ms = s' @ t)"
proof (cases "length s < length m")
  case True
  then show ?thesis using assms(1) by (metis append_eq_append_conv_if concat.simps(2) less_imp_le_nat)
next
  case False
  have "m @ concat ms = s @ t" using assms(1) by simp
  then obtain u where "s = m @ u \<and> concat ms = u @ t"
    using False by (auto simp: append_eq_append_conv2)
  then show ?thesis by blast
qed

text \<open>One call over a piece \<open>s\<close> of a stream of good messages: it delivers the whole messages in \<open>s\<close> and
  keeps the begun one.\<close>

definition begun :: "byte list \<Rightarrow> byte list list \<Rightarrow> fix_parser \<Rightarrow> byte list \<Rightarrow> byte list \<Rightarrow> bool" where
  "begun hdr ms p r t \<longleftrightarrow> parser_at hdr p \<and> concat ms = r @ t \<and>
     (if r = [] then ExpectSize p = 0
      else ms \<noteq> [] \<and> length r < ExpectSize p \<and> ExpectSize p \<le> length (hd ms))"

lemma stream_loop_good:
  assumes "\<forall>m\<in>set ms. good_msg hdr m" "hdr \<noteq> []" "parser_at hdr (Parser st)" "concat ms = s @ t"
    and "ms \<noteq> [] \<longrightarrow> ExpectSize (Parser st) \<le> length (hd ms)" "s = [] \<longrightarrow> ExpectSize (Parser st) = 0"
    and "inRx \<longrightarrow> RxBuf st = pre @ s \<and> streamsz = length pre + length s"
  shows "\<exists>j r st'. stream_loop log_handler after inRx streamsz s st = (if r = [] then Used 1 else NeedsMore, st') \<and>
     s = concat (take j ms) @ r \<and> Session st' = Session st @ take j ms \<and> j \<le> length ms \<and>
     begun hdr (drop j ms) (Parser st') r t \<and>
     (if inRx then r \<noteq> [] \<longrightarrow> RxBuf st' = r else RxBuf st' = RxBuf st @ r)"
  using assms
proof (induction ms arbitrary: s st pre)
  case Nil
  then show ?case
    by (intro exI[of _ 0] exI[of _ "[]"] exI[of _ st]) (auto simp: stream_loop.simps begun_def)
next
  case (Cons m ms)
  have g: "good_msg hdr m" "length m < 2 ^ 16" using Cons.prems(1) by (auto simp: good_msg_def)
  show ?case
  proof (cases "s = []")
    case True
    then show ?thesis using Cons.prems
      by (intro exI[of _ 0] exI[of _ "[]"] exI[of _ st]) (auto simp: stream_loop.simps begun_def)
  next
    case False
    have sz: "ExpectSize (Parser st) \<le> length m" using Cons.prems(5) by simp
    consider "length s < length m" "s = take (length s) m" | s' where "s = m @ s'" "concat ms = s' @ t"
      using concat_prefix_cases[OF Cons.prems(4) False] by blast
    then show ?thesis
    proof cases
      case 1
      obtain e where e: "Parse after s FullMessage (Parser st) = (NeedsMore, s, (Parser st)\<lparr>ExpectSize := e\<rparr>)"
        "length s < e" "e \<le> length m"
        using Parse_prefix[OF g(1) Cons.prems(3,2) sz g(2) 1] by blast
      let ?st = "if \<not> inRx then st\<lparr>Parser := (Parser st)\<lparr>ExpectSize := e\<rparr>, RxBuf := RxBuf st @ s\<rparr>
                 else st\<lparr>Parser := (Parser st)\<lparr>ExpectSize := e\<rparr>, RxBuf := drop (streamsz - length s) (RxBuf st)\<rparr>"
      have "stream_loop log_handler after inRx streamsz s st = (NeedsMore, ?st)"
        using False e(1) by (simp add: stream_loop.simps[of _ _ _ _ s])
      moreover have "parser_at hdr ((Parser st)\<lparr>ExpectSize := e\<rparr>)"
        using Cons.prems(3) by (simp add: parser_at_def parser_wf_def)
      ultimately show ?thesis
        using False Cons.prems(4,7) e(2,3)
        by (intro exI[of _ 0] exI[of _ s] exI[of _ ?st]) (auto simp: begun_def)
    next
      case 2
      obtain p' where p': "Parse after s FullMessage (Parser st) = (Used (length m), [], p')"
        "parser_at hdr (ClearParser p')"
        using Parse_good[OF g(1) Cons.prems(3,2) sz, of after s'] 2(1) by blast
      let ?st = "st\<lparr>Session := Session st @ [m], Parser := ClearParser p'\<rparr>"
      have step: "stream_loop log_handler after inRx streamsz s st = stream_loop log_handler after inRx streamsz s' ?st"
        using False p'(1) unfolding 2(1)
        by (auto simp: stream_loop.simps[of log_handler after inRx streamsz "m @ s'" st] Let_def)
      have "\<exists>j r st'. stream_loop log_handler after inRx streamsz s' ?st = (if r = [] then Used 1 else NeedsMore, st') \<and>
         s' = concat (take j ms) @ r \<and> Session st' = Session ?st @ take j ms \<and> j \<le> length ms \<and>
         begun hdr (drop j ms) (Parser st') r t \<and>
         (if inRx then r \<noteq> [] \<longrightarrow> RxBuf st' = r else RxBuf st' = RxBuf ?st @ r)"
        by (rule Cons.IH[of ?st s' "pre @ m"]) (use Cons.prems 2 p'(2) in auto)
      then obtain j r st' where j: "stream_loop log_handler after inRx streamsz s' ?st = (if r = [] then Used 1 else NeedsMore, st')"
         "s' = concat (take j ms) @ r" "Session st' = Session ?st @ take j ms" "j \<le> length ms"
         "begun hdr (drop j ms) (Parser st') r t"
         "if inRx then r \<noteq> [] \<longrightarrow> RxBuf st' = r else RxBuf st' = RxBuf ?st @ r"
        by blast
      then show ?thesis using step 2(1)
        by (intro exI[of _ "Suc j"] exI[of _ r] exI[of _ st']) auto
    qed
  qed
qed

text \<open>\<open>fed hdr ms st t st' t'\<close>: from \<open>st\<close>, where the messages \<open>ms\<close> are due and \<open>t\<close> is to come, to \<open>st'\<close>
  where some of them are delivered and \<open>t'\<close> is to come.\<close>

definition fed :: "byte list \<Rightarrow> byte list list \<Rightarrow> byte list list feeder \<Rightarrow> byte list list feeder \<Rightarrow> byte list \<Rightarrow> bool" where
  "fed hdr ms st st' t \<longleftrightarrow> (\<exists>j\<le>length ms. Session st' = Session st @ take j ms \<and>
     begun hdr (drop j ms) (Parser st') (RxBuf st') t)"

lemma fed_trans:
  "j \<le> length ms \<Longrightarrow> Session st1 = Session st @ take j ms \<Longrightarrow> fed hdr (drop j ms) st1 st' t \<Longrightarrow> fed hdr ms st st' t"
  unfolding fed_def
proof (elim exE conjE)
  fix k assume "j \<le> length ms" "Session st1 = Session st @ take j ms" "k \<le> length (drop j ms)"
    "Session st' = Session st1 @ take k (drop j ms)" "begun hdr (drop k (drop j ms)) (Parser st') (RxBuf st') t"
  then show "\<exists>j\<le>length ms. Session st' = Session st @ take j ms \<and> begun hdr (drop j ms) (Parser st') (RxBuf st') t"
    by (intro exI[of _ "j + k"]) (auto simp: take_add add.commute)
qed

lemma stream_block_good:
  assumes "\<forall>m\<in>set ms. good_msg hdr m" "hdr \<noteq> []" "begun hdr ms (Parser st) [] (blk @ t)" "RxBuf st = []"
  shows "\<exists>res st'. OnFixStreamReceived log_handler after False blk st = (res, st') \<and> \<not> is_error res \<and> fed hdr ms st st' t"
proof -
  have "\<exists>j r st'. stream_loop log_handler after False (length blk) blk st = (if r = [] then Used 1 else NeedsMore, st') \<and>
     blk = concat (take j ms) @ r \<and> Session st' = Session st @ take j ms \<and> j \<le> length ms \<and>
     begun hdr (drop j ms) (Parser st') r t \<and> (if False then r \<noteq> [] \<longrightarrow> RxBuf st' = r else RxBuf st' = RxBuf st @ r)"
    using assms by (intro stream_loop_good) (auto simp: begun_def)
  then obtain j r st' where "stream_loop log_handler after False (length blk) blk st = (if r = [] then Used 1 else NeedsMore, st')"
    "Session st' = Session st @ take j ms" "j \<le> length ms" "begun hdr (drop j ms) (Parser st') r t" "RxBuf st' = r"
    using assms(4) by auto
  then show ?thesis unfolding OnFixStreamReceived_def fed_def by auto
qed

lemma feed_rx_good:
  assumes "\<forall>m\<in>set ms. good_msg hdr m" "hdr \<noteq> []" "begun hdr ms (Parser st) (RxBuf st) (blk @ t)"
    and "RxBuf st \<noteq> []" "blk \<noteq> []" "length blk \<le> fuel"
  shows "\<exists>res st'. feed_rx fuel log_handler after blk st = Some (res, st') \<and> \<not> is_error res \<and> fed hdr ms st st' t"
  using assms
proof (induction fuel arbitrary: ms st blk)
  case (Suc fuel)
  let ?r = "RxBuf st" and ?e = "ExpectSize (Parser st)"
  define sz where "sz = min (?e - length ?r) (length blk)"
  let ?s = "?r @ take sz blk"
  have bg: "parser_at hdr (Parser st)" "concat ms = ?r @ blk @ t" "ms \<noteq> []" "length ?r < ?e" "?e \<le> length (hd ms)"
    using Suc.prems(3,4) by (auto simp: begun_def)
  have "good_msg hdr (hd ms)" using Suc.prems(1) bg(3) by simp
  then have "length (hd ms) < 2 ^ 16" by (auto simp: good_msg_def)
  then have szeq: "sub64 ?e (length ?r) = ?e - length ?r" using bg(4,5) by (simp add: wrap_simps)
  have sz: "0 < sz" "sz \<le> length blk" using bg(4) Suc.prems(5) by (auto simp: sz_def)
  let ?st1 = "st\<lparr>RxBuf := ?s\<rparr>"
  show ?case
  proof (cases "length ?s < ?e")
    case True
    then have "sz = length blk" by (auto simp: sz_def min_def split: if_splits)
    then have "feed_rx (Suc fuel) log_handler after blk st = Some (NeedsMore, ?st1)" "?s = ?r @ blk"
      using True bg(4) by (simp_all add: Let_def szeq sz_def)
    moreover have "fed hdr ms st (st\<lparr>RxBuf := ?r @ blk\<rparr>) t"
      using bg True \<open>?s = ?r @ blk\<close> Suc.prems(4)
      unfolding fed_def by (intro exI[of _ 0]) (auto simp: begun_def)
    ultimately show ?thesis by auto
  next
    case False
    then have se: "length ?s = ?e" using bg(4) by (auto simp: sz_def)
    have cat: "concat ms = ?s @ drop sz blk @ t" using bg(2) by simp
    have "\<exists>j r st'. stream_loop log_handler after True (length ?s) ?s ?st1 = (if r = [] then Used 1 else NeedsMore, st') \<and>
       ?s = concat (take j ms) @ r \<and> Session st' = Session ?st1 @ take j ms \<and> j \<le> length ms \<and>
       begun hdr (drop j ms) (Parser st') r (drop sz blk @ t) \<and>
       (if True then r \<noteq> [] \<longrightarrow> RxBuf st' = r else RxBuf st' = RxBuf ?st1 @ r)"
      using Suc.prems(1,2,4) bg cat by (intro stream_loop_good[where pre = "[]"]) auto
    then obtain j r st2 where j:
      "OnFixStreamReceived log_handler after True ?s ?st1 = (if r = [] then Used 1 else NeedsMore, st2)"
      "Session st2 = Session st @ take j ms" "j \<le> length ms"
      "begun hdr (drop j ms) (Parser st2) r (drop sz blk @ t)" "r \<noteq> [] \<longrightarrow> RxBuf st2 = r"
      by (auto simp: OnFixStreamReceived_def)
    have good: "\<forall>m\<in>set (drop j ms). good_msg hdr m" using Suc.prems(1) by (auto dest: in_set_dropD)
    have step: "feed_rx (Suc fuel) log_handler after blk st =
        (if r = [] then Some (if drop sz blk \<noteq> [] then OnFixStreamReceived log_handler after False (drop sz blk) (st2\<lparr>RxBuf := []\<rparr>)
                              else (Used 1, st2\<lparr>RxBuf := []\<rparr>))
         else if drop sz blk \<noteq> [] then feed_rx fuel log_handler after (drop sz blk) st2 else Some (NeedsMore, st2))"
    proof -
      have e0: "(?e = 0) = False" "(length ?s < ?e) = False" "RxBuf ?st1 = ?s" using bg(4) False by simp_all
      show ?thesis
        unfolding feed_rx.simps Let_def e0(1) if_False szeq sz_def[symmetric] e0(3)
        by (simp only: e0(2) if_False j(1)) simp
    qed
    consider "r = []" "drop sz blk = []" | "r = []" "drop sz blk \<noteq> []" | "r \<noteq> []" "drop sz blk = []"
      | "r \<noteq> []" "drop sz blk \<noteq> []" by blast
    then show ?thesis
    proof cases
      case 1
      then show ?thesis using step j by (auto simp: fed_def)
    next
      case 2
      have "\<exists>res st'. OnFixStreamReceived log_handler after False (drop sz blk) (st2\<lparr>RxBuf := []\<rparr>) = (res, st') \<and>
          \<not> is_error res \<and> fed hdr (drop j ms) (st2\<lparr>RxBuf := []\<rparr>) st' t"
        using good Suc.prems(2) j(4) 2 by (intro stream_block_good) auto
      then show ?thesis
        using step 2 fed_trans[OF j(3), of "st2\<lparr>RxBuf := []\<rparr>" st hdr _ t] j(2) by auto
    next
      case 3
      then show ?thesis using step j by (auto simp: fed_def)
    next
      case 4
      have "\<exists>res st'. feed_rx fuel log_handler after (drop sz blk) st2 = Some (res, st') \<and> \<not> is_error res \<and>
          fed hdr (drop j ms) st2 st' t"
        using good Suc.prems(2,6) j(4,5) 4 sz by (intro Suc.IH) auto
      then show ?thesis using step 4 fed_trans[OF j(3,2), of hdr _ t] by auto
    qed
  qed
qed simp

lemma feed_block_good:
  assumes "\<forall>m\<in>set ms. good_msg hdr m" "hdr \<noteq> []" "begun hdr ms (Parser st) (RxBuf st) (blk @ t)"
    and "blk \<noteq> []" "length blk \<le> fuel"
  shows "\<exists>res st'. feed_block fuel log_handler after blk st = Some (res, st') \<and> \<not> is_error res \<and> fed hdr ms st st' t"
  using feed_rx_good[OF assms(1-3) _ assms(4,5), of after] stream_block_good[OF assms(1,2), of st blk t after] assms(3)
  by (cases "RxBuf st = []") (auto simp: feed_block_def)

lemma FeedBuffer_good:
  assumes "\<forall>m\<in>set ms. good_msg hdr m" "hdr \<noteq> []" "begun hdr ms (Parser st) (RxBuf st) (concat blks)"
    and "\<forall>b\<in>set blks. b \<noteq> [] \<and> length b \<le> fuel"
  shows "\<exists>st'. FeedBuffer fuel log_handler after blks st = Some (Used 1, st', []) \<and>
           Session st' = Session st @ ms \<and> RxBuf st' = []"
  using assms
proof (induction blks arbitrary: ms st)
  case Nil
  have gl: "length m > 0" if "m \<in> set ms" for m
    using good_msg_shape[of hdr m] Nil.prems(1) that by auto
  have "RxBuf st = []"
  proof (rule ccontr)
    assume r: "RxBuf st \<noteq> []"
    then have "ms \<noteq> []" "length (RxBuf st) < length (hd ms)" "concat ms = RxBuf st"
      using Nil.prems(3) by (auto simp: begun_def)
    then show False by (cases ms) (auto dest: arg_cong[of _ _ length])
  qed
  moreover from this have "concat ms = []" using Nil.prems(3) by (simp add: begun_def)
  then have "ms = []" using gl by (cases ms) auto
  ultimately show ?case by simp
next
  case (Cons b blks)
  then obtain res st1 where st1: "feed_block fuel log_handler after b st = Some (res, st1)" "\<not> is_error res"
    "fed hdr ms st st1 (concat blks)"
    using feed_block_good[of ms hdr st b "concat blks" fuel after] by auto
  then obtain j where j: "j \<le> length ms" "Session st1 = Session st @ take j ms"
    "begun hdr (drop j ms) (Parser st1) (RxBuf st1) (concat blks)" by (auto simp: fed_def)
  have "\<forall>m\<in>set (drop j ms). good_msg hdr m" using Cons.prems(1) by (auto dest: in_set_dropD)
  then have "\<exists>st'. FeedBuffer fuel log_handler after blks st1 = Some (Used 1, st', []) \<and>
      Session st' = Session st1 @ drop j ms \<and> RxBuf st' = []"
    using Cons.prems j(3) by (intro Cons.IH) auto
  then show ?case using st1(1,2) j(2) by auto
qed

subsection \<open>A body length that does not fit the expected size\<close>

lemma Verify_wrapped:
  assumes "ExpectHeader p = BEGIN_HEADER_V44" "ExpectSize p \<le> 30" "length r = 12"
  defines "s \<equiv> BEGIN_HEADER_V44 @ UIntToStrRev (SPL # r) 65541"
  shows "length s = 30" and "Parse after s FullMessage p = (NeedsMore, s, p\<lparr>ExpectSize := 30\<rparr>)"
proof -
  let ?h = BEGIN_HEADER_V44 and ?d = "UIntToStrRev [] 65541"
  have h: "length ?h = 12" "?h \<noteq> []"
    by (simp_all add: BEGIN_HEADER_V44_def SPLTAGEQ_def UIntToStrRev.simps ascii_def)
  have d: "length ?d = 5" by (simp add: UIntToStrRev.simps Put2Digs_def)
  have split: "UIntToStrRev (SPL # r) 65541 = ?d @ SPL # r"
    using UIntToStrRev_append[of "[]" "SPL # r"] by simp
  show len: "length s = 30" by (simp add: s_def split h d assms(3))
  have num: "StrTo_u 32 (drop (length ?h) s) 0 = (65541, SPL # r)"
    by (simp add: s_def StrTo_u_UIntToStrRev)
  have ends: "verify_ends (length s - length (SPL # r)) 65541 = (65558, 65566)"
    by (simp add: len assms(3) verify_ends_def uadd_def kFixTailWidth_def)
  have nz: "(SPL # r = [] \<or> hd (SPL # r) \<noteq> SPL) = False" "(length s < 65566) = True"
    "(kFixMaxBodyLength < 65541) = False" "65566 mod 2 ^ 16 = (30::nat)"
    using len by (simp_all add: kFixMaxBodyLength_def)
  have "VerifyBody after s (length ?h) v p = (NeedsMore, s, p\<lparr>ExpectSize := 30\<rparr>)" for v
    unfolding VerifyBody_def num by (simp only: prod.case Let_def ends nz if_False if_True)
  moreover have "\<not> length s \<le> length ?h + kFixTailWidth" "take (length ?h) s = ?h"
    using len h(1) by (simp_all add: kFixTailWidth_def s_def)
  ultimately have "Verify after s v p = (NeedsMore, s, p\<lparr>ExpectSize := 30\<rparr>)" for v
    using assms(1,2) len h(2) unfolding Verify_def Let_def by auto
  then show "Parse after s FullMessage p = (NeedsMore, s, p\<lparr>ExpectSize := 30\<rparr>)"
    by (simp add: Parse_def)
qed

lemma feed_rx_spins:
  assumes "length r = 12" "RxBuf st = BEGIN_HEADER_V44 @ UIntToStrRev (SPL # r) 65541"
    and "ExpectHeader (Parser st) = BEGIN_HEADER_V44" "ExpectSize (Parser st) = 30" "blk \<noteq> []"
  shows "feed_rx fuel vt after blk st = None"
proof (induction fuel)
  case (Suc fuel)
  note v1 = Verify_wrapped(1)[OF assms(3) _ assms(1), folded assms(2)]
  note v2 = Verify_wrapped(2)[OF assms(3) _ assms(1), of after, folded assms(2)]
  have len: "length (RxBuf st) = 30" using v1 assms(4) by simp
  have "(Parser st)\<lparr>ExpectSize := 30\<rparr> = Parser st" using assms(4) by simp
  then have parse: "Parse after (RxBuf st) FullMessage (Parser st) = (NeedsMore, RxBuf st, Parser st)"
    using v2 assms(4) by simp
  then have loop: "OnFixStreamReceived vt after True (RxBuf st) st = (NeedsMore, st)"
    using len by (cases "RxBuf st = []")
      (simp_all add: OnFixStreamReceived_def stream_loop.simps[of vt after True _ "RxBuf st" st])
  have same: "st\<lparr>RxBuf := RxBuf st @ []\<rparr> = st" by simp
  show ?case
    using Suc.IH assms(4,5) len loop same by (simp add: Let_def)
qed simp

subsection \<open>Properties\<close>


lemma good_msg_example: "good_msg BEGIN_HEADER_V44 (Final BEGIN_HEADER_V44 example_builder)"
proof -
  have "length (Final BEGIN_HEADER_V44 example_builder) < 2 ^ 16"
    using Final_length_le[of BEGIN_HEADER_V44 example_builder]
    by (simp add: BEGIN_HEADER_V44_def body_of_def SPLTAGEQ_def UIntToStrRev.simps Put2Digs_def)
  then show ?thesis
    unfolding good_msg_def by (intro exI[of _ example_builder] exI[of _ example_fields])
      (auto simp: fields_ok_def vals_def ascii_def FixBuilder_def)
qed


text \<open>the expected size is kept in 16 bits: after a block that ends exactly where the truncated size
  of a longer message says, the loop of \<open>FeedBuffer\<close> (whose assertion on the sizes is compiled out
  of release builds) makes no progress on the next block and never returns.\<close>

theorem truncated_expect_size_hangs:
  assumes "length r = 12" "blk \<noteq> []"
  shows "FeedBuffer fuel vt after [BEGIN_HEADER_V44 @ UIntToStrRev (SPL # r) 65541, blk]
    \<lparr>RxBuf = [], Parser = ResetExpectHeader BEGIN_HEADER_V44 FixParser, Session = ses\<rparr> = None"
proof -
  let ?s = "BEGIN_HEADER_V44 @ UIntToStrRev (SPL # r) 65541" and ?p = "ResetExpectHeader BEGIN_HEADER_V44 FixParser"
  let ?st = "\<lparr>RxBuf = [], Parser = ?p, Session = ses\<rparr>"
  have p: "ExpectHeader ?p = BEGIN_HEADER_V44" "ExpectSize ?p = 0"
    by (simp_all add: ResetExpectHeader_def FixParser_def)
  have v: "length ?s = 30" "Parse after ?s FullMessage ?p = (NeedsMore, ?s, ?p\<lparr>ExpectSize := 30\<rparr>)"
    using Verify_wrapped(1)[OF p(1) _ assms(1)] Verify_wrapped(2)[OF p(1) _ assms(1), of after] p(2) by simp_all
  then have ne: "?s \<noteq> []" by auto
  let ?st' = "\<lparr>RxBuf = ?s, Parser = ?p\<lparr>ExpectSize := 30\<rparr>, Session = ses\<rparr>"
  have first: "feed_block fuel vt after ?s ?st = Some (NeedsMore, ?st')"
    using v(2) ne by (simp add: feed_block_def OnFixStreamReceived_def stream_loop.simps[of vt after False _ ?s ?st])
  have "feed_block fuel vt after blk ?st' = None"
    using feed_rx_spins[OF assms(1), of ?st' blk fuel vt after] assms(2) ne p(1) by (simp add: feed_block_def)
  then show ?thesis using first by simp
qed

lemma truncated_expect_size_hangs_witness:
  "FeedBuffer 1000 log_handler (\<lambda>_. 0) [BEGIN_HEADER_V44 @ UIntToStrRev (SPL # replicate 12 0x41) 65541, [0x41]]
    \<lparr>RxBuf = [], Parser = ResetExpectHeader BEGIN_HEADER_V44 FixParser, Session = []\<rparr> = None"
  by (rule truncated_expect_size_hangs) simp_all

end
