(* ===== verification/FixConfig.thy ===== *)
theory FixConfig
  imports SortedVector FixMessage "HOL-Library.List_Lexorder"
begin

text \<open>
  \<open>fon9/fix/FixConfig.hpp\<close> and \<open>FixConfig.cpp\<close>: what a session does with each message type. The
  handlers that the library installs are the constructors of \<open>fix_msg_handler\<close>; \<open>ApHandler\<close> stands for
  one installed by the application, which is a parameter of the session. A \<open>CharVector\<close> is compared
  byte by byte, as the order of \<open>List_Lexorder\<close> does.
\<close>

subsection \<open>Sequence number status\<close>

datatype fix_seq_st = Conform | TooHigh | TooLow

definition CompareFixSeqNum :: "nat \<Rightarrow> nat \<Rightarrow> fix_seq_st" where
  "CompareFixSeqNum rxMsgSeqNum expectSeqNum =
     (if rxMsgSeqNum = expectSeqNum then Conform
      else if rxMsgSeqNum < expectSeqNum then TooLow else TooHigh)"

record fix_seq_allow =
  AllowTooHigh :: bool
  AllowTooLow :: bool
  NoPreRecord :: bool

fun allows :: "fix_seq_allow \<Rightarrow> fix_seq_st \<Rightarrow> bool" where
  "allows a Conform = True"
| "allows a TooHigh = AllowTooHigh a"
| "allows a TooLow = AllowTooLow a"

subsection \<open>Configuration per message type\<close>

datatype fix_msg_handler = OnRecvSequenceReset | OnRecvResendRequest | OnRecvHeartbeat | OnRecvTestRequest
  | OnRecvLogonResponse | OnRecvLogout | ApHandler

text \<open>\<open>TTL = None\<close> is \<open>TimeInterval::Null()\<close>, a message that is valid for ever.\<close>

record fix_msg_type_config =
  TTL :: "int option"
  FixSeqAllow :: fix_seq_allow
  FixMsgHandler :: "fix_msg_handler option"

definition FixMsgTypeConfig :: fix_msg_type_config where
  "FixMsgTypeConfig = \<lparr>TTL = Some 0,
     FixSeqAllow = \<lparr>AllowTooHigh = False, AllowTooLow = False, NoPreRecord = False\<rparr>, FixMsgHandler = None\<rparr>"

definition IsInfiniteTTL :: "fix_msg_type_config \<Rightarrow> bool" where
  "IsInfiniteTTL cfg \<longleftrightarrow> TTL cfg = None"

record fix_config =
  ConfigMap :: "(byte list \<times> fix_msg_type_config) list"
  Configs :: "fix_msg_type_config list"
  TiWaitForLogon :: nat
  TiLogonRecover :: nat
  TiLogonTest :: nat
  MaxLogonTestCount :: nat
  HbTestRequestCount :: nat
  TiLogoutPending :: nat
  IsNoReplay :: bool

text \<open>Times in milliseconds.\<close>

definition FixConfig :: fix_config where
  "FixConfig = \<lparr>ConfigMap = [], Configs = replicate 62 FixMsgTypeConfig, TiWaitForLogon = 3000,
     TiLogonRecover = 10000, TiLogonTest = 1000, MaxLogonTestCount = 10, HbTestRequestCount = 2,
     TiLogoutPending = 10000, IsNoReplay = False\<rparr>"

definition config_idx :: "fix_config \<Rightarrow> byte list \<Rightarrow> nat option" where
  "config_idx c msgType =
     (if length msgType = 1 then
        let idx = Alpha2Seq (hd msgType)
        in if 0 \<le> idx \<and> idx < int (length (Configs c)) then Some (nat idx) else None
      else None)"

definition GetConfig :: "fix_config \<Rightarrow> byte list \<Rightarrow> fix_msg_type_config option" where
  "GetConfig c msgType =
     (case config_idx c msgType of
        Some idx \<Rightarrow> Some (Configs c ! idx)
      | None \<Rightarrow>
          let i = sv_find kless (ConfigMap c) (msgType, FixMsgTypeConfig)
          in if i = length (ConfigMap c) then None else Some (snd (ConfigMap c ! i)))"

text \<open>\<open>Fetch\<close> returns a reference; \<open>FetchConfig c msgType f\<close> is the configuration after \<open>f\<close> was applied
  through it.\<close>

definition FetchConfig ::
  "fix_config \<Rightarrow> byte list \<Rightarrow> (fix_msg_type_config \<Rightarrow> fix_msg_type_config) \<Rightarrow> fix_config" where
  "FetchConfig c msgType f =
     (case config_idx c msgType of
        Some idx \<Rightarrow> c\<lparr>Configs := (Configs c)[idx := f (Configs c ! idx)]\<rparr>
      | None \<Rightarrow>
          case sv_kfetch (ConfigMap c) msgType FixMsgTypeConfig of
            (xs, i) \<Rightarrow> c\<lparr>ConfigMap := xs[i := (msgType, f (snd (xs ! i)))]\<rparr>)"

definition config_ok :: "fix_config \<Rightarrow> bool" where
  "config_ok c \<longleftrightarrow> ksorted (ConfigMap c) \<and> length (Configs c) = 62"

subsection \<open>The handlers that the library installs\<close>

definition InitFixConfig_receiver :: "fix_config \<Rightarrow> fix_config" where
  "InitFixConfig_receiver c =
     (let any = \<lparr>AllowTooHigh = True, AllowTooLow = True, NoPreRecord = True\<rparr>;
          c1 = FetchConfig c (ascii ''4'') (\<lambda>m. m\<lparr>FixSeqAllow := any, FixMsgHandler := Some OnRecvSequenceReset\<rparr>)
      in FetchConfig c1 (ascii ''2'') (\<lambda>m. m\<lparr>FixSeqAllow := any, FixMsgHandler := Some OnRecvResendRequest\<rparr>))"

definition InitFixConfig :: "fix_config \<Rightarrow> fix_config" where
  "InitFixConfig c =
     (let c1 = InitFixConfig_receiver c;
          c2 = FetchConfig c1 (ascii ''0'') (\<lambda>m. m\<lparr>FixMsgHandler := Some OnRecvHeartbeat\<rparr>);
          c3 = FetchConfig c2 (ascii ''1'') (\<lambda>m. m\<lparr>FixMsgHandler := Some OnRecvTestRequest\<rparr>);
          c4 = FetchConfig c3 (ascii ''5'') (\<lambda>m. m
                 \<lparr>FixSeqAllow := \<lparr>AllowTooHigh = True, AllowTooLow = True, NoPreRecord = False\<rparr>,
                  FixMsgHandler := Some OnRecvLogout\<rparr>)
      in FetchConfig c4 (ascii ''A'') (\<lambda>m. m
                 \<lparr>FixSeqAllow := \<lparr>AllowTooHigh = True, AllowTooLow = False, NoPreRecord = False\<rparr>,
                  FixMsgHandler := Some OnRecvLogonResponse\<rparr>))"

subsection \<open>Lemmas\<close>

lemma sv_kfetch_spec:
  assumes "ksorted xs" "sv_kfetch xs k d = (ys, i)"
  shows "i < length ys \<and> fst (ys ! i) = k \<and> ksorted ys \<and>
    map_of ys = (if k \<in> dom (map_of xs) then map_of xs else (map_of xs)(k \<mapsto> d)) \<and>
    snd (ys ! i) = (case map_of xs k of Some v \<Rightarrow> v | None \<Rightarrow> d)"
proof (cases "sv_find kless xs (k, d) = length xs")
  case False
  then have "ys = xs" "i = sv_find kless xs (k, d)" using assms(2) by (auto simp: sv_kfetch_def Let_def)
  then show ?thesis using sv_find_spec[OF assms(1), of k d] False assms(1) by (auto split: option.splits)
next
  case True
  then have none: "map_of xs k = None" using sv_find_spec[OF assms(1), of k d] by simp
  then have "k \<notin> fst ` set xs" by (simp add: map_of_eq_None_iff)
  then have "sv_insert kless xs (k, d) = (vec_insert xs (lower_i kless xs (k, d)) (k, d), lower_i kless xs (k, d), True)"
    using sv_insert_cases[OF assms(1), of k d] by (auto simp: image_iff)
  then have "ys = vec_insert xs (lower_i kless xs (k, d)) (k, d)" "i = lower_i kless xs (k, d)"
    using assms(2) True by (auto simp: sv_kfetch_def Let_def)
  then show ?thesis
    using ksorted_split(1)[OF assms(1), of k d] \<open>k \<notin> fst ` set xs\<close> none
      ksorted_vec_insert[OF assms(1), of k d] map_of_vec_insert[of k xs _ d]
    by (auto simp: vec_insert_nth dom_def)
qed

lemma map_of_update:
  "ksorted xs \<Longrightarrow> i < length xs \<Longrightarrow> fst (xs ! i) = k \<Longrightarrow> map_of (xs[i := (k, v)]) = (map_of xs)(k \<mapsto> v)"
proof (induction xs arbitrary: i)
  case (Cons x xs)
  show ?case
  proof (cases i)
    case 0
    then show ?thesis using Cons.prems by (cases x) auto
  next
    case (Suc j)
    then have "xs ! j \<in> set xs" "fst (xs ! j) = k" using Cons.prems by auto
    then have "fst x \<noteq> k" using Cons.prems(1) unfolding ksorted_Cons by auto
    moreover have "map_of (xs[j := (k, v)]) = (map_of xs)(k \<mapsto> v)"
    proof (rule Cons.IH)
      show "ksorted xs" using Cons.prems(1) unfolding ksorted_Cons by blast
    qed (use Cons.prems Suc in auto)
    ultimately show ?thesis using Suc by (cases x) (auto simp: fun_eq_iff)
  qed
qed simp

lemma GetConfig_map:
  assumes "ksorted (ConfigMap c)" "config_idx c msgType = None"
  shows "GetConfig c msgType = map_of (ConfigMap c) msgType"
  using sv_find_spec[OF assms(1), of msgType FixMsgTypeConfig] assms(2)
  by (auto simp: GetConfig_def Let_def split: if_splits)

lemma ksorted_update: "ksorted xs \<Longrightarrow> i < length xs \<Longrightarrow> fst (xs ! i) = k \<Longrightarrow> ksorted (xs[i := (k, v)])"
  by (simp add: ksorted_def map_update) (metis list_update_id nth_map)

lemma config_idx_inj:
  assumes "config_idx c a = Some i" "config_idx c b = Some i" shows "a = b"
proof -
  have eq: "Alpha2Seq x = (let n = unat x in if 48 \<le> n \<and> n \<le> 57 then int n - 48
      else if 65 \<le> n \<and> n \<le> 90 then int n - 55 else if 97 \<le> n \<and> n \<le> 122 then int n - 61 else -1)" for x
    by (auto simp: Alpha2Seq_def word_le_nat_alt unat_sub Let_def of_nat_diff)
  have *: "x = y" if "Alpha2Seq x = Alpha2Seq y" "0 \<le> Alpha2Seq x" for x y
  proof -
    define m n where "m = unat x" and "n = unat y"
    have "m = n" using that unfolding eq Let_def m_def[symmetric] n_def[symmetric] by (auto split: if_splits)
    then show ?thesis by (simp add: m_def n_def word_unat_eq_iff)
  qed
  show ?thesis
    using assms *[of "hd a" "hd b"]
    by (cases a; cases b) (auto simp: config_idx_def Let_def split: if_splits)
qed

subsection \<open>Properties\<close>

lemma config_get_fetch_facts:
  assumes "config_ok c"
  shows "config_ok (FetchConfig c k f)"
    and "GetConfig (FetchConfig c k f) k
      = Some (f (case GetConfig c k of Some m \<Rightarrow> m | None \<Rightarrow> FixMsgTypeConfig))"
    and "k' \<noteq> k \<Longrightarrow> GetConfig (FetchConfig c k f) k' = GetConfig c k'"
proof -
  have srt: "ksorted (ConfigMap c)" and len: "length (Configs c) = 62" using assms by (simp_all add: config_ok_def)
  obtain ys i where kf: "sv_kfetch (ConfigMap c) k FixMsgTypeConfig = (ys, i)" by fastforce
  note sp = sv_kfetch_spec[OF srt kf]
  let ?ys = "ys[i := (k, f (snd (ys ! i)))]"
  have ys: "ksorted ?ys" "map_of ?ys = (map_of ys)(k \<mapsto> f (snd (ys ! i)))"
    using ksorted_update[of ys i k] map_of_update[of ys i k] sp by blast+
  have idx: "config_idx (c\<lparr>ConfigMap := m\<rparr>) x = config_idx c x"
    "config_idx (c\<lparr>Configs := (Configs c)[j := v]\<rparr>) x = config_idx c x" for m j v x
    by (simp_all add: config_idx_def)
  have bound: "config_idx c x = Some j \<Longrightarrow> j < 62" for x j
    using len by (auto simp: config_idx_def Let_def split: if_splits)
  have F: "FetchConfig c k f = (case config_idx c k of
      Some j \<Rightarrow> c\<lparr>Configs := (Configs c)[j := f (Configs c ! j)]\<rparr> | None \<Rightarrow> c\<lparr>ConfigMap := ?ys\<rparr>)"
    by (cases "config_idx c k") (simp_all add: FetchConfig_def kf)
  show ok: "config_ok (FetchConfig c k f)"
    using srt len ys(1) by (auto simp: F config_ok_def split: option.split)
  show "GetConfig (FetchConfig c k f) k = Some (f (case GetConfig c k of Some m \<Rightarrow> m | None \<Rightarrow> FixMsgTypeConfig))"
  proof (cases "config_idx c k")
    case (Some j)
    then show ?thesis using bound[OF Some] len by (simp add: F GetConfig_def idx)
  next
    case None
    then have "GetConfig (FetchConfig c k f) k = map_of ?ys k"
      using ys(1) by (simp add: F GetConfig_map idx)
    then show ?thesis using ys(2) sp None srt by (simp add: GetConfig_map)
  qed
  show "GetConfig (FetchConfig c k f) k' = GetConfig c k'" if "k' \<noteq> k"
  proof (cases "config_idx c k")
    case (Some j)
    have "config_idx c k' \<noteq> Some j" using config_idx_inj[OF _ Some] that by blast
    then show ?thesis using Some by (auto simp: F GetConfig_def idx Let_def split: option.split)
  next
    case None
    show ?thesis
    proof (cases "config_idx c k'")
      case (Some j)
      then show ?thesis using None by (simp add: F GetConfig_def idx)
    next
      case none': None
      have "map_of ys k' = map_of (ConfigMap c) k'" using sp that by (simp split: if_splits)
      then show ?thesis using None none' ys srt that by (simp add: F GetConfig_map idx)
    qed
  qed
qed

text \<open>after a setting was changed through \<open>Fetch\<close>, \<open>Get\<close> returns the changed setting for that message
  type and what it returned before for every other, whether the type is a single letter or digit
  or longer; the map stays sorted.\<close>

theorem config_get_fetch:
  assumes "config_ok c"
  shows "config_ok (FetchConfig c k f) \<and>
    GetConfig (FetchConfig c k f) k
      = Some (f (case GetConfig c k of Some m \<Rightarrow> m | None \<Rightarrow> FixMsgTypeConfig)) \<and>
    (k' \<noteq> k \<longrightarrow> GetConfig (FetchConfig c k f) k' = GetConfig c k')"
  using config_get_fetch_facts[OF assms] by blast

lemma config_get_fetch_witness:
  "GetConfig (FetchConfig FixConfig (ascii ''AE'') (\<lambda>m. m\<lparr>TTL := None\<rparr>)) (ascii ''AE'')
     = Some (FixMsgTypeConfig\<lparr>TTL := None\<rparr>)"
proof -
  have "config_ok FixConfig" by (simp add: config_ok_def FixConfig_def)
  moreover have "GetConfig FixConfig (ascii ''AE'') = None"
    by (simp add: GetConfig_def config_idx_def FixConfig_def sv_find_def find_i_def lower_i_def)
  ultimately show ?thesis using config_get_fetch[of FixConfig "ascii ''AE''" "\<lambda>m. m\<lparr>TTL := None\<rparr>"] by simp
qed

end
