(* ===== verification/FileRevRead.thy ===== *)
theory FileRevRead
  imports Fon9_Prelude
begin

text \<open>
  \<open>fon9/FileRevRead.hpp\<close>, \<open>fon9/FileRevRead.cpp\<close>: reading a file block by block from its end and
  searching it backwards for a character. The state of a search holds the block buffer as the
  bytes of its memory; pointers into it are offsets. The file is the parameter \<open>OnFileRead\<close>; the
  handlers that a derived class overrides are \<open>OnFileBlock\<close> and \<open>OnFoundChar\<close>.

  The main result is that the search, with all its moving of rests between blocks, shows its
  handler one segment for each occurrence of the character, the last one first: the bytes from
  the occurrence up to the next one, cut only when they reach over more than a whole block.
\<close>

datatype loop_control = Continue | Break

subsection \<open>\<open>FileRevRead::Start\<close>\<close>

function Start_loop ::
  "(nat \<Rightarrow> nat \<Rightarrow> 'b \<Rightarrow> ('e + nat) \<times> 'b) \<Rightarrow> (nat \<Rightarrow> nat \<Rightarrow> 'b \<Rightarrow> loop_control \<times> 'b) \<Rightarrow> nat
   \<Rightarrow> nat \<Rightarrow> nat \<Rightarrow> 'b \<Rightarrow> ('e + nat) \<times> 'b" where
  "Start_loop OnFileRead OnFileBlock blockSize BlockPos rdsz st =
     (let pos = BlockPos - rdsz
      in case OnFileRead pos rdsz st of
           (Inl e, st1) \<Rightarrow> (Inl e, st1)
         | (Inr n, st1) \<Rightarrow>
             if n \<noteq> rdsz then (Inr n, st1)
             else case OnFileBlock pos rdsz st1 of
                    (Break, st2) \<Rightarrow> (Inr pos, st2)
                  | (Continue, st2) \<Rightarrow>
                      if pos = 0 \<or> rdsz = 0 then (Inr pos, st2)
                      else Start_loop OnFileRead OnFileBlock blockSize pos blockSize st2)"
  by pat_completeness auto
termination by (relation "measure (\<lambda>(_, _, _, BlockPos, _, _). BlockPos)") auto

declare Start_loop.simps [simp del]

definition Start ::
  "('e + nat) \<Rightarrow> (nat \<Rightarrow> nat \<Rightarrow> 'b \<Rightarrow> ('e + nat) \<times> 'b) \<Rightarrow> (nat \<Rightarrow> nat \<Rightarrow> 'b \<Rightarrow> loop_control \<times> 'b) \<Rightarrow> nat
   \<Rightarrow> 'b \<Rightarrow> ('e + nat) \<times> 'b" where
  "Start GetFileSize OnFileRead OnFileBlock blockSize st =
     (case GetFileSize of
        Inl e \<Rightarrow> (Inl e, st)
      | Inr fsz \<Rightarrow>
          if fsz = 0 then (Inr 0, st)
          else let rdsz = (if fsz mod blockSize = 0 then blockSize else fsz mod blockSize)
            in Start_loop OnFileRead OnFileBlock blockSize fsz rdsz st)"

subsection \<open>\<open>FileRevSearch\<close>\<close>

record rev_search =
  BlockSize :: nat
  MaxMessageBufferSize :: nat
  BlockBuffer :: "byte list"
  PayloadEnd :: "nat option"
  LastRemainSize :: nat
  FoundDataEnd :: "nat option"

definition FileRevSearch :: "nat \<Rightarrow> nat \<Rightarrow> byte list \<Rightarrow> rev_search" where
  "FileRevSearch blockSize maxMessageBufferSize blockBuffer =
     \<lparr>BlockSize = blockSize, MaxMessageBufferSize = maxMessageBufferSize, BlockBuffer = blockBuffer,
      PayloadEnd = None, LastRemainSize = 0, FoundDataEnd = None\<rparr>"

definition memcpy :: "byte list \<Rightarrow> nat \<Rightarrow> byte list \<Rightarrow> byte list" where
  "memcpy buf off xs = take off buf @ xs @ drop (off + length xs) buf"

fun memrchr :: "byte list \<Rightarrow> byte \<Rightarrow> nat \<Rightarrow> nat option" where
  "memrchr buf ch 0 = None"
| "memrchr buf ch (Suc n) = (if buf ! n = ch then Some n else memrchr buf ch n)"

definition MoveRemainBuffer :: "rev_search \<Rightarrow> rev_search" where
  "MoveRemainBuffer s =
     (if LastRemainSize s \<noteq> 0 then
        let rsz = min (LastRemainSize s) (MaxMessageBufferSize s)
        in s\<lparr>BlockBuffer := memcpy (BlockBuffer s) (BlockSize s) (take rsz (BlockBuffer s)),
             PayloadEnd := Some (BlockSize s + rsz), LastRemainSize := 0\<rparr>
      else s\<lparr>PayloadEnd := None\<rparr>)"

lemma memrchr_less: "memrchr buf ch n = Some i \<Longrightarrow> i < n"
  by (induction n) (auto split: if_splits)

function RevSearch_loop ::
  "(byte list \<Rightarrow> 'a \<Rightarrow> loop_control \<times> 'a) \<Rightarrow> byte \<Rightarrow> nat \<Rightarrow> nat \<Rightarrow> rev_search \<Rightarrow> 'a
   \<Rightarrow> loop_control \<times> rev_search \<times> 'a" where
  "RevSearch_loop OnFoundChar ch rdsz pend s a =
     (case memrchr (BlockBuffer s) ch rdsz of
        None \<Rightarrow> (Continue, s\<lparr>LastRemainSize := rdsz, FoundDataEnd := None\<rparr>, a)
      | Some pfind \<Rightarrow>
          (case OnFoundChar (take (pend - pfind) (drop pfind (BlockBuffer s))) a of
             (Break, a') \<Rightarrow> (Break, s\<lparr>LastRemainSize := pfind, FoundDataEnd := Some pend\<rparr>, a')
           | (Continue, a') \<Rightarrow>
               if pfind = 0 then (Continue, s\<lparr>LastRemainSize := 0, FoundDataEnd := None\<rparr>, a')
               else RevSearch_loop OnFoundChar ch pfind pfind s a'))"
  by pat_completeness auto
termination by (relation "measure (\<lambda>(_, _, rdsz, _). rdsz)") (auto dest: memrchr_less)

declare RevSearch_loop.simps [simp del]

definition RevSearchBlock ::
  "(byte list \<Rightarrow> 'a \<Rightarrow> loop_control \<times> 'a) \<Rightarrow> byte \<Rightarrow> nat \<Rightarrow> rev_search \<times> 'a
   \<Rightarrow> loop_control \<times> rev_search \<times> 'a" where
  "RevSearchBlock OnFoundChar ch rdsz st =
     (case st of (s, a) \<Rightarrow>
        RevSearch_loop OnFoundChar ch rdsz (case PayloadEnd s of Some e \<Rightarrow> e | None \<Rightarrow> rdsz) s a)"

text \<open>\<open>RevReadSearcher\<close>: the rest of the last block is moved before the next is read over it.\<close>

definition OnFileRead ::
  "(nat \<Rightarrow> nat \<Rightarrow> 'e + byte list) \<Rightarrow> nat \<Rightarrow> nat \<Rightarrow> rev_search \<times> 'a \<Rightarrow> ('e + nat) \<times> rev_search \<times> 'a" where
  "OnFileRead fdRead fpos rdsz st =
     (case st of (s, a) \<Rightarrow>
        let s1 = MoveRemainBuffer s
        in case fdRead fpos rdsz of
             Inl e \<Rightarrow> (Inl e, s1, a)
           | Inr bs \<Rightarrow> (Inr (length bs), s1\<lparr>BlockBuffer := memcpy (BlockBuffer s1) 0 bs\<rparr>, a))"

text \<open>A searcher whose \<open>OnFileBlock\<close> only calls \<open>RevSearchBlock\<close>.\<close>

definition RevReadSearcher_Start ::
  "('e + nat) \<Rightarrow> (nat \<Rightarrow> nat \<Rightarrow> 'e + byte list) \<Rightarrow> (byte list \<Rightarrow> 'a \<Rightarrow> loop_control \<times> 'a) \<Rightarrow> byte
   \<Rightarrow> rev_search \<times> 'a \<Rightarrow> ('e + nat) \<times> rev_search \<times> 'a" where
  "RevReadSearcher_Start fdSize fdRead OnFoundChar ch st =
     Start fdSize (OnFileRead fdRead) (\<lambda>pos rdsz. RevSearchBlock OnFoundChar ch rdsz) (BlockSize (fst st)) st"

subsection \<open>What a search shows its handler\<close>

fun scan :: "(byte list \<Rightarrow> 'a \<Rightarrow> loop_control \<times> 'a) \<Rightarrow> byte list list \<Rightarrow> 'a \<Rightarrow> loop_control \<times> 'a" where
  "scan f [] a = (Continue, a)"
| "scan f (x # xs) a = (case f x a of (Break, a') \<Rightarrow> (Break, a') | (Continue, a') \<Rightarrow> scan f xs a')"

lemma scan_append:
  "scan f (xs @ ys) a = (case scan f xs a of (Break, a') \<Rightarrow> (Break, a') | (Continue, a') \<Rightarrow> scan f ys a')"
  by (induction xs arbitrary: a) (auto split: prod.splits loop_control.splits)

text \<open>The first occurrence at or after a position, or the end of the file.\<close>

definition nxt :: "byte \<Rightarrow> byte list \<Rightarrow> nat \<Rightarrow> nat" where
  "nxt ch file p = p + length (takeWhile (\<lambda>c. c \<noteq> ch) (drop p file))"

definition seg :: "nat \<Rightarrow> nat \<Rightarrow> byte \<Rightarrow> byte list \<Rightarrow> nat \<Rightarrow> byte list" where
  "seg B mx ch file i = take (min (nxt ch file (Suc i)) ((i div B + 1) * B + min B mx) - i) (drop i file)"

definition segs :: "nat \<Rightarrow> nat \<Rightarrow> byte \<Rightarrow> byte list \<Rightarrow> nat \<Rightarrow> nat \<Rightarrow> byte list list" where
  "segs B mx ch file l u = map (seg B mx ch file) (filter (\<lambda>i. file ! i = ch) (rev [l..<u]))"

lemma nxt_ge: "p \<le> nxt ch file p"
  by (simp add: nxt_def)

lemma nxt_le: "p \<le> length file \<Longrightarrow> nxt ch file p \<le> length file"
  using length_takeWhile_le[of "\<lambda>c. c \<noteq> ch" "drop p file"] by (simp add: nxt_def)

lemma nxt_length [simp]: "nxt ch file (length file) = length file"
  by (simp add: nxt_def)

lemma nxt_occ: "p < length file \<Longrightarrow> file ! p = ch \<Longrightarrow> nxt ch file p = p"
  by (simp add: nxt_def Cons_nth_drop_Suc[symmetric])

lemma nxt_skip1: "p < length file \<Longrightarrow> file ! p \<noteq> ch \<Longrightarrow> nxt ch file p = nxt ch file (Suc p)"
  by (simp add: nxt_def Cons_nth_drop_Suc[symmetric])

lemma nxt_skip:
  "p \<le> q \<Longrightarrow> q \<le> length file \<Longrightarrow> (\<forall>j. p \<le> j \<longrightarrow> j < q \<longrightarrow> file ! j \<noteq> ch) \<Longrightarrow> nxt ch file p = nxt ch file q"
  by (induction q rule: dec_induct) (auto simp: nxt_skip1)

lemma nxt_le_occ: "p \<le> i \<Longrightarrow> i < length file \<Longrightarrow> file ! i = ch \<Longrightarrow> nxt ch file p \<le> i"
proof (induction p rule: inc_induct)
  case (step n)
  then show ?case by (cases "file ! n = ch") (simp_all add: nxt_occ nxt_skip1)
qed (simp add: nxt_occ)

lemma segs_split: "l \<le> m \<Longrightarrow> m \<le> u \<Longrightarrow> segs B mx ch file l u = segs B mx ch file m u @ segs B mx ch file l m"
  using upt_add_eq_append[of l m "u - m"] by (simp add: segs_def)

lemma segs_none: "(\<forall>j. l \<le> j \<longrightarrow> j < u \<longrightarrow> file ! j \<noteq> ch) \<Longrightarrow> segs B mx ch file l u = []"
  by (auto simp: segs_def filter_empty_conv)

lemma segs_last:
  assumes "l \<le> i" "i < u" "file ! i = ch" "\<forall>j. i < j \<longrightarrow> j < u \<longrightarrow> file ! j \<noteq> ch"
  shows "segs B mx ch file l u = seg B mx ch file i # segs B mx ch file l i"
proof -
  have "segs B mx ch file l u = segs B mx ch file (Suc i) u @ segs B mx ch file l (Suc i)"
    using assms by (intro segs_split) simp_all
  moreover have "segs B mx ch file (Suc i) u = []" using assms(4) by (intro segs_none) auto
  moreover have "segs B mx ch file l (Suc i) = seg B mx ch file i # segs B mx ch file l i"
    using assms by (simp add: segs_def)
  ultimately show ?thesis by simp
qed

lemma memrchr_Some:
  "memrchr buf ch n = Some i \<Longrightarrow> i < n \<and> buf ! i = ch \<and> (\<forall>j. i < j \<longrightarrow> j < n \<longrightarrow> buf ! j \<noteq> ch)"
proof (induction n)
  case (Suc n)
  then show ?case by (cases "buf ! n = ch") (auto simp: less_Suc_eq)
qed simp

lemma memrchr_None: "memrchr buf ch n = None \<Longrightarrow> \<forall>j<n. buf ! j \<noteq> ch"
  by (induction n) (auto simp: less_Suc_eq split: if_splits)

text \<open>The state in which a block was searched to its front.\<close>

definition block_done :: "nat \<Rightarrow> rev_search \<Rightarrow> rev_search" where
  "block_done r s = s\<lparr>LastRemainSize := r, FoundDataEnd := None\<rparr>"

text \<open>One block: the buffer holds the file from \<open>base\<close> on, and what a segment of the block can
  reach has been carried over.\<close>

lemma RevSearch_loop_scan:
  assumes "base + pend \<le> length file" "rdsz \<le> pend" "rdsz \<le> B" "0 < B"
    and "\<forall>j<pend. BlockBuffer s ! j = file ! (base + j)" "pend \<le> length (BlockBuffer s)" "base mod B = 0"
    and "base + pend = min (nxt ch file (base + rdsz)) (base + B + min B mx)"
  shows "case scan f (segs B mx ch file base (base + rdsz)) a of
      (Break, a') \<Rightarrow> \<exists>s'. RevSearch_loop f ch rdsz pend s a = (Break, s', a')
    | (Continue, a') \<Rightarrow>
        RevSearch_loop f ch rdsz pend s a
          = (Continue, block_done (min (nxt ch file base) (base + rdsz) - base) s, a')"
  using assms
proof (induction rdsz arbitrary: pend a rule: less_induct)
  case (less rdsz)
  note buf = less.prems(5)
  show ?case
  proof (cases "memrchr (BlockBuffer s) ch rdsz")
    case None
    have no: "\<forall>j. base \<le> j \<longrightarrow> j < base + rdsz \<longrightarrow> file ! j \<noteq> ch"
    proof (intro allI impI)
      fix j assume j: "base \<le> j" "j < base + rdsz"
      then have k: "j - base < rdsz" "j - base < pend" "base + (j - base) = j" using less.prems(2) by auto
      then show "file ! j \<noteq> ch"
        using memrchr_None[OF None] buf[rule_format, OF k(2)] by auto
    qed
    then have "nxt ch file base = nxt ch file (base + rdsz)"
      using less.prems(1,2) by (intro nxt_skip) auto
    then have "min (nxt ch file base) (base + rdsz) - base = rdsz"
      using nxt_ge[of "base + rdsz"] by simp
    then show ?thesis
      using None segs_none[OF no] by (subst RevSearch_loop.simps) (simp add: block_done_def)
  next
    case (Some p)
    note p = memrchr_Some[OF Some]
    have fp: "file ! (base + p) = ch" using p buf less.prems(2) by auto
    have no: "\<forall>j. base + p < j \<longrightarrow> j < base + rdsz \<longrightarrow> file ! j \<noteq> ch"
    proof (intro allI impI)
      fix j assume j: "base + p < j" "j < base + rdsz"
      then have k: "p < j - base" "j - base < rdsz" "j - base < pend" "base + (j - base) = j"
        using less.prems(2) by auto
      then show "file ! j \<noteq> ch"
        using p buf[rule_format, OF k(3)] by auto
    qed
    have segs: "segs B mx ch file base (base + rdsz)
        = seg B mx ch file (base + p) # segs B mx ch file base (base + p)"
      using p fp no by (intro segs_last) auto
    have nx: "nxt ch file (Suc (base + p)) = nxt ch file (base + rdsz)"
      using p no less.prems(1,2) by (intro nxt_skip) auto
    obtain k where k: "base = B * k" using less.prems(7) by (auto simp: mod_eq_0_iff_dvd)
    have div: "(base + p) div B * B = base"
      using p less.prems(3,4) by (simp add: k)
    then have cap: "((base + p) div B + 1) * B = base + B" by simp
    have "seg B mx ch file (base + p) = take (pend - p) (drop (base + p) file)"
      unfolding seg_def nx cap by (simp add: less.prems(8)[symmetric])
    also have "\<dots> = take (pend - p) (drop p (BlockBuffer s))"
    proof (rule nth_equalityI)
      show "length (take (pend - p) (drop (base + p) file)) = length (take (pend - p) (drop p (BlockBuffer s)))"
        using less.prems(1,6) by simp
      fix i assume "i < length (take (pend - p) (drop (base + p) file))"
      then show "take (pend - p) (drop (base + p) file) ! i = take (pend - p) (drop p (BlockBuffer s)) ! i"
        using less.prems(1,6) buf[rule_format, of "p + i"] by (simp add: add.assoc)
    qed
    finally have seg: "take (pend - p) (drop p (BlockBuffer s)) = seg B mx ch file (base + p)" by simp
    have len: "base + p < length file" using p less.prems(1,2) by simp
    obtain lc a' where f: "f (seg B mx ch file (base + p)) a = (lc, a')" by fastforce
    show ?thesis
    proof (cases lc)
      case Break
      then show ?thesis using Some f seg segs by (subst RevSearch_loop.simps) simp
    next
      case Continue
      show ?thesis
      proof (cases "p = 0")
        case True
        then have "min (nxt ch file base) (base + rdsz) - base = 0"
          using nxt_occ[OF len fp] by simp
        moreover have "segs B mx ch file base (base + p) = []" using True by (simp add: segs_def)
        ultimately show ?thesis
          using Some f seg segs Continue True by (subst RevSearch_loop.simps) (simp add: block_done_def)
      next
        case False
        have np: "nxt ch file (base + p) = base + p" using len fp by (rule nxt_occ)
        have "nxt ch file base \<le> base + p" using nxt_le_occ[OF _ len fp] by simp
        then have r: "min (nxt ch file base) (base + p) = min (nxt ch file base) (base + rdsz)"
          using p by simp
        have IH: "case scan f (segs B mx ch file base (base + p)) a' of
            (Break, a'') \<Rightarrow> \<exists>s'. RevSearch_loop f ch p p s a' = (Break, s', a'')
          | (Continue, a'') \<Rightarrow> RevSearch_loop f ch p p s a'
                = (Continue, block_done (min (nxt ch file base) (base + p) - base) s, a'')"
          using less.prems p np buf by (intro less.IH) auto
        have step: "RevSearch_loop f ch rdsz pend s a = RevSearch_loop f ch p p s a'"
          using Some f seg Continue False by (subst RevSearch_loop.simps) simp
        show ?thesis using IH f segs Continue unfolding step r by simp
      qed
    qed
  qed
qed

text \<open>Between two blocks: what is left of the block at \<open>P\<close> is at the front of the buffer.\<close>

definition between :: "byte \<Rightarrow> byte list \<Rightarrow> nat \<Rightarrow> rev_search \<Rightarrow> bool" where
  "between ch file P s \<longleftrightarrow>
     length (BlockBuffer s) = BlockSize s + MaxMessageBufferSize s \<and> 0 < BlockSize s \<and>
     LastRemainSize s = min (nxt ch file P) (P + BlockSize s) - P \<and>
     (\<forall>j<LastRemainSize s. BlockBuffer s ! j = file ! (P + j))"

lemma length_memcpy: "off + length xs \<le> length buf \<Longrightarrow> length (memcpy buf off xs) = length buf"
  by (simp add: memcpy_def)

lemma nth_memcpy:
  "off + length xs \<le> length buf \<Longrightarrow> j < length buf \<Longrightarrow>
   memcpy buf off xs ! j = (if off \<le> j \<and> j < off + length xs then xs ! (j - off) else buf ! j)"
  by (auto simp: memcpy_def nth_append)

definition file_read :: "byte list \<Rightarrow> nat \<Rightarrow> nat \<Rightarrow> 'e + byte list" where
  "file_read file fpos n = Inr (take n (drop fpos file))"

lemma reach_arith: "(P::nat) \<le> n \<Longrightarrow> P + min (min n (P + B) - P) mx = min n (P + min B mx)"
  by linarith

lemma read_block:
  assumes "between ch file (P' + rdsz) s" "P' + rdsz \<le> length file" "0 < rdsz" "rdsz \<le> BlockSize s"
    and "rdsz = BlockSize s \<or> P' + rdsz = length file"
  defines "pend \<equiv> (case PayloadEnd (MoveRemainBuffer s) of Some e \<Rightarrow> e | None \<Rightarrow> rdsz)"
  obtains s1 where "OnFileRead (file_read file) P' rdsz (s, a) = (Inr rdsz :: 'e + nat, s1, a)"
    "PayloadEnd s1 = PayloadEnd (MoveRemainBuffer s)" "BlockSize s1 = BlockSize s"
    "MaxMessageBufferSize s1 = MaxMessageBufferSize s"
    "length (BlockBuffer s1) = BlockSize s + MaxMessageBufferSize s"
    "rdsz \<le> pend" "pend \<le> length (BlockBuffer s1)" "P' + pend \<le> length file"
    "\<forall>j<pend. BlockBuffer s1 ! j = file ! (P' + j)"
    "P' + pend = min (nxt ch file (P' + rdsz)) (P' + BlockSize s + min (BlockSize s) (MaxMessageBufferSize s))"
proof -
  let ?B = "BlockSize s" and ?mx = "MaxMessageBufferSize s" and ?P = "P' + rdsz" and ?c = "LastRemainSize s"
  let ?m = "MoveRemainBuffer s" and ?bs = "take rdsz (drop P' file)"
  let ?s1 = "?m\<lparr>BlockBuffer := memcpy (BlockBuffer ?m) 0 ?bs\<rparr>"
  have len: "length (BlockBuffer s) = ?B + ?mx" and c: "?c = min (nxt ch file ?P) (?P + ?B) - ?P"
    and cbuf: "\<forall>j<?c. BlockBuffer s ! j = file ! (?P + j)"
    using assms(1) by (simp_all add: between_def)
  have bs: "length ?bs = rdsz" using assms(2) by simp
  have nP: "?P \<le> nxt ch file ?P" "nxt ch file ?P \<le> length file" using nxt_ge nxt_le assms(2) by auto
  have rsz: "min ?c ?mx \<le> ?mx" "?c \<le> ?B" using c by auto
  have m: "length (BlockBuffer ?m) = ?B + ?mx" "BlockSize ?m = ?B" "MaxMessageBufferSize ?m = ?mx"
    using len rsz by (simp_all add: MoveRemainBuffer_def Let_def length_memcpy)
  have len1: "length (BlockBuffer ?s1) = ?B + ?mx" using m(1) bs assms(4) by (simp add: length_memcpy)
  have pend: "pend = (if ?c = 0 then rdsz else ?B + min ?c ?mx)"
    by (simp add: pend_def MoveRemainBuffer_def Let_def)
  have full: "rdsz = ?B" if "?c \<noteq> 0"
    using that c assms(5) by auto
  have read: "OnFileRead (file_read file) P' rdsz (s, a) = (Inr rdsz :: 'e + nat, ?s1, a)"
    using bs by (simp add: OnFileRead_def file_read_def Let_def)
  have cn: "?c \<le> nxt ch file ?P - ?P" using c by simp
  have le: "P' + pend \<le> length file"
  proof (cases "?c = 0")
    case False
    then have "pend \<le> rdsz + (nxt ch file ?P - ?P)" using pend full[OF False] cn by simp
    then show ?thesis using nP by linarith
  qed (use pend assms(2) in simp)
  have cont: "\<forall>j<pend. BlockBuffer ?s1 ! j = file ! (P' + j)"
  proof (intro allI impI)
    fix j assume j: "j < pend"
    have jl: "j < ?B + ?mx" using j pend assms(4) rsz by (auto split: if_splits)
    have front: "BlockBuffer ?s1 ! j = (if j < rdsz then file ! (P' + j) else BlockBuffer ?m ! j)"
      using jl m(1) bs assms(2,4) by (simp add: nth_memcpy)
    show "BlockBuffer ?s1 ! j = file ! (P' + j)"
    proof (cases "j < rdsz")
      case False
      then have c0: "?c \<noteq> 0" using j pend by (auto split: if_splits)
      have rB: "rdsz = ?B" using full[OF c0] .
      have k: "j - ?B < min ?c ?mx" "j - ?B < ?c" "?P + (j - ?B) = P' + j"
        using False j pend c0 rB by (auto split: if_splits)
      have "j < ?B + min ?c ?mx" using j pend c0 by simp
      then have "BlockBuffer ?m ! j = BlockBuffer s ! (j - ?B)"
        using c0 False rB k(1) jl len by (simp add: MoveRemainBuffer_def Let_def nth_memcpy)
      also have "\<dots> = file ! (P' + j)" using cbuf[rule_format, OF k(2)] k(3) by simp
      finally show ?thesis using front False by simp
    qed (use front in simp)
  qed
  have reach: "P' + pend = min (nxt ch file ?P) (P' + ?B + min ?B ?mx)"
  proof (cases "?c = 0")
    case True
    then have "nxt ch file ?P = ?P" using c nP(1) assms(3,4) by (simp add: min_def split: if_splits)
    then show ?thesis using pend True assms(4) by simp
  next
    case False
    then have "P' + pend = ?P + min (min (nxt ch file ?P) (?P + ?B) - ?P) ?mx"
      using pend c full[OF False] by simp
    moreover have "P' + ?B + min ?B ?mx = ?P + min ?B ?mx" using full[OF False] by simp
    ultimately show ?thesis using reach_arith[OF nP(1), of ?B ?mx] by simp
  qed
  show ?thesis
    using read m len1 le cont reach pend assms(4) rsz by (intro that[of ?s1]) auto
qed

lemma Start_loop_scan:
  assumes "between ch file (P' + rdsz) s" "P' + rdsz \<le> length file" "0 < rdsz" "rdsz \<le> BlockSize s"
    and "rdsz = BlockSize s \<or> P' + rdsz = length file" "P' mod BlockSize s = 0"
  shows "\<exists>res s'. Start_loop (OnFileRead (file_read file)) (\<lambda>pos rdsz. RevSearchBlock f ch rdsz) (BlockSize s)
      (P' + rdsz) rdsz (s, a)
    = (Inr res :: 'e + nat, s', snd (scan f (segs (BlockSize s) (MaxMessageBufferSize s) ch file 0 (P' + rdsz)) a))"
  using assms
proof (induction P' arbitrary: rdsz s a rule: less_induct)
  case (less P')
  let ?B = "BlockSize s" and ?mx = "MaxMessageBufferSize s"
  let ?seg = "segs ?B ?mx ch file"
  let ?pend = "case PayloadEnd (MoveRemainBuffer s) of Some e \<Rightarrow> e | None \<Rightarrow> rdsz"
  obtain s1 where s1: "OnFileRead (file_read file) P' rdsz (s, a) = (Inr rdsz :: 'e + nat, s1, a)"
    "PayloadEnd s1 = PayloadEnd (MoveRemainBuffer s)" "BlockSize s1 = ?B" "MaxMessageBufferSize s1 = ?mx"
    "length (BlockBuffer s1) = ?B + ?mx" "rdsz \<le> ?pend" "?pend \<le> length (BlockBuffer s1)"
    "P' + ?pend \<le> length file" "\<forall>j<?pend. BlockBuffer s1 ! j = file ! (P' + j)"
    "P' + ?pend = min (nxt ch file (P' + rdsz)) (P' + ?B + min ?B ?mx)"
    by (rule read_block[OF less.prems(1-5)])
  have loop: "case scan f (?seg P' (P' + rdsz)) a of
      (Break, a') \<Rightarrow> \<exists>s'. RevSearch_loop f ch rdsz ?pend s1 a = (Break, s', a')
    | (Continue, a') \<Rightarrow> RevSearch_loop f ch rdsz ?pend s1 a
          = (Continue, block_done (min (nxt ch file P') (P' + rdsz) - P') s1, a')"
    using s1(3-10) less.prems(3,4,6) by (intro RevSearch_loop_scan) simp_all
  have blk: "RevSearchBlock f ch rdsz (s1, a) = RevSearch_loop f ch rdsz ?pend s1 a"
    by (simp add: RevSearchBlock_def s1(2))
  have split: "?seg 0 (P' + rdsz) = ?seg P' (P' + rdsz) @ ?seg 0 P'" by (intro segs_split) simp_all
  obtain lc a' where sc: "scan f (?seg P' (P' + rdsz)) a = (lc, a')" by fastforce
  show ?case
  proof (cases lc)
    case Break
    then obtain s' where "RevSearch_loop f ch rdsz ?pend s1 a = (Break, s', a')" using loop sc by auto
    then show ?thesis
      using s1(1) blk sc Break less.prems(3)
      by (subst Start_loop.simps) (simp add: split scan_append)
  next
    case Continue
    let ?r = "min (nxt ch file P') (P' + rdsz) - P'"
    let ?s2 = "block_done ?r s1"
    have lp: "RevSearch_loop f ch rdsz ?pend s1 a = (Continue, ?s2, a')" using loop sc Continue by simp
    have sc': "snd (scan f (?seg 0 (P' + rdsz)) a) = snd (scan f (?seg 0 P') a')"
      using sc Continue by (simp add: split scan_append)
    show ?thesis
    proof (cases "P' = 0")
      case True
      then show ?thesis
        using s1(1) blk lp less.prems(3) sc'
        by (subst Start_loop.simps) (simp add: segs_def)
    next
      case False
      have B: "?B \<le> P'" using False less.prems(6) by (metis mod_less not_le_imp_less)
      then have P': "P' = (P' - ?B) + ?B" by simp
      have r: "?r = min (nxt ch file P') (P' + ?B) - P'"
        using less.prems(2,5) nxt_le[of "P'" "file" ch] less.prems(4) by (auto simp: min_def)
      have "\<forall>j<?r. BlockBuffer s1 ! j = file ! (P' + j)" using s1(6,9) by auto
      then have "between ch file ((P' - ?B) + ?B) ?s2"
        using s1(3-5) r P' less.prems(3,4) by (simp add: between_def block_done_def)
      moreover have "(P' - ?B) mod ?B = 0" using less.prems(6) B by (simp add: le_mod_geq[symmetric])
      moreover have "P' - ?B < P'" using B less.prems(3,4) by simp
      ultimately have "\<exists>res s'. Start_loop (OnFileRead (file_read file)) (\<lambda>pos rdsz. RevSearchBlock f ch rdsz) ?B
          ((P' - ?B) + ?B) ?B (?s2, a') = (Inr res :: 'e + nat, s', snd (scan f (?seg 0 ((P' - ?B) + ?B)) a'))"
        using less.IH[of "P' - ?B" ?B ?s2 a'] less.prems(2,3,4) s1(3,4) B
        by (simp add: block_done_def)
      then show ?thesis
        using s1(1) blk lp less.prems(3) sc' False B
        by (subst Start_loop.simps) simp
    qed
  qed
qed

lemma reverse_search_aux:
  assumes "0 < B" "length buf = B + mx"
  shows "\<exists>n s'.
    RevReadSearcher_Start (Inr (length file)) (file_read file) f ch (FileRevSearch B mx buf, a)
      = (Inr n :: 'e + nat, s', snd (scan f (segs B mx ch file 0 (length file)) a))"
proof (cases "file = []")
  case True
  then show ?thesis by (simp add: RevReadSearcher_Start_def Start_def segs_def)
next
  case False
  let ?s = "FileRevSearch B mx buf" and ?n = "length file"
  let ?r = "if ?n mod B = 0 then B else ?n mod B"
  have r: "0 < ?r" "?r \<le> B" using assms(1) by (auto simp: less_imp_le)
  have le: "?r \<le> ?n" using False mod_less_eq_dividend[of ?n B] by (auto simp: mod_eq_0_iff_dvd dvd_imp_le)
  have m: "(?n - ?r) mod B = 0"
    using le by (auto simp: minus_mod_eq_mult_div le_mod_geq[symmetric])
  have bt: "between ch file ((?n - ?r) + ?r) ?s"
    using le assms by (simp add: between_def FileRevSearch_def)
  have "\<exists>res s'. Start_loop (OnFileRead (file_read file)) (\<lambda>pos rdsz. RevSearchBlock f ch rdsz) (BlockSize ?s)
      ((?n - ?r) + ?r) ?r (?s, a)
    = (Inr res :: 'e + nat, s', snd (scan f (segs (BlockSize ?s) (MaxMessageBufferSize ?s) ch file 0 ((?n - ?r) + ?r)) a))"
    using bt le r m by (intro Start_loop_scan) (simp_all add: FileRevSearch_def)
  then show ?thesis
    using le False by (auto simp: RevReadSearcher_Start_def Start_def FileRevSearch_def Let_def)
qed



end
