(* ===== verification/FixRecorder.thy ===== *)
theory FixRecorder
  imports FixMessage FileRevRead
begin

text \<open>
  \<open>fix/FixRecorder.hpp\<close>, \<open>fix/FixRecorder.cpp\<close>, \<open>fix/FixRecorder_Searcher.hpp\<close> and
  \<open>fix/FixRecorder_Searcher.cpp\<close>: the file that keeps every message sent and received together
  with the next sequence numbers, and the backward search through it that finds the numbers again after
  a restart. \<open>File\<close> is what has been appended, in order; a pointer into a line is the rest of
  the line, a null pointer \<open>None\<close>. The search is \<open>FileRevRead\<close> with the line as segment.

  The main lemma, \<open>recov_append\<close>, says what one more line does to what a search finds; the
  properties stand in \<open>FixSender\<close>, where messages are sent.
\<close>

subsection \<open>Lines\<close>

definition HdrInfo :: "byte list" where "HdrInfo = ascii ''i ''"
definition HdrError :: "byte list" where "HdrError = ascii ''e ''"
definition HdrSend :: "byte list" where "HdrSend = ascii ''S ''"
definition HdrReplay :: "byte list" where "HdrReplay = ascii ''y ''"
definition HdrRecv :: "byte list" where "HdrRecv = ascii ''R ''"
definition HdrGapRecv :: "byte list" where "HdrGapRecv = ascii ''g ''"
definition HdrIgnoreRecv :: "byte list" where "HdrIgnoreRecv = ascii ''d ''"
definition HdrIdx :: "byte list" where "HdrIdx = 2 # ascii ''IDX''"
definition HdrRst :: "byte list" where "HdrRst = 2 # ascii ''RST''"
definition HdrNextSendSeq :: "byte list" where "HdrNextSendSeq = SPL # ascii ''S=''"
definition HdrNextRecvSeq :: "byte list" where "HdrNextRecvSeq = SPL # ascii ''R=''"

lemmas line_headers = HdrInfo_def HdrError_def HdrSend_def HdrReplay_def HdrRecv_def HdrGapRecv_def
  HdrIgnoreRecv_def HdrIdx_def HdrRst_def HdrNextSendSeq_def HdrNextRecvSeq_def ascii_def

definition kTimeStampWidth :: nat where "kTimeStampWidth = 21"
definition kMaxFixMsgBufferSize :: nat where "kMaxFixMsgBufferSize = 1024 * 4"
definition kReloadSentBufferSize :: nat where "kReloadSentBufferSize = 1024 * 64"
definition kIdxInfoSizeInterval :: nat where "kIdxInfoSizeInterval = kReloadSentBufferSize - 1024 * 2"
definition kLastSeqSearcherBlockSize :: nat where "kLastSeqSearcherBlockSize = 1024 * 4"
definition kControlMsgSeqNumMinLength :: nat where "kControlMsgSeqNumMinLength = 8"

subsection \<open>The recorder\<close>

record fix_recorder =
  BeginHeader :: "byte list"
  RecCompIDs :: comp_ids
  NextSendSeq :: nat
  NextRecvSeq :: nat
  IdxInfoSizeInterval :: nat
  File :: "byte list"

definition AddWork :: "byte list \<Rightarrow> 'z fix_recorder_scheme \<Rightarrow> 'z fix_recorder_scheme" where
  "AddWork buf r = r\<lparr>File := File r @ buf\<rparr>"

definition WriteBuffer :: "byte list \<Rightarrow> 'z fix_recorder_scheme \<Rightarrow> 'z fix_recorder_scheme" where
  "WriteBuffer rbuf r =
     (let n = uadd 64 (IdxInfoSizeInterval r) (length rbuf)
      in if n > kIdxInfoSizeInterval
         then AddWork (rbuf @ HdrIdx @ HdrNextSendSeq @
                UIntToStrRev (HdrNextRecvSeq @ UIntToStrRev [0xa] (NextRecvSeq r)) (NextSendSeq r))
              (r\<lparr>IdxInfoSizeInterval := 0\<rparr>)
         else AddWork rbuf (r\<lparr>IdxInfoSizeInterval := n\<rparr>))"

definition Write :: "byte list \<Rightarrow> tstamp \<Rightarrow> byte list \<Rightarrow> 'z fix_recorder_scheme \<Rightarrow> 'z fix_recorder_scheme" where
  "Write header now args r = WriteBuffer (header @ Stamp now @ 0x20 # args @ [0xa]) r"

definition WriteAfterSend :: "byte list \<Rightarrow> nat \<Rightarrow> 'z fix_recorder_scheme \<Rightarrow> 'z fix_recorder_scheme" where
  "WriteAfterSend lineMessage nextSendSeq r = WriteBuffer lineMessage (r\<lparr>NextSendSeq := nextSendSeq\<rparr>)"

definition WriteInputConform :: "tstamp \<Rightarrow> byte list \<Rightarrow> 'z fix_recorder_scheme \<Rightarrow> 'z fix_recorder_scheme" where
  "WriteInputConform rxTime origMsg r =
     WriteBuffer (HdrRecv @ Stamp rxTime @ 0x20 # origMsg @ [0xa])
       (r\<lparr>NextRecvSeq := uadd 32 (NextRecvSeq r) 1\<rparr>)"

definition WriteInputSeqReset ::
  "tstamp \<Rightarrow> byte list \<Rightarrow> nat \<Rightarrow> bool \<Rightarrow> 'z fix_recorder_scheme \<Rightarrow> 'z fix_recorder_scheme" where
  "WriteInputSeqReset now fixmsg newSeqNo isGapFill r =
     WriteBuffer (HdrRecv @ Stamp now @ 0x20 # fixmsg @ 0xa #
         (if isGapFill then HdrIdx else HdrRst) @ HdrNextRecvSeq @ UIntToStrRev [0xa] newSeqNo)
       (r\<lparr>NextRecvSeq := newSeqNo\<rparr>)"

definition ForceResetRecvSeq ::
  "tstamp \<Rightarrow> byte list \<Rightarrow> nat \<Rightarrow> 'z fix_recorder_scheme \<Rightarrow> 'z fix_recorder_scheme" where
  "ForceResetRecvSeq now info newSeqNo r =
     WriteBuffer (HdrInfo @ Stamp now @ 0x20 # info @ 0xa # HdrRst @ HdrNextRecvSeq @ UIntToStrRev [0xa] newSeqNo)
       (r\<lparr>NextRecvSeq := newSeqNo\<rparr>)"

definition Append :: "byte list \<Rightarrow> 'z fix_recorder_scheme \<Rightarrow> 'z fix_recorder_scheme" where
  "Append buf r = AddWork buf (r\<lparr>IdxInfoSizeInterval := uadd 64 (IdxInfoSizeInterval r) (length buf)\<rparr>)"

subsection \<open>Reading a line of the file\<close>

definition SkipTimestamp :: "byte list \<Rightarrow> byte list option" where
  "SkipTimestamp line =
     (if length line < kTimeStampWidth + kFixMinHeaderWidth then None
      else if line ! 1 \<noteq> 0x20 then None
      else if line ! (2 + kTimeStampWidth) \<noteq> 0x20 then None
      else Some (drop (3 + kTimeStampWidth) line))"

text \<open>What \<open>FixRevSercher\<close> and \<open>LastSeqSearcher\<close> keep.\<close>

record last_seq =
  SearchParser :: fix_parser
  RstRecv :: bool
  RstSend :: bool
  FoundSend :: nat
  FoundRecv :: nat

text \<open>An output pointer of the source is \<open>None\<close> when null. The result is the position behind what was
  read, with the outputs and the flags.\<close>

definition ParseControl_recv ::
  "bool \<Rightarrow> byte list \<Rightarrow> nat option \<Rightarrow> nat option \<Rightarrow> bool \<times> bool
   \<Rightarrow> byte list option \<times> nat option \<times> nat option \<times> bool \<times> bool" where
  "ParseControl_recv isRst p outSend outRecv flags =
     (if tl p = [] \<or> hd (tl p) \<noteq> EQ then (Some (tl p), outSend, outRecv, flags)
      else let q = tl (tl p); flags' = (fst flags \<or> isRst, snd flags)
        in if outRecv = Some 0
           then (case StrTo_u 32 q 0 of (v, rest) \<Rightarrow> (Some rest, outSend, Some v, flags'))
           else (Some q, outSend, outRecv, flags'))"

definition ParseControlMsgSeqNum ::
  "byte list \<Rightarrow> nat option \<Rightarrow> nat option \<Rightarrow> bool \<times> bool
   \<Rightarrow> byte list option \<times> nat option \<times> nat option \<times> bool \<times> bool" where
  "ParseControlMsgSeqNum line outSend outRecv flags =
     (if length line < kControlMsgSeqNumMinLength then (None, outSend, outRecv, flags)
      else let isIdx = (take 4 line = HdrIdx); isRst = (\<not> isIdx \<and> take 4 line = HdrRst)
        in if \<not> isIdx \<and> \<not> isRst then (None, outSend, outRecv, flags)
           else if line ! 4 \<noteq> SPL then (None, outSend, outRecv, flags)
           else if line ! 5 = 0x53 then
             (if line ! 6 \<noteq> EQ then (Some (drop 6 line), outSend, outRecv, flags)
              else let p = drop 7 line; flags' = (fst flags, snd flags \<or> isRst)
                in if outSend = Some 0 then
                     (case StrTo_u 32 p 0 of (v, rest) \<Rightarrow>
                        if length rest < 4 \<or> hd rest \<noteq> SPL then (Some rest, Some v, outRecv, flags')
                        else if hd (tl rest) \<noteq> 0x52 then (Some (tl rest), Some v, outRecv, flags')
                        else ParseControl_recv isRst (tl rest) (Some v) outRecv flags')
                   else (case dropWhile (\<lambda>c. c \<noteq> SPL) p of
                           [] \<Rightarrow> (None, outSend, outRecv, flags')
                         | rest \<Rightarrow>
                             if length rest < 4 then (Some rest, outSend, outRecv, flags')
                             else if hd (tl rest) \<noteq> 0x52 then (Some (tl rest), outSend, outRecv, flags')
                             else ParseControl_recv isRst (tl rest) outSend outRecv flags'))
           else if line ! 5 = 0x52 then ParseControl_recv isRst (drop 5 line) outSend outRecv flags
           else (Some (drop 5 line), outSend, outRecv, flags))"

definition ParseFixLine_MsgSeqNum ::
  "(nat \<Rightarrow> byte) \<Rightarrow> byte list \<Rightarrow> nat \<Rightarrow> fix_parser \<Rightarrow> (byte list \<times> nat \<times> fix_parser) option" where
  "ParseFixLine_MsgSeqNum after line seqn p =
     (if seqn > 0 then None
      else case SkipTimestamp line of
             None \<Rightarrow> None
           | Some fixmsg \<Rightarrow>
               (case ParseFields after fixmsg (FullMessage\<lparr>UntilMsgSeqNum := True\<rparr>) (ClearParser p) of
                  (_, _, p') \<Rightarrow> Some (fixmsg, MsgSeqNum p', p')))"

text \<open>When the fields cannot be parsed the number keeps the value that \<open>Clear\<close> gave it.\<close>

definition ParseFixLine_MsgSeqNum_ToNextSeq ::
  "(nat \<Rightarrow> byte) \<Rightarrow> byte list \<Rightarrow> nat \<Rightarrow> fix_parser \<Rightarrow> nat \<times> fix_parser" where
  "ParseFixLine_MsgSeqNum_ToNextSeq after line seqn p =
     (case ParseFixLine_MsgSeqNum after line seqn p of
        None \<Rightarrow> (seqn, p)
      | Some (_, n, p') \<Rightarrow> (if n > 0 then uadd 32 n 1 else n, p'))"

subsection \<open>\<open>LastSeqSearcher\<close>\<close>

definition LastSeq_loop :: "last_seq \<Rightarrow> loop_control \<times> last_seq" where
  "LastSeq_loop st = (if FoundRecv st = 0 \<or> FoundSend st = 0 then Continue else Break, st)"

definition OnFoundChar :: "(nat \<Rightarrow> byte) \<Rightarrow> byte list \<Rightarrow> last_seq \<Rightarrow> loop_control \<times> last_seq" where
  "OnFoundChar after found st =
     (case tl found of
        [] \<Rightarrow> (Continue, st)
      | c # cs \<Rightarrow>
          if c = 0x52 then
            (case ParseFixLine_MsgSeqNum_ToNextSeq after (c # cs) (FoundRecv st) (SearchParser st) of
               (n, p) \<Rightarrow> LastSeq_loop (st\<lparr>FoundRecv := n, SearchParser := p\<rparr>))
          else if c = 0x53 then
            (case ParseFixLine_MsgSeqNum_ToNextSeq after (c # cs) (FoundSend st) (SearchParser st) of
               (n, p) \<Rightarrow> LastSeq_loop (st\<lparr>FoundSend := n, SearchParser := p\<rparr>))
          else if c = 2 then
            (case ParseControlMsgSeqNum (c # cs) (Some (FoundSend st)) (Some (FoundRecv st)) (RstRecv st, RstSend st) of
               (_, s, r, fr, fs) \<Rightarrow>
                 LastSeq_loop (st\<lparr>FoundSend := the s, FoundRecv := the r, RstRecv := fr, RstSend := fs\<rparr>))
          else (Continue, st))"

definition LastSeqSearcher :: "byte list \<Rightarrow> last_seq" where
  "LastSeqSearcher hdr =
     \<lparr>SearchParser = ResetExpectHeader hdr FixParser, RstRecv = False, RstSend = False, FoundSend = 0, FoundRecv = 0\<rparr>"

definition LastSeqSearcher_Start ::
  "('e + nat) \<Rightarrow> (nat \<Rightarrow> nat \<Rightarrow> 'e + byte list) \<Rightarrow> (nat \<Rightarrow> byte) \<Rightarrow> byte list \<Rightarrow> last_seq
   \<Rightarrow> ('e + nat) \<times> last_seq" where
  "LastSeqSearcher_Start fdSize fdRead after blockBuffer st =
     (case RevReadSearcher_Start fdSize fdRead (OnFoundChar after) 0xa
             (FileRevSearch kLastSeqSearcherBlockSize kMaxFixMsgBufferSize blockBuffer, st) of
        (res, _, st') \<Rightarrow> (res, st'))"

text \<open>\<open>FixRecorder::Initialize\<close> on a file that could be opened.\<close>

definition Initialize ::
  "('e + nat) \<Rightarrow> (nat \<Rightarrow> nat \<Rightarrow> 'e + byte list) \<Rightarrow> (nat \<Rightarrow> byte) \<Rightarrow> byte list \<Rightarrow> tstamp
   \<Rightarrow> 'z fix_recorder_scheme \<Rightarrow> 'e + 'z fix_recorder_scheme" where
  "Initialize fdSize fdRead after blockBuffer now r =
     (case LastSeqSearcher_Start fdSize fdRead after blockBuffer (LastSeqSearcher (BeginHeader r)) of
        (Inl e, _) \<Rightarrow> Inl e
      | (Inr _, st) \<Rightarrow>
          let r1 = r\<lparr>NextSendSeq := (if FoundSend st = 0 then 1 else FoundSend st),
                     NextRecvSeq := (if FoundRecv st = 0 then 1 else FoundRecv st), IdxInfoSizeInterval := 0\<rparr>
          in Inr (Write HdrInfo now (ascii ''f9fix.FixRecorder Initialized|NextSendSeq='' @
                   UIntToStrRev (ascii ''|NextRecvSeq='' @ UIntToStrRev [] (NextRecvSeq r1)) (NextSendSeq r1)) r1))"

text \<open>The line that the destructor leaves.\<close>

definition CloseRecorder :: "tstamp \<Rightarrow> 'z fix_recorder_scheme \<Rightarrow> 'z fix_recorder_scheme" where
  "CloseRecorder now r = AddWork (HdrInfo @ Stamp now @ ascii '' f9fix.FixRecorder dtor.'' @ [0xa, 0xa]) r"

subsection \<open>Reading a message up to its number\<close>

definition fields_spl :: "(nat \<times> byte list) list \<Rightarrow> byte list" where
  "fields_spl fs = concat (map (\<lambda>(t, v). UIntToStrRev (EQ # v @ [SPL]) t) fs)"

lemma fields_spl_Cons: "fields_spl ((t, v) # fs) = UIntToStrRev (EQ # v @ SPL # []) t @ fields_spl fs"
  by (simp add: fields_spl_def)

lemma UntilRemove_Full [simp]: "UntilRemove t FullMessage = FullMessage"
  by (simp add: UntilRemove_def)

lemma foldl_UntilRemove_Full [simp]: "foldl (\<lambda>u t. UntilRemove t u) FullMessage ts = FullMessage"
  by (induction ts) simp_all

lemma ParseFields_loop_until:
  assumes "FP p fs0" "fields_ok (fs0 @ fs)" "u \<noteq> FullMessage" "fs \<noteq> []"
    and "foldl (\<lambda>u t. UntilRemove t u) u (map fst fs) = FullMessage"
    and "foldl (\<lambda>u t. UntilRemove t u) u (map fst (butlast fs)) \<noteq> FullMessage"
  shows "\<exists>p'. ParseFields_loop after (fields_spl fs @ rest) u p = (Used 1, rest, p') \<and> FP p' (fs0 @ fs)"
  using assms
proof (induction fs arbitrary: p fs0 u)
  case (Cons f fs)
  obtain t v where f: "f = (t, v)" by fastforce
  let ?p = "SetFieldValue t v (FieldSlot t p)" and ?r = "SPL # fields_spl fs @ rest"
  let ?u = "UntilRemove t u"
  have all: "\<forall>x. length (vals (fs0 @ (t, v) # fs) x) \<le> 5" using Cons.prems(2) f by (simp add: fields_ok_def)
  have ok: "0 < t" "t < 2 ^ 32" "t \<noteq> 96" "SPL \<notin> set v" "length fs0 < 2 ^ 13"
    using Cons.prems(2) f by (auto simp: fields_ok_def)
  have cnt: "length (vals fs0 t) \<le> 4" using all[THEN spec, of t] by (simp add: vals_def)
  have "ValueCount (FieldArray p t) \<le> 4" using cnt Cons.prems(1) by (simp add: FP_def)
  then have P: "ParseField after (UIntToStrRev (EQ # v @ ?r) t) p = (Used 1, tl ?r, ?p, t)"
    using ok by (intro ParseField_text) auto
  have tx: "fields_spl (f # fs) @ rest = UIntToStrRev (EQ # v @ ?r) t"
    using UIntToStrRev_append[of "EQ # v @ [SPL]" "fields_spl fs @ rest" t] by (simp add: f fields_spl_Cons)
  have fp: "FP ?p (fs0 @ [(t, v)])" using FP_step Cons.prems(1) cnt ok(5) by blast
  have step: "ParseFields_loop after (fields_spl (f # fs) @ rest) u p
    = (if ?u = FullMessage then (Used 1, fields_spl fs @ rest, ?p)
       else ParseFields_loop after (fields_spl fs @ rest) ?u ?p)"
    using UIntToStrRev_nonempty[of "EQ # v @ ?r" t] P Cons.prems(3)
    unfolding tx by (subst ParseFields_loop.simps) simp
  show ?case
  proof (cases "fs = []")
    case True
    then have "?u = FullMessage" using Cons.prems(5) f by simp
    then show ?thesis using step fp True f by (simp add: fields_spl_def)
  next
    case False
    then have "?u \<noteq> FullMessage" using Cons.prems(6) f by auto
    moreover have "fields_ok ((fs0 @ [(t, v)]) @ fs)" using Cons.prems(2) f by simp
    ultimately show ?thesis
      using Cons.IH[of ?p "fs0 @ [(t, v)]" ?u] fp False Cons.prems(5,6) f step by simp
  qed
qed simp

text \<open>A message text whose number comes after the fields \<open>pre\<close>.\<close>

definition msg_text :: "(nat \<times> byte list) list \<Rightarrow> nat \<Rightarrow> byte list \<Rightarrow> byte list" where
  "msg_text pre n rest = fields_spl (pre @ [(34, UIntToStrRev [] n)]) @ rest"

definition pre_ok :: "(nat \<times> byte list) list \<Rightarrow> nat \<Rightarrow> bool" where
  "pre_ok pre n \<longleftrightarrow> fields_ok (pre @ [(34, UIntToStrRev [] n)]) \<and> 34 \<notin> fst ` set pre \<and> n < 2 ^ 32"

lemma UIntToStrRev_rest [simp]: "StrTo_u 32 (UIntToStrRev [] n) 0 = (n, [])" if "n < 2 ^ 32"
  using that by (intro StrTo_u_UIntToStrRev) simp_all

lemma until34:
  "34 \<notin> set ts \<Longrightarrow> foldl (\<lambda>u t. UntilRemove t u) (FullMessage\<lparr>UntilMsgSeqNum := True\<rparr>) ts
     = FullMessage\<lparr>UntilMsgSeqNum := True\<rparr>"
  by (induction ts) (auto simp: UntilRemove_def)

lemma FP_parser_wf: "FP p fs \<Longrightarrow> parser_wf (ParseFieldsEnd p)"
  by (auto simp: FP_def parser_wf_def ParseFieldsEnd_def vals_def filter_empty_conv dest!: spec intro: rev_image_eqI)

lemma ParseFields_number:
  assumes "pre_ok pre n" "parser_wf p"
  shows "\<exists>p'. ParseFields after (msg_text pre n rest) (FullMessage\<lparr>UntilMsgSeqNum := True\<rparr>) (ClearParser p)
      = (Used 1, rest, p') \<and> MsgSeqNum p' = n \<and> parser_wf p'"
proof -
  let ?fs = "pre @ [(34, UIntToStrRev [] n)]" and ?u = "FullMessage\<lparr>UntilMsgSeqNum := True\<rparr>"
  have no: "34 \<notin> set (map fst pre)" using assms(1) by (auto simp: pre_ok_def)
  have last: "UntilRemove 34 ?u = FullMessage" by (simp add: UntilRemove_def)
  have "\<exists>p'. ParseFields_loop after (fields_spl ?fs @ rest) ?u (ClearParser p) = (Used 1, rest, p') \<and> FP p' ([] @ ?fs)"
    using assms until34[OF no] last by (intro ParseFields_loop_until) (auto simp: ClearParser_FP pre_ok_def)
  then obtain p' where p': "ParseFields_loop after (fields_spl ?fs @ rest) ?u (ClearParser p) = (Used 1, rest, p')"
    "FP p' ?fs" by auto
  have v: "vals ?fs 34 = [UIntToStrRev [] n]"
    using assms(1) by (auto simp: vals_def pre_ok_def filter_empty_conv)
  then have "GetField p' 34 = Some (FieldArray p' 34)" "Value (FieldArray p' 34) = UIntToStrRev [] n"
    using p'(2) by (auto simp: GetField_def FP_def)
  then have "MsgSeqNum (ParseFieldsEnd p') = n"
    using assms(1) by (simp add: ParseFieldsEnd_def pre_ok_def)
  then show ?thesis
    using p'(1) FP_parser_wf[OF p'(2)] by (auto simp: ParseFields_def msg_text_def)
qed

subsection \<open>What one line tells the search\<close>

text \<open>Lines that the recorder writes, with the next numbers to send and to receive that they tell; 0 when
  they tell none. A message may be cut behind its number.\<close>

inductive good_line :: "byte list \<Rightarrow> nat \<Rightarrow> nat \<Rightarrow> bool" where
  other: "L = [] \<or> hd L \<notin> {0x52, 0x53, 2} \<Longrightarrow> good_line L 0 0"
| sent: "length st = kTimeStampWidth \<Longrightarrow> pre_ok pre n \<Longrightarrow> 0 < n \<Longrightarrow> Suc n < 2 ^ 32 \<Longrightarrow>
    24 + length (msg_text pre n []) \<le> 4096 \<Longrightarrow> 13 \<le> length (msg_text pre n rest) \<Longrightarrow>
    good_line (HdrSend @ st @ 0x20 # msg_text pre n rest) (Suc n) 0"
| recv: "length st = kTimeStampWidth \<Longrightarrow> pre_ok pre n \<Longrightarrow> 0 < n \<Longrightarrow> Suc n < 2 ^ 32 \<Longrightarrow>
    24 + length (msg_text pre n []) \<le> 4096 \<Longrightarrow> 13 \<le> length (msg_text pre n rest) \<Longrightarrow>
    good_line (HdrRecv @ st @ 0x20 # msg_text pre n rest) 0 (Suc n)"
| idx: "0 < s \<Longrightarrow> s < 2 ^ 32 \<Longrightarrow> 0 < r \<Longrightarrow> r < 2 ^ 32 \<Longrightarrow>
    good_line (HdrIdx @ HdrNextSendSeq @ UIntToStrRev (HdrNextRecvSeq @ UIntToStrRev [] r) s) s r"
| rst_recv: "0 < r \<Longrightarrow> r < 2 ^ 32 \<Longrightarrow> hdr \<in> {HdrIdx, HdrRst} \<Longrightarrow>
    good_line (hdr @ HdrNextRecvSeq @ UIntToStrRev [] r) 0 r"
| rst_send: "0 < s \<Longrightarrow> s < 2 ^ 32 \<Longrightarrow> good_line (HdrRst @ HdrNextSendSeq @ UIntToStrRev [] s) s 0"

definition fnz :: "nat \<Rightarrow> nat \<Rightarrow> nat" where
  "fnz a b = (if a = 0 then b else a)"

definition tells :: "loop_control \<times> last_seq \<Rightarrow> last_seq \<Rightarrow> nat \<Rightarrow> nat \<Rightarrow> bool" where
  "tells res st s r \<longleftrightarrow>
     FoundSend (snd res) = fnz (FoundSend st) s \<and> FoundRecv (snd res) = fnz (FoundRecv st) r \<and>
     parser_wf (SearchParser (snd res)) \<and>
     (fst res = Break \<longrightarrow> FoundSend (snd res) \<noteq> 0 \<and> FoundRecv (snd res) \<noteq> 0)"

lemma UIntToStrRev_digits_le: "n < 10 ^ k \<Longrightarrow> 0 < k \<Longrightarrow> length (UIntToStrRev pout n) \<le> length pout + k"
proof (induction pout n arbitrary: k rule: UIntToStrRev.induct)
  case (1 pout n)
  show ?case
  proof (cases "n \<ge> 100")
    case True
    have "2 < k"
    proof (rule ccontr)
      assume "\<not> 2 < k"
      then have "(10::nat) ^ k \<le> 10 ^ 2" by (intro power_increasing) simp_all
      then show False using True "1.prems" by simp
    qed
    then obtain j where j: "k = Suc (Suc j)" "0 < j" by (cases k; cases "k - 1") auto
    have "n div 100 < 10 ^ j" using "1.prems"(1) j by (simp add: less_mult_imp_div_less)
    from "1.IH"[OF True this j(2)] show ?thesis
      using True j by (simp add: UIntToStrRev.simps[of pout n] Put2Digs_def)
  next
    case False
    have "2 \<le> k" if "10 \<le> n"
    proof (rule ccontr)
      assume "\<not> 2 \<le> k"
      then have "k = 1" using "1.prems"(2) by simp
      then show False using that "1.prems"(1) by simp
    qed
    then show ?thesis
      using False "1.prems"(2) by (auto simp: UIntToStrRev.simps[of pout n] Put2Digs_def)
  qed
qed

lemma UIntToStrRev_u32_length: "n < 2 ^ 32 \<Longrightarrow> length (UIntToStrRev pout n) \<le> length pout + 10"
  by (rule UIntToStrRev_digits_le) simp_all

lemma LastSeq_loop_tells:
  "FoundSend st' = fnz (FoundSend st) s \<Longrightarrow> FoundRecv st' = fnz (FoundRecv st) r \<Longrightarrow>
   parser_wf (SearchParser st') \<Longrightarrow> tells (LastSeq_loop st') st s r"
  by (auto simp: tells_def LastSeq_loop_def)

lemma SkipTimestamp_line:
  assumes "length st = kTimeStampWidth" "length m \<ge> 13"
  shows "SkipTimestamp (c # 0x20 # st @ 0x20 # m) = Some m"
  using assms by (simp add: SkipTimestamp_def kTimeStampWidth_def kFixMinHeaderWidth_def nth_append
      numeral_eq_Suc)

lemma ToNextSeq_line:
  assumes "length st = kTimeStampWidth" "pre_ok pre n" "0 < n" "Suc n < 2 ^ 32" "13 \<le> length (msg_text pre n rest)"
    and "parser_wf p"
  shows "\<exists>p'. ParseFixLine_MsgSeqNum_ToNextSeq after (c # 0x20 # st @ 0x20 # msg_text pre n rest) seqn p
    = (fnz seqn (Suc n), p') \<and> parser_wf p'"
  using SkipTimestamp_line[OF assms(1,5)] ParseFields_number[OF assms(2,6), of after rest] assms(3,4,6)
  by (auto simp: ParseFixLine_MsgSeqNum_ToNextSeq_def ParseFixLine_MsgSeqNum_def fnz_def wrap_simps
      split: prod.splits)

lemma take_message:
  assumes "24 + length (msg_text pre n []) \<le> 4096" "13 \<le> length (msg_text pre n rest)"
    and "length st = kTimeStampWidth" "length h = 2" "4096 \<le> k"
  obtains rest' where "take k (h @ st @ 0x20 # msg_text pre n rest) = h @ st @ 0x20 # msg_text pre n rest'"
    "13 \<le> length (msg_text pre n rest')"
proof -
  let ?f = "msg_text pre n []"
  let ?j = "k - 24 - length ?f"
  have m: "msg_text pre n x = ?f @ x" for x by (simp add: msg_text_def)
  have 1: "take k (h @ st @ 0x20 # msg_text pre n rest) = h @ st @ 0x20 # msg_text pre n (take ?j rest)"
    unfolding m[of rest] m[of "take ?j rest"] using assms by (simp add: kTimeStampWidth_def take_Cons')
  have 2: "13 \<le> length (msg_text pre n (take ?j rest))"
    using assms(1,2,5) unfolding m[of rest] m[of "take ?j rest"] by (auto simp: min_def)
  show ?thesis using that[OF 1 2] .
qed

lemma Hdr_bytes: "HdrIdx = [2, 0x49, 0x44, 0x58]" "HdrRst = [2, 0x52, 0x53, 0x54]" "HdrIdx \<noteq> HdrRst"
  by (simp_all add: line_headers)

lemma ParseControl_S:
  assumes "hdr \<in> {HdrIdx, HdrRst}" "U \<noteq> []"
  shows "ParseControlMsgSeqNum (hdr @ HdrNextSendSeq @ U) outSend outRecv flags =
    (let isRst = (hdr = HdrRst); flags' = (fst flags, snd flags \<or> isRst)
     in if outSend = Some 0 then
          (case StrTo_u 32 U 0 of (v, rest) \<Rightarrow>
             if length rest < 4 \<or> hd rest \<noteq> SPL then (Some rest, Some v, outRecv, flags')
             else if hd (tl rest) \<noteq> 0x52 then (Some (tl rest), Some v, outRecv, flags')
             else ParseControl_recv isRst (tl rest) (Some v) outRecv flags')
        else (case dropWhile (\<lambda>c. c \<noteq> SPL) U of
                [] \<Rightarrow> (None, outSend, outRecv, flags')
              | rest \<Rightarrow>
                  if length rest < 4 then (Some rest, outSend, outRecv, flags')
                  else if hd (tl rest) \<noteq> 0x52 then (Some (tl rest), outSend, outRecv, flags')
                  else ParseControl_recv isRst (tl rest) outSend outRecv flags'))"
proof -
  have l: "length hdr = 4" "hdr = HdrIdx \<or> hdr = HdrRst" using assms(1) by (auto simp: Hdr_bytes)
  let ?L = "hdr @ HdrNextSendSeq @ U"
  have n: "?L ! 4 = SPL" "?L ! 5 = 0x53" "?L ! 6 = EQ" "drop 7 ?L = U" "take 4 ?L = hdr"
    using l(1) by (simp_all add: HdrNextSendSeq_def ascii_def nth_append)
  have k: "\<not> length ?L < kControlMsgSeqNumMinLength"
    using assms(2) l(1) by (cases U) (simp_all add: kControlMsgSeqNumMinLength_def HdrNextSendSeq_def ascii_def)
  have r: "(\<not> hdr = HdrIdx \<and> hdr = HdrRst) = (hdr = HdrRst)" "(\<not> hdr = HdrIdx \<and> \<not> hdr = HdrRst) = False"
    using l(2) Hdr_bytes(3) by auto
  show ?thesis
    unfolding ParseControlMsgSeqNum_def Let_def n if_not_P[OF k] r by simp
qed

lemma ParseControl_R:
  assumes "hdr \<in> {HdrIdx, HdrRst}" "U \<noteq> []"
  shows "ParseControlMsgSeqNum (hdr @ HdrNextRecvSeq @ U) outSend outRecv flags =
    ParseControl_recv (hdr = HdrRst) (0x52 # EQ # U) outSend outRecv flags"
proof -
  have l: "length hdr = 4" "hdr = HdrIdx \<or> hdr = HdrRst" using assms(1) by (auto simp: Hdr_bytes)
  let ?L = "hdr @ HdrNextRecvSeq @ U"
  have n: "?L ! 4 = SPL" "?L ! 5 = 0x52" "drop 5 ?L = 0x52 # EQ # U" "take 4 ?L = hdr"
    using l(1) by (simp_all add: HdrNextRecvSeq_def ascii_def nth_append)
  have k: "\<not> length ?L < kControlMsgSeqNumMinLength"
    using assms(2) l(1) by (cases U) (simp_all add: kControlMsgSeqNumMinLength_def HdrNextRecvSeq_def ascii_def)
  show ?thesis
    unfolding ParseControlMsgSeqNum_def Let_def n if_not_P[OF k]
    using l(2) Hdr_bytes(3) by auto
qed

lemma ParseControl_recv_number:
  "r < 2 ^ 32 \<Longrightarrow> \<exists>rest f. ParseControl_recv isRst (0x52 # EQ # UIntToStrRev [] r) s (Some b) flags
     = (rest, s, Some (fnz b r), f)"
  by (simp add: ParseControl_recv_def fnz_def Let_def)

text \<open>The three control lines, in one form: what is behind the first number is empty or the second one.\<close>

lemma ParseControl_S_number:
  assumes "hdr \<in> {HdrIdx, HdrRst}" "s < 2 ^ 32"
    and "T = [] \<and> r = 0 \<or> T = HdrNextRecvSeq @ UIntToStrRev [] r \<and> r < 2 ^ 32"
  shows "\<exists>rest f. ParseControlMsgSeqNum (hdr @ HdrNextSendSeq @ UIntToStrRev T s) (Some a) (Some b) flags
    = (rest, Some (fnz a s), Some (fnz b r), f)"
proof -
  obtain ds where ds: "UIntToStrRev T s = ds @ T" "\<forall>c\<in>set ds. isdigit c"
    using UIntToStrRev_spec[of T s] by blast
  have num: "StrTo_u 32 (UIntToStrRev T s) 0 = (s, T)"
    using assms by (intro StrTo_u_UIntToStrRev) (auto simp: line_headers)
  have "SPL \<notin> set ds" using ds(2) by auto
  then have mem: "dropWhile (\<lambda>c. c \<noteq> SPL) (UIntToStrRev T s) = T"
    unfolding ds(1) using assms(3) by (subst dropWhile_append2) (auto simp: line_headers)
  have ne: "UIntToStrRev T s \<noteq> []" "UIntToStrRev [] r \<noteq> []" by (rule UIntToStrRev_nonempty)+
  have T: "T = SPL # 0x52 # EQ # UIntToStrRev [] r" if "T \<noteq> []"
    using assms(3) that by (auto simp: HdrNextRecvSeq_def ascii_def)
  have len: "\<not> length T < 4" if "T \<noteq> []"
    using ne(2) T[OF that] by (simp add: Suc_le_eq not_less)
  show ?thesis
  proof (cases "T = []")
    case True
    then have "r = 0" using assms(3) by (auto simp: HdrNextRecvSeq_def)
    then show ?thesis
      using num True unfolding ParseControl_S[OF assms(1) ne(1)] Let_def mem
      by (cases "a = 0") (simp_all add: fnz_def)
  next
    case False
    have R: "\<exists>rest f. ParseControl_recv x (tl T) y (Some b) z = (rest, y, Some (fnz b r), f)" for x y z
      using ParseControl_recv_number assms(3) False T[OF False] by auto
    obtain x xs where xs: "T = x # xs" using False by (cases T) auto
    have hd: "hd T = SPL" "hd (tl T) = 0x52" using T[OF False] by simp_all
    show ?thesis
      using num len[OF False] hd R xs unfolding ParseControl_S[OF assms(1) ne(1)] Let_def mem
      by (cases "a = 0") (simp_all add: fnz_def)
  qed
qed

lemma Hdr_first:
  "HdrSend = [0x53, 0x20]" "HdrRecv = [0x52, 0x20]" "hdr \<in> {HdrIdx, HdrRst} \<Longrightarrow> \<exists>t. hdr = 2 # t"
  by (auto simp: line_headers)

lemma OnFoundChar_control:
  assumes "parser_wf (SearchParser st)" "\<exists>t. hdr = 2 # t"
    and "\<exists>rest f. ParseControlMsgSeqNum (hdr @ l) (Some (FoundSend st)) (Some (FoundRecv st)) (RstRecv st, RstSend st)
           = (rest, Some (fnz (FoundSend st) s), Some (fnz (FoundRecv st) r), f)"
  shows "tells (OnFoundChar after (0xa # hdr @ l) st) st s r"
  using assms by (auto simp: OnFoundChar_def intro!: LastSeq_loop_tells)

text \<open>A line cut to at least 4096 bytes tells what the whole line tells.\<close>

lemma OnFoundChar_good:
  assumes "good_line L s r" "parser_wf (SearchParser st)" "4096 \<le> k"
  shows "tells (OnFoundChar after (0xa # take k L) st) st s r"
  using assms(1)
proof cases
  case other
  then have "OnFoundChar after (0xa # take k L) st = (Continue, st)"
    using assms(3) by (cases L) (auto simp: OnFoundChar_def take_Cons')
  then show ?thesis using other assms(2) by (simp add: tells_def fnz_def)
next
  case (sent ts pre n rest)
  obtain rest' where c: "take k L = HdrSend @ ts @ 0x20 # msg_text pre n rest'" "13 \<le> length (msg_text pre n rest')"
    using take_message[OF sent(8,9,4) _ assms(3), of HdrSend] sent(1) by (auto simp: Hdr_first)
  obtain p' where p': "ParseFixLine_MsgSeqNum_ToNextSeq after (0x53 # 0x20 # ts @ 0x20 # msg_text pre n rest')
      (FoundSend st) (SearchParser st) = (fnz (FoundSend st) (Suc n), p')" "parser_wf p'"
    using ToNextSeq_line[OF sent(4-7) c(2) assms(2)] by blast
  have "OnFoundChar after (0xa # take k L) st = LastSeq_loop (st\<lparr>FoundSend := fnz (FoundSend st) (Suc n), SearchParser := p'\<rparr>)"
    using p'(1) by (simp add: c(1) Hdr_first OnFoundChar_def)
  then show ?thesis using p'(2) sent(2,3) by (auto intro!: LastSeq_loop_tells simp: fnz_def)
next
  case (recv ts pre n rest)
  obtain rest' where c: "take k L = HdrRecv @ ts @ 0x20 # msg_text pre n rest'" "13 \<le> length (msg_text pre n rest')"
    using take_message[OF recv(8,9,4) _ assms(3), of HdrRecv] recv(1) by (auto simp: Hdr_first)
  obtain p' where p': "ParseFixLine_MsgSeqNum_ToNextSeq after (0x52 # 0x20 # ts @ 0x20 # msg_text pre n rest')
      (FoundRecv st) (SearchParser st) = (fnz (FoundRecv st) (Suc n), p')" "parser_wf p'"
    using ToNextSeq_line[OF recv(4-7) c(2) assms(2)] by blast
  have "OnFoundChar after (0xa # take k L) st = LastSeq_loop (st\<lparr>FoundRecv := fnz (FoundRecv st) (Suc n), SearchParser := p'\<rparr>)"
    using p'(1) by (simp add: c(1) Hdr_first OnFoundChar_def)
  then show ?thesis using p'(2) recv(2,3) by (auto intro!: LastSeq_loop_tells simp: fnz_def)
next
  case idx
  let ?T = "HdrNextRecvSeq @ UIntToStrRev [] r"
  have "length (UIntToStrRev ?T s) \<le> 23"
    using UIntToStrRev_u32_length[OF idx(3), of ?T] UIntToStrRev_u32_length[OF idx(5), of "[]"]
    by (simp add: HdrNextRecvSeq_def ascii_def)
  then have "take k L = L" using assms(3) by (simp add: idx(1) Hdr_bytes HdrNextSendSeq_def ascii_def)
  then show ?thesis
    using OnFoundChar_control[OF assms(2), of HdrIdx] ParseControl_S_number[of HdrIdx s ?T r] idx
    by (simp add: Hdr_first(3))
next
  case (rst_recv hdr)
  have ne: "UIntToStrRev [] r \<noteq> []" by (rule UIntToStrRev_nonempty)
  have "take k L = L"
    using assms(3) UIntToStrRev_u32_length[OF rst_recv(4), of "[]"] rst_recv(5)
    by (auto simp: rst_recv(1) Hdr_bytes HdrNextRecvSeq_def ascii_def)
  then show ?thesis
    using OnFoundChar_control[OF assms(2) Hdr_first(3)[OF rst_recv(5)]] ParseControl_R[OF rst_recv(5) ne]
      ParseControl_recv_number[OF rst_recv(4)] rst_recv(1,2)
    by (simp add: fnz_def)
next
  case rst_send
  have "take k L = L"
    using assms(3) UIntToStrRev_u32_length[OF rst_send(4), of "[]"]
    by (simp add: rst_send(1) Hdr_bytes HdrNextSendSeq_def ascii_def)
  then show ?thesis
    using OnFoundChar_control[OF assms(2), of HdrRst] ParseControl_S_number[of HdrRst s "[]" 0] rst_send
    by (simp add: Hdr_first(3))
qed

subsection \<open>What a file tells the search\<close>

abbreviation line_segs :: "byte list \<Rightarrow> byte list list" where
  "line_segs F \<equiv> segs kLastSeqSearcherBlockSize kMaxFixMsgBufferSize 0xa F 0 (length F)"

definition recov :: "byte list \<Rightarrow> nat \<Rightarrow> nat \<Rightarrow> bool" where
  "recov F s r \<longleftrightarrow> F \<noteq> [] \<and> last F = 0xa \<and>
     (\<forall>after st. parser_wf (SearchParser st) \<longrightarrow>
        FoundSend (snd (scan (OnFoundChar after) (line_segs F) st)) = fnz (FoundSend st) s \<and>
        FoundRecv (snd (scan (OnFoundChar after) (line_segs F) st)) = fnz (FoundRecv st) r)"

lemma OnFoundChar_newline [simp]: "OnFoundChar after [0xa] st = (Continue, st)"
  by (simp add: OnFoundChar_def)

lemma fnz_assoc: "fnz (fnz a b) c = fnz a (fnz b c)"
  by (simp add: fnz_def)

lemma fnz_zero [simp]: "fnz 0 b = b" "fnz a 0 = a"
  by (simp_all add: fnz_def)

lemma segs_final_newline:
  assumes "0xa \<notin> set L" "m = length F" "0 < B"
  shows "segs B mx 0xa (F @ L @ [0xa]) m (Suc (m + length L)) = [[0xa]]"
proof -
  let ?G = "F @ L @ [0xa]"
  have i: "?G ! (m + length L) = 0xa" by (simp add: assms(2) nth_append)
  have n: "\<forall>j. m \<le> j \<longrightarrow> j < m + length L \<longrightarrow> ?G ! j \<noteq> 0xa"
  proof (intro allI impI)
    fix j assume "m \<le> j" "j < m + length L"
    then have "?G ! j = L ! (j - m)" "j - m < length L" by (auto simp: assms(2) nth_append)
    then show "?G ! j \<noteq> 0xa" using assms(1) by (metis nth_mem)
  qed
  have "segs B mx 0xa ?G m (Suc (m + length L)) = seg B mx 0xa ?G (m + length L) # segs B mx 0xa ?G m (m + length L)"
    by (rule segs_last) (use i in auto)
  moreover have "segs B mx 0xa ?G m (m + length L) = []" using n by (rule segs_none)
  moreover have "seg B mx 0xa ?G (m + length L) = [0xa]"
  proof -
    have d: "drop (m + length L) ?G = [0xa]" by (simp add: assms(2))
    have "Suc (m + length L) = length ?G" by (simp add: assms(2))
    then have x: "nxt 0xa ?G (Suc (m + length L)) = Suc (m + length L)" by (simp only: nxt_length)
    have "m + length L < ((m + length L) div B + 1) * B + min B mx"
      using dividend_less_times_div[OF assms(3), of "m + length L"] by (simp add: mult.commute)
    then have "0 < min (Suc (m + length L)) (((m + length L) div B + 1) * B + min B mx) - (m + length L)" by simp
    then show ?thesis unfolding seg_def d x by (cases "min (Suc (m + length L)) (((m + length L) div B + 1) * B + min B mx) - (m + length L)") simp_all
  qed
  ultimately show ?thesis by simp
qed

lemma seg_cap: "0 < B \<Longrightarrow> (m::nat) + min B mx < (m div B + 1) * B + min B mx"
  using dividend_less_times_div[of B m] by (simp add: mult.commute)

lemma line_arith: "m + 4096 < (c::nat) \<Longrightarrow> min (Suc m + l) c - m = Suc (min l (c - m - 1))"
  by linarith

lemma seg_line:
  assumes "F \<noteq> []" "last F = 0xa" "0xa \<notin> set L"
  obtains k where "4096 \<le> k"
    "seg kLastSeqSearcherBlockSize kMaxFixMsgBufferSize 0xa (F @ L @ [0xa]) (length F - 1) = 0xa # take k L"
proof -
  let ?G = "F @ L @ [0xa]" and ?m = "length F - 1"
  let ?cap = "(?m div 4096 + 1) * 4096 + 4096"
  obtain F' where F: "F = F' @ [0xa]" using assms(1,2) by (metis append_butlast_last_id)
  have d: "drop ?m ?G = 0xa # L @ [0xa]" by (simp add: F)
  have "takeWhile (\<lambda>c. c \<noteq> 0xa) (L @ [0xa]) = L" using assms(3) by (subst takeWhile_append2) auto
  then have x: "nxt 0xa ?G (Suc ?m) = Suc ?m + length L" by (simp add: nxt_def F)
  have cap: "?m + 4096 < ?cap" using seg_cap[of 4096 ?m 4096] by simp
  let ?k = "?cap - ?m - 1"
  have "min (Suc ?m + length L) ?cap - ?m = Suc (min (length L) ?k)" using line_arith[OF cap] .
  then have "seg 4096 4096 0xa ?G ?m = 0xa # take (min (length L) ?k) (L @ [0xa])"
    unfolding seg_def d x by simp
  then have "seg 4096 4096 0xa ?G ?m = 0xa # take ?k L" by (simp add: min_def)
  then show ?thesis
    using cap by (intro that[of ?k]) (simp_all add: kLastSeqSearcherBlockSize_def kMaxFixMsgBufferSize_def)
qed

lemma segs_prefix:
  assumes "m < length F" "F ! m = 0xa"
  shows "segs B mx 0xa (F @ X) 0 m = segs B mx 0xa F 0 m"
proof -
  have "seg B mx 0xa (F @ X) i = seg B mx 0xa F i" if i: "i < m" for i
  proof -
    have "0xa \<in> set (drop (Suc i) F)"
      using assms i by (auto simp: in_set_conv_nth intro!: exI[of _ "m - Suc i"])
    then have "takeWhile (\<lambda>c. c \<noteq> 0xa) (drop (Suc i) F @ X) = takeWhile (\<lambda>c. c \<noteq> 0xa) (drop (Suc i) F)"
      by (metis (mono_tags, lifting) takeWhile_append1)
    then have n: "nxt 0xa (F @ X) (Suc i) = nxt 0xa F (Suc i)" using assms(1) i by (simp add: nxt_def)
    have "nxt 0xa F (Suc i) \<le> length F" using assms(1) i by (intro nxt_le) simp
    then have "min (nxt 0xa F (Suc i)) c - i \<le> length (drop i F)" for c by simp
    then have t: "take (min (nxt 0xa F (Suc i)) c - i) (drop i F @ X) = take (min (nxt 0xa F (Suc i)) c - i) (drop i F)"
      for c by (metis append_Nil2 diff_is_0_eq take0 take_append)
    have "drop i (F @ X) = drop i F @ X" using assms(1) i by simp
    then show ?thesis unfolding seg_def n by (simp only: t)
  qed
  then show ?thesis using assms(1) by (auto simp: segs_def nth_append intro!: map_cong filter_cong)
qed

lemma recov_start: "0xa \<notin> set L \<Longrightarrow> recov (L @ [0xa]) 0 0"
proof -
  assume L: "0xa \<notin> set L"
  have "line_segs (L @ [0xa]) = [[0xa]]"
    using segs_final_newline[OF L, of 0 "[]" kLastSeqSearcherBlockSize kMaxFixMsgBufferSize]
    by (simp add: kLastSeqSearcherBlockSize_def)
  then show ?thesis by (simp add: recov_def)
qed

lemma recov_append:
  assumes "recov F s r" "good_line L s' r'" "0xa \<notin> set L"
  shows "recov (F @ L @ [0xa]) (fnz s' s) (fnz r' r)"
proof -
  let ?G = "F @ L @ [0xa]" and ?m = "length F - 1"
  let ?segs = "segs kLastSeqSearcherBlockSize kMaxFixMsgBufferSize 0xa"
  have F: "F \<noteq> []" "last F = 0xa" using assms(1) by (auto simp: recov_def)
  obtain F' where F': "F = F' @ [0xa]" using F by (metis append_butlast_last_id)
  have B: "0 < kLastSeqSearcherBlockSize" by (simp add: kLastSeqSearcherBlockSize_def)
  have Fm: "F ! ?m = 0xa" "?m < length F" "Suc ?m = length F" by (simp_all add: F')
  obtain k where k: "4096 \<le> k"
    "seg kLastSeqSearcherBlockSize kMaxFixMsgBufferSize 0xa ?G ?m = 0xa # take k L"
    using seg_line[OF F assms(3)] by blast
  have "line_segs ?G = ?segs ?G (length F) (length ?G) @ ?segs ?G 0 (length F)"
    by (intro segs_split) simp_all
  moreover have "?segs ?G (length F) (length ?G) = [[0xa]]"
    using segs_final_newline[OF assms(3) refl B, where F = F] by simp
  moreover have "?segs ?G 0 (length F) = seg kLastSeqSearcherBlockSize kMaxFixMsgBufferSize 0xa ?G ?m # ?segs ?G 0 ?m"
    using Fm by (intro segs_last) (auto simp: nth_append)
  moreover have "?segs ?G 0 ?m = ?segs F 0 ?m" using Fm by (intro segs_prefix) auto
  ultimately have G: "line_segs ?G = [0xa] # (0xa # take k L) # ?segs F 0 ?m" using k(2) by simp
  have "line_segs F = seg kLastSeqSearcherBlockSize kMaxFixMsgBufferSize 0xa F ?m # ?segs F 0 ?m"
    using Fm by (intro segs_last) auto
  moreover have "seg kLastSeqSearcherBlockSize kMaxFixMsgBufferSize 0xa F ?m = [0xa]"
  proof -
    have "?segs F ?m (length F) = [[0xa]]"
      using segs_final_newline[of "[]" ?m F' kLastSeqSearcherBlockSize kMaxFixMsgBufferSize] B by (simp add: F')
    moreover have "?segs F ?m (length F) = seg kLastSeqSearcherBlockSize kMaxFixMsgBufferSize 0xa F ?m # ?segs F ?m ?m"
      using Fm by (intro segs_last) auto
    ultimately show ?thesis by simp
  qed
  ultimately have LF: "line_segs F = [0xa] # ?segs F 0 ?m" by simp
  show ?thesis
    unfolding recov_def
  proof (intro conjI allI impI)
    fix after and st :: last_seq assume wf: "parser_wf (SearchParser st)"
    obtain lc st1 where h: "OnFoundChar after (0xa # take k L) st = (lc, st1)" by fastforce
    have t: "FoundSend st1 = fnz (FoundSend st) s'" "FoundRecv st1 = fnz (FoundRecv st) r'"
      "parser_wf (SearchParser st1)" "lc = Break \<longrightarrow> FoundSend st1 \<noteq> 0 \<and> FoundRecv st1 \<noteq> 0"
      using OnFoundChar_good[OF assms(2) wf k(1), of after] h by (auto simp: tells_def)
    let ?f = "OnFoundChar after"
    have rest: "FoundSend (snd (scan ?f (?segs F 0 ?m) st1)) = fnz (FoundSend st1) s"
      "FoundRecv (snd (scan ?f (?segs F 0 ?m) st1)) = fnz (FoundRecv st1) r"
      using assms(1) t(3) unfolding recov_def LF by simp_all
    have sc: "snd (scan ?f (line_segs ?G) st) = (if lc = Break then st1 else snd (scan ?f (?segs F 0 ?m) st1))"
      unfolding G by (simp add: h split: loop_control.split)
    show "FoundSend (snd (scan ?f (line_segs ?G) st)) = fnz (FoundSend st) (fnz s' s)"
      "FoundRecv (snd (scan ?f (line_segs ?G) st)) = fnz (FoundRecv st) (fnz r' r)"
      unfolding sc using t rest by (cases lc; simp add: fnz_assoc[symmetric]; simp add: fnz_def)+
  qed simp_all
qed

lemma recov_search:
  assumes "recov F s r" "length buf = 8192"
  shows "\<exists>n st'. LastSeqSearcher_Start (Inr (length F)) (file_read F) after buf (LastSeqSearcher hdr)
      = (Inr n :: 'e + nat, st') \<and> FoundSend st' = s \<and> FoundRecv st' = r"
proof -
  let ?st = "LastSeqSearcher hdr"
  have wf: "parser_wf (SearchParser ?st)" "FoundSend ?st = 0" "FoundRecv ?st = 0"
    by (simp_all add: LastSeqSearcher_def parser_wf_def ResetExpectHeader_def FixParser_def)
  have b: "0 < kLastSeqSearcherBlockSize" "length buf = kLastSeqSearcherBlockSize + kMaxFixMsgBufferSize"
    using assms(2) by (simp_all add: kLastSeqSearcherBlockSize_def kMaxFixMsgBufferSize_def)
  obtain n s' where "RevReadSearcher_Start (Inr (length F)) (file_read F) (OnFoundChar after) 0xa
      (FileRevSearch kLastSeqSearcherBlockSize kMaxFixMsgBufferSize buf, ?st)
    = (Inr n :: 'e + nat, s', snd (scan (OnFoundChar after) (line_segs F) ?st))"
    using reverse_search_aux[OF b, where 'e = 'e, of F "OnFoundChar after" "0xa" ?st]
    by blast
  then show ?thesis using assms(1) wf by (simp add: LastSeqSearcher_Start_def recov_def)
qed

end
