(* ===== verification/FixSender.thy ===== *)
theory FixSender
  imports FixRecorder FixConfig
begin

text \<open>
  \<open>fix/FixSender.hpp\<close>, \<open>fix/FixSender.cpp\<close> and \<open>fix/FixAdminMsg.cpp\<close>: sending messages with their
  numbers, sending old messages again, and filling gaps. \<open>Out\<close> is what \<open>OnSendFixMessage\<close> was called with.
  \<open>UtcNow()\<close> is the argument \<open>now\<close>. What the file search of \<open>ReloadSent\<close> delivers, one message after the
  other, is the argument \<open>reload\<close> of \<open>Replay\<close>; whether a message is still alive is asked of the
  argument \<open>alive\<close>, which stands for the comparison of \<open>UtcNow()\<close> with its sending time and TTL.
\<close>

subsection \<open>Sending\<close>

record fix_sender = fix_recorder +
  IsReplayingAll :: bool
  LastSentTime :: "tstamp option"
  Out :: "byte list list"

definition OnSendFixMessage :: "byte list \<Rightarrow> fix_sender \<Rightarrow> fix_sender" where
  "OnSendFixMessage buf fs = fs\<lparr>Out := Out fs @ [buf]\<rparr>"

definition SendBuilder :: "tstamp \<Rightarrow> byte list \<Rightarrow> fix_builder \<Rightarrow> fix_sender \<Rightarrow> fix_builder" where
  "SendBuilder now fldMsgType b fs =
     RevPut (fldMsgType @ SPLTAGEQ 34 @ UIntToStrRev [] (NextSendSeq fs))
       (RevPut (SPLTAGEQ 52) (PutUtcNow now (RevPut (Header (RecCompIDs fs)) b)))"

definition SendNext :: "tstamp \<Rightarrow> byte list \<Rightarrow> fix_builder \<Rightarrow> nat \<Rightarrow> fix_sender \<Rightarrow> fix_sender" where
  "SendNext now fldMsgType b nextSeqNum fs =
     (let b' = SendBuilder now fldMsgType b fs;
          sent = the (Time b');
          msgSeqNum = NextSendSeq fs;
          fixmsg = Final (BeginHeader fs) b';
          nxtseq = (if nextSeqNum = 0 then uadd 32 msgSeqNum 1 else nextSeqNum);
          rst = (if nextSeqNum = 0 then [] else HdrRst @ HdrNextSendSeq @ UIntToStrRev [0xa] nextSeqNum);
          rlog = HdrSend @ Stamp sent @ 0x20 # fixmsg @ 0xa # rst;
          fs1 = fs\<lparr>LastSentTime := Some sent\<rparr>;
          fs2 = (if \<not> IsReplayingAll fs1 then OnSendFixMessage fixmsg fs1 else fs1)
      in WriteAfterSend rlog nxtseq fs2)"

definition Send :: "tstamp \<Rightarrow> byte list \<Rightarrow> fix_builder \<Rightarrow> fix_sender \<Rightarrow> fix_sender" where
  "Send now fldMsgType b fs = SendNext now fldMsgType b 0 fs"

definition SPLFLDMSGTYPE :: "byte list \<Rightarrow> byte list" where
  "SPLFLDMSGTYPE msgType = SPLTAGEQ 35 @ msgType"

definition kMSGTYPE_Heartbeat :: "byte list" where "kMSGTYPE_Heartbeat = [0x30]"
definition kMSGTYPE_TestRequest :: "byte list" where "kMSGTYPE_TestRequest = [0x31]"
definition kMSGTYPE_ResendRequest :: "byte list" where "kMSGTYPE_ResendRequest = [0x32]"
definition kMSGTYPE_SessionReject :: "byte list" where "kMSGTYPE_SessionReject = [0x33]"
definition kMSGTYPE_SequenceReset :: "byte list" where "kMSGTYPE_SequenceReset = [0x34]"
definition kMSGTYPE_Logout :: "byte list" where "kMSGTYPE_Logout = [0x35]"
definition kMSGTYPE_Logon :: "byte list" where "kMSGTYPE_Logon = [0x41]"

lemmas msgtypes = kMSGTYPE_Heartbeat_def kMSGTYPE_TestRequest_def kMSGTYPE_ResendRequest_def
  kMSGTYPE_SessionReject_def kMSGTYPE_SequenceReset_def kMSGTYPE_Logout_def kMSGTYPE_Logon_def

definition ResetNextSendSeq :: "nat \<Rightarrow> fix_sender \<Rightarrow> fix_sender" where
  "ResetNextSendSeq nextSeqNum fs =
     (if nextSeqNum = 0 then fs
      else WriteAfterSend (HdrRst @ HdrNextSendSeq @ UIntToStrRev [0xa] nextSeqNum) nextSeqNum fs)"

definition SequenceReset :: "tstamp \<Rightarrow> nat \<Rightarrow> fix_sender \<Rightarrow> fix_sender" where
  "SequenceReset now newSeqNo fs =
     SendNext now (SPLFLDMSGTYPE kMSGTYPE_SequenceReset)
       (RevPut (SPLTAGEQ 36 @ UIntToStrRev [] newSeqNo) FixBuilder) newSeqNo fs"

subsection \<open>Administrative messages\<close>

definition SendRequiredTagMissing :: "tstamp \<Rightarrow> nat \<Rightarrow> nat \<Rightarrow> byte list \<Rightarrow> fix_sender \<Rightarrow> fix_sender" where
  "SendRequiredTagMissing now refSeqNum refTagID refMsgType fs =
     (let b = RevPut (SPLTAGEQ 45 @ UIntToStrRev [] refSeqNum @ SPLTAGEQ 371 @ UIntToStrRev [] refTagID @
                SPLTAGEQ 373 @ ascii ''1'' @ SPLTAGEQ 58 @ ascii ''Required tag missing:'' @
                UIntToStrRev [] refTagID) FixBuilder;
          b' = (if refMsgType \<noteq> [] then RevPut (SPLTAGEQ 372 @ refMsgType) b else b)
      in Send now (SPLFLDMSGTYPE kMSGTYPE_SessionReject) b' fs)"

definition SendSessionReject ::
  "tstamp \<Rightarrow> nat \<Rightarrow> nat \<Rightarrow> byte list \<Rightarrow> fix_builder \<Rightarrow> fix_sender \<Rightarrow> fix_sender" where
  "SendSessionReject now refSeqNum refTagID refMsgType fixb fs =
     (let b = (if refTagID \<noteq> 0 then RevPut (SPLTAGEQ 371 @ UIntToStrRev [] refTagID) fixb else fixb);
          b' = RevPut (SPLTAGEQ 372 @ refMsgType @ SPLTAGEQ 45 @ UIntToStrRev [] refSeqNum) b
      in Send now (SPLFLDMSGTYPE kMSGTYPE_SessionReject) b' fs)"

definition SendInvalidMsgType :: "tstamp \<Rightarrow> nat \<Rightarrow> byte list \<Rightarrow> fix_sender \<Rightarrow> fix_sender" where
  "SendInvalidMsgType now refSeqNum refMsgType fs =
     Send now (SPLFLDMSGTYPE kMSGTYPE_SessionReject)
       (RevPut (SPLTAGEQ 45 @ UIntToStrRev [] refSeqNum @ SPLTAGEQ 372 @ refMsgType @
          SPLTAGEQ 373 @ ascii ''11'' @ SPLTAGEQ 58 @ ascii ''Invalid MsgType:'' @ refMsgType) FixBuilder) fs"

definition SendHeartbeat :: "tstamp \<Rightarrow> byte list option \<Rightarrow> fix_sender \<Rightarrow> fix_sender" where
  "SendHeartbeat now testReqID fs =
     Send now (SPLFLDMSGTYPE kMSGTYPE_Heartbeat)
       (case testReqID of None \<Rightarrow> FixBuilder | Some v \<Rightarrow> RevPut (SPLTAGEQ 112 @ v) FixBuilder) fs"

subsection \<open>\<open>Replayer\<close>\<close>

text \<open>\<open>SendBuf\<close> is the list of the messages in the buffer. A pointer into the current message is its offset.\<close>

record replayer =
  ReFlds :: tstamp
  BeginSeqNo :: nat
  EndSeqNo :: nat
  SendBuf :: "byte list list"
  LogBuf :: "byte list"

definition Replayer :: "tstamp \<Rightarrow> nat \<Rightarrow> nat \<Rightarrow> replayer" where
  "Replayer now beginSeqNo endSeqNo =
     \<lparr>ReFlds = now, BeginSeqNo = beginSeqNo, EndSeqNo = endSeqNo, SendBuf = [], LogBuf = []\<rparr>"

definition kReFldsWidth :: nat where "kReFldsWidth = 31"

definition ReFldsText :: "replayer \<Rightarrow> byte list" where
  "ReFldsText rp = FIXMS (ReFlds rp) @ SPLTAGEQ 43 @ ascii ''Y'' @ SPLTAGEQ 122"

definition put_message :: "byte list \<Rightarrow> replayer \<Rightarrow> replayer" where
  "put_message msg rp = rp\<lparr>SendBuf := SendBuf rp @ [msg], LogBuf := LogBuf rp @ msg @ [0xa]\<rparr>"

definition Rebuild :: "byte list \<Rightarrow> byte list \<Rightarrow> nat \<Rightarrow> nat \<Rightarrow> replayer \<Rightarrow> bool \<times> replayer" where
  "Rebuild beginHeader curMsg pfldMsgType pvalSendingTime rp =
     (if pfldMsgType \<ge> pvalSendingTime then (False, rp)
      else let pend = length curMsg - kFixTailWidth;
               bodyLength = length curMsg - pfldMsgType - kFixTailWidth + kReFldsWidth;
               out = beginHeader @ UIntToStrRev [] bodyLength @
                     take (pvalSendingTime - pfldMsgType) (drop pfldMsgType curMsg) @ ReFldsText rp @
                     take (pend - pvalSendingTime) (drop pvalSendingTime curMsg)
        in (True, put_message (out @ PutCheckSumField (SPL + sum_list out)) rp))"

definition SeqReset :: "bool \<Rightarrow> nat \<Rightarrow> nat \<Rightarrow> fix_sender \<Rightarrow> replayer \<Rightarrow> replayer" where
  "SeqReset isGapFill oldSeqNo newSeqNo fs rp =
     (let b0 = (if isGapFill then RevPut (SPLTAGEQ 123 @ ascii ''Y'') FixBuilder else FixBuilder);
          b1 = RevPut (Header (RecCompIDs fs)) (RevPut (SPLTAGEQ 36 @ UIntToStrRev [] newSeqNo) b0);
          b2 = RevPut (SPLTAGEQ 52 @ FIXMS (ReFlds rp)) b1;
          b3 = RevPut (SPLTAGEQ 43 @ ascii ''Y'' @ SPLTAGEQ 122 @ FIXMS (ReFlds rp)) b2;
          b4 = RevPut (SPLFLDMSGTYPE kMSGTYPE_SequenceReset @ SPLTAGEQ 34 @ UIntToStrRev [] oldSeqNo) b3
      in put_message (Final (BeginHeader fs) b4) rp)"

text \<open>Where the values that \<open>ParseFields\<close> stores begin: the offset of the first value of each tag.\<close>

function ValueBegins ::
  "(nat \<Rightarrow> byte) \<Rightarrow> nat \<Rightarrow> byte list \<Rightarrow> until \<Rightarrow> fix_parser \<Rightarrow> (nat \<Rightarrow> nat option) \<Rightarrow> nat \<Rightarrow> nat option" where
  "ValueBegins after msgsz fixmsg until p at =
     (if fixmsg = [] then at
      else case ParseField after fixmsg p of (r, s, p', tag) \<Rightarrow>
        if is_error r then at
        else let val = tl (snd (StrTo_u 32 fixmsg 0));
                 at' = (if ValueCount (FieldArray p tag) = 0 then at(tag \<mapsto> msgsz - length val) else at);
                 u = UntilRemove tag until
          in if until \<noteq> FullMessage \<and> u = FullMessage then at' else ValueBegins after msgsz s u p' at')"
  by pat_completeness auto
termination
  by (relation "measure (\<lambda>(_, _, s, _). length s)") (auto dest: ParseField_length[OF sym])

declare ValueBegins.simps [simp del]

abbreviation UntilReplay :: until where
  "UntilReplay \<equiv> \<lparr>UntilMsgSeqNum = True, UntilMsgType = True, UntilSendingTime = True\<rparr>"

definition ReplayRequired ::
  "(byte list \<Rightarrow> int \<Rightarrow> bool) \<Rightarrow> fix_msg_type_config \<Rightarrow> byte list \<Rightarrow> bool" where
  "ReplayRequired alive cfg sendingTime =
     (IsInfiniteTTL cfg \<or> (case TTL cfg of Some ttl \<Rightarrow> ttl > 0 \<and> alive sendingTime ttl | None \<Rightarrow> False))"

definition ReplayMessage :: "byte list \<Rightarrow> nat \<Rightarrow> nat \<Rightarrow> nat \<Rightarrow> fix_sender \<Rightarrow> replayer \<Rightarrow> replayer" where
  "ReplayMessage curMsg pfldMsgType pvalSendingTime curSeqNo fs rp =
     (let rp1 = (if BeginSeqNo rp < curSeqNo then SeqReset True (BeginSeqNo rp) curSeqNo fs rp else rp)
      in case Rebuild (BeginHeader fs) curMsg pfldMsgType pvalSendingTime rp1 of
           (ok, rp2) \<Rightarrow> if ok then rp2\<lparr>BeginSeqNo := uadd 32 curSeqNo 1\<rparr> else rp2)"

text \<open>One message of \<open>Reload\<close>: the new state, and whether the loop goes on.\<close>

definition ReloadOne ::
  "(nat \<Rightarrow> byte) \<Rightarrow> (byte list \<Rightarrow> int \<Rightarrow> bool) \<Rightarrow> fix_config \<Rightarrow> fix_sender \<Rightarrow> byte list \<Rightarrow> replayer \<Rightarrow> replayer \<times> bool" where
  "ReloadOne after alive fixConfig fs curMsg rp =
     (let p0 = ResetExpectHeader (BeginHeader fs) FixParser
      in case ParseFields after curMsg UntilReplay p0 of (res, _, p) \<Rightarrow>
        if is_error res then (rp, True)
        else let curSeqNo = MsgSeqNum p
          in if EndSeqNo rp \<noteq> 0 \<and> EndSeqNo rp < curSeqNo then (rp, False)
             else let at = ValueBegins after (length curMsg) curMsg UntilReplay p0 Map.empty;
                      rp' = (case (GetField p 35, GetField p 52) of
                          (Some fldMsgType, Some fldSendingTime) \<Rightarrow>
                            (case GetConfig fixConfig (Value fldMsgType) of
                               None \<Rightarrow> rp
                             | Some cfg \<Rightarrow>
                                 if ReplayRequired alive cfg (Value fldSendingTime)
                                 then ReplayMessage curMsg (the (at 35) - 4) (the (at 52)) curSeqNo fs rp
                                 else rp)
                        | _ \<Rightarrow> rp)
                  in (rp', \<not> (EndSeqNo rp \<noteq> 0 \<and> EndSeqNo rp = curSeqNo)))"

fun Reload ::
  "(nat \<Rightarrow> byte) \<Rightarrow> (byte list \<Rightarrow> int \<Rightarrow> bool) \<Rightarrow> fix_config \<Rightarrow> fix_sender \<Rightarrow> byte list list \<Rightarrow> replayer \<Rightarrow> replayer" where
  "Reload after alive fixConfig fs [] rp = rp"
| "Reload after alive fixConfig fs (curMsg # msgs) rp =
     (if curMsg = [] then rp
      else case ReloadOne after alive fixConfig fs curMsg rp of
             (rp', cont) \<Rightarrow> if cont then Reload after alive fixConfig fs msgs rp' else rp')"

definition LogNote :: "byte list \<Rightarrow> nat \<Rightarrow> replayer \<Rightarrow> replayer" where
  "LogNote note n rp = rp\<lparr>LogBuf := LogBuf rp @ HdrInfo @ note @ UIntToStrRev [0xa] n\<rparr>"

text \<open>\<open>Run\<close>, when the file has been read to its end.\<close>

definition Run ::
  "(nat \<Rightarrow> byte) \<Rightarrow> (byte list \<Rightarrow> int \<Rightarrow> bool) \<Rightarrow> fix_config \<Rightarrow> byte list list \<Rightarrow> fix_sender \<Rightarrow> replayer \<Rightarrow> replayer" where
  "Run after alive fixConfig reload fs rp0 =
     (let rp = Reload after alive fixConfig fs reload rp0
      in if EndSeqNo rp = 0 then
           (if BeginSeqNo rp \<noteq> NextSendSeq fs then
              let isGapFill = (BeginSeqNo rp < NextSendSeq fs);
                  rp1 = SeqReset isGapFill (BeginSeqNo rp) (NextSendSeq fs) fs rp
              in if isGapFill then LogNote (ascii ''Replay.End.GapFill|NewSeqNo='') (NextSendSeq fs) rp1
                 else LogNote (ascii ''Replay.End.SequenceReset|NewSeqNo='') (NextSendSeq fs) rp1
            else rp)
         else if BeginSeqNo rp < EndSeqNo rp
         then SeqReset True (BeginSeqNo rp) (uadd 32 (EndSeqNo rp) 1) fs rp
         else rp)"

text \<open>The replayer with the first line of its log.\<close>

definition ReplayStart :: "tstamp \<Rightarrow> byte list \<Rightarrow> nat \<Rightarrow> nat \<Rightarrow> replayer" where
  "ReplayStart now kind beginSeqNo endSeqNo =
     (Replayer now beginSeqNo endSeqNo)\<lparr>LogBuf := HdrReplay @ kind @ (SPL # ascii ''beginSeqNo='') @
        UIntToStrRev ((SPL # ascii ''endSeqNo='') @ UIntToStrRev [0xa] endSeqNo) beginSeqNo\<rparr>"

definition GapFill :: "tstamp \<Rightarrow> nat \<Rightarrow> nat \<Rightarrow> fix_sender \<Rightarrow> fix_sender" where
  "GapFill now beginSeqNo endSeqNo fs =
     (let rp = ReplayStart now (SPL # ascii ''GapFill'') beginSeqNo endSeqNo
      in if endSeqNo = 0 then
           let nextSendSeq = NextSendSeq fs; isGapFill = (beginSeqNo < nextSendSeq);
               rp1 = SeqReset isGapFill beginSeqNo nextSendSeq fs rp;
               rp2 = (if isGapFill then LogNote (ascii ''GapFill|NewSeqNo='') nextSendSeq rp1
                      else LogNote (ascii ''SequenceReset|NewSeqNo='') nextSendSeq rp1)
           in Append (LogBuf rp2) (OnSendFixMessage (concat (SendBuf rp2)) fs)
         else if beginSeqNo < endSeqNo then
           let rp1 = SeqReset True beginSeqNo (uadd 32 endSeqNo 1) fs rp
           in Append (LogBuf rp1) (OnSendFixMessage (concat (SendBuf rp1)) fs)
         else Append (LogBuf rp @ HdrError @ ascii ''beginSeqNo >= endSeqNo'' @ [0xa]) fs)"

definition Replay ::
  "(nat \<Rightarrow> byte) \<Rightarrow> (byte list \<Rightarrow> int \<Rightarrow> bool) \<Rightarrow> tstamp \<Rightarrow> fix_config \<Rightarrow> byte list list \<Rightarrow> nat \<Rightarrow> nat
   \<Rightarrow> fix_sender \<Rightarrow> fix_sender" where
  "Replay after alive now fixConfig reload beginSeqNo endSeqNo fs =
     (if IsNoReplay fixConfig then GapFill now beginSeqNo endSeqNo fs
      else if endSeqNo = 0 \<and> IsReplayingAll fs then fs
      else let fs1 = (if endSeqNo = 0 then fs\<lparr>IsReplayingAll := True\<rparr> else fs);
               rp = Run after alive fixConfig reload fs1 (ReplayStart now [] beginSeqNo endSeqNo);
               fs2 = (if endSeqNo = 0 then fs1\<lparr>IsReplayingAll := False\<rparr> else fs1)
           in Append (LogBuf rp) (OnSendFixMessage (concat (SendBuf rp)) fs2))"

subsection \<open>The lines that are written\<close>

definition begin_header :: "byte list \<Rightarrow> byte list" where
  "begin_header ver = UIntToStrRev (EQ # ver) 8 @ SPLTAGEQ 9"

lemma begin_header_V44: "BEGIN_HEADER_V44 = begin_header (ascii ''FIX.4.4'')"
  by (simp add: BEGIN_HEADER_V44_def begin_header_def SPLTAGEQ_def UIntToStrRev.simps ascii_def dig_def)

lemma UIntToStrRev_no: "c \<notin> set s \<Longrightarrow> \<not> isdigit c \<Longrightarrow> c \<notin> set (UIntToStrRev s n)"
  using UIntToStrRev_spec[of s n] by auto

lemma isdigit_newline [simp]: "\<not> isdigit 0xa"
  by (simp add: digval_def)

lemma UIntToStrRev_newline [simp]: "0xa \<notin> set s \<Longrightarrow> 0xa \<notin> set (UIntToStrRev s n)"
  by (rule UIntToStrRev_no) simp_all

lemma SPLTAGEQ_newline [simp]: "0xa \<notin> set (SPLTAGEQ t)"
  by (simp add: SPLTAGEQ_def)

lemma begin_header_newline [simp]: "0xa \<notin> set ver \<Longrightarrow> 0xa \<notin> set (begin_header ver)"
  by (simp add: begin_header_def)

lemma begin_header_hd: "hd (begin_header ver @ x) = 0x38" "begin_header ver \<noteq> []"
  by (simp_all add: begin_header_def UIntToStrRev.simps[of _ 8] dig_def)

lemma PutCheckSumField_newline [simp]: "0xa \<notin> set (PutCheckSumField c)"
proof -
  have "unat c < 2 ^ LENGTH(8)" by (rule unsigned_less)
  then have "unat c < 10 ^ 3" by simp
  from AuxPic9ToStr_spec[OF this, of "[SPL]"] obtain ds where
    ds: "AuxPic9ToStr 3 [SPL] (unat c) = ds @ [SPL]" "\<forall>c\<in>set ds. isdigit c" by blast
  then have "0xa \<notin> set ds" using isdigit_newline by blast
  then show ?thesis using ds(1) by (simp add: PutCheckSumField_def Pic9ToStrRev_def)
qed

lemma Final_newline: "0xa \<notin> set hdr \<Longrightarrow> 0xa \<notin> set (Buffer b) \<Longrightarrow> 0xa \<notin> set (Final hdr b)"
  by (simp add: Final_def Let_def)

lemma UIntToStrRev_u64_length: "n < 2 ^ 64 \<Longrightarrow> length (UIntToStrRev pout n) \<le> length pout + 20"
  by (rule UIntToStrRev_digits_le) simp_all

text \<open>The front of a message that was sent.\<close>

lemma Final_msg_text:
  assumes "Buffer b = SPLTAGEQ 35 @ mt @ SPLTAGEQ 34 @ UIntToStrRev [] n @ SPL # rest"
    and "SPL \<notin> set ver" "SPL \<notin> set mt" "n < 2 ^ 32"
    and "length (Buffer b) < 2 ^ 64" "length ver + length mt \<le> 4000"
  shows "\<exists>pre rest'. Final (begin_header ver) b = msg_text pre n rest' \<and> pre_ok pre n \<and>
    24 + length (msg_text pre n []) \<le> 4096 \<and> 13 \<le> length (msg_text pre n rest')"
proof -
  let ?len = "length (Buffer b)"
  let ?pre = "[(8, ver), (9, UIntToStrRev [] ?len), (35, mt)]"
  let ?rest = "rest @ PutCheckSumField (SPL + sum_list (begin_header ver @ UIntToStrRev (Buffer b) ?len))"
  have tag: "UIntToStrRev (EQ # x) t = UIntToStrRev [] t @ EQ # x" for x t
    using UIntToStrRev_append[of "[]" "EQ # x" t] by simp
  have num: "UIntToStrRev (Buffer b) ?len = UIntToStrRev [] ?len @ Buffer b"
    using UIntToStrRev_append[of "[]" "Buffer b" ?len] by simp
  have "begin_header ver @ (UIntToStrRev [] m @ Buffer b) = msg_text [(8, ver), (9, UIntToStrRev [] m), (35, mt)] n rest"
    for m by (simp add: assms(1) msg_text_def fields_spl_def begin_header_def SPLTAGEQ_def tag)
  then have eq: "Final (begin_header ver) b = msg_text ?pre n ?rest"
    by (simp only: Final_def Let_def num) (simp add: msg_text_def)
  have digs: "SPL \<notin> set (UIntToStrRev [] x)" for x by (rule UIntToStrRev_no) simp_all
  have ok: "pre_ok ?pre n"
    using assms(2-4) digs by (auto simp: pre_ok_def fields_ok_def vals_def)
  have l: "length (UIntToStrRev [] n) \<le> 10" "length (UIntToStrRev [] ?len) \<le> 20"
    using UIntToStrRev_u32_length[OF assms(4), of "[]"] UIntToStrRev_u64_length[OF assms(5), of "[]"] by simp_all
  have d: "length (UIntToStrRev [] (8::nat)) = 1" "length (UIntToStrRev [] (9::nat)) = 1"
    "length (UIntToStrRev [] (35::nat)) = 2" "length (UIntToStrRev [] (34::nat)) = 2"
    by (simp_all add: UIntToStrRev.simps Put2Digs_def)
  have "length (msg_text ?pre n []) \<le> 4000 + 30 + 14"
    using l d assms(6) by (simp add: msg_text_def fields_spl_def tag)
  moreover have "13 \<le> length (msg_text ?pre n ?rest)"
    using d by (simp add: msg_text_def fields_spl_def tag PutCheckSumField_length)
  ultimately show ?thesis using eq ok by (intro exI[of _ ?pre] exI[of _ ?rest]) simp
qed

subsection \<open>The file always tells the numbers\<close>

definition told :: "nat \<Rightarrow> nat \<Rightarrow> bool" where
  "told found n \<longleftrightarrow> found = n \<or> found = 0 \<and> n = 1"

definition tracked :: "'z fix_recorder_scheme \<Rightarrow> bool" where
  "tracked r \<longleftrightarrow> 0 < NextSendSeq r \<and> NextSendSeq r < 2 ^ 32 \<and> 0 < NextRecvSeq r \<and> NextRecvSeq r < 2 ^ 32 \<and>
     (\<exists>s v. recov (File r) s v \<and> told s (NextSendSeq r) \<and> told v (NextRecvSeq r))"

lemma recov_idx:
  assumes "recov F s v" "0 < a" "a < 2 ^ 32" "0 < b" "b < 2 ^ 32"
  shows "recov (F @ HdrIdx @ HdrNextSendSeq @ UIntToStrRev (HdrNextRecvSeq @ UIntToStrRev [0xa] b) a) a b"
proof -
  let ?L = "HdrIdx @ HdrNextSendSeq @ UIntToStrRev (HdrNextRecvSeq @ UIntToStrRev [] b) a"
  have "UIntToStrRev (HdrNextRecvSeq @ UIntToStrRev [0xa] b) a
      = UIntToStrRev (HdrNextRecvSeq @ UIntToStrRev [] b) a @ [0xa]"
    using UIntToStrRev_append[of "[]" "[0xa]" b] UIntToStrRev_append[of "HdrNextRecvSeq @ UIntToStrRev [] b" "[0xa]" a]
    by simp
  moreover have "0xa \<notin> set ?L" by (simp add: line_headers)
  moreover have "good_line ?L a b" using assms by (intro good_line.idx)
  ultimately show ?thesis using recov_append[OF assms(1), of ?L a b] assms(2,4) by (simp add: fnz_def)
qed

lemma WriteBuffer_tracked:
  assumes "recov (File r @ rbuf) s v" "told s (NextSendSeq r)" "told v (NextRecvSeq r)"
    and "0 < NextSendSeq r" "NextSendSeq r < 2 ^ 32" "0 < NextRecvSeq r" "NextRecvSeq r < 2 ^ 32"
  shows "tracked (WriteBuffer rbuf r)"
  using assms recov_idx[OF assms(1,4-7)]
  by (auto simp: WriteBuffer_def AddWork_def tracked_def Let_def told_def)

lemma fnz_told: "told s n \<Longrightarrow> told (fnz 0 s) n"
  by simp

lemma tracked_told:
  assumes "tracked r"
  obtains s v where "recov (File r) s v" "told s (NextSendSeq r)" "told v (NextRecvSeq r)"
    "0 < NextSendSeq r" "NextSendSeq r < 2 ^ 32" "0 < NextRecvSeq r" "NextRecvSeq r < 2 ^ 32"
  using assms by (auto simp: tracked_def)

text \<open>A line that tells nothing about the numbers.\<close>

definition note_line :: "byte list \<Rightarrow> bool" where
  "note_line L \<longleftrightarrow> 0xa \<notin> set L \<and> (L = [] \<or> hd L \<notin> {0x52, 0x53, 2})"

lemma recov_note: "recov F s v \<Longrightarrow> note_line L \<Longrightarrow> recov (F @ L @ [0xa]) s v"
  using recov_append[of F s v L 0 0] good_line.other[of L] by (simp add: note_line_def)

lemma Write_tracked:
  assumes "tracked r" "note_line (header @ Stamp now @ 0x20 # args)"
  shows "tracked (Write header now args r)"
  using assms(1)
proof (rule tracked_told)
  fix s v assume sv: "recov (File r) s v" "told s (NextSendSeq r)" "told v (NextRecvSeq r)"
    "0 < NextSendSeq r" "NextSendSeq r < 2 ^ 32" "0 < NextRecvSeq r" "NextRecvSeq r < 2 ^ 32"
  show ?thesis
    unfolding Write_def using recov_note[OF sv(1) assms(2)] sv
    by (intro WriteBuffer_tracked[of r _ s v]) simp_all
qed

definition note_lines :: "byte list \<Rightarrow> bool" where
  "note_lines buf \<longleftrightarrow> (\<forall>F s v. recov F s v \<longrightarrow> recov (F @ buf) s v)"

lemma note_lines_Nil: "note_lines []"
  by (simp add: note_lines_def)

lemma note_lines_append: "note_lines a \<Longrightarrow> note_lines b \<Longrightarrow> note_lines (a @ b)"
  by (simp add: note_lines_def flip: append_assoc)

lemma note_lines_line: "note_line L \<Longrightarrow> note_lines (L @ [0xa])"
  by (simp add: note_lines_def recov_note)

lemma Append_tracked: "tracked r \<Longrightarrow> note_lines buf \<Longrightarrow> tracked (Append buf r)"
  by (simp add: tracked_def Append_def AddWork_def note_lines_def) blast

text \<open>The line of a message that was sent, and the line of one that was received.\<close>

lemma recov_sent:
  assumes "recov F s v" "Final (begin_header ver) b = msg" "length st = kTimeStampWidth" "0xa \<notin> set st"
    and "Buffer b = SPLTAGEQ 35 @ mt @ SPLTAGEQ 34 @ UIntToStrRev [] n @ SPL # rest"
    and "SPL \<notin> set ver" "SPL \<notin> set mt" "0 < n" "Suc n < 2 ^ 32"
    and "length (Buffer b) < 2 ^ 64" "length ver + length mt \<le> 4000"
    and "0xa \<notin> set ver" "0xa \<notin> set (Buffer b)"
  shows "recov (F @ HdrSend @ st @ 0x20 # msg @ [0xa]) (Suc n) v"
proof -
  obtain pre rest' where m: "msg = msg_text pre n rest'" "pre_ok pre n"
    "24 + length (msg_text pre n []) \<le> 4096" "13 \<le> length (msg_text pre n rest')"
    using Final_msg_text[OF assms(5,6,7) _ assms(10,11)] assms(2,9) by auto
  have "good_line (HdrSend @ st @ 0x20 # msg) (Suc n) 0"
    unfolding m(1) using assms(3,8,9) m by (intro good_line.sent)
  moreover have "0xa \<notin> set (HdrSend @ st @ 0x20 # msg)"
    using assms(2,4,12,13) Final_newline[of "begin_header ver" b] by (auto simp: line_headers)
  ultimately show ?thesis
    using recov_append[OF assms(1)] by (fastforce simp: fnz_def)
qed

definition readable :: "byte list \<Rightarrow> nat \<Rightarrow> bool" where
  "readable m n \<longleftrightarrow> (\<exists>pre rest. m = msg_text pre n rest \<and> pre_ok pre n \<and>
     24 + length (msg_text pre n []) \<le> 4096) \<and> 13 \<le> length m \<and> 0xa \<notin> set m \<and> 0 < n \<and> Suc n < 2 ^ 32"

lemma recov_received:
  assumes "recov F s v" "readable m n" "length st = kTimeStampWidth" "0xa \<notin> set st"
  shows "recov (F @ HdrRecv @ st @ 0x20 # m @ [0xa]) s (Suc n)"
proof -
  have "good_line (HdrRecv @ st @ 0x20 # m) 0 (Suc n)"
    using assms by (auto simp: readable_def intro!: good_line.recv)
  moreover have "0xa \<notin> set (HdrRecv @ st @ 0x20 # m)"
    using assms by (auto simp: readable_def line_headers)
  ultimately show ?thesis using recov_append[OF assms(1)] by (fastforce simp: fnz_def)
qed

lemma recov_recv_reset:
  assumes "recov F s v" "0 < n" "n < 2 ^ 32" "hdr \<in> {HdrIdx, HdrRst}"
  shows "recov (F @ hdr @ HdrNextRecvSeq @ UIntToStrRev [0xa] n) s n"
proof -
  let ?L = "hdr @ HdrNextRecvSeq @ UIntToStrRev [] n"
  have "UIntToStrRev [0xa] n = UIntToStrRev [] n @ [0xa]" using UIntToStrRev_append[of "[]" "[0xa]" n] by simp
  moreover have "good_line ?L 0 n" using assms by (intro good_line.rst_recv)
  moreover have "0xa \<notin> set ?L" using assms(4) by (auto simp: line_headers)
  ultimately show ?thesis using recov_append[OF assms(1), of ?L 0 n] assms(2) by (simp add: fnz_def)
qed

lemma recov_send_reset:
  assumes "recov F s v" "0 < n" "n < 2 ^ 32"
  shows "recov (F @ HdrRst @ HdrNextSendSeq @ UIntToStrRev [0xa] n) n v"
proof -
  let ?L = "HdrRst @ HdrNextSendSeq @ UIntToStrRev [] n"
  have "UIntToStrRev [0xa] n = UIntToStrRev [] n @ [0xa]" using UIntToStrRev_append[of "[]" "[0xa]" n] by simp
  moreover have "good_line ?L n 0" using assms by (intro good_line.rst_send)
  moreover have "0xa \<notin> set ?L" by (auto simp: line_headers)
  ultimately show ?thesis using recov_append[OF assms(1), of ?L n 0] assms(2) by (simp add: fnz_def)
qed

subsection \<open>Every operation keeps track\<close>

definition stamp_ok :: "tstamp \<Rightarrow> bool" where
  "stamp_ok t \<longleftrightarrow> length (Stamp t) = kTimeStampWidth \<and> 0xa \<notin> set (Stamp t) \<and>
     length (FIXMS t) = 21 \<and> 0xa \<notin> set (FIXMS t) \<and> SPL \<notin> set (FIXMS t)"

text \<open>What a session sets up, and what it never changes.\<close>

definition sender_wf :: "fix_sender \<Rightarrow> bool" where
  "sender_wf fs \<longleftrightarrow> (\<exists>ver. BeginHeader fs = begin_header ver \<and> SPL \<notin> set ver \<and> 0xa \<notin> set ver \<and> length ver \<le> 2000) \<and>
     0xa \<notin> set (Header (RecCompIDs fs)) \<and> length (Header (RecCompIDs fs)) < 2 ^ 60"

definition send_ok :: "tstamp \<Rightarrow> byte list \<Rightarrow> fix_builder \<Rightarrow> bool" where
  "send_ok now mt b \<longleftrightarrow> stamp_ok now \<and> (case Time b of None \<Rightarrow> True | Some t \<Rightarrow> stamp_ok t) \<and>
     SPL \<notin> set mt \<and> 0xa \<notin> set mt \<and> length mt \<le> 2000 \<and> 0xa \<notin> set (Buffer b) \<and> length (Buffer b) < 2 ^ 60"

lemma SendBuilder_facts:
  assumes "send_ok now mt b"
  obtains t where "Time (SendBuilder now (SPLFLDMSGTYPE mt) b fs) = Some t" "stamp_ok t"
    "Buffer (SendBuilder now (SPLFLDMSGTYPE mt) b fs) = SPLTAGEQ 35 @ mt @ SPLTAGEQ 34 @
       UIntToStrRev [] (NextSendSeq fs) @ SPLTAGEQ 52 @ FIXMS t @ Header (RecCompIDs fs) @ Buffer b"
  using assms
  by (cases "Time b")
     (auto simp: SendBuilder_def PutUtcNow_def PutUtcTime_def RevPut_def SPLFLDMSGTYPE_def send_ok_def)

lemma SPLTAGEQ_Cons: "SPLTAGEQ t = SPL # UIntToStrRev [EQ] t"
  by (simp add: SPLTAGEQ_def)

lemma SendNext_tracked:
  assumes "tracked fs" "sender_wf fs" "send_ok now mt b" "Suc (NextSendSeq fs) < 2 ^ 32" "n < 2 ^ 32"
  shows "tracked (SendNext now (SPLFLDMSGTYPE mt) b n fs)"
proof -
  let ?b = "SendBuilder now (SPLFLDMSGTYPE mt) b fs" and ?k = "NextSendSeq fs"
  obtain s v where sv: "recov (File fs) s v" "told s ?k" "told v (NextRecvSeq fs)"
    "0 < ?k" "?k < 2 ^ 32" "0 < NextRecvSeq fs" "NextRecvSeq fs < 2 ^ 32"
    using assms(1) by (rule tracked_told)
  obtain t where t: "Time ?b = Some t" "stamp_ok t"
    "Buffer ?b = SPLTAGEQ 35 @ mt @ SPLTAGEQ 34 @ UIntToStrRev [] ?k @ SPLTAGEQ 52 @ FIXMS t @ Header (RecCompIDs fs) @ Buffer b"
    using SendBuilder_facts[OF assms(3), of fs] .
  obtain ver where ver: "BeginHeader fs = begin_header ver" "SPL \<notin> set ver" "0xa \<notin> set ver" "length ver \<le> 2000"
    "0xa \<notin> set (Header (RecCompIDs fs))" "length (Header (RecCompIDs fs)) < 2 ^ 60"
    using assms(2) by (auto simp: sender_wf_def)
  have ok: "SPL \<notin> set mt" "0xa \<notin> set mt" "length mt \<le> 2000" "0xa \<notin> set (Buffer b)" "length (Buffer b) < 2 ^ 60"
    using assms(3) by (auto simp: send_ok_def)
  let ?msg = "Final (begin_header ver) ?b" and ?line = "HdrSend @ Stamp t @ 0x20 # Final (begin_header ver) ?b @ [0xa]"
  have tag: "length (SPLTAGEQ 35) \<le> 5" "length (SPLTAGEQ 34) \<le> 5" "length (SPLTAGEQ 52) \<le> 5"
    by (simp_all add: SPLTAGEQ_def UIntToStrRev.simps Put2Digs_def)
  have k: "length (UIntToStrRev [] ?k) \<le> 10" using UIntToStrRev_u32_length[OF sv(5), of "[]"] by simp
  have len: "length (Buffer ?b) < 2 ^ 64" using tag k t(2) ok(3,5) ver(6) unfolding t(3) by (simp add: stamp_ok_def)
  have sent: "recov (File fs @ ?line) (Suc ?k) v"
  proof (rule recov_sent[OF sv(1) refl])
    show "Buffer ?b = SPLTAGEQ 35 @ mt @ SPLTAGEQ 34 @ UIntToStrRev [] ?k @ SPL #
        (UIntToStrRev [EQ] 52 @ FIXMS t @ Header (RecCompIDs fs) @ Buffer b)"
      by (simp add: t(3) SPLTAGEQ_Cons)
    show "0xa \<notin> set (Buffer ?b)" using t(2) ok ver(5) by (simp add: t(3) stamp_ok_def)
  qed (use t(2) ver ok len sv(4) assms(4) in \<open>simp_all add: stamp_ok_def\<close>)
  have line: "tracked (WriteAfterSend (?line @ rst) m fs')"
    if "recov (File fs @ ?line @ rst) m v" "0 < m" "m < 2 ^ 32" "File fs' = File fs" "NextRecvSeq fs' = NextRecvSeq fs"
    for rst m fs'
    unfolding WriteAfterSend_def
    using that sv by (intro WriteBuffer_tracked[where s = m and v = v]) (simp_all add: told_def)
  define fs2 where "fs2 = (if IsReplayingAll fs then fs\<lparr>LastSentTime := Some t\<rparr>
    else OnSendFixMessage ?msg (fs\<lparr>LastSentTime := Some t\<rparr>))"
  have fs2: "File fs2 = File fs" "NextRecvSeq fs2 = NextRecvSeq fs" by (simp_all add: fs2_def OnSendFixMessage_def)
  let ?rst = "if n = 0 then [] else HdrRst @ HdrNextSendSeq @ UIntToStrRev [0xa] n"
  have eq: "SendNext now (SPLFLDMSGTYPE mt) b n fs
    = WriteAfterSend (?line @ ?rst) (if n = 0 then uadd 32 ?k 1 else n) fs2"
    using t(1) ver(1) by (simp add: SendNext_def Let_def fs2_def OnSendFixMessage_def)
  show ?thesis
  proof (cases "n = 0")
    case True
    then show ?thesis
      unfolding eq using line[of "[]" "Suc ?k" fs2] sent assms(4) fs2 by (simp add: wrap_simps)
  next
    case False
    have "recov (File fs @ ?line @ HdrRst @ HdrNextSendSeq @ UIntToStrRev [0xa] n) n v"
      using recov_send_reset[OF sent, of n] False assms(5) by simp
    then show ?thesis
      unfolding eq using line[of ?rst n fs2] False assms(5) fs2 by simp
  qed
qed

lemma ResetNextSendSeq_tracked: "tracked fs \<Longrightarrow> n < 2 ^ 32 \<Longrightarrow> tracked (ResetNextSendSeq n fs)"
  unfolding ResetNextSendSeq_def WriteAfterSend_def
  by (auto elim!: tracked_told intro!: WriteBuffer_tracked recov_send_reset simp: told_def)

lemma WriteInputConform_tracked:
  assumes "tracked r" "readable m (NextRecvSeq r)" "stamp_ok t"
  shows "tracked (WriteInputConform t m r)"
  using assms(1)
proof (rule tracked_told)
  fix s v assume sv: "recov (File r) s v" "told s (NextSendSeq r)" "told v (NextRecvSeq r)"
    "0 < NextSendSeq r" "NextSendSeq r < 2 ^ 32" "0 < NextRecvSeq r" "NextRecvSeq r < 2 ^ 32"
  have n: "Suc (NextRecvSeq r) < 2 ^ 32" using assms(2) by (simp add: readable_def)
  show ?thesis
    unfolding WriteInputConform_def
    using recov_received[OF sv(1) assms(2), of "Stamp t"] sv n assms(3)
    by (intro WriteBuffer_tracked[where s = s and v = "Suc (NextRecvSeq r)"]) (simp_all add: told_def stamp_ok_def wrap_simps)
qed

lemma WriteInputSeqReset_tracked:
  assumes "tracked r" "readable m k" "stamp_ok t" "0 < n" "n < 2 ^ 32"
  shows "tracked (WriteInputSeqReset t m n gap r)"
  using assms(1)
proof (rule tracked_told)
  fix s v assume sv: "recov (File r) s v" "told s (NextSendSeq r)" "told v (NextRecvSeq r)"
    "0 < NextSendSeq r" "NextSendSeq r < 2 ^ 32" "0 < NextRecvSeq r" "NextRecvSeq r < 2 ^ 32"
  have "recov (File r @ HdrRecv @ Stamp t @ 0x20 # m @ [0xa]) s (Suc k)"
    using recov_received[OF sv(1) assms(2), of "Stamp t"] assms(3) by (simp add: stamp_ok_def)
  from recov_recv_reset[OF this assms(4,5), of "if gap then HdrIdx else HdrRst"] show ?thesis
    unfolding WriteInputSeqReset_def using sv assms(4,5)
    by (intro WriteBuffer_tracked[where s = s and v = n]) (simp_all add: told_def)
qed

lemma ForceResetRecvSeq_tracked:
  assumes "tracked r" "0xa \<notin> set info" "stamp_ok t" "0 < n" "n < 2 ^ 32"
  shows "tracked (ForceResetRecvSeq t info n r)"
  using assms(1)
proof (rule tracked_told)
  fix s v assume sv: "recov (File r) s v" "told s (NextSendSeq r)" "told v (NextRecvSeq r)"
    "0 < NextSendSeq r" "NextSendSeq r < 2 ^ 32" "0 < NextRecvSeq r" "NextRecvSeq r < 2 ^ 32"
  have "note_line (HdrInfo @ Stamp t @ 0x20 # info)"
    using assms(2,3) by (simp add: note_line_def stamp_ok_def line_headers)
  then have "recov (File r @ (HdrInfo @ Stamp t @ 0x20 # info) @ [0xa]) s v" by (rule recov_note[OF sv(1)])
  from recov_recv_reset[OF this assms(4,5), of HdrRst] show ?thesis
    unfolding ForceResetRecvSeq_def using sv assms(4,5)
    by (intro WriteBuffer_tracked[where s = s and v = n]) (simp_all add: told_def)
qed

definition replay_ok :: "fix_sender \<Rightarrow> replayer \<Rightarrow> bool" where
  "replay_ok fs rp \<longleftrightarrow> sender_wf fs \<and> stamp_ok (ReFlds rp) \<and> note_lines (LogBuf rp)"

lemma put_message_ok:
  assumes "replay_ok fs rp" "0xa \<notin> set msg" "\<exists>ver x. msg = begin_header ver @ x"
  shows "replay_ok fs (put_message msg rp)"
proof -
  have "note_line msg" using assms(2,3) begin_header_hd(1) by (auto simp: note_line_def)
  then show ?thesis
    using assms(1) note_lines_append note_lines_line by (simp add: replay_ok_def put_message_def)
qed

lemma note_lines_log:
  assumes "0xa \<notin> set tx" "tx = [] \<or> hd tx \<notin> {0x52, 0x53, 2}" "note_lines buf"
  shows "note_lines (buf @ tx @ [0xa])"
  using note_lines_append[OF assms(3) note_lines_line[of tx]] assms(1,2) by (simp add: note_line_def)

lemma UIntToStrRev_snoc: "UIntToStrRev [c] n = UIntToStrRev [] n @ [c]"
  using UIntToStrRev_append[of "[]" "[c]" n] by simp

lemma SeqReset_ok:
  assumes "replay_ok fs rp"
  shows "replay_ok fs (SeqReset gap old new fs rp)"
proof -
  obtain ver where ver: "BeginHeader fs = begin_header ver" "0xa \<notin> set ver" "0xa \<notin> set (Header (RecCompIDs fs))"
    using assms by (auto simp: replay_ok_def sender_wf_def)
  have "0xa \<notin> set (FIXMS (ReFlds rp))" using assms by (simp add: replay_ok_def stamp_ok_def)
  then show ?thesis
    unfolding SeqReset_def Let_def using ver
    by (intro put_message_ok[OF assms] Final_newline)
       (auto simp: RevPut_def FixBuilder_def SPLFLDMSGTYPE_def msgtypes ascii_def Final_def Let_def)
qed

lemma replay_ok_log:
  assumes "replay_ok fs rp" "0xa \<notin> set tx" "tx \<noteq> [] \<Longrightarrow> hd tx \<notin> {0x52, 0x53, 2}"
  shows "replay_ok fs (rp\<lparr>LogBuf := LogBuf rp @ tx @ [0xa]\<rparr>)"
  using assms note_lines_log[of tx "LogBuf rp"] by (auto simp: replay_ok_def)

lemma Rebuild_ok:
  assumes "replay_ok fs rp" "0xa \<notin> set curMsg"
  shows "replay_ok fs (snd (Rebuild (BeginHeader fs) curMsg i j rp))"
proof -
  obtain ver where ver: "BeginHeader fs = begin_header ver" "0xa \<notin> set ver"
    using assms by (auto simp: replay_ok_def sender_wf_def)
  have f: "0xa \<notin> set (FIXMS (ReFlds rp))" using assms by (simp add: replay_ok_def stamp_ok_def)
  have t: "0xa \<notin> set (take a (drop b curMsg))" for a b
    using assms(2) by (meson in_set_dropD in_set_takeD)
  show ?thesis
    using assms(1) f t ver
    by (auto simp: Rebuild_def Let_def ReFldsText_def ascii_def intro!: put_message_ok)
qed

lemma ReplayMessage_ok:
  assumes "replay_ok fs rp" "0xa \<notin> set curMsg"
  shows "replay_ok fs (ReplayMessage curMsg i j n fs rp)"
proof -
  have more: "replay_ok fs r \<Longrightarrow> replay_ok fs (r\<lparr>BeginSeqNo := k\<rparr>)" for r k by (simp add: replay_ok_def)
  let ?r = "if BeginSeqNo rp < n then SeqReset True (BeginSeqNo rp) n fs rp else rp"
  have "replay_ok fs ?r" using assms(1) SeqReset_ok by simp
  from Rebuild_ok[OF this assms(2), of i j] show ?thesis
    by (cases "Rebuild (BeginHeader fs) curMsg i j ?r") (simp add: ReplayMessage_def Let_def more)
qed

lemma ReloadOne_ok:
  assumes "replay_ok fs rp" "0xa \<notin> set curMsg"
  shows "replay_ok fs (fst (ReloadOne after alive cfg fs curMsg rp))"
  unfolding ReloadOne_def Let_def
  using assms(1) ReplayMessage_ok[OF assms] by (auto split: prod.splits option.splits)

lemma Reload_ok:
  "replay_ok fs rp \<Longrightarrow> (\<forall>m\<in>set reload. 0xa \<notin> set m) \<Longrightarrow> replay_ok fs (Reload after alive cfg fs reload rp)"
proof (induction reload arbitrary: rp)
  case (Cons m ms)
  then show ?case
    using ReloadOne_ok[OF Cons.prems(1), of m after alive cfg] by (auto split: prod.splits)
qed simp

lemma LogNote_ok: "replay_ok fs rp \<Longrightarrow> 0xa \<notin> set note \<Longrightarrow> replay_ok fs (LogNote note n rp)"
  using replay_ok_log[of fs rp "HdrInfo @ note @ UIntToStrRev [] n"]
  by (simp add: LogNote_def UIntToStrRev_snoc HdrInfo_def ascii_def)

lemma Run_ok:
  assumes "replay_ok fs rp" "\<forall>m\<in>set reload. 0xa \<notin> set m"
  shows "replay_ok fs (Run after alive cfg reload fs rp)"
proof -
  have "replay_ok fs (Reload after alive cfg fs reload rp)" using assms by (rule Reload_ok)
  then show ?thesis
    unfolding Run_def Let_def by (auto intro!: LogNote_ok SeqReset_ok) (simp_all add: ascii_def)
qed

lemma ReplayStart_ok:
  assumes "sender_wf fs" "stamp_ok now" "0xa \<notin> set kind"
  shows "replay_ok fs (ReplayStart now kind a b)"
proof -
  let ?u = "SPL # ascii ''endSeqNo=''" and ?t = "kind @ SPL # ascii ''beginSeqNo=''"
  have "UIntToStrRev (?u @ UIntToStrRev [0xa] b) a = UIntToStrRev (?u @ UIntToStrRev [] b) a @ [0xa]"
    using UIntToStrRev_append[of "?u @ UIntToStrRev [] b" "[0xa]" a] by (simp add: UIntToStrRev_snoc)
  then show ?thesis
    using assms note_lines_line[of "HdrReplay @ ?t @ UIntToStrRev (?u @ UIntToStrRev [] b) a"]
    by (simp add: replay_ok_def ReplayStart_def Replayer_def note_line_def HdrReplay_def ascii_def)
qed

lemma tracked_Out [simp]: "tracked (OnSendFixMessage m fs) = tracked fs"
  by (simp add: tracked_def OnSendFixMessage_def)

lemma replay_ok_lines: "replay_ok f rp \<Longrightarrow> note_lines (LogBuf rp)"
  by (simp add: replay_ok_def)

lemma GapFill_tracked:
  assumes "tracked fs" "sender_wf fs" "stamp_ok now"
  shows "tracked (GapFill now a b fs)"
proof -
  let ?rp = "ReplayStart now (SPL # ascii ''GapFill'') a b"
  have ok: "replay_ok fs ?rp" using assms(2,3) by (intro ReplayStart_ok) (simp_all add: ascii_def)
  have err: "note_lines (LogBuf ?rp @ HdrError @ ascii ''beginSeqNo >= endSeqNo'' @ [0xa])"
    using ok note_lines_log[of "HdrError @ ascii ''beginSeqNo >= endSeqNo''" "LogBuf ?rp"]
    by (simp add: replay_ok_def HdrError_def ascii_def)
  have res: "replay_ok fs (SeqReset g c d fs ?rp)" for g c d by (rule SeqReset_ok[OF ok])
  have nts: "note_lines (LogBuf (LogNote (ascii ''GapFill|NewSeqNo='') n (SeqReset g c d fs ?rp)))"
    "note_lines (LogBuf (LogNote (ascii ''SequenceReset|NewSeqNo='') n (SeqReset g c d fs ?rp)))" for n g c d
    by (rule replay_ok_lines, rule LogNote_ok, rule res, simp add: ascii_def)+
  show ?thesis
    using assms(1) err nts replay_ok_lines[OF res] unfolding GapFill_def Let_def
    by (auto intro!: Append_tracked)
qed

lemma Replay_tracked:
  assumes "tracked fs" "sender_wf fs" "stamp_ok now" "\<forall>m\<in>set reload. 0xa \<notin> set m"
  shows "tracked (Replay after alive now cfg reload a b fs)"
proof -
  have wf: "sender_wf (fs\<lparr>IsReplayingAll := x\<rparr>)" for x using assms(2) by (simp add: sender_wf_def)
  have run: "replay_ok f (Run after alive cfg reload f (ReplayStart now [] a b))" if "sender_wf f" for f
    using that assms(3,4) by (intro Run_ok ReplayStart_ok) simp_all
  have tr: "tracked (fs\<lparr>IsReplayingAll := x\<rparr>)" for x using assms(1) by (simp add: tracked_def)
  show ?thesis
    using GapFill_tracked[OF assms(1-3)] assms(1) tr replay_ok_lines[OF run[OF wf]] replay_ok_lines[OF run[OF assms(2)]]
    unfolding Replay_def Let_def by (auto intro!: Append_tracked)
qed

subsection \<open>A session's writing, as a run\<close>

datatype rec_event =
    SendEv tstamp "byte list" fix_builder
  | SequenceResetEv tstamp nat
  | ResetSendEv nat
  | RecvEv tstamp "byte list"
  | RecvResetEv tstamp "byte list" nat bool
  | ForceRecvEv tstamp "byte list" nat
  | NoteEv "byte list" tstamp "byte list"
  | GapFillEv tstamp nat nat
  | ReplayEv tstamp fix_config "byte list list" nat nat

fun rec_step :: "(nat \<Rightarrow> byte) \<Rightarrow> (byte list \<Rightarrow> int \<Rightarrow> bool) \<Rightarrow> fix_sender \<Rightarrow> rec_event \<Rightarrow> fix_sender" where
  "rec_step after alive fs (SendEv now mt b) = Send now (SPLFLDMSGTYPE mt) b fs"
| "rec_step after alive fs (SequenceResetEv now n) = SequenceReset now n fs"
| "rec_step after alive fs (ResetSendEv n) = ResetNextSendSeq n fs"
| "rec_step after alive fs (RecvEv t m) = WriteInputConform t m fs"
| "rec_step after alive fs (RecvResetEv t m n gap) = WriteInputSeqReset t m n gap fs"
| "rec_step after alive fs (ForceRecvEv t info n) = ForceResetRecvSeq t info n fs"
| "rec_step after alive fs (NoteEv hdr t m) = Write hdr t m fs"
| "rec_step after alive fs (GapFillEv t a b) = GapFill t a b fs"
| "rec_step after alive fs (ReplayEv t cfg reload a b) = Replay after alive t cfg reload a b fs"

text \<open>What the callers see to: texts without a line feed, times of the fixed width, numbers within their
  type, and a message written as received only when it carries the expected number.\<close>

fun rec_ok :: "fix_sender \<Rightarrow> rec_event \<Rightarrow> bool" where
  "rec_ok fs (SendEv now mt b) \<longleftrightarrow> send_ok now mt b \<and> Suc (NextSendSeq fs) < 2 ^ 32"
| "rec_ok fs (SequenceResetEv now n) \<longleftrightarrow> stamp_ok now \<and> n < 2 ^ 32 \<and> Suc (NextSendSeq fs) < 2 ^ 32"
| "rec_ok fs (ResetSendEv n) \<longleftrightarrow> n < 2 ^ 32"
| "rec_ok fs (RecvEv t m) \<longleftrightarrow> stamp_ok t \<and> readable m (NextRecvSeq fs)"
| "rec_ok fs (RecvResetEv t m n gap) \<longleftrightarrow> stamp_ok t \<and> (\<exists>k. readable m k) \<and> 0 < n \<and> n < 2 ^ 32"
| "rec_ok fs (ForceRecvEv t info n) \<longleftrightarrow> stamp_ok t \<and> 0xa \<notin> set info \<and> 0 < n \<and> n < 2 ^ 32"
| "rec_ok fs (NoteEv hdr t m) \<longleftrightarrow> stamp_ok t \<and> 0xa \<notin> set m \<and>
     hdr \<in> {HdrInfo, HdrError, HdrReplay, HdrGapRecv, HdrIgnoreRecv}"
| "rec_ok fs (GapFillEv t a b) \<longleftrightarrow> stamp_ok t"
| "rec_ok fs (ReplayEv t cfg reload a b) \<longleftrightarrow> stamp_ok t \<and> (\<forall>m\<in>set reload. 0xa \<notin> set m)"

fun rec_run_ok :: "(nat \<Rightarrow> byte) \<Rightarrow> (byte list \<Rightarrow> int \<Rightarrow> bool) \<Rightarrow> fix_sender \<Rightarrow> rec_event list \<Rightarrow> bool" where
  "rec_run_ok after alive fs [] \<longleftrightarrow> True"
| "rec_run_ok after alive fs (e # es) \<longleftrightarrow> rec_ok fs e \<and> rec_run_ok after alive (rec_step after alive fs e) es"

lemma rec_step_tracked:
  assumes "tracked fs" "sender_wf fs" "rec_ok fs e"
  shows "tracked (rec_step after alive fs e)"
proof (cases e)
  case (SendEv now mt b)
  then show ?thesis using assms SendNext_tracked[OF assms(1,2), of now mt b 0] by (simp add: Send_def)
next
  case (SequenceResetEv now n)
  have tag: "length (SPLTAGEQ 36) = 4" by (simp add: SPLTAGEQ_def UIntToStrRev.simps[of _ 36] Put2Digs_def)
  have "length (UIntToStrRev [] n) \<le> 10"
    using UIntToStrRev_u32_length[of n "[]"] assms(3) SequenceResetEv by simp
  then have "send_ok now kMSGTYPE_SequenceReset (RevPut (SPLTAGEQ 36 @ UIntToStrRev [] n) FixBuilder)"
    using assms(3) SequenceResetEv tag by (simp add: send_ok_def RevPut_def FixBuilder_def msgtypes)
  then show ?thesis
    using assms SequenceResetEv SendNext_tracked[OF assms(1,2)] by (simp add: SequenceReset_def)
next
  case (NoteEv hdr t m)
  then have "note_line (hdr @ Stamp t @ 0x20 # m)"
    using assms(3) by (auto simp: note_line_def stamp_ok_def line_headers)
  then show ?thesis using NoteEv Write_tracked[OF assms(1)] by simp
qed (use assms ResetNextSendSeq_tracked WriteInputConform_tracked WriteInputSeqReset_tracked
      ForceResetRecvSeq_tracked GapFill_tracked Replay_tracked in auto)

text \<open>What the operations leave alone.\<close>

definition same_setup :: "fix_sender \<Rightarrow> fix_sender \<Rightarrow> bool" where
  "same_setup a b \<longleftrightarrow> BeginHeader a = BeginHeader b \<and> RecCompIDs a = RecCompIDs b"

lemma same_setup_simps [simp]:
  "same_setup fs fs" "same_setup fs (AddWork b g) = same_setup fs g" "same_setup fs (WriteBuffer b g) = same_setup fs g"
  "same_setup fs (OnSendFixMessage m g) = same_setup fs g" "same_setup fs (g\<lparr>NextSendSeq := n\<rparr>) = same_setup fs g"
  "same_setup fs (g\<lparr>NextRecvSeq := n\<rparr>) = same_setup fs g" "same_setup fs (g\<lparr>LastSentTime := t\<rparr>) = same_setup fs g"
  "same_setup fs (g\<lparr>IsReplayingAll := x\<rparr>) = same_setup fs g" "same_setup fs (Append b g) = same_setup fs g"
  by (auto simp: same_setup_def AddWork_def WriteBuffer_def OnSendFixMessage_def Append_def Let_def)

lemma rec_step_setup: "same_setup fs (rec_step after alive fs e)"
  by (cases e)
     (simp_all add: Send_def SequenceReset_def SendNext_def ResetNextSendSeq_def WriteAfterSend_def
       WriteInputConform_def WriteInputSeqReset_def ForceResetRecvSeq_def Write_def GapFill_def Replay_def Let_def)

lemma same_setup_wf: "same_setup fs g \<Longrightarrow> sender_wf fs = sender_wf g"
  by (simp add: same_setup_def sender_wf_def)

lemma rec_run_tracked:
  "tracked fs \<Longrightarrow> sender_wf fs \<Longrightarrow> rec_run_ok after alive fs es \<Longrightarrow> tracked (foldl (rec_step after alive) fs es)"
proof (induction es arbitrary: fs)
  case (Cons e es)
  have "sender_wf (rec_step after alive fs e)" using same_setup_wf[OF rec_step_setup] Cons.prems(2) by blast
  then show ?case using Cons rec_step_tracked by simp
qed simp

lemma Initialize_tracked:
  assumes "File r = [] \<and> s = 0 \<and> v = 0 \<or> recov (File r) s v" "s < 2 ^ 32" "v < 2 ^ 32"
    and "length buf = 8192" "stamp_ok now"
  shows "\<exists>r'. Initialize (Inr (length (File r)) :: 'e + nat) (file_read (File r)) after buf now r = Inr r' \<and>
     tracked r' \<and> told s (NextSendSeq r') \<and> told v (NextRecvSeq r') \<and>
     BeginHeader r' = BeginHeader r \<and> RecCompIDs r' = RecCompIDs r"
proof -
  let ?st = "LastSeqSearcher (BeginHeader r)"
  have "\<exists>n st'. LastSeqSearcher_Start (Inr (length (File r))) (file_read (File r)) after buf ?st = (Inr n :: 'e + nat, st') \<and>
      FoundSend st' = s \<and> FoundRecv st' = v"
  proof (cases "File r = []")
    case True
    then have "s = 0 \<and> v = 0" using assms(1) by (auto simp: recov_def)
    then show ?thesis
      using True by (simp add: LastSeqSearcher_Start_def RevReadSearcher_Start_def Start_def LastSeqSearcher_def)
  next
    case False
    then show ?thesis using recov_search[of "File r" s v buf after "BeginHeader r"] assms(1,4) by auto
  qed
  then obtain n st' where st': "LastSeqSearcher_Start (Inr (length (File r))) (file_read (File r)) after buf ?st
      = (Inr n :: 'e + nat, st')" "FoundSend st' = s" "FoundRecv st' = v" by blast
  let ?s = "if s = 0 then 1 else s" and ?v = "if v = 0 then 1 else v"
  let ?r1 = "r\<lparr>NextSendSeq := ?s, NextRecvSeq := ?v, IdxInfoSizeInterval := 0\<rparr>"
  let ?t = "ascii ''f9fix.FixRecorder Initialized|NextSendSeq='' @
      UIntToStrRev (ascii ''|NextRecvSeq='' @ UIntToStrRev [] ?v) ?s"
  have eq: "Initialize (Inr (length (File r)) :: 'e + nat) (file_read (File r)) after buf now r = Inr (Write HdrInfo now ?t ?r1)"
    using st' by (simp add: Initialize_def Let_def)
  have l: "0xa \<notin> set (HdrInfo @ Stamp now @ 0x20 # ?t)"
    using assms(5) by (simp add: stamp_ok_def line_headers)
  have told: "told s ?s" "told v ?v" by (simp_all add: told_def)
  have rc: "recov (File r @ (HdrInfo @ Stamp now @ 0x20 # ?t) @ [0xa]) s v"
  proof (cases "File r = []")
    case True
    then have "s = 0 \<and> v = 0" using assms(1) by (auto simp: recov_def)
    then show ?thesis using recov_start[OF l] True by simp
  next
    case False
    then have "recov (File r) s v" using assms(1) by simp
    moreover have "note_line (HdrInfo @ Stamp now @ 0x20 # ?t)" using l by (simp add: note_line_def HdrInfo_def ascii_def)
    ultimately show ?thesis by (rule recov_note)
  qed
  then have "tracked (Write HdrInfo now ?t ?r1)"
    unfolding Write_def using told assms(2,3) by (intro WriteBuffer_tracked[where s = s and v = v]) simp_all
  moreover have "NextSendSeq (Write HdrInfo now ?t ?r1) = ?s" "NextRecvSeq (Write HdrInfo now ?t ?r1) = ?v"
    "BeginHeader (Write HdrInfo now ?t ?r1) = BeginHeader r" "RecCompIDs (Write HdrInfo now ?t ?r1) = RecCompIDs r"
    by (simp_all add: Write_def WriteBuffer_def AddWork_def Let_def)
  ultimately show ?thesis using eq told by auto
qed

lemma told_unique: "told s n \<Longrightarrow> told s m \<Longrightarrow> 0 < n \<Longrightarrow> 0 < m \<Longrightarrow> n = m"
  by (auto simp: told_def)

lemma CloseRecorder_recov:
  assumes "recov (File r) s v" "stamp_ok now"
  shows "recov (File (CloseRecorder now r)) s v"
proof -
  let ?l = "HdrInfo @ Stamp now @ ascii '' f9fix.FixRecorder dtor.''"
  have "note_line ?l" using assms(2) by (simp add: note_line_def stamp_ok_def line_headers)
  from recov_note[OF recov_note[OF assms(1) this], of "[]"] show ?thesis
    by (simp add: CloseRecorder_def AddWork_def note_line_def)
qed

text \<open>C11: a session that is restarted goes on with the numbers it had: whatever was sent, received, reset,
  replayed or noted since the file was new, in any order, as long as no text that is written holds a line feed, the
  recorder that is initialized on the file that the run left finds in it, searching backwards from
  its end, the same next number to send and the same next number to receive that the running recorder had. The
  code does not see to the line feeds: \<open>line_feed_forges_a_number\<close> is a message that makes it find another number.\<close>

theorem restart_recovers_numbers:
  assumes "Initialize (Inr 0 :: 'e + nat) (file_read []) after buf t0 new = Inr fs0" "File new = []" "sender_wf new"
    and "rec_run_ok after alive fs0 es" "stamp_ok t0" "stamp_ok t1" "stamp_ok t2" "length buf = 8192"
  shows "let fs = foldl (rec_step after alive) fs0 es; old = CloseRecorder t1 fs
    in \<exists>fs'. Initialize (Inr (length (File old)) :: 'e + nat) (file_read (File old)) after buf t2 old = Inr fs' \<and>
         NextSendSeq fs' = NextSendSeq fs \<and> NextRecvSeq fs' = NextRecvSeq fs"
proof -
  obtain r' where "Initialize (Inr 0 :: 'e + nat) (file_read []) after buf t0 new = Inr r'" "tracked r'"
    "BeginHeader r' = BeginHeader new" "RecCompIDs r' = RecCompIDs new"
    using Initialize_tracked[of new 0 0 buf t0 after, where 'e = 'e] assms(2,5,8) by auto
  then have init: "tracked fs0" "sender_wf fs0" using assms(1,3) by (simp_all add: sender_wf_def)
  let ?fs = "foldl (rec_step after alive) fs0 es"
  let ?old = "CloseRecorder t1 ?fs"
  have "tracked ?fs" using rec_run_tracked[OF init assms(4)] .
  then obtain s v where sv: "recov (File ?fs) s v" "told s (NextSendSeq ?fs)" "told v (NextRecvSeq ?fs)"
    "0 < NextSendSeq ?fs" "NextSendSeq ?fs < 2 ^ 32" "0 < NextRecvSeq ?fs" "NextRecvSeq ?fs < 2 ^ 32"
    by (rule tracked_told)
  have lt: "s < 2 ^ 32" "v < 2 ^ 32" using sv by (auto simp: told_def)
  obtain fs' where fs': "Initialize (Inr (length (File ?old)) :: 'e + nat) (file_read (File ?old)) after buf t2 ?old = Inr fs'"
    "tracked fs'" "told s (NextSendSeq fs')" "told v (NextRecvSeq fs')"
    using Initialize_tracked[of ?old s v buf t2 after, where 'e = 'e] CloseRecorder_recov[OF sv(1) assms(6)] lt assms(7,8)
    by blast
  moreover have "NextSendSeq fs' = NextSendSeq ?fs" "NextRecvSeq fs' = NextRecvSeq ?fs"
    using told_unique sv fs'(2-4) unfolding tracked_def by blast+
  ultimately show ?thesis unfolding Let_def by blast
qed

abbreviation example_time :: tstamp where
  "example_time \<equiv> \<lparr>FIXMS = replicate 21 0x30, Stamp = replicate 21 0x31\<rparr>"

abbreviation example_sender :: fix_sender where
  "example_sender \<equiv> \<lparr>BeginHeader = begin_header (ascii ''FIX.4.4''),
     RecCompIDs = CompIDs (ascii ''A'') [] (ascii ''B'') [], NextSendSeq = 0, NextRecvSeq = 0,
     IdxInfoSizeInterval = 0, File = [], IsReplayingAll = False, LastSentTime = None, Out = []\<rparr>"

lemma example_sender_wf: "stamp_ok example_time" "sender_wf example_sender"
proof -
  show "stamp_ok example_time" by (simp add: stamp_ok_def kTimeStampWidth_def)
  have "0xa \<notin> set (Header (RecCompIDs example_sender))" by (simp add: CompIDs_def PutHeader_def ascii_def)
  moreover have "length (Header (RecCompIDs example_sender)) < 2 ^ 60"
    by (simp add: CompIDs_def PutHeader_def SPLTAGEQ_def UIntToStrRev.simps Put2Digs_def)
  ultimately show "sender_wf example_sender"
    by (auto simp: sender_wf_def ascii_def intro!: exI[of _ "ascii ''FIX.4.4''"])
qed

lemma WriteBuffer_numbers [simp]:
  "NextSendSeq (WriteBuffer b r) = NextSendSeq r" "NextRecvSeq (WriteBuffer b r) = NextRecvSeq r"
  by (simp_all add: WriteBuffer_def AddWork_def Let_def)

lemma restart_recovers_numbers_witness:
  "\<exists>fs0 fs'. Initialize (Inr 0 :: unit + nat) (file_read []) (\<lambda>_. 0) (replicate 8192 0) example_time example_sender = Inr fs0 \<and>
     (let old = CloseRecorder example_time (ResetNextSendSeq 7 (Send example_time (SPLFLDMSGTYPE [0x30]) FixBuilder fs0))
      in Initialize (Inr (length (File old)) :: unit + nat) (file_read (File old)) (\<lambda>_. 0) (replicate 8192 0)
           example_time old = Inr fs') \<and> NextSendSeq fs' = 7 \<and> NextRecvSeq fs' = 1"
proof -
  let ?es = "[SendEv example_time [0x30] FixBuilder, ResetSendEv 7]" and ?alive = "\<lambda>_ _. True"
  have buf: "length (replicate 8192 (0::byte)) = 8192" by simp
  have z: "File example_sender = [] \<and> (0::nat) = 0 \<and> (0::nat) = 0 \<or> recov (File example_sender) 0 0" by simp
  obtain fs0 where fs0: "Initialize (Inr 0 :: unit + nat) (file_read []) (\<lambda>_. 0) (replicate 8192 0) example_time
      example_sender = Inr fs0" "told 0 (NextSendSeq fs0)" "told 0 (NextRecvSeq fs0)" "tracked fs0"
    using Initialize_tracked[OF z _ _ buf example_sender_wf(1), of "\<lambda>_. 0", where 'e = unit] by auto
  have n: "NextSendSeq fs0 = 1" "NextRecvSeq fs0 = 1" using fs0(2-4) by (auto simp: told_def tracked_def)
  have ok: "rec_run_ok (\<lambda>_. 0) ?alive fs0 ?es"
    using n example_sender_wf(1) by (simp add: send_ok_def FixBuilder_def)
  have "NextRecvSeq (Send example_time (SPLFLDMSGTYPE [0x30]) FixBuilder fs0) = 1"
    using n by (simp add: Send_def SendNext_def Let_def WriteAfterSend_def OnSendFixMessage_def)
  then have r: "NextSendSeq (foldl (rec_step (\<lambda>_. 0) ?alive) fs0 ?es) = 7" "NextRecvSeq (foldl (rec_step (\<lambda>_. 0) ?alive) fs0 ?es) = 1"
    by (simp_all add: ResetNextSendSeq_def WriteAfterSend_def)
  show ?thesis
    using restart_recovers_numbers[OF fs0(1) _ example_sender_wf(2) ok example_sender_wf(1) example_sender_wf(1)
        example_sender_wf(1) buf] fs0(1) r by (auto simp: Let_def)
qed

text \<open>
  The lines of the file end with a line feed, which nothing keeps out of a received message: a value that holds one
  can go on with a line of its own, here a reset of the number to send, and the restart believes it.
\<close>

theorem line_feed_forges_a_number:
  assumes "tracked r" "stamp_ok t0" "stamp_ok t1" "stamp_ok t2" "readable m k" "0 < n" "n < 2 ^ 32" "length buf = 8192"
    and "IdxInfoSizeInterval r = 0" "length m < 1000"
  defines "forged \<equiv> m @ 0xa # HdrRst @ HdrNextSendSeq @ UIntToStrRev [] n"
  defines "old \<equiv> CloseRecorder t1 (WriteInputConform t0 forged r)"
  shows "NextSendSeq (WriteInputConform t0 forged r) = NextSendSeq r \<and>
    (\<exists>fs'. Initialize (Inr (length (File old)) :: 'e + nat) (file_read (File old)) after buf t2 old = Inr fs' \<and>
       NextSendSeq fs' = n)"
proof
  show "NextSendSeq (WriteInputConform t0 forged r) = NextSendSeq r" by (simp add: WriteInputConform_def)
  obtain s v where sv: "recov (File r) s v" using assms(1) by (auto simp: tracked_def)
  let ?line = "HdrRecv @ Stamp t0 @ 0x20 # forged @ [0xa]"
  have dig: "length (UIntToStrRev [] n) \<le> 10" using UIntToStrRev_u32_length[of n "[]"] assms(7) by simp
  have "length (Stamp t0) = 21" using assms(2) by (simp add: stamp_ok_def kTimeStampWidth_def)
  then have "length ?line \<le> 1100" using dig assms(10) by (simp add: forged_def line_headers)
  then have "File (WriteInputConform t0 forged r) = File r @ ?line"
    using assms(9) by (simp add: WriteInputConform_def WriteBuffer_def AddWork_def Let_def uadd_def kIdxInfoSizeInterval_def kReloadSentBufferSize_def)
  moreover have "?line = (HdrRecv @ Stamp t0 @ 0x20 # m @ [0xa]) @ HdrRst @ HdrNextSendSeq @ UIntToStrRev [0xa] n"
    using UIntToStrRev_append[of "[]" "[0xa]" n] by (simp add: forged_def)
  moreover have "recov ((File r @ HdrRecv @ Stamp t0 @ 0x20 # m @ [0xa]) @ HdrRst @ HdrNextSendSeq @ UIntToStrRev [0xa] n) n (Suc k)"
    by (rule recov_send_reset[OF recov_received[OF sv assms(5)]]) (use assms(2,6,7) in \<open>simp_all add: stamp_ok_def\<close>)
  ultimately have "recov (File (WriteInputConform t0 forged r)) n (Suc k)" by simp
  then have "recov (File old) n (Suc k)" unfolding old_def by (rule CloseRecorder_recov[OF _ assms(3)])
  moreover have "Suc k < 2 ^ 32" using assms(5) by (auto simp: readable_def)
  ultimately obtain fs' where "Initialize (Inr (length (File old)) :: 'e + nat) (file_read (File old)) after buf t2 old = Inr fs'"
    "tracked fs'" "told n (NextSendSeq fs')"
    using Initialize_tracked[of old n "Suc k" buf t2 after, where 'e = 'e] assms(4,7,8) by blast
  moreover from this have "NextSendSeq fs' = n" using assms(6) by (auto simp: told_def)
  ultimately show "\<exists>fs'. Initialize (Inr (length (File old)) :: 'e + nat) (file_read (File old)) after buf t2 old = Inr fs' \<and> NextSendSeq fs' = n"
    by blast
qed

subsection \<open>What is sent, and what the other end reads\<close>

definition comp_id_fields :: "byte list \<Rightarrow> byte list \<Rightarrow> byte list \<Rightarrow> byte list \<Rightarrow> (nat \<times> byte list) list" where
  "comp_id_fields sc ss tc ts = (49, sc) # (if ss \<noteq> [] then [(50, ss)] else []) @
     (56, tc) # (if ts \<noteq> [] then [(57, ts)] else [])"

lemma CompIDs_fields: "Header (CompIDs sc ss tc ts) = body_of (comp_id_fields sc ss tc ts)"
  by (simp add: CompIDs_def PutHeader_def comp_id_fields_def body_of_def Let_def)

definition sent_fields ::
  "byte list \<Rightarrow> nat \<Rightarrow> byte list \<Rightarrow> (nat \<times> byte list) list \<Rightarrow> (nat \<times> byte list) list \<Rightarrow> (nat \<times> byte list) list" where
  "sent_fields mt n time ids fs = (35, mt) # (34, UIntToStrRev [] n) # (52, time) # ids @ fs"

lemma FP_first_value: "FP p fs \<Longrightarrow> vals fs t = v # vs \<Longrightarrow> GetField p t = Some (FieldArray p t) \<and> Value (FieldArray p t) = v"
  by (auto simp: FP_def GetField_def dest: spec[of _ t])


lemma UIntToStrRev_u32_no_SPL [simp]: "SPL \<notin> set (UIntToStrRev [] n)"
  by (rule UIntToStrRev_no) simp_all


subsection \<open>Sending an old message again\<close>

fun value_offsets :: "nat \<Rightarrow> (nat \<times> byte list) list \<Rightarrow> byte list \<Rightarrow> (nat \<Rightarrow> nat option) \<Rightarrow> nat \<Rightarrow> nat option" where
  "value_offsets msz [] rest at = at"
| "value_offsets msz ((t, v) # fs) rest at =
     value_offsets msz fs rest (at(t \<mapsto> msz - length (v @ SPL # fields_spl fs @ rest)))"

lemma ValueBegins_offsets:
  assumes "FP p fs0" "fields_ok (fs0 @ fs)" "u \<noteq> FullMessage" "fs \<noteq> []" "distinct (map fst (fs0 @ fs))"
    and "foldl (\<lambda>u t. UntilRemove t u) u (map fst fs) = FullMessage"
    and "foldl (\<lambda>u t. UntilRemove t u) u (map fst (butlast fs)) \<noteq> FullMessage"
  shows "ValueBegins after msz (fields_spl fs @ rest) u p at = value_offsets msz fs rest at"
  using assms
proof (induction fs arbitrary: p fs0 u at)
  case (Cons f fs)
  obtain t v where f: "f = (t, v)" by fastforce
  let ?p = "SetFieldValue t v (FieldSlot t p)" and ?r = "SPL # fields_spl fs @ rest"
  let ?u = "UntilRemove t u" and ?at = "at(t \<mapsto> msz - length (v @ SPL # fields_spl fs @ rest))"
  have ok: "0 < t" "t < 2 ^ 32" "t \<noteq> 96" "SPL \<notin> set v" "length fs0 < 2 ^ 13"
    using Cons.prems(2) f by (auto simp: fields_ok_def)
  have "t \<notin> fst ` set fs0" using Cons.prems(5) f by auto
  then have v0: "vals fs0 t = []" by (auto simp: vals_def filter_empty_conv)
  then have c0: "ValueCount (FieldArray p t) = 0" using Cons.prems(1) by (simp add: FP_def)
  then have P: "ParseField after (UIntToStrRev (EQ # v @ ?r) t) p = (Used 1, tl ?r, ?p, t)"
    using ok by (intro ParseField_text) auto
  have tx: "fields_spl (f # fs) @ rest = UIntToStrRev (EQ # v @ ?r) t"
    using UIntToStrRev_append[of "EQ # v @ [SPL]" "fields_spl fs @ rest" t] by (simp add: f fields_spl_Cons)
  have num: "StrTo_u 32 (UIntToStrRev (EQ # v @ ?r) t) 0 = (t, EQ # v @ ?r)"
    using ok(2) by (intro StrTo_u_UIntToStrRev) simp_all
  have fp: "FP ?p (fs0 @ [(t, v)])" using FP_step Cons.prems(1) v0 ok(5) by simp
  have step: "ValueBegins after msz (fields_spl (f # fs) @ rest) u p at
    = (if ?u = FullMessage then ?at else ValueBegins after msz (fields_spl fs @ rest) ?u ?p ?at)"
    using UIntToStrRev_nonempty[of "EQ # v @ ?r" t] P Cons.prems(3) num c0
    unfolding tx by (subst ValueBegins.simps) (simp add: Let_def)
  show ?case
  proof (cases "fs = []")
    case True
    then have "?u = FullMessage" using Cons.prems(6) f by simp
    then show ?thesis using step True f by simp
  next
    case False
    then have "?u \<noteq> FullMessage" using Cons.prems(7) f by auto
    moreover have "fields_ok ((fs0 @ [(t, v)]) @ fs)" using Cons.prems(2) f by simp
    ultimately show ?thesis
      using Cons.IH[of ?p "fs0 @ [(t, v)]" ?u] fp False Cons.prems(5-7) f step by simp
  qed
qed simp

lemma Rebuild_Final:
  assumes "curMsg = Final hdr b" "Buffer b = A @ time @ rest" "A \<noteq> []"
    and "i = length hdr + length (UIntToStrRev [] (length (Buffer b)))" "j = i + length A"
    and "length (FIXMS (ReFlds rp)) = 21"
  shows "Rebuild hdr curMsg i j rp = (True, put_message (Final hdr (b\<lparr>Buffer := A @ ReFldsText rp @ time @ rest\<rparr>)) rp)"
proof -
  let ?B = "Buffer b" and ?d = "UIntToStrRev [] (length (Buffer b))"
  let ?tail = "PutCheckSumField (SPL + sum_list (hdr @ UIntToStrRev ?B (length ?B)))"
  have ds: "UIntToStrRev x n = UIntToStrRev [] n @ x" for x n using UIntToStrRev_append[of "[]" x n] by simp
  have cur: "curMsg = hdr @ ?d @ A @ time @ rest @ ?tail"
    using assms(1,2) ds[of ?B] by (simp add: Final_def Let_def)
  have l8: "length ?tail = 8" by (rule PutCheckSumField_length)
  have w: "length (ReFldsText rp) = kReFldsWidth"
    using assms(6) by (simp add: ReFldsText_def kReFldsWidth_def SPLTAGEQ_def UIntToStrRev.simps Put2Digs_def)
  have lc: "length curMsg = i + length A + length time + length rest + 8" using l8 by (simp add: cur assms(4))
  have body: "length curMsg - i - kFixTailWidth + kReFldsWidth = length (A @ ReFldsText rp @ time @ rest)"
    using lc w by (simp add: kFixTailWidth_def)
  have t1: "take (j - i) (drop i curMsg) = A" by (simp add: cur assms(4,5))
  have "drop j curMsg = time @ rest @ ?tail" by (simp add: cur assms(4,5))
  moreover have "length curMsg - kFixTailWidth - j = length (time @ rest)" using lc assms(5) by (simp add: kFixTailWidth_def)
  ultimately have t2: "take (length curMsg - kFixTailWidth - j) (drop j curMsg) = time @ rest" by simp
  have "i < j" using assms(3,5) by simp
  then show ?thesis
    unfolding Rebuild_def Let_def body t1 t2
    by (simp add: Final_def Let_def ds[of "A @ ReFldsText rp @ time @ rest"])
qed

lemma FixParser_FP: "FP (ResetExpectHeader h FixParser) []"
  by (auto simp: FP_def FixParser_def ResetExpectHeader_def vals_def multi_def)

lemma ParseFields_until_replay:
  assumes "fields_ok [(8, ver), (9, len), (35, mt), (34, num), (52, time)]"
  defines "fs \<equiv> [(8, ver), (9, len), (35, mt), (34, num), (52, time)]"
  shows "\<exists>p'. ParseFields after (fields_spl fs @ rest) UntilReplay (ResetExpectHeader h FixParser) = (Used 1, rest, ParseFieldsEnd p') \<and> FP p' fs"
    and "ValueBegins after msz (fields_spl fs @ rest) UntilReplay (ResetExpectHeader h FixParser) at = value_offsets msz fs rest at"
proof -
  have u: "foldl (\<lambda>u t. UntilRemove t u) UntilReplay (map fst fs) = FullMessage"
    "foldl (\<lambda>u t. UntilRemove t u) UntilReplay (map fst (butlast fs)) \<noteq> FullMessage"
    by (simp_all add: fs_def UntilRemove_def)
  have ok: "fields_ok ([] @ fs)" "fs \<noteq> []" "UntilReplay \<noteq> FullMessage" "distinct (map fst ([] @ fs))"
    using assms(1) by (simp_all add: fs_def)
  show "\<exists>p'. ParseFields after (fields_spl fs @ rest) UntilReplay (ResetExpectHeader h FixParser) = (Used 1, rest, ParseFieldsEnd p') \<and> FP p' fs"
    using ParseFields_loop_until[OF FixParser_FP ok(1,3,2) u, of after rest h] by (auto simp: ParseFields_def)
  show "ValueBegins after msz (fields_spl fs @ rest) UntilReplay (ResetExpectHeader h FixParser) at = value_offsets msz fs rest at"
    using ValueBegins_offsets[OF FixParser_FP ok(1,3,2,4) u] .
qed

lemma SPLTAGEQ_length [simp]: "10 \<le> t \<Longrightarrow> t < 100 \<Longrightarrow> length (SPLTAGEQ t) = 4"
  by (simp add: SPLTAGEQ_def UIntToStrRev.simps Put2Digs_def)

lemma Final_until_replay:
  assumes "Buffer b = body_of ((35, mt) # (34, num) # (52, time) # fs)"
    and "cks = PutCheckSumField (SPL + sum_list (begin_header ver @ UIntToStrRev (Buffer b) (length (Buffer b))))"
  shows "Final (begin_header ver) b =
    fields_spl [(8, ver), (9, UIntToStrRev [] (length (Buffer b))), (35, mt), (34, num), (52, time)] @ tl (body_of fs @ cks)"
proof -
  obtain x where x: "body_of fs @ cks = SPL # x"
    by (cases fs) (auto simp: body_of_def assms(2) PutCheckSumField_def SPLTAGEQ_def)
  have tag: "UIntToStrRev (EQ # x) t = UIntToStrRev [] t @ EQ # x" for x t
    using UIntToStrRev_append[of "[]" "EQ # x" t] by simp
  have "UIntToStrRev (Buffer b) m = UIntToStrRev [] m @ Buffer b" for m
    using UIntToStrRev_append[of "[]" "Buffer b" m] by simp
  moreover have "Buffer b @ cks = SPLTAGEQ 35 @ mt @ SPLTAGEQ 34 @ num @ SPLTAGEQ 52 @ time @ SPL # x"
    using x by (simp add: assms(1) body_of_def)
  ultimately have "Final (begin_header ver) b = begin_header ver @ UIntToStrRev [] (length (Buffer b)) @
      SPLTAGEQ 35 @ mt @ SPLTAGEQ 34 @ num @ SPLTAGEQ 52 @ time @ SPL # x"
    by (simp add: Final_def Let_def assms(2))
  then show ?thesis by (simp add: x fields_spl_def begin_header_def SPLTAGEQ_def tag)
qed

text \<open>The text of a message sent again: the fields of the original, with the present time as
  \<open>SendingTime\<close>, \<open>PossDupFlag\<close> set and the first sending time as \<open>OrigSendingTime\<close>.\<close>

definition replayed_fields :: "byte list \<Rightarrow> byte list \<Rightarrow> byte list \<Rightarrow> byte list \<Rightarrow> (nat \<times> byte list) list \<Rightarrow> (nat \<times> byte list) list" where
  "replayed_fields mt num time now fs =
     (35, mt) # (34, num) # (52, now) # (43, ascii ''Y'') # (122, time) # fs"

text \<open>C15: a recorded message that must be sent again goes out with its number, its type and all its
  fields, as the message the builder makes of them with the present time, \<open>PossDupFlag=Y\<close> and the old
  sending time as \<open>OrigSendingTime\<close>: \<open>BodyLength\<close> and \<open>CheckSum\<close> are right again. The replay goes on
  behind its number, and stops when it was the last one asked for.\<close>

theorem replayed_message_is_rebuilt:
  assumes "BeginHeader fs = begin_header ver" "curMsg = Final (begin_header ver) b"
    and "Buffer b = body_of ((35, mt) # (34, UIntToStrRev [] n) # (52, time) # ufs)"
    and "fields_ok [(8, ver), (9, UIntToStrRev [] (length (Buffer b))), (35, mt), (34, UIntToStrRev [] n), (52, time)]"
    and "Suc n < 2 ^ 32" "BeginSeqNo rp = n" "EndSeqNo rp = 0 \<or> n \<le> EndSeqNo rp"
    and "GetConfig fixConfig mt = Some cfg" "ReplayRequired alive cfg time"
    and "length (FIXMS (ReFlds rp)) = 21"
  shows "ReloadOne after alive fixConfig fs curMsg rp =
    ((put_message (Final (begin_header ver)
        (b\<lparr>Buffer := body_of (replayed_fields mt (UIntToStrRev [] n) time (FIXMS (ReFlds rp)) ufs)\<rparr>)) rp)
      \<lparr>BeginSeqNo := Suc n\<rparr>, EndSeqNo rp = 0 \<or> n < EndSeqNo rp)"
proof -
  let ?len = "UIntToStrRev [] (length (Buffer b))" and ?h = "begin_header ver"
  let ?cks = "PutCheckSumField (SPL + sum_list (?h @ UIntToStrRev (Buffer b) (length (Buffer b))))"
  let ?F = "[(8, ver), (9, ?len), (35, mt), (34, UIntToStrRev [] n), (52, time)]"
  let ?A = "SPLTAGEQ 35 @ mt @ SPLTAGEQ 34 @ UIntToStrRev [] n @ SPLTAGEQ 52"
  let ?p0 = "ResetExpectHeader ?h FixParser"
  obtain x where x: "body_of ufs @ ?cks = SPL # x"
    by (cases ufs) (auto simp: body_of_def PutCheckSumField_def SPLTAGEQ_def)
  have cur: "curMsg = fields_spl ?F @ x"
    using Final_until_replay[OF assms(3) refl, of ver] unfolding assms(2) x by simp
  obtain p' where p': "ParseFields after curMsg UntilReplay ?p0 = (Used 1, x, ParseFieldsEnd p')" "FP p' ?F"
    using ParseFields_until_replay(1)[OF assms(4), of after x ?h] cur by auto
  have fp: "FP (ParseFieldsEnd p') ?F" using p'(2) by (simp add: ParseFieldsEnd_FP)
  have val: "GetField (ParseFieldsEnd p') t = Some (FieldArray (ParseFieldsEnd p') t) \<and>
      Value (FieldArray (ParseFieldsEnd p') t) = v"
    if "vals ?F t = v # vs" for t v vs using FP_first_value[OF fp that] .
  have g: "GetField (ParseFieldsEnd p') 35 = Some (FieldArray (ParseFieldsEnd p') 35)"
    "Value (FieldArray (ParseFieldsEnd p') 35) = mt"
    "GetField (ParseFieldsEnd p') 52 = Some (FieldArray (ParseFieldsEnd p') 52)"
    "Value (FieldArray (ParseFieldsEnd p') 52) = time"
    using val[of 35 mt "[]"] val[of 52 time "[]"] by (simp_all add: vals_def)
  have "GetField p' 34 = Some (FieldArray p' 34) \<and> Value (FieldArray p' 34) = UIntToStrRev [] n"
    by (rule FP_first_value[OF p'(2)]) (simp add: vals_def)
  then have num: "MsgSeqNum (ParseFieldsEnd p') = n" using assms(5) by (simp add: ParseFieldsEnd_def)
  have at: "ValueBegins after (length curMsg) curMsg UntilReplay ?p0 Map.empty = value_offsets (length curMsg) ?F x Map.empty"
    using ParseFields_until_replay(2)[OF assms(4), of after "length curMsg" x ?h] unfolding cur .
  have tag: "UIntToStrRev (EQ # x) t = UIntToStrRev [] t @ EQ # x" for x t
    using UIntToStrRev_append[of "[]" "EQ # x" t] by simp
  have d: "length (UIntToStrRev [] (35::nat)) = 2" "length (UIntToStrRev [] (34::nat)) = 2" "length (UIntToStrRev [] (52::nat)) = 2"
    by (simp_all add: UIntToStrRev.simps Put2Digs_def)
  have len: "length curMsg = length ?h + length ?len + length (?A @ time @ SPL # x)"
    using d unfolding cur by (simp add: fields_spl_def begin_header_def SPLTAGEQ_def tag)
  have o: "the (value_offsets (length curMsg) ?F x Map.empty 35) - 4 = length ?h + length ?len"
    "the (value_offsets (length curMsg) ?F x Map.empty 52) = length ?h + length ?len + length ?A"
    using len d by (simp_all add: fields_spl_def SPLTAGEQ_def tag)
  have b: "Buffer b = ?A @ time @ body_of ufs" by (simp add: assms(3) body_of_def)
  have r: "body_of (replayed_fields mt (UIntToStrRev [] n) time (FIXMS (ReFlds rp)) ufs) = ?A @ ReFldsText rp @ time @ body_of ufs"
    by (simp add: replayed_fields_def body_of_def ReFldsText_def)
  have A: "?A \<noteq> []" by (simp add: SPLTAGEQ_def)
  note R = Rebuild_Final[OF assms(2) b A refl refl assms(10)]
  have M: "ReplayMessage curMsg (length ?h + length ?len) (length ?h + length ?len + length ?A) n fs rp =
      (put_message (Final ?h (b\<lparr>Buffer := ?A @ ReFldsText rp @ time @ body_of ufs\<rparr>)) rp)\<lparr>BeginSeqNo := Suc n\<rparr>"
    using assms(1,5,6) R by (simp add: ReplayMessage_def wrap_simps)
  have e: "EndSeqNo rp = 0 \<or> n \<le> EndSeqNo rp" by (rule assms(7))
  show ?thesis
    using e assms(8,9) M
    by (auto simp add: ReloadOne_def assms(1) p'(1) at Let_def num g o r simp del: value_offsets.simps)
qed

lemma replayed_message_is_rebuilt_witness:
  "let b = FixBuilder\<lparr>Buffer := body_of [(35, [0x44]), (34, UIntToStrRev [] 3), (52, FIXMS example_time)]\<rparr>;
       cfg = FetchConfig FixConfig [0x44] (\<lambda>m. m\<lparr>TTL := None\<rparr>);
       rp = fst (ReloadOne (\<lambda>_. 0) (\<lambda>_ _. True) cfg example_sender (Final (begin_header (ascii ''FIX.4.4'')) b)
              (Replayer example_time 3 3))
   in BeginSeqNo rp = 4 \<and> SendBuf rp = [Final (begin_header (ascii ''FIX.4.4''))
        (b\<lparr>Buffer := body_of (replayed_fields [0x44] (UIntToStrRev [] 3) (FIXMS example_time) (FIXMS example_time) [])\<rparr>)]"
proof -
  let ?b = "FixBuilder\<lparr>Buffer := body_of [(35, [0x44]), (34, UIntToStrRev [] 3), (52, FIXMS example_time)]\<rparr>"
  let ?rp = "Replayer example_time 3 3"
  have cfg: "GetConfig (FetchConfig FixConfig [0x44] (\<lambda>m. m\<lparr>TTL := None\<rparr>)) [0x44] =
      Some (FixMsgTypeConfig\<lparr>TTL := None\<rparr>)"
    by (simp add: GetConfig_def FetchConfig_def config_idx_def FixConfig_def Alpha2Seq_def)
  have ok: "fields_ok [(8, ascii ''FIX.4.4''), (9, UIntToStrRev [] (length (Buffer ?b))), (35, [0x44]), (34, UIntToStrRev [] 3),
      (52, FIXMS example_time)]"
    by (simp add: fields_ok_def vals_def ascii_def)
  have h: "BeginHeader example_sender = begin_header (ascii ''FIX.4.4'')" by simp
  have t: "length (FIXMS (ReFlds ?rp)) = 21" using example_sender_wf(1) by (simp add: Replayer_def stamp_ok_def)
  have p: "Buffer ?b = body_of ((35, [0x44]) # (34, UIntToStrRev [] 3) # (52, FIXMS example_time) # [])"
    "Suc 3 < 2 ^ 32" "BeginSeqNo ?rp = 3" "EndSeqNo ?rp = 0 \<or> 3 \<le> EndSeqNo ?rp"
    "ReplayRequired (\<lambda>_ _. True) (FixMsgTypeConfig\<lparr>TTL := None\<rparr>) (FIXMS example_time)"
    by (simp_all add: Replayer_def ReplayRequired_def IsInfiniteTTL_def)
  note R = replayed_message_is_rebuilt[OF h refl p(1) ok p(2-4) cfg p(5) t, of "\<lambda>_. 0"]
  show ?thesis unfolding Let_def R by (simp add: Replayer_def put_message_def)
qed

definition seq_reset_fields :: "bool \<Rightarrow> nat \<Rightarrow> nat \<Rightarrow> byte list \<Rightarrow> (nat \<times> byte list) list \<Rightarrow> (nat \<times> byte list) list" where
  "seq_reset_fields isGapFill oldSeqNo newSeqNo t ids =
     (35, kMSGTYPE_SequenceReset) # (34, UIntToStrRev [] oldSeqNo) # (43, ascii ''Y'') # (122, t) # (52, t) #
     ids @ (36, UIntToStrRev [] newSeqNo) # (if isGapFill then [(123, ascii ''Y'')] else [])"

lemma SeqReset_fields:
  assumes "RecCompIDs fs = CompIDs sc ss tc ts"
  shows "SeqReset g old new fs rp = put_message (Final (BeginHeader fs) (FixBuilder\<lparr>Buffer :=
    body_of (seq_reset_fields g old new (FIXMS (ReFlds rp)) (comp_id_fields sc ss tc ts))\<rparr>)) rp"
proof -
  have "Header (RecCompIDs fs) = body_of (comp_id_fields sc ss tc ts)" using assms CompIDs_fields by simp
  then show ?thesis
    by (simp add: SeqReset_def Let_def RevPut_def FixBuilder_def SPLFLDMSGTYPE_def body_of_def seq_reset_fields_def)
qed

lemma Out_Append [simp]: "Out (Append buf fs) = Out fs"
  by (simp add: Append_def AddWork_def WriteBuffer_def Let_def)

text \<open>a gap of several messages is filled with one \<open>SequenceReset\<close> that carries the first number and
  names the number behind the last; a gap of one message is not filled at all: nothing is sent,
  although the last number is meant to belong to the gap.\<close>

theorem single_message_gap_is_never_filled:
  assumes "IsNoReplay fixConfig" "0 < n" "n \<le> m" "Suc m < 2 ^ 32" "RecCompIDs fs = CompIDs sc ss tc ts"
  shows "Out (Replay after alive now fixConfig reload n m fs) = Out fs @
    (if n = m then [] else [Final (BeginHeader fs) (FixBuilder\<lparr>Buffer :=
       body_of (seq_reset_fields True n (m + 1) (FIXMS now) (comp_id_fields sc ss tc ts))\<rparr>)])"
  using assms(1-4)
  by (simp add: Replay_def GapFill_def Let_def OnSendFixMessage_def put_message_def ReplayStart_def Replayer_def
      SeqReset_fields[OF assms(5)] wrap_simps)

lemma single_message_gap_is_never_filled_witness:
  "Out (Replay (\<lambda>_. 0) (\<lambda>_ _. True) example_time (FixConfig\<lparr>IsNoReplay := True\<rparr>) [] 2 2 example_sender) = Out example_sender \<and>
   length (Out (Replay (\<lambda>_. 0) (\<lambda>_ _. True) example_time (FixConfig\<lparr>IsNoReplay := True\<rparr>) [] 2 3 example_sender)) =
     Suc (length (Out example_sender))"
  using single_message_gap_is_never_filled[of "FixConfig\<lparr>IsNoReplay := True\<rparr>" 2 2 example_sender "ascii ''A''" "[]" "ascii ''B''" "[]"]
    single_message_gap_is_never_filled[of "FixConfig\<lparr>IsNoReplay := True\<rparr>" 2 3 example_sender "ascii ''A''" "[]" "ascii ''B''" "[]"]
  by simp

end
