(* ===== verification/FixSession.thy ===== *)
theory FixSession
  imports FixSender FixFeeder
begin

text \<open>
  \<open>fix/FixReceiver.hpp\<close>, \<open>fix/FixReceiver.cpp\<close>, \<open>fix/FixSession.hpp\<close>, \<open>fix/FixSession.cpp\<close> and
  \<open>IoFixManager::OnLogonAccepted\<close> of \<open>fix/IoFixSession.cpp\<close>: keeping the received messages in sequence,
  and the state of the session. The session is the receiver, so both are one record. \<open>FixOut\<close> is
  \<open>FixSender_\<close>; \<open>Msg\<close> is the parser of the feeder that \<open>RxArgs_\<close> refers to. What the session asks of its
  device is kept in \<open>TimerAfter\<close>, \<open>CloseCauses\<close> and \<open>ForceSent\<close>, the senders given back to the manager
  in \<open>Returned\<close>, what it hands to the application in \<open>Delivered\<close>. \<open>Undefined\<close> is set where the
  code would use a null sender or take a message out of an empty keeper.

  An environment holds what an event brings along: the time, the configuration, the device, the
  application's answers and its decision on a logon request.
\<close>

subsection \<open>State\<close>

datatype fix_session_st = Disconnected | Connected | LogonSent | LogonRecovering | LogonTest | ApReady | LogoutPending

fun st_num :: "fix_session_st \<Rightarrow> nat" where
  "st_num Disconnected = 0"
| "st_num Connected = 1"
| "st_num LogonSent = 2"
| "st_num LogonRecovering = 3"
| "st_num LogonTest = 4"
| "st_num ApReady = 5"
| "st_num LogoutPending = 6"

lemma st_num_inj: "st_num a = st_num b \<Longrightarrow> a = b"
  by (cases a; cases b) simp_all

instantiation fix_session_st :: linorder
begin
definition less_eq_fix_session_st :: "fix_session_st \<Rightarrow> fix_session_st \<Rightarrow> bool" where
  "a \<le> b \<longleftrightarrow> st_num a \<le> st_num b"
definition less_fix_session_st :: "fix_session_st \<Rightarrow> fix_session_st \<Rightarrow> bool" where
  "a < b \<longleftrightarrow> st_num a < st_num b"
instance
  by standard (auto simp: less_eq_fix_session_st_def less_fix_session_st_def intro: st_num_inj)
end

lemmas st_order = less_eq_fix_session_st_def less_fix_session_st_def

datatype gap_flags = GapDontKeep | GapKeepRequired | GapSkipRecord

record fix_session =
  MsgKeeper :: "(byte list \<times> nat) list"
  ResendRequestEndSeqNo :: nat
  LastGapSeqNo :: nat
  FixSt :: fix_session_st
  HeartBtInt :: nat
  HbTestCount :: nat
  MsgReceivedCount :: nat
  ResetSendSeq :: nat
  ResetRecvSeq :: nat
  OrigMsgStr :: "byte list"
  Msg :: fix_parser
  SeqSt :: fix_seq_st
  FixOut :: "fix_sender option"
  TimerAfter :: "nat option"
  CloseCauses :: "byte list list"
  ForceSent :: "byte list list"
  Returned :: "fix_sender list"
  Delivered :: "(nat \<times> byte list) list"
  ApReadyEvents :: nat
  Undefined :: bool

datatype logon_answer = LogonIgnored | LogonRejected "byte list" | LogonAccepted fix_sender

record session_env =
  Now :: tstamp
  After :: "nat \<Rightarrow> byte"
  Alive :: "byte list \<Rightarrow> int \<Rightarrow> bool"
  Reloaded :: "nat \<Rightarrow> byte list list"
  Cfg :: fix_config
  DeviceId :: "byte list"
  ApAnswers :: "byte list \<Rightarrow> fix_parser \<Rightarrow> (byte list \<times> fix_builder) list"
  LogonAnswer :: "byte list \<Rightarrow> fix_parser \<Rightarrow> logon_answer"

definition FixSession :: fix_session where
  "FixSession = \<lparr>MsgKeeper = [], ResendRequestEndSeqNo = 0, LastGapSeqNo = 0, FixSt = Disconnected,
     HeartBtInt = 0, HbTestCount = 0, MsgReceivedCount = 0, ResetSendSeq = 0, ResetRecvSeq = 0,
     OrigMsgStr = [], Msg = FixParser, SeqSt = Conform, FixOut = None, TimerAfter = None, CloseCauses = [],
     ForceSent = [], Returned = [], Delivered = [], ApReadyEvents = 0, Undefined = False\<rparr>"

definition UseSender :: "(fix_sender \<Rightarrow> fix_sender) \<Rightarrow> fix_session \<Rightarrow> fix_session" where
  "UseSender f s = (case FixOut s of None \<Rightarrow> s\<lparr>Undefined := True\<rparr> | Some fs \<Rightarrow> s\<lparr>FixOut := Some (f fs)\<rparr>)"

definition SendMsg :: "session_env \<Rightarrow> byte list \<Rightarrow> fix_builder \<Rightarrow> fix_session \<Rightarrow> fix_session" where
  "SendMsg e msgType b = UseSender (Send (Now e) (SPLFLDMSGTYPE msgType) b)"

definition WriteRec :: "session_env \<Rightarrow> byte list \<Rightarrow> byte list \<Rightarrow> fix_session \<Rightarrow> fix_session" where
  "WriteRec e hdr args = UseSender (Write hdr (Now e) args)"

definition RecvSeq :: "fix_session \<Rightarrow> nat" where
  "RecvSeq s = (case FixOut s of None \<Rightarrow> 0 | Some fs \<Rightarrow> NextRecvSeq fs)"

definition Get1stIs :: "byte \<Rightarrow> byte list \<Rightarrow> bool" where
  "Get1stIs c v = (v \<noteq> [] \<and> hd v = c)"

definition RunAfter :: "nat \<Rightarrow> fix_session \<Rightarrow> fix_session" where
  "RunAfter ms s = s\<lparr>TimerAfter := Some ms\<rparr>"

definition CloseSession :: "byte list \<Rightarrow> fix_session \<Rightarrow> fix_session" where
  "CloseSession cause s = s\<lparr>CloseCauses := CloseCauses s @ [cause]\<rparr>"

subsection \<open>Logging out\<close>

definition CopyFixField :: "nat \<Rightarrow> fix_field option \<Rightarrow> fix_builder \<Rightarrow> fix_builder" where
  "CopyFixField tagTo fldFrom b =
     (case fldFrom of None \<Rightarrow> b | Some fld \<Rightarrow> RevPut (SPLTAGEQ tagTo @ Value fld) b)"

text \<open>The message of a logout before there is a sender: its CompIDs are those of the message received.\<close>

definition ForceLogoutMsg :: "session_env \<Rightarrow> fix_builder \<Rightarrow> fix_parser \<Rightarrow> byte list" where
  "ForceLogoutMsg e fixb p =
     (let b1 = CopyFixField 56 (GetField p 49) fixb;
          b2 = CopyFixField 57 (GetField p 50) b1;
          b3 = CopyFixField 49 (GetField p 56) b2;
          b4 = CopyFixField 50 (GetField p 57) b3;
          b5 = RevPut (FIXMS (Now e)) b4;
          b6 = RevPut (SPLFLDMSGTYPE kMSGTYPE_Logout @ SPLTAGEQ 34 @ ascii ''0'' @ SPLTAGEQ 52) b5
      in Final (ExpectHeader p) b6)"

definition SendLogout ::
  "session_env \<Rightarrow> fix_builder \<Rightarrow> fix_sender option \<Rightarrow> fix_session \<Rightarrow> fix_session \<times> fix_sender option" where
  "SendLogout e fixb fixr s =
     (if FixOut s \<noteq> None then
        (if FixSt s \<noteq> LogoutPending
         then SendMsg e kMSGTYPE_Logout fixb (RunAfter (TiLogoutPending (Cfg e)) (s\<lparr>FixSt := LogoutPending\<rparr>))
         else s, fixr)
      else let s1 = s\<lparr>FixSt := Disconnected, TimerAfter := None\<rparr>;
               cause = ForceLogoutMsg e fixb (Msg s1);
               s2 = s1\<lparr>ForceSent := ForceSent s1 @ [cause]\<rparr>;
               fixr' = map_option (Write HdrError (Now e) cause) fixr;
               s3 = s2\<lparr>Msg := snd (snd (Parse (After e) cause FullMessage (Msg s2)))\<rparr>;
               cause' = (case GetField (Msg s3) 58 of Some fld \<Rightarrow> ascii ''ForceLogout:'' @ Value fld | None \<Rightarrow> cause)
           in (CloseSession cause' s3, fixr'))"

definition LogoutText :: "byte list \<Rightarrow> fix_builder" where
  "LogoutText text = RevPut (SPLTAGEQ 58 @ text) FixBuilder"

definition OnLogoutRequired :: "session_env \<Rightarrow> fix_builder \<Rightarrow> fix_session \<Rightarrow> fix_session" where
  "OnLogoutRequired e fixb s = fst (SendLogout e fixb None s)"

subsection \<open>Gaps\<close>

definition ClearRecvKeeper :: "fix_session \<Rightarrow> fix_session" where
  "ClearRecvKeeper s = s\<lparr>MsgKeeper := [], ResendRequestEndSeqNo := 0, LastGapSeqNo := 0\<rparr>"

definition SendResendRequest :: "session_env \<Rightarrow> nat \<Rightarrow> nat \<Rightarrow> fix_session \<Rightarrow> fix_session" where
  "SendResendRequest e beginSeqNo endSeqNo s =
     SendMsg e kMSGTYPE_ResendRequest
       (RevPut (SPLTAGEQ 7 @ UIntToStrRev [] beginSeqNo @ SPLTAGEQ 16 @ UIntToStrRev [] endSeqNo) FixBuilder)
       (s\<lparr>ResendRequestEndSeqNo := endSeqNo\<rparr>)"

definition OnMsgSeqNumTooLow :: "session_env \<Rightarrow> fix_session \<Rightarrow> fix_session" where
  "OnMsgSeqNumTooLow e s =
     (case GetField (Msg s) 43 of
        Some fldPossDup \<Rightarrow>
          if Get1stIs 0x59 (Value fldPossDup) then WriteRec e HdrIgnoreRecv (OrigMsgStr s) s
          else OnLogoutRequired e
            (LogoutText (ascii ''MsgSeqNum too low, expecting '' @ UIntToStrRev [] (RecvSeq s) @
               ascii '' but received '' @ UIntToStrRev [] (MsgSeqNum (Msg s)))) (WriteRec e HdrError (OrigMsgStr s) s)
      | None \<Rightarrow> OnLogoutRequired e
            (LogoutText (ascii ''MsgSeqNum too low, expecting '' @ UIntToStrRev [] (RecvSeq s) @
               ascii '' but received '' @ UIntToStrRev [] (MsgSeqNum (Msg s)))) (WriteRec e HdrError (OrigMsgStr s) s))"

definition OnMsgSeqNumNotExpected :: "session_env \<Rightarrow> gap_flags \<Rightarrow> fix_session \<Rightarrow> fix_session" where
  "OnMsgSeqNumNotExpected e flags s =
     (if SeqSt s = Conform then s
      else if SeqSt s = TooLow then OnMsgSeqNumTooLow e s
      else let msgSeqNum = MsgSeqNum (Msg s)
        in if msgSeqNum \<le> LastGapSeqNo s
           then (if flags \<noteq> GapSkipRecord then WriteRec e HdrIgnoreRecv (OrigMsgStr s) s else s)
           else let s1 = s\<lparr>LastGapSeqNo := msgSeqNum\<rparr>;
                    s2 = (if flags = GapKeepRequired
                          then (WriteRec e HdrGapRecv (OrigMsgStr s1) s1)
                                 \<lparr>MsgKeeper := MsgKeeper s1 @ [(OrigMsgStr s1, msgSeqNum)]\<rparr>
                          else if flags \<noteq> GapSkipRecord then WriteRec e HdrIgnoreRecv (OrigMsgStr s1) s1
                          else s1);
                    endSeqNo = (if flags = GapKeepRequired then usub 32 msgSeqNum 1 else msgSeqNum)
             in if ResendRequestEndSeqNo s2 > 0 then s2
                else SendResendRequest e (RecvSeq s2) endSeqNo s2)"

subsection \<open>Logging on\<close>

definition SendLogonTestRequest :: "session_env \<Rightarrow> fix_session \<Rightarrow> fix_session" where
  "SendLogonTestRequest e s =
     (if LogonSent \<le> FixSt s \<and> FixSt s \<le> LogonTest
      then SendMsg e kMSGTYPE_TestRequest (RevPut (SPLTAGEQ 112 @ ascii ''LogonTest'') FixBuilder)
             (RunAfter (TiLogonTest (Cfg e)) (s\<lparr>FixSt := LogonTest\<rparr>))
      else s)"

definition OnRecoverDone :: "session_env \<Rightarrow> fix_session \<Rightarrow> fix_session" where
  "OnRecoverDone e s =
     (let s1 = s\<lparr>ResendRequestEndSeqNo := 0, LastGapSeqNo := 0\<rparr>
      in SendLogonTestRequest e
           (WriteRec e HdrInfo (ascii ''OnRecoverDone|NextRecvSeq='' @ UIntToStrRev [] (RecvSeq s1)) s1))"

definition SetApReadySt :: "session_env \<Rightarrow> fix_session \<Rightarrow> fix_session" where
  "SetApReadySt e s =
     (if FixSt s < ApReady then
        (if FixOut s \<noteq> None then
           (let s1 = RunAfter (1000 * HeartBtInt s) (s\<lparr>HbTestCount := 0, FixSt := ApReady\<rparr>);
                s2 = WriteRec e HdrInfo (ascii ''ApReady'') s1
            in s2\<lparr>ApReadyEvents := ApReadyEvents s2 + 1\<rparr>)
         else CloseSession (ascii ''SetApReadySt|err=No FixSender.'') s)
      else s)"

definition OnLogonResponsed :: "session_env \<Rightarrow> gap_flags \<Rightarrow> fix_session \<Rightarrow> fix_session" where
  "OnLogonResponsed e gapf s =
     (if SeqSt s = Conform then SendLogonTestRequest e s
      else OnMsgSeqNumNotExpected e gapf
             (RunAfter (TiLogonRecover (Cfg e)) (s\<lparr>FixSt := LogonRecovering, MsgReceivedCount := 0\<rparr>)))"

definition SendLogon :: "session_env \<Rightarrow> fix_sender \<Rightarrow> nat \<Rightarrow> fix_builder \<Rightarrow> fix_session \<Rightarrow> fix_session" where
  "SendLogon e fixout heartBtInt fixb s =
     (let f1 = (if ResetSendSeq s > 0 then ResetNextSendSeq (ResetSendSeq s) fixout else fixout);
          f2 = (if ResetRecvSeq s > 0
                then ForceResetRecvSeq (Now e) (ascii ''Reset RECV seqNum on SendLogon()'') (ResetRecvSeq s) f1 else f1);
          f3 = Send (Now e) (SPLFLDMSGTYPE kMSGTYPE_Logon) (RevPut (SPLTAGEQ 108 @ UIntToStrRev [] heartBtInt) fixb) f2
      in s\<lparr>FixSt := LogonSent, HeartBtInt := heartBtInt, ResetSendSeq := 0, ResetRecvSeq := 0, FixOut := Some f3\<rparr>)"

definition SendLogonResponse ::
  "session_env \<Rightarrow> fix_sender \<Rightarrow> nat \<Rightarrow> fix_builder \<Rightarrow> fix_session \<Rightarrow> fix_session" where
  "SendLogonResponse e fixout heartBtInt fixb s =
     OnLogonResponsed e GapSkipRecord (SendLogon e fixout heartBtInt fixb s)"

definition OnLogonInitiate ::
  "session_env \<Rightarrow> nat \<Rightarrow> fix_builder \<Rightarrow> fix_sender \<Rightarrow> fix_session \<Rightarrow> fix_session" where
  "OnLogonInitiate e heartBtInt fixb fixout s =
     SendLogon e (Write HdrInfo (Now e) (ascii ''OnLogon.Initiate|from='' @ DeviceId e) fixout) heartBtInt fixb s"

text \<open>The heartbeat interval of a logon request, or the tag that is wrong.\<close>

definition LogonHbInt :: "fix_parser \<Rightarrow> nat + nat" where
  "LogonHbInt p =
     (case GetField p 108 of
        None \<Rightarrow> Inl 108
      | Some fldHbInt \<Rightarrow>
          let hbInt = fst (StrTo_u 32 (Value fldHbInt) 0)
          in if hbInt = 0 then Inl 108
             else case GetField p 98 of
                    None \<Rightarrow> Inl 98
                  | Some fldEncryptMethod \<Rightarrow> if Get1stIs 0x30 (Value fldEncryptMethod) then Inr hbInt else Inl 98)"

definition RejectLogon ::
  "session_env \<Rightarrow> byte list \<Rightarrow> fix_sender \<Rightarrow> fix_session \<Rightarrow> fix_session" where
  "RejectLogon e text fixout s =
     (case SendLogout e (LogoutText text) (Some (Write HdrError (Now e) (OrigMsgStr s) fixout)) s of
        (s', fixr) \<Rightarrow> s'\<lparr>Returned := Returned s' @ (case fixr of Some f \<Rightarrow> [f] | None \<Rightarrow> [])\<rparr>)"

definition OnLogonAccepted :: "session_env \<Rightarrow> fix_sender \<Rightarrow> fix_session \<Rightarrow> bool \<times> fix_session" where
  "OnLogonAccepted e fixout s =
     (let s1 = s\<lparr>SeqSt := CompareFixSeqNum (MsgSeqNum (Msg s)) (NextRecvSeq fixout)\<rparr>;
          rec = Write HdrInfo (Now e) (ascii ''OnLogon.Accepted|from='' @ DeviceId e) fixout
      in if SeqSt s1 = TooLow then
           (False, RejectLogon e (ascii ''Bad Logon, MsgSeqNum too low, expecting '' @ UIntToStrRev [] (NextRecvSeq rec) @
              ascii '' but received '' @ UIntToStrRev [] (MsgSeqNum (Msg s1))) rec s1)
         else case LogonHbInt (Msg s1) of
           Inr hbInt \<Rightarrow>
             let rec1 = (if SeqSt s1 = Conform then WriteInputConform (Now e) (OrigMsgStr s1) rec
                         else Write HdrIgnoreRecv (Now e) (OrigMsgStr s1) rec)
             in (True, SendLogonResponse e rec1 hbInt (RevPut (SPLTAGEQ 98 @ ascii ''0'') FixBuilder) s1)
         | Inl errTag \<Rightarrow> (False, RejectLogon e (ascii ''Bad Logon, Tag#'' @ UIntToStrRev [] errTag) rec s1))"

subsection \<open>The handlers\<close>

definition RecvHeartbeat :: "session_env \<Rightarrow> fix_session \<Rightarrow> fix_session" where
  "RecvHeartbeat e s = SetApReadySt e s"

definition RecvTestRequest :: "session_env \<Rightarrow> fix_session \<Rightarrow> fix_session" where
  "RecvTestRequest e s =
     SetApReadySt e (UseSender (SendHeartbeat (Now e) (map_option Value (GetField (Msg s) 112))) s)"

definition RecvLogonResponse :: "session_env \<Rightarrow> fix_session \<Rightarrow> fix_session" where
  "RecvLogonResponse e s =
     (if FixSt s = LogonSent then OnLogonResponsed e GapDontKeep s
      else UseSender (SendInvalidMsgType (Now e) (MsgSeqNum (Msg s)) kMSGTYPE_Logon) s)"

definition AnswerLogout :: "session_env \<Rightarrow> fix_session \<Rightarrow> fix_session" where
  "AnswerLogout e s =
     (let s1 = (if SeqSt s \<noteq> Conform then WriteRec e HdrIgnoreRecv (OrigMsgStr s) s else s)
      in if FixSt s1 = ApReady then fst (SendLogout e (LogoutText (ascii ''Logout response'')) None s1) else s1)"

definition RecvLogout :: "session_env \<Rightarrow> fix_session \<Rightarrow> fix_session" where
  "RecvLogout e s =
     (if SeqSt s = TooLow then OnMsgSeqNumNotExpected e GapDontKeep s
      else let s' = AnswerLogout e s
           in if SeqSt s' = TooHigh then OnMsgSeqNumNotExpected e GapDontKeep s' else s')"

definition AnswerResendRequest :: "session_env \<Rightarrow> fix_session \<Rightarrow> fix_session" where
  "AnswerResendRequest e s =
     (let s1 = WriteRec e HdrReplay (OrigMsgStr s) s
      in case GetField (Msg s1) 7 of
           None \<Rightarrow> UseSender (SendRequiredTagMissing (Now e) (MsgSeqNum (Msg s1)) 7 kMSGTYPE_ResendRequest) s1
         | Some fldBeginSeqNo \<Rightarrow>
             (case GetField (Msg s1) 16 of
                None \<Rightarrow> UseSender (SendRequiredTagMissing (Now e) (MsgSeqNum (Msg s1)) 16 kMSGTYPE_ResendRequest) s1
              | Some fldEndSeqNo \<Rightarrow>
                  let beginSeqNo = fst (StrTo_u 32 (Value fldBeginSeqNo) 0);
                      endSeqNo = fst (StrTo_u 32 (Value fldEndSeqNo) 0)
                  in UseSender (Replay (After e) (Alive e) (Now e) (Cfg e) (Reloaded e beginSeqNo) beginSeqNo endSeqNo) s1))"

definition RecvResendRequest :: "session_env \<Rightarrow> fix_session \<Rightarrow> fix_session" where
  "RecvResendRequest e s =
     (let s' = AnswerResendRequest e s
      in if SeqSt s' \<noteq> Conform then OnMsgSeqNumNotExpected e GapSkipRecord s' else s')"

text \<open>\<open>check\<close> stands for \<open>CheckMsgKeeper\<close>, which is defined with it below.\<close>

definition RecvSequenceReset ::
  "(nat \<Rightarrow> fix_session \<Rightarrow> fix_session) \<Rightarrow> session_env \<Rightarrow> fix_session \<Rightarrow> fix_session" where
  "RecvSequenceReset check e s =
     (let isGapFill = (case GetField (Msg s) 123 of Some fld \<Rightarrow> Get1stIs 0x59 (Value fld) | None \<Rightarrow> False);
          msgSeqNum = MsgSeqNum (Msg s)
      in if isGapFill \<and> SeqSt s \<noteq> Conform then OnMsgSeqNumNotExpected e GapDontKeep s
         else case GetField (Msg s) 36 of
           None \<Rightarrow> UseSender (SendRequiredTagMissing (Now e) msgSeqNum 36 kMSGTYPE_SequenceReset)
                     (WriteRec e HdrError (OrigMsgStr s) s)
         | Some fldNewSeqNo \<Rightarrow>
             let newSeqNo = fst (StrTo_u 32 (Value fldNewSeqNo) 0)
             in if isGapFill then
                  (if newSeqNo < msgSeqNum then
                     UseSender (SendSessionReject (Now e) msgSeqNum 36 kMSGTYPE_SequenceReset
                       (RevPut (SPLTAGEQ 373 @ ascii ''5'' @ SPLTAGEQ 58 @ ascii ''NewSeqNo('' @ UIntToStrRev [] newSeqNo @
                          ascii '') < Expection('' @ UIntToStrRev [] msgSeqNum @ ascii '')'') FixBuilder))
                       (UseSender (WriteInputConform (Now e) (OrigMsgStr s)) s)
                   else let s1 = UseSender (WriteInputSeqReset (Now e) (OrigMsgStr s) newSeqNo True) s
                     in if ResendRequestEndSeqNo s1 < newSeqNo then check newSeqNo (s1\<lparr>ResendRequestEndSeqNo := 0\<rparr>)
                        else s1)
                else OnRecoverDone e
                       (UseSender (WriteInputSeqReset (Now e) (OrigMsgStr s) newSeqNo False) (ClearRecvKeeper s)))"

definition RecvAp :: "session_env \<Rightarrow> fix_session \<Rightarrow> fix_session" where
  "RecvAp e s =
     fold (\<lambda>(msgType, b). SendMsg e msgType b) (ApAnswers e (OrigMsgStr s) (Msg s))
       (s\<lparr>Delivered := Delivered s @ [(MsgSeqNum (Msg s), OrigMsgStr s)]\<rparr>)"

fun Handle ::
  "(nat \<Rightarrow> fix_session \<Rightarrow> fix_session) \<Rightarrow> session_env \<Rightarrow> fix_msg_handler \<Rightarrow> fix_session \<Rightarrow> fix_session" where
  "Handle check e OnRecvSequenceReset s = RecvSequenceReset check e s"
| "Handle check e OnRecvResendRequest s = RecvResendRequest e s"
| "Handle check e OnRecvHeartbeat s = RecvHeartbeat e s"
| "Handle check e OnRecvTestRequest s = RecvTestRequest e s"
| "Handle check e OnRecvLogonResponse s = RecvLogonResponse e s"
| "Handle check e OnRecvLogout s = RecvLogout e s"
| "Handle check e ApHandler s = RecvAp e s"

subsection \<open>Dispatching\<close>

definition OnBadCompID :: "session_env \<Rightarrow> nat \<Rightarrow> byte list \<Rightarrow> fix_session \<Rightarrow> fix_session" where
  "OnBadCompID e errTag msgType s =
     UseSender (SendSessionReject (Now e) (MsgSeqNum (Msg s)) errTag msgType
         (RevPut (SPLTAGEQ 373 @ ascii ''9'' @ SPLTAGEQ 58 @ ascii ''CompID problem'') FixBuilder))
       (if SeqSt s = Conform then UseSender (WriteInputConform (Now e) (OrigMsgStr s)) s
        else WriteRec e HdrError (OrigMsgStr s) s)"

definition OnMessageProcessed ::
  "(nat \<Rightarrow> fix_session \<Rightarrow> fix_session) \<Rightarrow> nat \<Rightarrow> fix_session \<Rightarrow> fix_session" where
  "OnMessageProcessed check msgSeqNumProcessed s =
     (if ResendRequestEndSeqNo s > 0 \<and> msgSeqNumProcessed = ResendRequestEndSeqNo s
      then check (uadd 32 msgSeqNumProcessed 1) s else s)"

definition handler_of :: "fix_msg_type_config option \<Rightarrow> (fix_msg_type_config \<times> fix_msg_handler) option" where
  "handler_of cfg = (case cfg of None \<Rightarrow> None | Some c \<Rightarrow> map_option (Pair c) (FixMsgHandler c))"

definition DispatchConform ::
  "(nat \<Rightarrow> fix_session \<Rightarrow> fix_session) \<Rightarrow> session_env \<Rightarrow> byte list \<Rightarrow> fix_session \<Rightarrow> fix_session" where
  "DispatchConform check e msgType s =
     (case handler_of (GetConfig (Cfg e) msgType) of
        Some (cfg, h) \<Rightarrow>
          Handle check e h (if \<not> NoPreRecord (FixSeqAllow cfg)
                            then UseSender (WriteInputConform (Now e) (OrigMsgStr s)) s else s)
      | None \<Rightarrow> UseSender (SendInvalidMsgType (Now e) (MsgSeqNum (Msg s)) msgType)
                  (UseSender (WriteInputConform (Now e) (OrigMsgStr s)) s))"

definition DispatchNotConform ::
  "(nat \<Rightarrow> fix_session \<Rightarrow> fix_session) \<Rightarrow> session_env \<Rightarrow> byte list \<Rightarrow> fix_session \<Rightarrow> fix_session" where
  "DispatchNotConform check e msgType s =
     (let cfg = GetConfig (Cfg e) msgType;
          flags = (if (case cfg of Some c \<Rightarrow> IsInfiniteTTL c | None \<Rightarrow> False) then GapKeepRequired else GapDontKeep)
      in case handler_of cfg of
           Some (c, h) \<Rightarrow> if allows (FixSeqAllow c) (SeqSt s) then Handle check e h s
                          else OnMsgSeqNumNotExpected e flags s
         | None \<Rightarrow> OnMsgSeqNumNotExpected e flags s)"

definition DispatchWith ::
  "(nat \<Rightarrow> fix_session \<Rightarrow> fix_session) \<Rightarrow> session_env \<Rightarrow> fix_session \<Rightarrow> fix_session" where
  "DispatchWith check e s =
     (let msgSeqNum = MsgSeqNum (Msg s)
      in case GetField (Msg s) 35 of
        None \<Rightarrow> UseSender (SendRequiredTagMissing (Now e) msgSeqNum 35 []) (WriteRec e HdrError (OrigMsgStr s) s)
      | Some fldMsgType \<Rightarrow>
          let msgType = Value fldMsgType; s1 = s\<lparr>SeqSt := CompareFixSeqNum msgSeqNum (RecvSeq s)\<rparr>
          in case FixOut s1 of
               None \<Rightarrow> s1\<lparr>Undefined := True\<rparr>
             | Some fixout \<Rightarrow>
                 let errTag = CompIDs_Check (RecCompIDs fixout) (Msg s1)
                 in if errTag \<noteq> 0 then OnBadCompID e errTag msgType s1
                    else if SeqSt s1 = Conform
                    then OnMessageProcessed check msgSeqNum (DispatchConform check e msgType s1)
                    else DispatchNotConform check e msgType s1)"

definition TakeKept :: "session_env \<Rightarrow> byte list \<Rightarrow> fix_session \<Rightarrow> fix_session" where
  "TakeKept e msgStr s =
     s\<lparr>OrigMsgStr := msgStr, Msg := snd (snd (ParseFields (After e) msgStr FullMessage (ClearParser (Msg s))))\<rparr>"

definition PopFront :: "fix_session \<Rightarrow> fix_session" where
  "PopFront s = (case MsgKeeper s of [] \<Rightarrow> s\<lparr>Undefined := True\<rparr> | _ # ms \<Rightarrow> s\<lparr>MsgKeeper := ms\<rparr>)"

text \<open>The fuel bounds the rounds of the loop; that it is enough is part of \<open>session_is_defined\<close>.\<close>

fun CheckMsgKeeper :: "nat \<Rightarrow> session_env \<Rightarrow> nat \<Rightarrow> fix_session \<Rightarrow> fix_session" where
  "CheckMsgKeeper 0 e newSeqNo s = s\<lparr>Undefined := True\<rparr>"
| "CheckMsgKeeper (Suc fuel) e newSeqNo s =
     (case MsgKeeper s of
        [] \<Rightarrow> if newSeqNo < LastGapSeqNo s then SendResendRequest e newSeqNo (LastGapSeqNo s) s
              else OnRecoverDone e s
      | (msgStr, seqNum) # _ \<Rightarrow>
          if newSeqNo < seqNum then SendResendRequest e newSeqNo (usub 32 seqNum 1) s
          else if newSeqNo = seqNum
          then CheckMsgKeeper fuel e (uadd 32 newSeqNo 1)
                 (PopFront (DispatchWith (\<lambda>n. CheckMsgKeeper fuel e n) e (TakeKept e msgStr s)))
          else CheckMsgKeeper fuel e newSeqNo (PopFront s))"

definition DispatchFixMessage :: "session_env \<Rightarrow> fix_session \<Rightarrow> fix_session" where
  "DispatchFixMessage e s = DispatchWith (CheckMsgKeeper (Suc (length (MsgKeeper s))) e) e s"

subsection \<open>Events of the feeder\<close>

definition Check1stMustLogon :: "fix_session \<Rightarrow> bool \<times> fix_session" where
  "Check1stMustLogon s =
     (case GetField (Msg s) 35 of
        None \<Rightarrow> (False, CloseSession (ascii ''Unknown 1st msg.'') s)
      | Some fldMsgType \<Rightarrow>
          if Value fldMsgType = kMSGTYPE_Logon then (True, s)
          else if Value fldMsgType = kMSGTYPE_Logout then
            (False, CloseSession (ascii ''1st msg is Logout:'' @
               (case GetField (Msg s) 58 of Some fld \<Rightarrow> Value fld | None \<Rightarrow> [])) s)
          else (False, CloseSession (ascii ''1st msg is not Logon.'') s))"

definition RecvLogonRequest :: "session_env \<Rightarrow> fix_session \<Rightarrow> fix_session" where
  "RecvLogonRequest e s =
     (case LogonAnswer e (OrigMsgStr s) (Msg s) of
        LogonIgnored \<Rightarrow> s
      | LogonRejected text \<Rightarrow> fst (SendLogout e (LogoutText text) None s)
      | LogonAccepted fixout \<Rightarrow> snd (OnLogonAccepted e fixout s))"

definition MessageParsed :: "session_env \<Rightarrow> byte list \<Rightarrow> fix_session \<Rightarrow> fix_session" where
  "MessageParsed e fixmsg s =
     (let s1 = s\<lparr>MsgReceivedCount := uadd 32 (MsgReceivedCount s) 1, OrigMsgStr := fixmsg\<rparr>
      in case FixSt s1 of
           Disconnected \<Rightarrow> s1
         | Connected \<Rightarrow> (case Check1stMustLogon s1 of (ok, s2) \<Rightarrow> if ok then RecvLogonRequest e s2 else s2)
         | LogonSent \<Rightarrow> (case Check1stMustLogon s1 of (ok, s2) \<Rightarrow> if ok then DispatchFixMessage e s2 else s2)
         | _ \<Rightarrow> DispatchFixMessage e s1)"

definition MessageError :: "(fix_result \<Rightarrow> byte list) \<Rightarrow> fix_result \<Rightarrow> fix_session \<Rightarrow> fix_session" where
  "MessageError show_res res s = CloseSession (ascii ''FixSession.OnFixMessageError|err='' @ show_res res) s"

text \<open>The session as the handler of its feeder.\<close>

definition session_handler :: "session_env \<Rightarrow> (fix_result \<Rightarrow> byte list) \<Rightarrow> fix_session fix_handler" where
  "session_handler e show_res =
     \<lparr>OnFixMessageParsed = (\<lambda>fixmsg (p, s). let s' = MessageParsed e fixmsg (s\<lparr>Msg := p\<rparr>) in (Msg s', s')),
      OnFixMessageError = (\<lambda>res (p, s). (p, MessageError show_res res s))\<rparr>"

subsection \<open>The life of a connection\<close>

definition ClearFixSession :: "fix_session_st \<Rightarrow> fix_session \<Rightarrow> fix_session" where
  "ClearFixSession st s =
     ClearRecvKeeper (s\<lparr>FixSt := st, MsgReceivedCount := 0, HbTestCount := 0, Msg := ClearParser (Msg s)\<rparr>)"

definition OnFixSessionConnected :: "session_env \<Rightarrow> fix_session \<Rightarrow> fix_session" where
  "OnFixSessionConnected e s = RunAfter (TiWaitForLogon (Cfg e)) (ClearFixSession Connected s)"

definition OnFixSessionDisconnected :: "session_env \<Rightarrow> byte list \<Rightarrow> fix_session \<Rightarrow> fix_session" where
  "OnFixSessionDisconnected e info s =
     (let s1 = ClearFixSession Disconnected (s\<lparr>TimerAfter := None\<rparr>)
      in case FixOut s1 of
           None \<Rightarrow> s1
         | Some fs \<Rightarrow> s1\<lparr>FixOut := None, Returned := Returned s1 @
             [Write HdrInfo (Now e) (ascii ''OnFixSessionDisconnected: '' @ info) fs]\<rparr>)"

definition SessionReject ::
  "session_env \<Rightarrow> nat \<Rightarrow> nat \<Rightarrow> byte list \<Rightarrow> fix_builder \<Rightarrow> fix_session \<Rightarrow> fix_session" where
  "SessionReject e refSeqNum refTagID refMsgType fixb s =
     s\<lparr>FixOut := map_option (SendSessionReject (Now e) refSeqNum refTagID refMsgType fixb) (FixOut s)\<rparr>"

text \<open>\<open>idle\<close> is the time since the last message was sent, in milliseconds.\<close>

definition TimerApReady :: "session_env \<Rightarrow> int \<Rightarrow> fix_session \<Rightarrow> fix_session" where
  "TimerApReady e idle s =
     (let hbTi = int (1000 * HeartBtInt s) - idle
      in if hbTi > 1000 then RunAfter (nat hbTi) s
         else let s1 = RunAfter (1000 * HeartBtInt s) s
           in if MsgReceivedCount s1 = 0 then
                (let s2 = s1\<lparr>HbTestCount := uadd 32 (HbTestCount s1) 1\<rparr>
                 in if HbTestCount s2 \<ge> uadd 32 (HbTestRequestCount (Cfg e)) 1
                    then CloseSession (ascii ''Remote no response'') s2
                    else if HbTestCount s2 \<ge> HbTestRequestCount (Cfg e)
                    then SendMsg e kMSGTYPE_TestRequest (RevPut (SPLTAGEQ 112 @ ascii ''AliveTest'') FixBuilder) s2
                    else UseSender (SendHeartbeat (Now e) None) s2)
              else UseSender (SendHeartbeat (Now e) None) (s1\<lparr>HbTestCount := 0, MsgReceivedCount := 0\<rparr>))"

definition FixSessionOnTimer :: "session_env \<Rightarrow> int \<Rightarrow> fix_session \<Rightarrow> fix_session" where
  "FixSessionOnTimer e idle s =
     (case FixSt s of
        Disconnected \<Rightarrow> s
      | Connected \<Rightarrow> CloseSession (ascii ''Logon timeout.'') s
      | LogonSent \<Rightarrow> CloseSession (ascii ''Logon timeout.'') s
      | LogonRecovering \<Rightarrow>
          if MsgReceivedCount s = 0 then CloseSession (ascii ''LogonRecover timeout.'') s
          else RunAfter (TiLogonRecover (Cfg e)) (s\<lparr>MsgReceivedCount := 0\<rparr>)
      | LogonTest \<Rightarrow>
          if MsgReceivedCount s = 0 then
            (let s1 = s\<lparr>HbTestCount := uadd 32 (HbTestCount s) 1\<rparr>
             in if HbTestCount s1 \<ge> MaxLogonTestCount (Cfg e)
                then CloseSession (ascii ''LogonTest|err=Remote no response'') s1
                else SendLogonTestRequest e s1)
          else SendLogonTestRequest e (s\<lparr>HbTestCount := 0, MsgReceivedCount := 0\<rparr>)
      | LogoutPending \<Rightarrow> CloseSession (ascii ''Logout timeout.'') s
      | ApReady \<Rightarrow> if FixOut s = None then s\<lparr>Undefined := True\<rparr> else TimerApReady e idle s)"

subsection \<open>New numbers by hand\<close>

definition UserResetSend :: "session_env \<Rightarrow> byte list \<Rightarrow> fix_session \<Rightarrow> byte list \<times> fix_session" where
  "UserResetSend e strNum s =
     (case StrTo_u 32 (StrTrim strNum) 0 of (nextSendSeq, rest) \<Rightarrow>
        if rest \<noteq> [] then (ascii ''Invalid next SEND seqNum string.'', s)
        else let res = ascii ''New next SEND seqNum = '' @ UIntToStrRev [0xa] nextSendSeq
          in if nextSendSeq = 0 then (res @ ascii ''Cleared'' @ [0xa], s\<lparr>ResetSendSeq := 0\<rparr>)
             else if FixSt s = ApReady
             then (res @ ascii ''SequenceReset sent'' @ [0xa],
                   UseSender (SequenceReset (Now e) nextSendSeq) (s\<lparr>ResetSendSeq := 0\<rparr>))
             else (res @ ascii ''Use it when next Logon.'' @ [0xa], s\<lparr>ResetSendSeq := nextSendSeq\<rparr>))"

definition UserResetRecv :: "session_env \<Rightarrow> byte list \<Rightarrow> fix_session \<Rightarrow> byte list \<times> fix_session" where
  "UserResetRecv e strNum s =
     (case StrTo_u 32 (StrTrim strNum) 0 of (nextRecvSeq, rest) \<Rightarrow>
        if rest \<noteq> [] then (ascii ''Invalid next RECV seqNum string.'', s)
        else let res = ascii ''New next RECV seqNum = '' @ UIntToStrRev [0xa] nextRecvSeq
          in if nextRecvSeq = 0 then (res @ ascii ''Cleared'' @ [0xa], s\<lparr>ResetRecvSeq := 0\<rparr>)
             else if FixOut s \<noteq> None
             then (res @ ascii ''Resetted'' @ [0xa],
                   UseSender (ForceResetRecvSeq (Now e) (ascii ''FixSession.ResetNextRecvSeq'') nextRecvSeq)
                     (s\<lparr>ResetRecvSeq := 0\<rparr>))
             else (res @ ascii ''Use it when next Logon.'' @ [0xa], s\<lparr>ResetRecvSeq := nextRecvSeq\<rparr>))"

end
