(* ===== verification/FixSessionProps.thy ===== *)
theory FixSessionProps
  imports FixSession
begin

text \<open>
  Properties of the session of \<open>FixSession\<close>. \<open>live\<close> is what holds while a sender is in use, \<open>quiet\<close> that an
  operation keeps it and leaves the messages waiting for a gap alone.
\<close>

subsection \<open>What an operation leaves alone\<close>

lemma UseSender_fields [simp]:
  "MsgKeeper (UseSender f s) = MsgKeeper s" "ResendRequestEndSeqNo (UseSender f s) = ResendRequestEndSeqNo s"
  "LastGapSeqNo (UseSender f s) = LastGapSeqNo s" "FixSt (UseSender f s) = FixSt s"
  "Msg (UseSender f s) = Msg s" "OrigMsgStr (UseSender f s) = OrigMsgStr s" "SeqSt (UseSender f s) = SeqSt s"
  "TimerAfter (UseSender f s) = TimerAfter s" "Delivered (UseSender f s) = Delivered s"
  "CloseCauses (UseSender f s) = CloseCauses s" "HbTestCount (UseSender f s) = HbTestCount s"
  "MsgReceivedCount (UseSender f s) = MsgReceivedCount s" "HeartBtInt (UseSender f s) = HeartBtInt s"
  "FixOut (UseSender f s) = map_option f (FixOut s)"
  "Undefined (UseSender f s) = (Undefined s \<or> FixOut s = None)"
  by (simp_all add: UseSender_def split: option.split)

definition live :: "fix_session \<Rightarrow> bool" where
  "live s \<longleftrightarrow> LogonSent \<le> FixSt s \<and> (TimerAfter s \<noteq> None \<or> CloseCauses s \<noteq> []) \<and> FixOut s \<noteq> None \<and> \<not> Undefined s"

definition quiet :: "fix_session \<Rightarrow> fix_session \<Rightarrow> bool" where
  "quiet s s' \<longleftrightarrow> live s' \<and> MsgKeeper s' = MsgKeeper s \<and> ResendRequestEndSeqNo s' = ResendRequestEndSeqNo s
     \<and> LastGapSeqNo s' = LastGapSeqNo s \<and> Msg s' = Msg s \<and> OrigMsgStr s' = OrigMsgStr s \<and> SeqSt s' = SeqSt s"

lemmas quiet_defs = quiet_def live_def SendMsg_def WriteRec_def RunAfter_def CloseSession_def st_order

lemma quiet_trans: "quiet s s' \<Longrightarrow> quiet s' s'' \<Longrightarrow> quiet s s''"
  by (simp add: quiet_def)

lemma quiet_refl: "live s \<Longrightarrow> quiet s s"
  by (simp add: quiet_def)

lemma quiet_live: "quiet s s' \<Longrightarrow> live s'"
  by (simp add: quiet_def)

named_theorems quiet_intros

lemma UseSender_quiet [quiet_intros]: "live s \<Longrightarrow> quiet s (UseSender f s)"
  by (simp add: quiet_defs)

lemma SendMsg_quiet [quiet_intros]: "live s \<Longrightarrow> quiet s (SendMsg e mt b s)"
  by (simp add: quiet_defs)

lemma WriteRec_quiet [quiet_intros]: "live s \<Longrightarrow> quiet s (WriteRec e hdr args s)"
  by (simp add: quiet_defs)

lemma OnLogoutRequired_quiet [quiet_intros]: "live s \<Longrightarrow> quiet s (OnLogoutRequired e b s)"
  by (auto simp: quiet_defs OnLogoutRequired_def SendLogout_def)

lemma SendLogout_quiet [quiet_intros]: "live s \<Longrightarrow> quiet s (fst (SendLogout e b None s))"
  using OnLogoutRequired_quiet by (simp add: OnLogoutRequired_def)

lemma SendLogonTestRequest_quiet [quiet_intros]: "live s \<Longrightarrow> quiet s (SendLogonTestRequest e s)"
  by (simp add: quiet_defs SendLogonTestRequest_def)

lemma SetApReadySt_quiet [quiet_intros]: "live s \<Longrightarrow> quiet s (SetApReadySt e s)"
  by (simp add: quiet_defs SetApReadySt_def Let_def)

lemma OnMsgSeqNumTooLow_quiet [quiet_intros]: "live s \<Longrightarrow> quiet s (OnMsgSeqNumTooLow e s)"
  using quiet_trans[OF WriteRec_quiet OnLogoutRequired_quiet[OF quiet_live[OF WriteRec_quiet]]]
  by (simp add: OnMsgSeqNumTooLow_def WriteRec_quiet split: option.split)

lemma RecvTestRequest_quiet [quiet_intros]: "live s \<Longrightarrow> quiet s (RecvTestRequest e s)"
  using quiet_trans[OF UseSender_quiet SetApReadySt_quiet[OF quiet_live[OF UseSender_quiet]]]
  by (simp add: RecvTestRequest_def)

lemma fold_SendMsg_quiet: "live s \<Longrightarrow> quiet s (fold (\<lambda>(mt, b). SendMsg e mt b) xs s)"
proof (induction xs arbitrary: s)
  case (Cons x xs)
  then show ?case using SendMsg_quiet[OF Cons.prems] quiet_trans quiet_live by (cases x) fastforce
qed (simp add: quiet_refl)

lemma RecvAp_quiet [quiet_intros]: "live s \<Longrightarrow> quiet s (RecvAp e s)"
  using fold_SendMsg_quiet[of "s\<lparr>Delivered := Delivered s @ [(MsgSeqNum (Msg s), OrigMsgStr s)]\<rparr>"]
  by (simp add: RecvAp_def quiet_def live_def)

lemma NotExpected_quiet:
  "live s \<Longrightarrow> SeqSt s = TooHigh \<longrightarrow> MsgSeqNum (Msg s) \<le> LastGapSeqNo s \<Longrightarrow> quiet s (OnMsgSeqNumNotExpected e fl s)"
  using WriteRec_quiet OnMsgSeqNumTooLow_quiet quiet_refl
  by (cases "SeqSt s") (auto simp: OnMsgSeqNumNotExpected_def)

subsection \<open>Messages that wait for a gap\<close>

text \<open>Reading the text of a message again gives what the feeder read: its number and its type.\<close>

definition reparse :: "(nat \<Rightarrow> byte) \<Rightarrow> byte list \<Rightarrow> fix_parser \<Rightarrow> fix_parser" where
  "reparse after m q = snd (snd (ParseFields after m FullMessage (ClearParser q)))"

definition msg_ok :: "(nat \<Rightarrow> byte) \<Rightarrow> byte list \<Rightarrow> fix_parser \<Rightarrow> bool" where
  "msg_ok after m p \<longleftrightarrow> parser_wf p \<and> MsgSeqNum p < 2 ^ 32 \<and> (\<forall>q. parser_wf q \<longrightarrow> parser_wf (reparse after m q) \<and>
     MsgSeqNum (reparse after m q) = MsgSeqNum p \<and>
     map_option Value (GetField (reparse after m q) 35) = map_option Value (GetField p 35))"

definition resets :: "fix_config \<Rightarrow> fix_parser \<Rightarrow> bool" where
  "resets cfg p \<longleftrightarrow> (\<exists>fld c. GetField p 35 = Some fld \<and> handler_of (GetConfig cfg (Value fld)) = Some (c, OnRecvSequenceReset))"

definition kept_ok :: "(nat \<Rightarrow> byte) \<Rightarrow> fix_config \<Rightarrow> nat \<Rightarrow> byte list \<times> nat \<Rightarrow> bool" where
  "kept_ok after cfg lastGap k \<longleftrightarrow> 0 < snd k \<and> snd k \<le> lastGap \<and>
     (\<exists>p. msg_ok after (fst k) p \<and> MsgSeqNum p = snd k \<and> \<not> resets cfg p)"

definition keeper_ok :: "session_env \<Rightarrow> fix_session \<Rightarrow> bool" where
  "keeper_ok e s \<longleftrightarrow> (\<forall>k\<in>set (MsgKeeper s). kept_ok (After e) (Cfg e) (LastGapSeqNo s) k)"

text \<open>\<open>SequenceReset\<close> takes every number and counts for itself, as \<open>InitFixConfig\<close> sets it.\<close>

definition resets_any :: "fix_config \<Rightarrow> bool" where
  "resets_any cfg \<longleftrightarrow> (\<forall>t c. handler_of (GetConfig cfg t) = Some (c, OnRecvSequenceReset) \<longrightarrow>
     AllowTooHigh (FixSeqAllow c) \<and> AllowTooLow (FixSeqAllow c) \<and> NoPreRecord (FixSeqAllow c))"

definition dinv :: "session_env \<Rightarrow> fix_session \<Rightarrow> bool" where
  "dinv e s \<longleftrightarrow> resets_any (Cfg e) \<and> live s \<and> msg_ok (After e) (OrigMsgStr s) (Msg s) \<and> keeper_ok e s"

lemma quiet_dinv: "quiet s s' \<Longrightarrow> dinv e s \<Longrightarrow> dinv e s'"
  by (simp add: quiet_def dinv_def keeper_ok_def)

lemma dinv_live: "dinv e s \<Longrightarrow> live s"
  by (simp add: dinv_def)

lemma SendResendRequest_dinv: "dinv e s \<Longrightarrow> dinv e (SendResendRequest e a b s)"
  by (simp add: SendResendRequest_def dinv_def keeper_ok_def quiet_defs)

lemma NotExpected_dinv:
  assumes "dinv e s" "fl = GapKeepRequired \<Longrightarrow> \<not> resets (Cfg e) (Msg s)"
  shows "dinv e (OnMsgSeqNumNotExpected e fl s)"
proof (cases "SeqSt s = TooHigh \<longrightarrow> MsgSeqNum (Msg s) \<le> LastGapSeqNo s")
  case True
  then show ?thesis using quiet_dinv[OF NotExpected_quiet] assms(1) dinv_live by blast
next
  case False
  let ?n = "MsgSeqNum (Msg s)"
  let ?s1 = "s\<lparr>LastGapSeqNo := ?n\<rparr>"
  have old: "\<forall>k\<in>set (MsgKeeper s). kept_ok (After e) (Cfg e) ?n k"
    using assms(1) False by (force simp: dinv_def keeper_ok_def kept_ok_def)
  then have d1: "dinv e ?s1" using assms(1) by (simp add: dinv_def keeper_ok_def live_def)
  let ?s2 = "if fl = GapKeepRequired
    then (WriteRec e HdrGapRecv (OrigMsgStr s) ?s1)\<lparr>MsgKeeper := MsgKeeper s @ [(OrigMsgStr s, ?n)]\<rparr>
    else if fl \<noteq> GapSkipRecord then WriteRec e HdrIgnoreRecv (OrigMsgStr s) ?s1 else ?s1"
  have "dinv e ?s2"
  proof (cases "fl = GapKeepRequired")
    case True
    then have "kept_ok (After e) (Cfg e) ?n (OrigMsgStr s, ?n)"
      using assms False by (auto simp: kept_ok_def dinv_def intro!: exI[of _ "Msg s"])
    then show ?thesis using True old assms(1) by (simp add: dinv_def keeper_ok_def quiet_defs)
  next
    case False
    then show ?thesis using d1 quiet_dinv[OF WriteRec_quiet[OF dinv_live[OF d1]] d1] by simp
  qed
  moreover have "OnMsgSeqNumNotExpected e fl s = (if ResendRequestEndSeqNo ?s2 > 0 then ?s2
    else SendResendRequest e (RecvSeq ?s2) (if fl = GapKeepRequired then usub 32 ?n 1 else ?n) ?s2)"
    using False by (simp add: OnMsgSeqNumNotExpected_def Let_def)
  ultimately show ?thesis using SendResendRequest_dinv by (auto simp only: split: if_splits)
qed

lemma OnLogonResponsed_dinv:
  assumes "dinv e s" "gapf \<noteq> GapKeepRequired"
  shows "dinv e (OnLogonResponsed e gapf s)"
proof (cases "SeqSt s = Conform")
  case True
  then show ?thesis
    using assms quiet_dinv[OF SendLogonTestRequest_quiet] dinv_live by (auto simp: OnLogonResponsed_def)
next
  case False
  have "dinv e (RunAfter (TiLogonRecover (Cfg e)) (s\<lparr>FixSt := LogonRecovering, MsgReceivedCount := 0\<rparr>))"
    using assms(1) by (simp add: dinv_def keeper_ok_def quiet_defs)
  then show ?thesis using False assms(2) NotExpected_dinv[of e _ gapf] by (simp add: OnLogonResponsed_def)
qed

lemma OnRecoverDone_dinv: "dinv e s \<Longrightarrow> MsgKeeper s = [] \<Longrightarrow> dinv e (OnRecoverDone e s)"
proof -
  assume a: "dinv e s" "MsgKeeper s = []"
  let ?s1 = "s\<lparr>ResendRequestEndSeqNo := 0, LastGapSeqNo := 0\<rparr>"
  have d: "dinv e ?s1" using a by (simp add: dinv_def keeper_ok_def live_def)
  note w = WriteRec_quiet[OF dinv_live[OF d]]
  show ?thesis
    unfolding OnRecoverDone_def Let_def
    by (rule quiet_dinv[OF SendLogonTestRequest_quiet[OF quiet_live[OF w]] quiet_dinv[OF w d]])
qed

subsection \<open>Dispatching keeps the session in order\<close>

definition in_range :: "fix_session \<Rightarrow> bool" where
  "in_range s \<longleftrightarrow> (SeqSt s = TooHigh \<longrightarrow> MsgSeqNum (Msg s) \<le> LastGapSeqNo s)"

lemma quiet_in_range: "quiet s s' \<Longrightarrow> in_range s \<Longrightarrow> in_range s'"
  by (simp add: quiet_def in_range_def)

lemma quiet_then: "quiet s s' \<Longrightarrow> (live s' \<Longrightarrow> quiet s' t) \<Longrightarrow> quiet s t"
  using quiet_trans quiet_live by blast

lemma NotExpected_quiet': "live s \<Longrightarrow> in_range s \<Longrightarrow> quiet s (OnMsgSeqNumNotExpected e fl s)"
  by (rule NotExpected_quiet) (simp_all add: in_range_def)

lemma OnLogonResponsed_quiet: "live s \<Longrightarrow> in_range s \<Longrightarrow> quiet s (OnLogonResponsed e fl s)"
proof (cases "SeqSt s = Conform")
  case False
  assume a: "live s" "in_range s"
  let ?s1 = "RunAfter (TiLogonRecover (Cfg e)) (s\<lparr>FixSt := LogonRecovering, MsgReceivedCount := 0\<rparr>)"
  have q: "quiet s ?s1" using a(1) by (simp add: quiet_defs)
  show ?thesis
    using False quiet_then[OF q NotExpected_quiet'[OF _ quiet_in_range[OF q a(2)]], of e fl]
    by (simp add: OnLogonResponsed_def)
qed (auto simp: OnLogonResponsed_def intro: SendLogonTestRequest_quiet)

lemma AnswerResendRequest_quiet [quiet_intros]: "live s \<Longrightarrow> quiet s (AnswerResendRequest e s)"
proof -
  assume a: "live s"
  have u: "quiet s (UseSender f (WriteRec e HdrReplay (OrigMsgStr s) s))" for f
    by (rule quiet_then[OF WriteRec_quiet[OF a] UseSender_quiet])
  show ?thesis by (auto simp: AnswerResendRequest_def Let_def u split: option.split)
qed

lemma AnswerLogout_quiet [quiet_intros]: "live s \<Longrightarrow> quiet s (AnswerLogout e s)"
proof -
  assume a: "live s"
  define s1 where "s1 = (if SeqSt s \<noteq> Conform then WriteRec e HdrIgnoreRecv (OrigMsgStr s) s else s)"
  have q: "quiet s s1" unfolding s1_def using a WriteRec_quiet quiet_refl by simp
  have "quiet s (fst (SendLogout e b None s1))" for b by (rule quiet_then[OF q SendLogout_quiet])
  then show ?thesis using q by (simp add: AnswerLogout_def Let_def flip: s1_def)
qed

lemma RecvLogonResponse_quiet: "live s \<Longrightarrow> in_range s \<Longrightarrow> quiet s (RecvLogonResponse e s)"
  using OnLogonResponsed_quiet UseSender_quiet by (simp add: RecvLogonResponse_def)

lemma Handle_quiet:
  assumes "live s" "in_range s" "h \<noteq> OnRecvSequenceReset"
  shows "quiet s (Handle check e h s)"
proof (cases h)
  case OnRecvResendRequest
  note q = AnswerResendRequest_quiet[OF assms(1), of e]
  show ?thesis
    using OnRecvResendRequest q quiet_then[OF q NotExpected_quiet'[OF _ quiet_in_range[OF q assms(2)]]]
    by (simp add: RecvResendRequest_def Let_def)
next
  case OnRecvLogout
  note q = AnswerLogout_quiet[OF assms(1), of e]
  show ?thesis
    using OnRecvLogout q NotExpected_quiet'[OF assms(1,2)] quiet_then[OF q NotExpected_quiet'[OF _ quiet_in_range[OF q assms(2)]]]
    by (simp add: RecvLogout_def Let_def)
qed (use assms SetApReadySt_quiet RecvTestRequest_quiet RecvLogonResponse_quiet RecvAp_quiet in
     \<open>simp_all add: RecvHeartbeat_def\<close>)

definition behind :: "nat \<Rightarrow> fix_session \<Rightarrow> bool" where
  "behind n s \<longleftrightarrow> n = 0 \<or> ResendRequestEndSeqNo s < n"

text \<open>What the dispatcher needs of the check of the keeper: called behind the numbers that were asked
  for again, and with room for the messages kept, it keeps the session in order.\<close>

locale keeper_check =
  fixes e :: session_env and check :: "nat \<Rightarrow> fix_session \<Rightarrow> fix_session" and room :: nat
  assumes check_ok: "dinv e s \<Longrightarrow> behind n s \<Longrightarrow> length (MsgKeeper s) \<le> room \<Longrightarrow>
      dinv e (check n s) \<and> length (MsgKeeper (check n s)) \<le> room"
begin

lemma RecvSequenceReset_ok:
  assumes "dinv e s" "length (MsgKeeper s) \<le> room"
  shows "dinv e (RecvSequenceReset check e s)" "length (MsgKeeper (RecvSequenceReset check e s)) \<le> room"
proof -
  let ?R = "RecvSequenceReset check e s"
  have u: "dinv e (UseSender f s)" "length (MsgKeeper (UseSender f s)) \<le> room" if "dinv e s" "length (MsgKeeper s) \<le> room" for f s
    using that quiet_dinv[OF UseSender_quiet[OF dinv_live]] by simp_all
  have w: "dinv e (WriteRec e h a s)" "length (MsgKeeper (WriteRec e h a s)) \<le> room" for h a
    using u[OF assms] by (simp_all add: WriteRec_def)
  have x: "dinv e (OnMsgSeqNumNotExpected e GapDontKeep s)" by (rule NotExpected_dinv[OF assms(1)]) simp
  have xl: "length (MsgKeeper (OnMsgSeqNumNotExpected e GapDontKeep s)) \<le> room"
    using assms quiet_dinv OnMsgSeqNumTooLow_quiet[OF dinv_live[OF assms(1)], of e]
    by (simp add: OnMsgSeqNumNotExpected_def Let_def SendResendRequest_def SendMsg_def WriteRec_def quiet_def)
  have c: "dinv e (ClearRecvKeeper s)" "MsgKeeper (ClearRecvKeeper s) = []"
    using assms(1) by (simp_all add: ClearRecvKeeper_def dinv_def keeper_ok_def live_def)
  have r: "dinv e (OnRecoverDone e (UseSender f (ClearRecvKeeper s)))" for f
    by (rule OnRecoverDone_dinv) (use quiet_dinv[OF UseSender_quiet[OF dinv_live[OF c(1)]] c(1)] c(2) in simp_all)
  have rl: "length (MsgKeeper (OnRecoverDone e (UseSender f (ClearRecvKeeper s)))) \<le> room" for f
    by (simp add: OnRecoverDone_def Let_def SendLogonTestRequest_def WriteRec_def SendMsg_def RunAfter_def ClearRecvKeeper_def)
  have z: "dinv e (s'\<lparr>ResendRequestEndSeqNo := 0\<rparr>)" if "dinv e s'" for s'
    using that by (simp add: dinv_def keeper_ok_def live_def)
  have k: "dinv e (check n (UseSender f s\<lparr>ResendRequestEndSeqNo := 0\<rparr>)) \<and>
      length (MsgKeeper (check n (UseSender f s\<lparr>ResendRequestEndSeqNo := 0\<rparr>))) \<le> room" for n f
    by (rule check_ok) (use z u(1)[OF assms] assms(2) in \<open>auto simp: behind_def\<close>)
  show "dinv e ?R" "length (MsgKeeper ?R) \<le> room"
    using x xl w u[OF u[OF assms]] u[OF w] u[OF assms] r rl k
    by (auto simp: RecvSequenceReset_def Let_def split: option.split)
qed

lemma Handle_ok:
  assumes "dinv e s" "length (MsgKeeper s) \<le> room" "SeqSt s = Conform"
  shows "dinv e (Handle check e h s) \<and> length (MsgKeeper (Handle check e h s)) \<le> room"
proof (cases "h = OnRecvSequenceReset")
  case True
  then show ?thesis using RecvSequenceReset_ok[OF assms(1,2)] by simp
next
  case False
  have "quiet s (Handle check e h s)" by (rule Handle_quiet[OF dinv_live[OF assms(1)] _ False]) (simp add: in_range_def assms(3))
  then show ?thesis using quiet_dinv[OF _ assms(1)] assms(2) by (simp add: quiet_def)
qed

lemma Handle_dinv:
  assumes "dinv e s" "length (MsgKeeper s) \<le> room"
  shows "dinv e (Handle check e h s)"
proof -
  note l = dinv_live[OF assms(1)] and q = quiet_dinv[OF _ assms(1)]
  have n: "dinv e (OnMsgSeqNumNotExpected e fl s')" if "dinv e s'" "fl \<noteq> GapKeepRequired" for s' fl
    using NotExpected_dinv[OF that(1)] that(2) by blast
  have r: "dinv e (RecvResendRequest e s)"
    using n[OF q[OF AnswerResendRequest_quiet[OF l]], of GapSkipRecord] q[OF AnswerResendRequest_quiet[OF l]]
    by (simp add: RecvResendRequest_def Let_def)
  have o: "dinv e (RecvLogout e s)"
    using n[OF assms(1), of GapDontKeep] n[OF q[OF AnswerLogout_quiet[OF l]], of GapDontKeep] q[OF AnswerLogout_quiet[OF l]]
    by (simp add: RecvLogout_def Let_def)
  have g: "dinv e (RecvLogonResponse e s)"
    using OnLogonResponsed_dinv[OF assms(1), of GapDontKeep] q[OF UseSender_quiet[OF l]] by (simp add: RecvLogonResponse_def)
  show ?thesis
    using RecvSequenceReset_ok(1)[OF assms] r o g q[OF SetApReadySt_quiet[OF l]] q[OF RecvTestRequest_quiet[OF l]] q[OF RecvAp_quiet[OF l]]
    by (cases h) (simp_all add: RecvHeartbeat_def)
qed

lemma DispatchConform_ok:
  assumes "dinv e s" "length (MsgKeeper s) \<le> room" "SeqSt s = Conform"
  shows "dinv e (DispatchConform check e t s) \<and> length (MsgKeeper (DispatchConform check e t s)) \<le> room"
proof -
  have u: "quiet s (UseSender f s)" for f by (rule UseSender_quiet[OF dinv_live[OF assms(1)]])
  have d: "dinv e (UseSender f s)" for f by (rule quiet_dinv[OF u assms(1)])
  have u2: "dinv e (UseSender g (UseSender f s))" for f g by (rule quiet_dinv[OF UseSender_quiet[OF dinv_live[OF d]] d])
  have "length (MsgKeeper (UseSender f s)) \<le> room" "SeqSt (UseSender f s) = Conform" for f using assms by simp_all
  then show ?thesis
    using Handle_ok[OF assms] Handle_ok[OF d] u2 assms(2) by (auto simp: DispatchConform_def split: option.split prod.split)
qed

lemma OnMessageProcessed_dinv:
  assumes "dinv e s" "length (MsgKeeper s) \<le> room" "n < 2 ^ 32"
  shows "dinv e (OnMessageProcessed check n s)"
proof -
  have "behind (uadd 32 n 1) s" if "n = ResendRequestEndSeqNo s"
    using that assms(3) by (cases "n + 1 = 2 ^ 32") (auto simp: behind_def uadd_def)
  then show ?thesis using check_ok[OF assms(1) _ assms(2)] assms(1) by (simp add: OnMessageProcessed_def)
qed

lemma DispatchNotConform_dinv:
  assumes "dinv e s" "length (MsgKeeper s) \<le> room" "SeqSt s \<noteq> Conform" "GetField (Msg s) 35 = Some fld"
  shows "dinv e (DispatchNotConform check e (Value fld) s)"
proof -
  have "\<not> resets (Cfg e) (Msg s)" if "\<forall>c h. handler_of (GetConfig (Cfg e) (Value fld)) = Some (c, h) \<longrightarrow> \<not> allows (FixSeqAllow c) (SeqSt s)"
    using that assms(1,3,4) unfolding dinv_def by (cases "SeqSt s") (auto simp: resets_def resets_any_def)
  then have "dinv e (OnMsgSeqNumNotExpected e fl s)"
    if "\<forall>c h. handler_of (GetConfig (Cfg e) (Value fld)) = Some (c, h) \<longrightarrow> \<not> allows (FixSeqAllow c) (SeqSt s)" for fl
    using NotExpected_dinv[OF assms(1)] that by blast
  then show ?thesis
    using Handle_dinv[OF assms(1,2)] by (auto simp: DispatchNotConform_def Let_def split: option.split)
qed

lemma OnBadCompID_dinv: "dinv e s \<Longrightarrow> dinv e (OnBadCompID e tag t s)"
proof -
  assume d: "dinv e s"
  have u: "quiet s (UseSender f s)" "quiet s (WriteRec e h a s)" for f h a
    using UseSender_quiet WriteRec_quiet dinv_live[OF d] by blast+
  have "quiet s (UseSender g (UseSender f s))" "quiet s (UseSender g (WriteRec e h a s))" for f g h a
    using quiet_then[OF u(1) UseSender_quiet] quiet_then[OF u(2) UseSender_quiet] by blast+
  then show ?thesis using quiet_dinv[OF _ d] by (simp add: OnBadCompID_def)
qed

lemma DispatchWith_dinv:
  assumes "dinv e s" "length (MsgKeeper s) \<le> room"
  shows "dinv e (DispatchWith check e s)"
proof (cases "GetField (Msg s) 35")
  case None
  have "quiet s (UseSender f (WriteRec e h a s))" for f h a
    by (rule quiet_then[OF WriteRec_quiet[OF dinv_live[OF assms(1)]] UseSender_quiet])
  then show ?thesis using None quiet_dinv[OF _ assms(1)] by (simp add: DispatchWith_def)
next
  case (Some fld)
  let ?s = "s\<lparr>SeqSt := CompareFixSeqNum (MsgSeqNum (Msg s)) (RecvSeq s)\<rparr>"
  have d: "dinv e ?s" "length (MsgKeeper ?s) \<le> room" using assms by (simp_all add: dinv_def keeper_ok_def live_def)
  have n: "MsgSeqNum (Msg s) < 2 ^ 32" using assms(1) by (simp add: dinv_def msg_ok_def)
  obtain fs where fs: "FixOut s = Some fs" using dinv_live[OF assms(1)] by (auto simp: live_def)
  have c: "dinv e (OnMessageProcessed check (MsgSeqNum (Msg s)) (DispatchConform check e (Value fld) ?s))"
    if "SeqSt ?s = Conform" using DispatchConform_ok[OF d that] OnMessageProcessed_dinv n by blast
  have x: "dinv e (DispatchNotConform check e (Value fld) ?s)" if "SeqSt ?s \<noteq> Conform"
    using DispatchNotConform_dinv[OF d that] Some by simp
  show ?thesis
    using Some fs c x OnBadCompID_dinv[OF d(1)] by (simp add: DispatchWith_def Let_def)
qed

end

subsection \<open>Taking messages out of the keeper\<close>

lemma DispatchConform_quiet:
  assumes "live s" "in_range s" "\<not> resets (Cfg e) (Msg s)" "GetField (Msg s) 35 = Some fld"
  shows "quiet s (DispatchConform check e (Value fld) s)"
proof -
  have h: "h \<noteq> OnRecvSequenceReset" if "handler_of (GetConfig (Cfg e) (Value fld)) = Some (c, h)" for c h
    using assms(3,4) that by (auto simp: resets_def)
  note u = UseSender_quiet[OF assms(1)]
  show ?thesis
    using Handle_quiet[OF assms(1,2)] quiet_then[OF u Handle_quiet[OF _ quiet_in_range[OF u assms(2)]]]
      quiet_then[OF u UseSender_quiet] h
    by (auto simp: DispatchConform_def split: option.split prod.split)
qed

lemma DispatchWith_kept:
  assumes "live s" "MsgSeqNum (Msg s) \<le> LastGapSeqNo s" "\<not> resets (Cfg e) (Msg s)" "ResendRequestEndSeqNo s < MsgSeqNum (Msg s)"
  shows "quiet (s\<lparr>SeqSt := SeqSt (DispatchWith check e s)\<rparr>) (DispatchWith check e s)"
proof (cases "GetField (Msg s) 35")
  case None
  have "quiet s (UseSender f (WriteRec e h a s))" for f h a by (rule quiet_then[OF WriteRec_quiet[OF assms(1)] UseSender_quiet])
  then show ?thesis using None by (simp add: DispatchWith_def quiet_def)
next
  case (Some fld)
  let ?n = "MsgSeqNum (Msg s)"
  define s1 where "s1 = s\<lparr>SeqSt := CompareFixSeqNum ?n (RecvSeq s)\<rparr>"
  have l: "live s1" "in_range s1" using assms(1,2) by (simp_all add: s1_def live_def in_range_def)
  obtain fs where fs: "FixOut s = Some fs" using assms(1) by (auto simp: live_def)
  have u: "quiet s1 (UseSender f s1)" "quiet s1 (WriteRec e h a s1)" for f h a using UseSender_quiet WriteRec_quiet l(1) by blast+
  have u2: "quiet s1 (UseSender g (UseSender f s1))" "quiet s1 (UseSender g (WriteRec e h a s1))" for f g h a
    using quiet_then[OF u(1) UseSender_quiet] quiet_then[OF u(2) UseSender_quiet] by blast+
  have h: "h \<noteq> OnRecvSequenceReset" if "handler_of (GetConfig (Cfg e) (Value fld)) = Some (c, h)" for c h
    using assms(3) Some that by (auto simp: resets_def)
  have hq: "quiet s1 (Handle check e h s1)" if "h \<noteq> OnRecvSequenceReset" for h by (rule Handle_quiet[OF l that])
  have c: "quiet s1 (DispatchConform check e (Value fld) s1)"
    by (rule DispatchConform_quiet[OF l]) (use assms(3) Some in \<open>simp_all add: s1_def\<close>)
  then have "OnMessageProcessed check ?n (DispatchConform check e (Value fld) s1) = DispatchConform check e (Value fld) s1"
    using assms(4) by (simp add: OnMessageProcessed_def quiet_def s1_def)
  moreover have "quiet s1 (DispatchNotConform check e (Value fld) s1)"
    using hq h NotExpected_quiet'[OF l] by (auto simp: DispatchNotConform_def Let_def split: option.split prod.split)
  ultimately have "quiet s1 (DispatchWith check e s)"
    using Some fs c u2 by (simp add: DispatchWith_def OnBadCompID_def Let_def flip: s1_def)
  then show ?thesis by (simp add: quiet_def s1_def)
qed

text \<open>One round of the loop that dispatches the message at the front.\<close>

lemma TakeKept_facts:
  assumes "dinv e s" "MsgKeeper s = (m, q) # ks" "behind q s"
  shows "live (TakeKept e m s)" "MsgSeqNum (Msg (TakeKept e m s)) = q" "q \<le> LastGapSeqNo s" "\<not> resets (Cfg e) (Msg (TakeKept e m s))"
    "ResendRequestEndSeqNo s < q" "msg_ok (After e) m (Msg (TakeKept e m s))" "q < 2 ^ 32"
proof -
  let ?t = "TakeKept e m s"
  have ko: "kept_ok (After e) (Cfg e) (LastGapSeqNo s) (m, q)" using assms(1,2) by (simp add: dinv_def keeper_ok_def)
  then obtain p where p: "msg_ok (After e) m p" "MsgSeqNum p = q" "\<not> resets (Cfg e) p" by (auto simp: kept_ok_def)
  have mt: "Msg ?t = reparse (After e) m (Msg s)" by (simp add: TakeKept_def reparse_def)
  have "parser_wf (Msg s)" using assms(1) by (simp add: dinv_def msg_ok_def)
  then have r: "parser_wf (Msg ?t)" "MsgSeqNum (Msg ?t) = q"
    "map_option Value (GetField (Msg ?t) 35) = map_option Value (GetField p 35)"
    using p(1,2) by (auto simp: msg_ok_def mt)
  show "live ?t" using dinv_live[OF assms(1)] by (simp add: live_def TakeKept_def)
  show "MsgSeqNum (Msg ?t) = q" by (rule r(2))
  show "msg_ok (After e) m (Msg ?t)" using p(1,2) r by (simp add: msg_ok_def)
  show "\<not> resets (Cfg e) (Msg ?t)" using p(3) r(3) by (auto simp: resets_def map_option_case split: option.splits)
  show "q \<le> LastGapSeqNo s" "q < 2 ^ 32" using ko p(1,2) by (auto simp: kept_ok_def msg_ok_def)
  show "ResendRequestEndSeqNo s < q" using ko assms(3) by (auto simp: kept_ok_def behind_def)
qed

lemma PopFront_dinv:
  assumes "dinv e s" "MsgKeeper s = k # ks"
  shows "dinv e (PopFront s)" "MsgKeeper (PopFront s) = ks" "ResendRequestEndSeqNo (PopFront s) = ResendRequestEndSeqNo s"
    "LastGapSeqNo (PopFront s) = LastGapSeqNo s"
  using assms by (simp_all add: PopFront_def dinv_def keeper_ok_def live_def)

lemma kept_step:
  fixes check
  assumes "dinv e s" "MsgKeeper s = (m, q) # ks" "behind q s"
  defines "d \<equiv> PopFront (DispatchWith check e (TakeKept e m s))"
  shows "dinv e d" "MsgKeeper d = ks" "LastGapSeqNo d = LastGapSeqNo s" "behind (uadd 32 q 1) d"
proof -
  let ?t = "TakeKept e m s"
  let ?d = "DispatchWith check e ?t"
  note t = TakeKept_facts[OF assms(1-3)]
  have sel: "MsgKeeper ?t = MsgKeeper s" "LastGapSeqNo ?t = LastGapSeqNo s" "ResendRequestEndSeqNo ?t = ResendRequestEndSeqNo s"
    "OrigMsgStr ?t = m" by (simp_all add: TakeKept_def)
  have qu: "quiet (?t\<lparr>SeqSt := SeqSt ?d\<rparr>) ?d"
    by (rule DispatchWith_kept[OF t(1)]) (use t sel in simp_all)
  then have dd: "MsgKeeper ?d = (m, q) # ks" "ResendRequestEndSeqNo ?d = ResendRequestEndSeqNo s" "LastGapSeqNo ?d = LastGapSeqNo s"
    "msg_ok (After e) (OrigMsgStr ?d) (Msg ?d)" using t(6) sel assms(2) by (simp_all add: quiet_def)
  have "dinv e ?d" using quiet_live[OF qu] assms(1) dd assms(2) by (simp add: dinv_def keeper_ok_def)
  note P = PopFront_dinv[OF this dd(1)]
  show "dinv e d" "MsgKeeper d = ks" "LastGapSeqNo d = LastGapSeqNo s" using P dd(3) by (simp_all add: d_def)
  show "behind (uadd 32 q 1) d"
    using P(3) dd(2) t(5,7) by (cases "q + 1 = 2 ^ 32") (auto simp: behind_def uadd_def d_def)
qed

lemma CheckMsgKeeper_end: "MsgKeeper (OnRecoverDone e s) = MsgKeeper s" "MsgKeeper (SendResendRequest e a b s) = MsgKeeper s"
  "LastGapSeqNo (OnRecoverDone e s) = 0" "LastGapSeqNo (SendResendRequest e a b s) = LastGapSeqNo s"
  by (simp_all add: OnRecoverDone_def Let_def SendLogonTestRequest_def WriteRec_def SendMsg_def RunAfter_def SendResendRequest_def)

lemma CheckMsgKeeper_ok:
  assumes "dinv e s" "behind n s" "length (MsgKeeper s) < fuel"
  shows "dinv e (CheckMsgKeeper fuel e n s) \<and> length (MsgKeeper (CheckMsgKeeper fuel e n s)) \<le> length (MsgKeeper s)"
  using assms
proof (induction fuel arbitrary: n s)
  case (Suc fuel)
  show ?case
  proof (cases "MsgKeeper s")
    case Nil
    then show ?thesis
      using OnRecoverDone_dinv[OF Suc.prems(1) Nil] SendResendRequest_dinv[OF Suc.prems(1)] by (simp add: CheckMsgKeeper_end)
  next
    case (Cons k ks)
    obtain m q where k: "k = (m, q)" by fastforce
    note K = Cons[unfolded k] and P = PopFront_dinv[OF Suc.prems(1) Cons]
    show ?thesis
    proof (cases "n = q")
      case True
      have b: "behind q s" using Suc.prems(2) True by simp
      note S = kept_step[OF Suc.prems(1) K b, of "CheckMsgKeeper fuel e"]
      show ?thesis using Suc.IH[OF S(1,4)] S(2) Suc.prems(3) True K by auto
    next
      case False
      have "behind n (PopFront s)" using P(3) Suc.prems(2) by (simp add: behind_def)
      then show ?thesis
        using Suc.IH[OF P(1)] P(2) Suc.prems(3) SendResendRequest_dinv[OF Suc.prems(1)] K False
        by (auto simp: CheckMsgKeeper_end intro: le_SucI)
    qed
  qed
qed simp

interpretation kept: keeper_check e "CheckMsgKeeper (Suc room) e" room for e room
proof
  fix s n
  assume "dinv e s" "behind n s" "length (MsgKeeper s) \<le> room"
  then show "dinv e (CheckMsgKeeper (Suc room) e n s) \<and> length (MsgKeeper (CheckMsgKeeper (Suc room) e n s)) \<le> room"
    using CheckMsgKeeper_ok[of e s n "Suc room"] by fastforce
qed

lemma DispatchFixMessage_dinv: "dinv e s \<Longrightarrow> dinv e (DispatchFixMessage e s)"
  unfolding DispatchFixMessage_def by (rule kept.DispatchWith_dinv) simp_all

subsection \<open>Every run of the session\<close>

datatype session_event = EvConnected | EvInitiate nat fix_builder fix_sender | EvMessage "byte list" fix_parser
  | EvError fix_result | EvTimer int | EvDisconnected "byte list" | EvResetSend "byte list" | EvResetRecv "byte list"
  | EvLogout "byte list" | EvReject nat nat "byte list" fix_builder

fun session_step :: "session_env \<Rightarrow> session_event \<Rightarrow> fix_session \<Rightarrow> fix_session" where
  "session_step e EvConnected s = OnFixSessionConnected e s"
| "session_step e (EvInitiate hb b fs) s = OnLogonInitiate e hb b fs s"
| "session_step e (EvMessage m p) s = MessageParsed e m (s\<lparr>Msg := p\<rparr>)"
| "session_step e (EvError res) s = MessageError (\<lambda>_. []) res s"
| "session_step e (EvTimer idle) s = FixSessionOnTimer e idle (s\<lparr>TimerAfter := None\<rparr>)"
| "session_step e (EvDisconnected info) s = OnFixSessionDisconnected e info s"
| "session_step e (EvResetSend str) s = snd (UserResetSend e str s)"
| "session_step e (EvResetRecv str) s = snd (UserResetRecv e str s)"
| "session_step e (EvLogout text) s = fst (SendLogout e (LogoutText text) None s)"
| "session_step e (EvReject n tag t b) s = SessionReject e n tag t b s"

text \<open>The link comes up when it was down, the manager logs on when it has come up, and the feeder hands over
  what it has parsed.\<close>

fun event_ok :: "session_env \<Rightarrow> session_event \<Rightarrow> fix_session \<Rightarrow> bool" where
  "event_ok e EvConnected s = (FixSt s = Disconnected)"
| "event_ok e (EvInitiate hb b fs) s = (FixSt s = Connected)"
| "event_ok e (EvMessage m p) s = msg_ok (After e) m p"
| "event_ok e _ s = True"

inductive session_run :: "(nat \<Rightarrow> byte) \<Rightarrow> fix_config \<Rightarrow> fix_session \<Rightarrow> bool" for after cfg where
  start: "session_run after cfg FixSession"
| step: "session_run after cfg s \<Longrightarrow> After e = after \<Longrightarrow> Cfg e = cfg \<Longrightarrow> event_ok e ev s \<Longrightarrow>
    session_run after cfg (session_step e ev s)"

definition sinv :: "session_env \<Rightarrow> fix_session \<Rightarrow> bool" where
  "sinv e s \<longleftrightarrow> \<not> Undefined s \<and> (FixOut s \<noteq> None \<longleftrightarrow> LogonSent \<le> FixSt s) \<and>
     (FixSt s \<noteq> Disconnected \<longrightarrow> TimerAfter s \<noteq> None \<or> CloseCauses s \<noteq> []) \<and> keeper_ok e s"

lemma st_cases: "st < LogonSent \<longleftrightarrow> st = Disconnected \<or> st = Connected" "LogonSent \<le> st \<longleftrightarrow> st \<noteq> Disconnected \<and> st \<noteq> Connected"
  by (cases st; simp add: st_order)+

lemma sinv_live: "sinv e s \<Longrightarrow> FixOut s \<noteq> None \<Longrightarrow> live s"
  by (auto simp: sinv_def live_def st_cases)

lemma live_sinv: "live s \<Longrightarrow> keeper_ok e s \<Longrightarrow> sinv e s"
  by (auto simp: sinv_def live_def st_cases)

lemma quiet_sinv: "quiet s s' \<Longrightarrow> keeper_ok e s \<Longrightarrow> sinv e s'"
  by (rule live_sinv) (simp_all add: quiet_def keeper_ok_def)

lemma SendLogout_sinv: "sinv e s \<Longrightarrow> sinv e (fst (SendLogout e b fr s))"
  by (auto simp: SendLogout_def Let_def sinv_def st_cases keeper_ok_def CloseSession_def SendMsg_def RunAfter_def)

lemma SendLogon_sinv:
  assumes "sinv e s" "FixSt s = Connected"
  shows "sinv e (SendLogon e fs hb b s)"
  using assms by (simp add: SendLogon_def Let_def sinv_def keeper_ok_def st_cases)

lemma dinv_sinv: "dinv e s \<Longrightarrow> sinv e s"
  using live_sinv by (simp add: dinv_def)

lemma OnLogonAccepted_sinv:
  assumes "sinv e s" "FixSt s = Connected" "resets_any (Cfg e)" "msg_ok (After e) (OrigMsgStr s) (Msg s)"
  shows "sinv e (snd (OnLogonAccepted e fs s))"
proof -
  let ?s = "s\<lparr>SeqSt := CompareFixSeqNum (MsgSeqNum (Msg s)) (NextRecvSeq fs)\<rparr>"
  have i: "sinv e ?s" using assms(1) by (simp add: sinv_def keeper_ok_def)
  have r: "sinv e (RejectLogon e t f ?s)" for t f
  proof -
    obtain s' fr where s': "SendLogout e (LogoutText t) (Some (Write HdrError (Now e) (OrigMsgStr s) f)) ?s = (s', fr)" by fastforce
    then have "sinv e s'" using SendLogout_sinv[OF i] by (metis fst_conv)
    then show ?thesis by (simp add: RejectLogon_def s' sinv_def keeper_ok_def)
  qed
  have l: "sinv e (SendLogonResponse e f hb b ?s)" for f hb b
  proof -
    let ?l = "SendLogon e f hb b ?s"
    have "sinv e ?l" using SendLogon_sinv[OF i] assms(2) by simp
    moreover have "FixOut ?l \<noteq> None" "Msg ?l = Msg s" "OrigMsgStr ?l = OrigMsgStr s" by (simp_all add: SendLogon_def Let_def)
    ultimately have "dinv e ?l" using sinv_live assms(3,4) by (simp add: dinv_def sinv_def)
    then show ?thesis using OnLogonResponsed_dinv dinv_sinv by (simp add: SendLogonResponse_def)
  qed
  show ?thesis using r l by (auto simp: OnLogonAccepted_def Let_def split: sum.split)
qed

lemma MessageParsed_sinv:
  assumes "sinv e s" "resets_any (Cfg e)" "msg_ok (After e) m (Msg s)"
  shows "sinv e (MessageParsed e m s)"
proof -
  let ?s = "s\<lparr>MsgReceivedCount := uadd 32 (MsgReceivedCount s) 1, OrigMsgStr := m\<rparr>"
  have i: "sinv e ?s" using assms(1) by (simp add: sinv_def keeper_ok_def)
  have d: "sinv e (DispatchFixMessage e ?s)" if "FixSt s \<noteq> Disconnected" "FixSt s \<noteq> Connected"
  proof -
    have "live ?s" by (rule sinv_live[OF i]) (use i that in \<open>auto simp: sinv_def st_cases\<close>)
    then have "dinv e ?s" using assms(2,3) i by (simp add: dinv_def sinv_def)
    then show ?thesis using DispatchFixMessage_dinv dinv_sinv by blast
  qed
  have a: "sinv e (RecvLogonRequest e ?s)" if "FixSt s = Connected"
    using OnLogonAccepted_sinv[OF i] SendLogout_sinv[OF i] i that assms(2,3)
    by (auto simp: RecvLogonRequest_def split: logon_answer.split)
  have c: "Check1stMustLogon ?s = (ok, s2) \<Longrightarrow> ok \<and> s2 = ?s \<or> \<not> ok \<and> sinv e s2" for ok s2
    using i by (auto simp: Check1stMustLogon_def CloseSession_def sinv_def keeper_ok_def split: option.splits if_splits)
  show ?thesis
    using i a d c by (cases "FixSt s") (auto simp: MessageParsed_def Let_def split: prod.split)
qed

lemma FixSessionOnTimer_sinv:
  assumes "sinv e s"
  shows "sinv e (FixSessionOnTimer e idle (s\<lparr>TimerAfter := None\<rparr>))"
  using assms
  by (cases "FixSt s") (auto simp: FixSessionOnTimer_def TimerApReady_def SendLogonTestRequest_def Let_def sinv_def st_cases
      keeper_ok_def CloseSession_def RunAfter_def SendMsg_def st_order)

lemma session_step_sinv:
  assumes "sinv e s" "event_ok e ev s" "resets_any (Cfg e)"
  shows "sinv e (session_step e ev s)"
proof (cases ev)
  case EvConnected
  then show ?thesis
    using assms by (simp add: sinv_def OnFixSessionConnected_def RunAfter_def ClearFixSession_def ClearRecvKeeper_def keeper_ok_def st_cases)
next
  case (EvInitiate hb b fs)
  then show ?thesis using assms SendLogon_sinv by (simp add: OnLogonInitiate_def)
next
  case (EvMessage m p)
  have "sinv e (s\<lparr>Msg := p\<rparr>)" using assms(1) by (simp add: sinv_def keeper_ok_def)
  then show ?thesis using EvMessage assms MessageParsed_sinv by simp
next
  case (EvDisconnected info)
  then show ?thesis using assms
    by (auto simp: OnFixSessionDisconnected_def Let_def ClearFixSession_def ClearRecvKeeper_def sinv_def keeper_ok_def st_cases
        split: option.split)
next
  case (EvResetSend str)
  then show ?thesis using assms
    by (auto simp: UserResetSend_def Let_def sinv_def keeper_ok_def st_cases split: prod.split)
next
  case (EvResetRecv str)
  then show ?thesis using assms
    by (auto simp: UserResetRecv_def Let_def sinv_def keeper_ok_def st_cases split: prod.split)
next
  case (EvTimer idle)
  then show ?thesis using FixSessionOnTimer_sinv[OF assms(1)] by simp
qed (use assms SendLogout_sinv in \<open>auto simp: MessageError_def CloseSession_def sinv_def keeper_ok_def SessionReject_def\<close>)

lemma session_run_sinv:
  assumes "session_run after cfg s" "resets_any cfg" "After e = after" "Cfg e = cfg"
  shows "sinv e s"
  using assms
proof (induction arbitrary: e rule: session_run.induct)
  case (step s e' ev)
  have "sinv e' s" using step.IH step.prems step.hyps by blast
  then have "sinv e' (session_step e' ev s)" using session_step_sinv step.hyps step.prems by simp
  then show ?case using step.hyps step.prems by (simp add: sinv_def keeper_ok_def)
qed (simp add: sinv_def FixSession_def keeper_ok_def st_cases)

subsection \<open>Messages that can be read again\<close>

lemma ParseFields_loop_spl:
  assumes "FP p fs0" "fields_ok (fs0 @ fs)"
  shows "\<exists>p'. ParseFields_loop after (fields_spl fs) FullMessage p = (Used 1, [], p') \<and> FP p' (fs0 @ fs)"
  using assms
proof (induction fs arbitrary: p fs0)
  case Nil
  then show ?case by (simp add: fields_spl_def ParseFields_loop.simps)
next
  case (Cons f fs)
  obtain t v where f: "f = (t, v)" by fastforce
  let ?p = "SetFieldValue t v (FieldSlot t p)" and ?r = "SPL # fields_spl fs"
  have all: "\<forall>x. length (vals (fs0 @ (t, v) # fs) x) \<le> 5" using Cons.prems(2) f by (simp add: fields_ok_def)
  have ok: "0 < t" "t < 2 ^ 32" "t \<noteq> 96" "SPL \<notin> set v" "length fs0 < 2 ^ 13"
    using Cons.prems(2) f by (auto simp: fields_ok_def)
  have cnt: "length (vals fs0 t) \<le> 4" using all[THEN spec, of t] by (simp add: vals_def)
  have "ValueCount (FieldArray p t) \<le> 4" using cnt Cons.prems(1) by (simp add: FP_def)
  then have P: "ParseField after (UIntToStrRev (EQ # v @ ?r) t) p = (Used 1, tl ?r, ?p, t)"
    using ok by (intro ParseField_text) auto
  have tx: "fields_spl (f # fs) = UIntToStrRev (EQ # v @ ?r) t"
    using UIntToStrRev_append[of "EQ # v @ [SPL]" "fields_spl fs" t] by (simp add: f fields_spl_Cons)
  have "ParseFields_loop after (fields_spl (f # fs)) FullMessage p = ParseFields_loop after (fields_spl fs) FullMessage ?p"
    using UIntToStrRev_nonempty[of "EQ # v @ ?r" t] P
    unfolding tx by (subst ParseFields_loop.simps) simp
  moreover have "FP ?p (fs0 @ [(t, v)])" using FP_step Cons.prems(1) cnt ok(5) by blast
  ultimately show ?case using Cons.IH[of ?p "fs0 @ [(t, v)]"] Cons.prems(2) f by simp
qed

text \<open>A message built by the other end can be kept: its text, read again, gives the same number and type.\<close>

definition framed :: "byte list \<Rightarrow> (nat \<times> byte list) list \<Rightarrow> byte list \<Rightarrow> (nat \<times> byte list) list" where
  "framed ver fs cks = (8, ver) # (9, UIntToStrRev [] (length (body_of fs))) # fs @ [(10, cks)]"

lemma Final_framed:
  assumes "Buffer b = body_of fs" "fs \<noteq> []"
  obtains cks where "SPL \<notin> set cks" "length cks = 3" "Final (begin_header ver) b = fields_spl (framed ver fs cks)"
proof -
  let ?s = "SPL + sum_list (begin_header ver @ UIntToStrRev (Buffer b) (length (Buffer b)))"
  have "unat ?s < 2 ^ LENGTH(8)" by (rule unsigned_less)
  then have "unat ?s < 10 ^ 3" by simp
  from AuxPic9ToStr_spec[OF this, of "[SPL]"] obtain ds where
    ds: "AuxPic9ToStr 3 [SPL] (unat ?s) = ds @ [SPL]" "length ds = 3" "\<forall>c\<in>set ds. isdigit c" by blast
  then have c: "PutCheckSumField ?s = [SPL, 0x31, 0x30, EQ] @ ds @ [SPL]"
    by (simp add: PutCheckSumField_def Pic9ToStrRev_def)
  have nospl: "SPL \<notin> set ds" using ds(3) digval_EQ_SPL(2) by blast
  have tag: "UIntToStrRev (EQ # x) t = UIntToStrRev [] t @ EQ # x" for x t
    using UIntToStrRev_append[of "[]" "EQ # x" t] by simp
  have ten: "UIntToStrRev [] (10::nat) = [0x31, 0x30]" by (simp add: UIntToStrRev.simps Put2Digs_eq dig_def)
  have num: "UIntToStrRev (Buffer b) m = UIntToStrRev [] m @ Buffer b" for m
    using UIntToStrRev_append[of "[]" "Buffer b" m] by simp
  have body: "body_of fs @ SPL # x = SPL # fields_spl fs @ x" for x
    by (induction fs) (auto simp: body_of_def fields_spl_def SPLTAGEQ_def tag)
  have "begin_header ver @ UIntToStrRev [] m @ body_of fs @ SPL # x =
      fields_spl [(8, ver), (9, UIntToStrRev [] m)] @ fields_spl fs @ x" for m x
    by (simp only: body) (simp add: begin_header_def fields_spl_def SPLTAGEQ_def tag)
  note E = this[of "length (body_of fs)" "[0x31, 0x30, EQ] @ ds @ [SPL]"]
  have "Final (begin_header ver) b = begin_header ver @ UIntToStrRev [] (length (body_of fs)) @ body_of fs @
      SPL # [0x31, 0x30, EQ] @ ds @ [SPL]"
    unfolding Final_def Let_def c unfolding num by (simp add: assms(1))
  also have "\<dots> = fields_spl (framed ver fs ds)"
    unfolding E by (simp add: framed_def fields_spl_def tag[of _ 10] ten)
  finally have "Final (begin_header ver) b = fields_spl (framed ver fs ds)" .
  then show thesis using that nospl ds(2) by blast
qed

lemma vals_framed: "t \<noteq> 8 \<Longrightarrow> t \<noteq> 9 \<Longrightarrow> t \<noteq> 10 \<Longrightarrow> vals (framed ver fs cks) t = vals fs t"
  by (simp add: vals_def framed_def)

lemma FP_GetField: "FP p fs \<Longrightarrow> map_option Value (GetField p t) = (case vals fs t of [] \<Rightarrow> None | v # _ \<Rightarrow> Some v)"
  by (cases "vals fs t") (auto simp: FP_def GetField_def dest: spec[of _ t])

lemma FP_number: "FP p fs \<Longrightarrow> MsgSeqNum (ParseFieldsEnd p) = (case vals fs 34 of [] \<Rightarrow> 0 | v # _ \<Rightarrow> fst (StrTo_u 32 v 0))"
  using FP_GetField[of p fs 34] by (cases "vals fs 34") (auto simp: ParseFieldsEnd_def)

lemma reparse_Final:
  assumes "Buffer b = body_of fs" "fs \<noteq> []" "parser_wf q"
    and "\<And>cks. length cks = 3 \<Longrightarrow> SPL \<notin> set cks \<Longrightarrow> fields_ok (framed ver fs cks)"
  shows "\<exists>p' cks. reparse after (Final (begin_header ver) b) q = ParseFieldsEnd p' \<and> FP p' (framed ver fs cks)"
proof -
  obtain cks where cks: "SPL \<notin> set cks" "length cks = 3" "Final (begin_header ver) b = fields_spl (framed ver fs cks)"
    using Final_framed[OF assms(1,2)] .
  then show ?thesis
    using ParseFields_loop_spl[OF ClearParser_FP[OF assms(3)], of "framed ver fs cks" after] assms(4)[OF cks(2,1)]
    by (auto simp: reparse_def ParseFields_def)
qed

lemma msg_ok_Final:
  assumes "Buffer b = body_of fs" "fs \<noteq> []" "FP p fs" "vals fs 34 = UIntToStrRev [] n # vs" "n < 2 ^ 32"
    and "\<And>cks. length cks = 3 \<Longrightarrow> SPL \<notin> set cks \<Longrightarrow> fields_ok (framed ver fs cks)"
  shows "msg_ok after (Final (begin_header ver) b) (ParseFieldsEnd p)" "MsgSeqNum (ParseFieldsEnd p) = n"
proof -
  have num: "MsgSeqNum (ParseFieldsEnd q) = n" if "FP q G" "vals G 34 = vals fs 34" for q G
    using FP_number[OF that(1)] that(2) assms(4,5) by simp
  have "map_option Value (GetField (ParseFieldsEnd q) 35) = map_option Value (GetField (ParseFieldsEnd p) 35)"
    if "FP q (framed ver fs cks)" for q cks
    using FP_GetField[of "ParseFieldsEnd q" "framed ver fs cks" 35] FP_GetField[of "ParseFieldsEnd p" fs 35] that assms(3)
    by (simp add: ParseFieldsEnd_FP vals_framed)
  moreover have "vals (framed ver fs cks) 34 = vals fs 34" for cks by (simp add: vals_framed)
  ultimately show "msg_ok after (Final (begin_header ver) b) (ParseFieldsEnd p)"
    using num[OF assms(3)] num assms(5) FP_parser_wf assms(3) reparse_Final[OF assms(1,2) _ assms(6), of _ after]
    unfolding msg_ok_def by metis
  show "MsgSeqNum (ParseFieldsEnd p) = n" by (rule num[OF assms(3) refl])
qed

end
