(* ===== verification/FixSessionOrder.thy ===== *)
theory FixSessionOrder
  imports FixSessionProps
begin

text \<open>
  The order in which the session of \<open>FixSession\<close> hands messages to the application. \<open>neutral\<close> operations
  neither deliver nor count a message; \<open>adv\<close> says that what was delivered lies between the two values of
  the next number expected, in ascending order.
\<close>

subsection \<open>Operations that do not count\<close>

lemma sender_recv [simp]:
  "NextRecvSeq (Write h t a fs) = NextRecvSeq fs" "NextRecvSeq (SendNext t mt b n f) = NextRecvSeq f"
  "NextRecvSeq (Send t mt b f) = NextRecvSeq f" "NextRecvSeq (Append buf fs) = NextRecvSeq fs"
  "NextRecvSeq (WriteInputConform t m fs) = uadd 32 (NextRecvSeq fs) 1"
  "NextRecvSeq (WriteInputSeqReset t m n g fs) = n"
  by (simp_all add: Write_def SendNext_def Send_def WriteAfterSend_def OnSendFixMessage_def Let_def Append_def AddWork_def
      WriteInputConform_def WriteInputSeqReset_def)

lemma admin_recv [simp]:
  "NextRecvSeq (SendRequiredTagMissing t a b c f) = NextRecvSeq f" "NextRecvSeq (SendSessionReject t a b c d f) = NextRecvSeq f"
  "NextRecvSeq (SendInvalidMsgType t a c f) = NextRecvSeq f" "NextRecvSeq (SendHeartbeat t x f) = NextRecvSeq f"
  "NextRecvSeq (GapFill t a b f) = NextRecvSeq f" "NextRecvSeq (Replay after al t cfg r a b f) = NextRecvSeq f"
  by (simp_all add: SendRequiredTagMissing_def SendSessionReject_def SendInvalidMsgType_def SendHeartbeat_def GapFill_def
      Replay_def Let_def OnSendFixMessage_def)

lemma RecvSeq_UseSender [simp]: "(\<And>fs. NextRecvSeq (f fs) = NextRecvSeq fs) \<Longrightarrow> RecvSeq (UseSender f s) = RecvSeq s"
  by (simp add: RecvSeq_def UseSender_def split: option.split)

lemma RecvSeq_cong: "FixOut s' = FixOut s \<Longrightarrow> RecvSeq s' = RecvSeq s"
  by (simp add: RecvSeq_def)

definition neutral :: "fix_session \<Rightarrow> fix_session \<Rightarrow> bool" where
  "neutral s s' \<longleftrightarrow> Delivered s' = Delivered s \<and> RecvSeq s' = RecvSeq s"

lemma neutral_trans: "neutral s s' \<Longrightarrow> neutral s' s'' \<Longrightarrow> neutral s s''"
  by (simp add: neutral_def)

lemma neutral_intros [simp]:
  "neutral s s" "(\<And>fs. NextRecvSeq (f fs) = NextRecvSeq fs) \<Longrightarrow> neutral s (UseSender f s)"
  "neutral s (SendMsg e mt b s)" "neutral s (WriteRec e h a s)"
  by (simp_all add: neutral_def SendMsg_def WriteRec_def)

lemma neutral_SendLogout [simp]: "neutral s (fst (SendLogout e b fr s))"
  by (auto simp: SendLogout_def Let_def neutral_def SendMsg_def RunAfter_def CloseSession_def RecvSeq_def UseSender_def split: option.split)

lemma neutral_OnLogoutRequired [simp]: "neutral s (OnLogoutRequired e b s)"
  by (simp add: OnLogoutRequired_def)

lemma neutral_more [simp]:
  "neutral s (SendResendRequest e x y s)" "neutral s (SendLogonTestRequest e s)"
  "neutral s (SetApReadySt e s)" "neutral s (OnRecoverDone e s)"
  by (auto simp: SendResendRequest_def SendLogonTestRequest_def SetApReadySt_def OnRecoverDone_def Let_def
      neutral_def SendMsg_def WriteRec_def RunAfter_def CloseSession_def RecvSeq_def UseSender_def split: option.split)

lemma neutral_UseSender2 [simp]:
  "(\<And>fs. NextRecvSeq (g fs) = NextRecvSeq fs) \<Longrightarrow> neutral s (UseSender g (WriteRec e h a s))"
  by (rule neutral_trans[of _ "WriteRec e h a s"]) simp_all

lemma neutral_TooLow [simp]: "neutral s (OnMsgSeqNumTooLow e s)"
proof -
  have "neutral s (OnLogoutRequired e b (WriteRec e h a s))" for b h a
    by (rule neutral_trans[of _ "WriteRec e h a s"]) simp_all
  then show ?thesis by (simp add: OnMsgSeqNumTooLow_def split: option.split)
qed

lemma neutral_NotExpected [simp]: "neutral s (OnMsgSeqNumNotExpected e fl s)"
proof -
  let ?n = "MsgSeqNum (Msg s)" and ?s1 = "s\<lparr>LastGapSeqNo := MsgSeqNum (Msg s)\<rparr>"
  have s1: "neutral s ?s1" by (simp add: neutral_def RecvSeq_def)
  let ?k = "(WriteRec e HdrGapRecv (OrigMsgStr s) ?s1)\<lparr>MsgKeeper := MsgKeeper s @ [(OrigMsgStr s, ?n)]\<rparr>"
  have w: "neutral s (WriteRec e h a ?s1)" for h a by (rule neutral_trans[OF s1]) simp
  have k: "neutral s ?k" using w[of HdrGapRecv "OrigMsgStr s"] by (simp add: neutral_def RecvSeq_def)
  have r: "neutral s (SendResendRequest e x y t)" if "neutral s t" for x y t by (rule neutral_trans[OF that]) simp
  show ?thesis by (auto simp: OnMsgSeqNumNotExpected_def Let_def s1 w k r)
qed

lemma neutral_OnLogonResponsed [simp]: "neutral s (OnLogonResponsed e fl s)"
proof -
  let ?s1 = "RunAfter (TiLogonRecover (Cfg e)) (s\<lparr>FixSt := LogonRecovering, MsgReceivedCount := 0\<rparr>)"
  have "neutral s ?s1" by (simp add: neutral_def RecvSeq_def RunAfter_def)
  then have "neutral s (OnMsgSeqNumNotExpected e fl ?s1)" by (rule neutral_trans) simp
  then show ?thesis by (simp add: OnLogonResponsed_def)
qed

lemma neutral_Answer [simp]: "neutral s (AnswerResendRequest e s)" "neutral s (AnswerLogout e s)"
proof -
  show "neutral s (AnswerResendRequest e s)" by (simp add: AnswerResendRequest_def Let_def split: option.split)
  have "neutral s (fst (SendLogout e b None (WriteRec e h a s)))" for b h a
    by (rule neutral_trans[of _ "WriteRec e h a s"]) simp_all
  then show "neutral s (AnswerLogout e s)" by (simp add: AnswerLogout_def Let_def)
qed

lemma neutral_Recv:
  "neutral s (RecvHeartbeat e s)" "neutral s (RecvTestRequest e s)" "neutral s (RecvLogonResponse e s)"
  "neutral s (RecvLogout e s)" "neutral s (RecvResendRequest e s)"
proof -
  have t: "neutral s (SetApReadySt e (UseSender (SendHeartbeat t x) s))" for t x
    by (rule neutral_trans[of _ "UseSender (SendHeartbeat t x) s"]) simp_all
  have n: "neutral s (OnMsgSeqNumNotExpected e fl t)" if "neutral s t" for t fl by (rule neutral_trans[OF that]) simp
  show "neutral s (RecvHeartbeat e s)" "neutral s (RecvTestRequest e s)" "neutral s (RecvLogonResponse e s)"
    "neutral s (RecvLogout e s)" "neutral s (RecvResendRequest e s)"
    using t n by (simp_all add: RecvHeartbeat_def RecvTestRequest_def RecvLogonResponse_def RecvLogout_def RecvResendRequest_def Let_def)
qed

lemma neutral_Handle: "h \<noteq> ApHandler \<Longrightarrow> h \<noteq> OnRecvSequenceReset \<Longrightarrow> neutral s (Handle check e h s)"
  by (cases h) (simp_all add: neutral_Recv)

lemma RecvAp_counts: "Delivered (RecvAp e s) = Delivered s @ [(MsgSeqNum (Msg s), OrigMsgStr s)]" "RecvSeq (RecvAp e s) = RecvSeq s"
proof -
  have "neutral t (fold (\<lambda>(mt, b). SendMsg e mt b) xs t)" for xs t
  proof (induction xs arbitrary: t)
    case (Cons x xs)
    then show ?case using neutral_trans[of t "SendMsg e (fst x) (snd x) t"] by (simp add: case_prod_beta)
  qed simp
  then show "Delivered (RecvAp e s) = Delivered s @ [(MsgSeqNum (Msg s), OrigMsgStr s)]" "RecvSeq (RecvAp e s) = RecvSeq s"
    by (simp_all add: RecvAp_def neutral_def RecvSeq_def)
qed

subsection \<open>Operations that count\<close>

definition adv :: "fix_session \<Rightarrow> fix_session \<Rightarrow> bool" where
  "adv s s' \<longleftrightarrow> RecvSeq s \<le> RecvSeq s' \<and> (\<exists>ds. Delivered s' = Delivered s @ ds \<and> sorted_wrt (<) (map fst ds) \<and>
     (\<forall>d\<in>set ds. RecvSeq s \<le> fst d \<and> fst d < RecvSeq s'))"

lemma adv_neutral: "neutral s s' \<Longrightarrow> adv s s'"
  by (auto simp: adv_def neutral_def)

lemma adv_trans:
  assumes "adv s s'" "adv s' s''"
  shows "adv s s''"
proof -
  obtain a b where a: "Delivered s' = Delivered s @ a" "sorted_wrt (<) (map fst a)" "\<forall>d\<in>set a. RecvSeq s \<le> fst d \<and> fst d < RecvSeq s'"
    and b: "Delivered s'' = Delivered s' @ b" "sorted_wrt (<) (map fst b)" "\<forall>d\<in>set b. RecvSeq s' \<le> fst d \<and> fst d < RecvSeq s''"
    using assms unfolding adv_def by blast
  have le: "RecvSeq s \<le> RecvSeq s'" "RecvSeq s' \<le> RecvSeq s''" using assms by (simp_all add: adv_def)
  have "sorted_wrt (<) (map fst (a @ b))" using a b by (fastforce simp: sorted_wrt_append)
  moreover have "\<forall>d\<in>set (a @ b). RecvSeq s \<le> fst d \<and> fst d < RecvSeq s''" using a(3) b(3) le by fastforce
  ultimately show ?thesis using a(1) b(1) le unfolding adv_def by (intro conjI exI[of _ "a @ b"]) auto
qed

lemma adv_then: "adv s s' \<Longrightarrow> neutral s' s'' \<Longrightarrow> adv s s''"
  using adv_trans adv_neutral by blast

text \<open>The application takes its messages in sequence.\<close>

definition ap_in_sequence :: "fix_config \<Rightarrow> bool" where
  "ap_in_sequence cfg \<longleftrightarrow> (\<forall>t c. handler_of (GetConfig cfg t) = Some (c, ApHandler) \<longrightarrow>
     \<not> AllowTooHigh (FixSeqAllow c) \<and> \<not> AllowTooLow (FixSeqAllow c) \<and> \<not> NoPreRecord (FixSeqAllow c))"

lemma UseSender_conform:
  assumes "live s" "RecvSeq s = n" "n < 2 ^ 32 - 1"
  shows "RecvSeq (UseSender (WriteInputConform t m) s) = Suc n" "adv s (UseSender (WriteInputConform t m) s)"
proof -
  obtain fs where fs: "FixOut s = Some fs" using assms(1) by (auto simp: live_def)
  then show "RecvSeq (UseSender (WriteInputConform t m) s) = Suc n"
    using assms(2,3) by (simp add: RecvSeq_def UseSender_def wrap_simps)
  then show "adv s (UseSender (WriteInputConform t m) s)" using assms(2) by (auto simp: adv_def)
qed

lemma RecvAp_adv:
  assumes "live s" "RecvSeq s = MsgSeqNum (Msg s)" "MsgSeqNum (Msg s) < 2 ^ 32 - 1"
  shows "adv s (RecvAp e (UseSender (WriteInputConform t m) s))"
  using UseSender_conform[OF assms(1,2,3), of t m] assms(2) by (auto simp: adv_def RecvAp_counts)

lemma DispatchConform_adv:
  assumes "live s" "RecvSeq s = MsgSeqNum (Msg s)" "MsgSeqNum (Msg s) < 2 ^ 32 - 1" "ap_in_sequence (Cfg e)"
    and "\<not> resets (Cfg e) (Msg s)" "GetField (Msg s) 35 = Some fld"
  shows "adv s (DispatchConform check e (Value fld) s)"
proof -
  note w = UseSender_conform[OF assms(1-3)]
  have h: "adv s (Handle check e h t)" if "adv s t" "h \<noteq> ApHandler" "h \<noteq> OnRecvSequenceReset" for h t
    by (rule adv_then[OF that(1) neutral_Handle[OF that(2,3)]])
  have r: "h \<noteq> OnRecvSequenceReset" if "handler_of (GetConfig (Cfg e) (Value fld)) = Some (c, h)" for c h
    using assms(5,6) that by (auto simp: resets_def)
  have i: "adv s (UseSender (SendInvalidMsgType a b c) (UseSender (WriteInputConform t m) s))" for a b c t m
    by (rule adv_then[OF w(2)[of t m]]) simp
  have a: "adv s s" by (rule adv_neutral) simp
  have ap: "\<not> NoPreRecord (FixSeqAllow c)" if "handler_of (GetConfig (Cfg e) (Value fld)) = Some (c, ApHandler)" for c
    using assms(4) that by (auto simp: ap_in_sequence_def)
  show ?thesis
  proof (cases "handler_of (GetConfig (Cfg e) (Value fld))")
    case None
    then show ?thesis using i by (simp add: DispatchConform_def)
  next
    case (Some ch)
    obtain c g where ch: "ch = (c, g)" by fastforce
    show ?thesis
      using Some ch h[OF a] h[OF w(2)] r[of c g] ap[of c] RecvAp_adv[OF assms(1-3)]
      by (cases "g = ApHandler") (simp_all add: DispatchConform_def)
  qed
qed

lemma DispatchNotConform_neutral:
  assumes "SeqSt s \<noteq> Conform" "ap_in_sequence (Cfg e)" "\<not> resets (Cfg e) (Msg s)" "GetField (Msg s) 35 = Some fld"
  shows "neutral s (DispatchNotConform check e (Value fld) s)"
proof (cases "handler_of (GetConfig (Cfg e) (Value fld))")
  case (Some ch)
  obtain c h where ch: "ch = (c, h)" by fastforce
  have "h \<noteq> OnRecvSequenceReset" using assms(3,4) Some ch by (auto simp: resets_def)
  moreover have "h = ApHandler \<Longrightarrow> \<not> allows (FixSeqAllow c) (SeqSt s)"
    using assms(1,2) Some ch by (cases "SeqSt s") (auto simp: ap_in_sequence_def)
  ultimately show ?thesis using Some ch neutral_Handle[of h s check e] by (auto simp: DispatchNotConform_def Let_def)
qed (simp add: DispatchNotConform_def Let_def)

lemma OnBadCompID_adv:
  assumes "live s" "SeqSt s = Conform \<Longrightarrow> RecvSeq s = MsgSeqNum (Msg s)" "MsgSeqNum (Msg s) < 2 ^ 32 - 1"
  shows "adv s (OnBadCompID e tag t s)"
proof (cases "SeqSt s = Conform")
  case True
  then have "adv s (UseSender (WriteInputConform (Now e) (OrigMsgStr s)) s)" using UseSender_conform(2) assms by blast
  then show ?thesis using True adv_then by (simp add: OnBadCompID_def)
next
  case False
  then show ?thesis by (simp add: OnBadCompID_def adv_neutral)
qed

lemma conform_number: "CompareFixSeqNum n m = Conform \<longleftrightarrow> n = m"
  by (simp add: CompareFixSeqNum_def)

lemma DispatchWith_kept_adv:
  assumes "live s" "MsgSeqNum (Msg s) \<le> LastGapSeqNo s" "\<not> resets (Cfg e) (Msg s)" "ResendRequestEndSeqNo s < MsgSeqNum (Msg s)"
    and "MsgSeqNum (Msg s) < 2 ^ 32 - 1" "ap_in_sequence (Cfg e)"
  shows "adv s (DispatchWith check e s)"
proof (cases "GetField (Msg s) 35")
  case None
  then show ?thesis by (simp add: DispatchWith_def adv_neutral)
next
  case (Some fld)
  let ?n = "MsgSeqNum (Msg s)"
  define s1 where "s1 = s\<lparr>SeqSt := CompareFixSeqNum ?n (RecvSeq s)\<rparr>"
  have s1: "live s1" "MsgSeqNum (Msg s1) < 2 ^ 32 - 1" "\<not> resets (Cfg e) (Msg s1)" "GetField (Msg s1) 35 = Some fld"
    "SeqSt s1 = Conform \<Longrightarrow> RecvSeq s1 = MsgSeqNum (Msg s1)" "in_range s1"
    using assms Some by (simp_all add: s1_def live_def conform_number RecvSeq_def in_range_def)
  have n1: "adv s t" if "adv s1 t" for t
    by (rule adv_trans[OF adv_neutral that]) (simp add: s1_def neutral_def RecvSeq_def)
  obtain fs where fs: "FixOut s = Some fs" using assms(1) by (auto simp: live_def)
  have q: "ResendRequestEndSeqNo (DispatchWith check e s) = ResendRequestEndSeqNo s"
    using DispatchWith_kept[OF assms(1-4)] by (simp add: quiet_def)
  have c: "adv s1 (OnMessageProcessed check ?n (DispatchConform check e (Value fld) s1))" if "SeqSt s1 = Conform"
  proof -
    have "quiet s1 (DispatchConform check e (Value fld) s1)" by (rule DispatchConform_quiet[OF s1(1,6,3,4)])
    then have "OnMessageProcessed check ?n (DispatchConform check e (Value fld) s1) = DispatchConform check e (Value fld) s1"
      using assms(4) by (simp add: OnMessageProcessed_def quiet_def s1_def)
    then show ?thesis using DispatchConform_adv[OF s1(1) s1(5)[OF that] s1(2) assms(6) s1(3,4)] by simp
  qed
  have b: "adv s1 (OnBadCompID e tag t s1)" for tag t by (rule OnBadCompID_adv[OF s1(1,5,2)])
  have x: "adv s1 (DispatchNotConform check e (Value fld) s1)" if "SeqSt s1 \<noteq> Conform"
    by (rule adv_neutral[OF DispatchNotConform_neutral[OF that assms(6) s1(3,4)]])
  show ?thesis
    using Some fs n1[OF b] n1[OF c] n1[OF x] by (simp add: DispatchWith_def Let_def flip: s1_def)
qed

subsection \<open>With a keeper\<close>

text \<open>What the check of the keeper promises about the order, besides what it keeps.\<close>

definition counted :: "session_env \<Rightarrow> fix_session \<Rightarrow> bool" where
  "counted e s \<longleftrightarrow> dinv e s \<and> ap_in_sequence (Cfg e) \<and> LastGapSeqNo s < 2 ^ 32 - 1"

locale keeper_delivery = keeper_check +
  assumes check_adv: "counted e s \<Longrightarrow> behind n s \<Longrightarrow> length (MsgKeeper s) \<le> room \<Longrightarrow>
    adv s (check n s) \<and> LastGapSeqNo (check n s) \<le> LastGapSeqNo s"
begin

lemma SequenceReset_order:
  assumes "counted e s" "length (MsgKeeper s) \<le> room" "MsgSeqNum (Msg s) < 2 ^ 32 - 1"
    and "SeqSt s = Conform \<Longrightarrow> RecvSeq s = MsgSeqNum (Msg s)"
  shows "adv s (RecvSequenceReset check e s) \<and> (SeqSt s = Conform \<longrightarrow> LastGapSeqNo (RecvSequenceReset check e s) \<le> LastGapSeqNo s) \<or>
    Delivered (RecvSequenceReset check e s) = Delivered s \<and> ResendRequestEndSeqNo (RecvSequenceReset check e s) = 0"
proof -
  let ?g = "case GetField (Msg s) 123 of Some fld \<Rightarrow> Get1stIs 0x59 (Value fld) | None \<Rightarrow> False" and ?n = "MsgSeqNum (Msg s)"
  have d: "dinv e s" and l: "live s" using assms(1) by (auto simp: counted_def dinv_def)
  have w: "adv s (UseSender g (UseSender (WriteInputConform t m) s))"
    if "SeqSt s = Conform" "\<And>fs. NextRecvSeq (g fs) = NextRecvSeq fs" for g t m
    by (rule adv_then[OF UseSender_conform(2)[OF l assms(4)[OF that(1)] assms(3), of t m]]) (simp add: that(2))
  have miss: "adv s (UseSender (SendRequiredTagMissing t a b c) (WriteRec e h x s))" for t a b c h x by (simp add: adv_neutral)
  have gap: "adv s (check new (UseSender (WriteInputSeqReset t m new True) s\<lparr>ResendRequestEndSeqNo := 0\<rparr>)) \<and>
      LastGapSeqNo (check new (UseSender (WriteInputSeqReset t m new True) s\<lparr>ResendRequestEndSeqNo := 0\<rparr>)) \<le> LastGapSeqNo s \<and>
      adv s (UseSender (WriteInputSeqReset t m new True) s)"
    if "\<not> new < ?n" "SeqSt s = Conform" for new t m
  proof -
    let ?s1 = "UseSender (WriteInputSeqReset t m new True) s"
    obtain fs where "FixOut s = Some fs" using l by (auto simp: live_def)
    then have a: "adv s ?s1" "RecvSeq ?s1 = new" using that assms(4) by (auto simp: adv_def RecvSeq_def UseSender_def)
    have "dinv e ?s1" by (rule quiet_dinv[OF UseSender_quiet[OF l] d])
    then have "counted e (?s1\<lparr>ResendRequestEndSeqNo := 0\<rparr>)" using assms(1) by (simp add: counted_def dinv_def keeper_ok_def live_def)
    then have c: "adv (?s1\<lparr>ResendRequestEndSeqNo := 0\<rparr>) (check new (?s1\<lparr>ResendRequestEndSeqNo := 0\<rparr>))"
      "LastGapSeqNo (check new (?s1\<lparr>ResendRequestEndSeqNo := 0\<rparr>)) \<le> LastGapSeqNo s"
      using check_adv[of "?s1\<lparr>ResendRequestEndSeqNo := 0\<rparr>" new] assms(2) by (auto simp: behind_def)
    have "adv s (?s1\<lparr>ResendRequestEndSeqNo := 0\<rparr>)" by (rule adv_then[OF a(1)]) (simp add: neutral_def RecvSeq_def)
    then show ?thesis using adv_trans c a(1) by blast
  qed
  have reset: "Delivered (OnRecoverDone e (UseSender f (ClearRecvKeeper s))) = Delivered s \<and>
      ResendRequestEndSeqNo (OnRecoverDone e (UseSender f (ClearRecvKeeper s))) = 0" for f
    by (simp add: OnRecoverDone_def Let_def SendLogonTestRequest_def WriteRec_def SendMsg_def RunAfter_def ClearRecvKeeper_def)
  show ?thesis
  proof (cases ?g)
    case True
    then show ?thesis
      using gap w miss adv_neutral[OF neutral_NotExpected] by (auto simp: RecvSequenceReset_def Let_def WriteRec_def split: option.split)
  next
    case False
    then show ?thesis
      using reset miss by (auto simp: RecvSequenceReset_def Let_def WriteRec_def split: option.split)
  qed
qed

lemma OnMessageProcessed_order:
  assumes "counted e s'" "length (MsgKeeper s') \<le> room" "n < 2 ^ 32" "adv s s'"
  shows "adv s (OnMessageProcessed check n s')"
proof -
  have "behind (uadd 32 n 1) s'" if "n = ResendRequestEndSeqNo s'"
    using that assms(3) by (cases "n + 1 = 2 ^ 32") (auto simp: behind_def uadd_def)
  then show ?thesis using check_adv[OF assms(1) _ assms(2)] adv_trans[OF assms(4)] assms(4) by (simp add: OnMessageProcessed_def)
qed

lemma DispatchWith_order:
  assumes "counted e s" "length (MsgKeeper s) \<le> room" "MsgSeqNum (Msg s) < 2 ^ 32 - 1"
  shows "adv s (DispatchWith check e s) \<or> Delivered (DispatchWith check e s) = Delivered s"
proof (cases "GetField (Msg s) 35")
  case None
  then show ?thesis by (simp add: DispatchWith_def adv_neutral)
next
  case (Some fld)
  let ?n = "MsgSeqNum (Msg s)"
  define s1 where "s1 = s\<lparr>SeqSt := CompareFixSeqNum ?n (RecvSeq s)\<rparr>"
  have ce: "counted e s1" "length (MsgKeeper s1) \<le> room" using assms(1,2) by (simp_all add: counted_def dinv_def keeper_ok_def live_def s1_def)
  then have d: "dinv e s1" "live s1" "ap_in_sequence (Cfg e)" "resets_any (Cfg e)" by (auto simp: counted_def dinv_def)
  have m: "Msg s1 = Msg s" "MsgSeqNum (Msg s1) < 2 ^ 32 - 1" "GetField (Msg s1) 35 = Some fld" using Some assms(3) by (simp_all add: s1_def)
  have cf: "SeqSt s1 = Conform \<Longrightarrow> RecvSeq s1 = MsgSeqNum (Msg s1)" by (simp add: s1_def conform_number RecvSeq_def)
  have n1: "adv s t \<or> Delivered t = Delivered s" if "adv s1 t \<or> Delivered t = Delivered s1" for t
    using that adv_trans[OF adv_neutral[of s s1], of t] by (auto simp: s1_def neutral_def RecvSeq_def)
  obtain fs where fs: "FixOut s = Some fs" using d(2) by (auto simp: live_def s1_def)
  have c: "adv s1 (OnMessageProcessed check ?n t) \<or> Delivered (OnMessageProcessed check ?n t) = Delivered s1"
    if "SeqSt s1 = Conform" "t = DispatchConform check e (Value fld) s1" for t
  proof -
    have ok: "dinv e t" "length (MsgKeeper t) \<le> room" using DispatchConform_ok[OF d(1) ce(2) that(1)] that(2) by auto
    have n: "?n < 2 ^ 32" using m by simp
    show ?thesis
    proof (cases "resets (Cfg e) (Msg s1)")
      case True
      then obtain c where "handler_of (GetConfig (Cfg e) (Value fld)) = Some (c, OnRecvSequenceReset)" using m(3) by (auto simp: resets_def)
      then have "t = RecvSequenceReset check e s1" using d(4) that(2) by (auto simp: DispatchConform_def resets_any_def)
      then have "adv s1 t \<and> LastGapSeqNo t \<le> LastGapSeqNo s1 \<or> Delivered t = Delivered s1 \<and> ResendRequestEndSeqNo t = 0"
        using SequenceReset_order[OF ce m(2) cf] that(1) by simp
      then show ?thesis
        using OnMessageProcessed_order[of t ?n s1] ok n ce(1) by (auto simp: counted_def OnMessageProcessed_def)
    next
      case False
      have "quiet s1 t" unfolding that(2) by (rule DispatchConform_quiet[OF d(2) _ False m(3)]) (simp add: in_range_def that(1))
      moreover have "adv s1 t" unfolding that(2) by (rule DispatchConform_adv[OF d(2) cf[OF that(1)] m(2) d(3) False m(3)])
      ultimately show ?thesis using OnMessageProcessed_order[of t ?n s1] ok n ce(1) by (simp add: counted_def quiet_def)
    qed
  qed
  have x: "adv s1 t \<or> Delivered t = Delivered s1" if "SeqSt s1 \<noteq> Conform" "t = DispatchNotConform check e (Value fld) s1" for t
  proof (cases "resets (Cfg e) (Msg s1)")
    case True
    then obtain c where c: "handler_of (GetConfig (Cfg e) (Value fld)) = Some (c, OnRecvSequenceReset)" using m(3) by (auto simp: resets_def)
    then have "allows (FixSeqAllow c) (SeqSt s1)" using d(4) by (cases "SeqSt s1") (auto simp: resets_any_def)
    then have "t = RecvSequenceReset check e s1" using c that(2) by (simp add: DispatchNotConform_def)
    then show ?thesis using SequenceReset_order[OF ce m(2) cf] by blast
  next
    case False
    show ?thesis unfolding that(2) using adv_neutral[OF DispatchNotConform_neutral[OF that(1) d(3) False m(3)]] by blast
  qed
  have b: "adv s1 (OnBadCompID e tag t s1)" for tag t by (rule OnBadCompID_adv[OF d(2) cf m(2)])
  show ?thesis
    using Some fs n1[of "OnBadCompID e (CompIDs_Check (RecCompIDs fs) (Msg s)) (Value fld) s1"] b n1[OF c[OF _ refl]] n1[OF x[OF _ refl]]
    by (simp add: DispatchWith_def Let_def m(1) flip: s1_def)
qed

end

lemma CheckMsgKeeper_adv:
  assumes "counted e s" "behind n s" "length (MsgKeeper s) < fuel"
  shows "adv s (CheckMsgKeeper fuel e n s) \<and> LastGapSeqNo (CheckMsgKeeper fuel e n s) \<le> LastGapSeqNo s"
  using assms
proof (induction fuel arbitrary: n s)
  case (Suc fuel)
  have e1: "adv s (OnRecoverDone e s)" "adv s (SendResendRequest e a b s)" for a b by (simp_all add: adv_neutral)
  have d: "dinv e s" "ap_in_sequence (Cfg e)" "LastGapSeqNo s < 2 ^ 32 - 1" using Suc.prems(1) by (simp_all add: counted_def)
  have pop: "neutral t (PopFront t)" for t by (simp add: PopFront_def neutral_def RecvSeq_def split: list.split)
  show ?case
  proof (cases "MsgKeeper s")
    case Nil
    then show ?thesis using e1 by (simp add: CheckMsgKeeper_end)
  next
    case (Cons k ks)
    obtain m q where k: "k = (m, q)" by fastforce
    note K = Cons[unfolded k] and P = PopFront_dinv[OF d(1) Cons]
    show ?thesis
    proof (cases "n = q")
      case True
      have b: "behind q s" using Suc.prems(2) True by simp
      note S = kept_step[OF d(1) K b, of "CheckMsgKeeper fuel e"] and t = TakeKept_facts[OF d(1) K b]
      let ?t = "TakeKept e m s"
      let ?d = "DispatchWith (CheckMsgKeeper fuel e) e ?t"
      have sel: "LastGapSeqNo ?t = LastGapSeqNo s" "ResendRequestEndSeqNo ?t = ResendRequestEndSeqNo s" "neutral s ?t"
        by (simp_all add: TakeKept_def neutral_def RecvSeq_def)
      have "adv ?t ?d"
        by (rule DispatchWith_kept_adv[OF t(1)]) (use t sel d(2,3) in simp_all)
      then have "adv s (PopFront ?d)" using adv_trans[OF adv_neutral[OF sel(3)]] adv_then pop by blast
      moreover have "counted e (PopFront ?d)" using S(1,3) d(2,3) by (simp add: counted_def)
      ultimately show ?thesis using Suc.IH[OF _ S(4)] S(2,3) Suc.prems(3) True K adv_trans by fastforce
    next
      case False
      have "behind n (PopFront s)" "counted e (PopFront s)" using P Suc.prems(1,2) by (simp_all add: behind_def counted_def)
      then show ?thesis
        using Suc.IH[of "PopFront s" n] P Suc.prems(3) e1 K False adv_trans[OF adv_neutral[OF pop]]
        by (auto simp: CheckMsgKeeper_end)
    qed
  qed
qed simp

interpretation deliver: keeper_delivery e "CheckMsgKeeper (Suc room) e" room for e room
proof
  fix s n
  assume "counted e s" "behind n s" "length (MsgKeeper s) \<le> room"
  then show "adv s (CheckMsgKeeper (Suc room) e n s) \<and> LastGapSeqNo (CheckMsgKeeper (Suc room) e n s) \<le> LastGapSeqNo s"
    using CheckMsgKeeper_adv[of e s n "Suc room"] by fastforce
qed

lemma DispatchFixMessage_order:
  assumes "counted e s" "MsgSeqNum (Msg s) < 2 ^ 32 - 1"
  shows "adv s (DispatchFixMessage e s) \<or> Delivered (DispatchFixMessage e s) = Delivered s"
  unfolding DispatchFixMessage_def by (rule deliver.DispatchWith_order[OF assms(1) _ assms(2)]) simp

end
