(* ===== verification/FixSessionSpec.thy ===== *)
theory FixSessionSpec
  imports FixSessionOrder
begin

text \<open>
  The properties of the session of \<open>FixSession\<close>, over \<open>FixSessionProps\<close> and \<open>FixSessionOrder\<close>: it never
  uses a null sender, it delivers in order, it asks for what is missing and releases what it kept, and
  it leaves a peer that is silent.
\<close>

subsection \<open>The handlers of the configuration\<close>

lemma handler_Fetch:
  assumes "config_ok c"
  shows "handler_of (GetConfig (FetchConfig c k f) t) =
    (if t = k then handler_of (Some (f (case GetConfig c k of Some m \<Rightarrow> m | None \<Rightarrow> FixMsgTypeConfig)))
     else handler_of (GetConfig c t))"
  using config_get_fetch_facts[OF assms] by simp

lemma config_ok_FixConfig: "config_ok FixConfig"
  by (simp add: config_ok_def FixConfig_def)

lemma GetConfig_FixConfig: "GetConfig FixConfig t = Some m \<Longrightarrow> m = FixMsgTypeConfig"
  by (auto simp: GetConfig_def config_idx_def FixConfig_def sv_find_def find_i_def lower_i_def Let_def split: option.splits if_splits)

lemma handler_FixConfig: "handler_of (GetConfig FixConfig t) = None"
  using GetConfig_FixConfig[of t] by (cases "GetConfig FixConfig t") (auto simp: handler_of_def FixMsgTypeConfig_def)

lemma handler_of_Some: "handler_of (Some m) = map_option (Pair m) (FixMsgHandler m)"
  by (simp add: handler_of_def)

lemma resets_any_Fetch:
  assumes "config_ok c" "resets_any c"
    and "\<And>m. FixMsgHandler (f m) = Some OnRecvSequenceReset \<Longrightarrow>
      AllowTooHigh (FixSeqAllow (f m)) \<and> AllowTooLow (FixSeqAllow (f m)) \<and> NoPreRecord (FixSeqAllow (f m))"
  shows "resets_any (FetchConfig c k f)"
  using assms(2,3) by (auto simp: resets_any_def handler_Fetch[OF assms(1)] handler_of_Some split: if_splits)

lemma ap_in_sequence_Fetch:
  assumes "config_ok c" "ap_in_sequence c"
    and "\<And>m. FixMsgHandler (f m) = Some ApHandler \<Longrightarrow> m \<in> {FixMsgTypeConfig} \<union> {d. GetConfig c k = Some d} \<Longrightarrow>
      \<not> AllowTooHigh (FixSeqAllow (f m)) \<and> \<not> AllowTooLow (FixSeqAllow (f m)) \<and> \<not> NoPreRecord (FixSeqAllow (f m))"
  shows "ap_in_sequence (FetchConfig c k f)"
  using assms(2,3) by (auto simp: ap_in_sequence_def handler_Fetch[OF assms(1)] handler_of_Some split: option.splits if_splits)

lemma InitFixConfig_resets_any: "config_ok c \<Longrightarrow> resets_any c \<Longrightarrow> resets_any (InitFixConfig c)"
  unfolding InitFixConfig_def InitFixConfig_receiver_def Let_def
  by (intro resets_any_Fetch config_get_fetch_facts(1)) simp_all

lemma InitFixConfig_ap: "config_ok c \<Longrightarrow> ap_in_sequence c \<Longrightarrow> ap_in_sequence (InitFixConfig c)"
  unfolding InitFixConfig_def InitFixConfig_receiver_def Let_def
  by (intro ap_in_sequence_Fetch config_get_fetch_facts(1)) simp_all

text \<open>A configuration with one type that is valid for ever and one that is not.\<close>

definition example_config :: fix_config where
  "example_config = InitFixConfig (FetchConfig (FetchConfig FixConfig [0x44] (\<lambda>m. m\<lparr>FixMsgHandler := Some ApHandler\<rparr>))
     [0x38] (\<lambda>m. m\<lparr>TTL := None, FixMsgHandler := Some ApHandler\<rparr>))"

lemma FixConfig_facts: "resets_any FixConfig" "ap_in_sequence FixConfig"
  by (simp_all add: resets_any_def ap_in_sequence_def handler_FixConfig)

lemma example_config_facts: "resets_any example_config" "ap_in_sequence example_config"
  unfolding example_config_def
  by (intro InitFixConfig_resets_any resets_any_Fetch config_get_fetch_facts(1) config_ok_FixConfig FixConfig_facts; simp)
     (intro InitFixConfig_ap ap_in_sequence_Fetch config_get_fetch_facts(1) config_ok_FixConfig FixConfig_facts;
      auto simp: FixMsgTypeConfig_def config_get_fetch_facts config_ok_FixConfig dest!: GetConfig_FixConfig)

subsection \<open>What every run keeps\<close>

text \<open>C3: whatever the peer, the timer, the user and the application do, the session never uses a sender
  it does not have, never takes a message out of an empty keeper and never runs out of rounds when it
  looks for kept messages; it has a sender exactly from the moment it has sent its logon, and while
  the link is up either its timer runs or it has asked for the link to be closed.\<close>

theorem session_is_defined:
  assumes "session_run after cfg s" "resets_any cfg"
  shows "\<not> Undefined s \<and> (FixOut s \<noteq> None \<longleftrightarrow> LogonSent \<le> FixSt s) \<and>
    (FixSt s \<noteq> Disconnected \<longrightarrow> TimerAfter s \<noteq> None \<or> CloseCauses s \<noteq> [])"
proof -
  obtain e :: session_env where "After e = after" "Cfg e = cfg"
    using that[of "undefined\<lparr>After := after, Cfg := cfg\<rparr>"] by simp
  then have "sinv e s" by (rule session_run_sinv[OF assms])
  then show ?thesis unfolding sinv_def by blast
qed

definition example_env :: session_env where
  "example_env = \<lparr>Now = example_time, After = (\<lambda>_. 0), Alive = (\<lambda>_ _. True), Reloaded = (\<lambda>_. []), Cfg = example_config,
     DeviceId = [], ApAnswers = (\<lambda>_ _. []), LogonAnswer = (\<lambda>_ _. LogonIgnored)\<rparr>"

definition logged_on :: fix_session where
  "logged_on = session_step example_env (EvInitiate 5 FixBuilder example_sender) (session_step example_env EvConnected FixSession)"

lemma logged_on_run: "session_run (\<lambda>_. 0) example_config logged_on"
  unfolding logged_on_def
  by (intro session_run.intros) (simp_all add: example_env_def FixSession_def OnFixSessionConnected_def RunAfter_def
      ClearFixSession_def ClearRecvKeeper_def)

lemma session_is_defined_witness: "\<not> Undefined logged_on \<and> FixOut logged_on \<noteq> None"
proof -
  have "FixSt logged_on = LogonSent" by (simp add: logged_on_def OnLogonInitiate_def SendLogon_def Let_def)
  then show ?thesis using session_is_defined[OF logged_on_run example_config_facts(1)] by (simp add: st_order)
qed

subsection \<open>The order of delivery\<close>

lemma Delivered_SendLogout: "Delivered (fst (SendLogout e b fr s)) = Delivered s"
  using neutral_SendLogout[of s e b fr] by (simp add: neutral_def)

lemma Delivered_logon: "Delivered (RecvLogonRequest e s) = Delivered s"
proof -
  have l: "Delivered (SendLogonResponse e f hb b t) = Delivered t" for f hb b t
    using neutral_OnLogonResponsed[of "SendLogon e f hb b t" e GapSkipRecord]
    by (simp add: SendLogonResponse_def neutral_def) (simp add: SendLogon_def Let_def)
  have r: "Delivered (RejectLogon e x f t) = Delivered t" for x f t
    using Delivered_SendLogout[of e "LogoutText x" "Some (Write HdrError (Now e) (OrigMsgStr t) f)" t]
    by (cases "SendLogout e (LogoutText x) (Some (Write HdrError (Now e) (OrigMsgStr t) f)) t") (simp add: RejectLogon_def)
  show ?thesis
    by (auto simp: RecvLogonRequest_def OnLogonAccepted_def Let_def Delivered_SendLogout l r split: logon_answer.split sum.split)
qed

lemma Check1stMustLogon_cases: "Check1stMustLogon s = (ok, t) \<Longrightarrow> ok \<and> t = s \<or> \<not> ok \<and> Delivered t = Delivered s"
  by (auto simp: Check1stMustLogon_def CloseSession_def split: option.splits if_splits)

text \<open>C4: the application gets its messages in sequence: whatever message arrives in whatever run, what is
  handed over because of it has ascending numbers, from the number expected up to the last one before
  the number expected next, so nothing is handed over twice or out of order; messages that were kept
  because of a gap are included.\<close>

theorem application_order:
  assumes "session_run after cfg s" "resets_any cfg" "ap_in_sequence cfg" "After e = after" "Cfg e = cfg"
    and "msg_ok after m p" "MsgSeqNum p < 2 ^ 32 - 1" "LastGapSeqNo s < 2 ^ 32 - 1"
  defines "s' \<equiv> session_step e (EvMessage m p) s"
  shows "\<exists>ds. Delivered s' = Delivered s @ ds \<and> sorted_wrt (<) (map fst ds) \<and>
    (\<forall>d\<in>set ds. RecvSeq s \<le> fst d \<and> fst d < RecvSeq s')"
proof -
  let ?s = "s\<lparr>Msg := p, MsgReceivedCount := uadd 32 (MsgReceivedCount s) 1, OrigMsgStr := m\<rparr>"
  have i: "sinv e s" by (rule session_run_sinv[OF assms(1,2,4,5)])
  have same: "\<exists>ds. Delivered t = Delivered s @ ds \<and> sorted_wrt (<) (map fst ds) \<and> (\<forall>d\<in>set ds. RecvSeq s \<le> fst d \<and> fst d < RecvSeq t)"
    if "Delivered t = Delivered s" for t using that by (intro exI[of _ "[]"]) simp
  have disp: "\<exists>ds. Delivered t = Delivered s @ ds \<and> sorted_wrt (<) (map fst ds) \<and> (\<forall>d\<in>set ds. RecvSeq s \<le> fst d \<and> fst d < RecvSeq t)"
    if "t = DispatchFixMessage e ?s" "FixSt s \<noteq> Disconnected" "FixSt s \<noteq> Connected" for t
  proof -
    have "live s" by (rule sinv_live[OF i]) (use i that in \<open>auto simp: sinv_def st_cases\<close>)
    then have "counted e ?s" using i assms(2-8) by (simp add: counted_def dinv_def sinv_def keeper_ok_def live_def)
    moreover have "MsgSeqNum (Msg ?s) < 2 ^ 32 - 1" using assms(7) by simp
    ultimately have "adv ?s t \<or> Delivered t = Delivered ?s" unfolding that(1) by (rule DispatchFixMessage_order)
    moreover have "RecvSeq ?s = RecvSeq s" "Delivered ?s = Delivered s" by (simp_all add: RecvSeq_def)
    ultimately show ?thesis using same unfolding adv_def by metis
  qed
  show ?thesis
    unfolding s'_def
    using disp[OF refl] same Delivered_logon[of e ?s] Check1stMustLogon_cases[of ?s]
    by (cases "FixSt s") (auto simp: MessageParsed_def Let_def split: prod.split)
qed

text \<open>A message of the other end.\<close>

definition example_fields :: "byte \<Rightarrow> nat \<Rightarrow> (nat \<times> byte list) list" where
  "example_fields mt n = sent_fields [mt] n (replicate 21 0x30) (comp_id_fields (ascii ''B'') [] (ascii ''A'') []) []"

definition example_msg :: "byte \<Rightarrow> nat \<Rightarrow> byte list" where
  "example_msg mt n = Final (begin_header (ascii ''FIX.4.4'')) (FixBuilder\<lparr>Buffer := body_of (example_fields mt n)\<rparr>)"

lemma example_fields_ok: "mt \<noteq> SPL \<Longrightarrow> SPL \<notin> set cks \<Longrightarrow> fields_ok (framed (ascii ''FIX.4.4'') (example_fields mt n) cks)"
  "mt \<noteq> SPL \<Longrightarrow> fields_ok (example_fields mt n)"
  by (auto simp: fields_ok_def framed_def example_fields_def sent_fields_def comp_id_fields_def ascii_def vals_def)

lemma example_msg_ok:
  assumes "mt \<noteq> SPL" "n < 2 ^ 32"
  obtains p where "msg_ok after (example_msg mt n) p" "MsgSeqNum p = n" "FP p (example_fields mt n)"
proof -
  let ?b = "FixBuilder\<lparr>Buffer := body_of (example_fields mt n)\<rparr>"
  obtain p where p: "FP p (example_fields mt n)"
    using ParseFields_loop_text[OF FixParser_FP, of "example_fields mt n" after "[]"] example_fields_ok(2)[OF assms(1)] by auto
  have b: "Buffer ?b = body_of (example_fields mt n)" "example_fields mt n \<noteq> []"
    by (simp_all add: example_fields_def sent_fields_def)
  have v: "vals (example_fields mt n) 34 = UIntToStrRev [] n # []"
    by (simp add: vals_def example_fields_def sent_fields_def comp_id_fields_def)
  note f = example_fields_ok(1)[OF assms(1)]
  have "msg_ok after (example_msg mt n) (ParseFieldsEnd p)"
    unfolding example_msg_def by (rule msg_ok_Final(1)[OF b p v assms(2) f])
  moreover have "MsgSeqNum (ParseFieldsEnd p) = n" by (rule msg_ok_Final(2)[OF b p v assms(2) f])
  ultimately show thesis using that p by (simp add: ParseFieldsEnd_FP)
qed

lemma application_order_witness:
  "\<exists>p ds. Delivered (session_step example_env (EvMessage (example_msg 0x44 1) p) logged_on) = Delivered logged_on @ ds \<and>
     sorted_wrt (<) (map fst ds)"
proof -
  obtain p where p: "msg_ok (\<lambda>_. 0) (example_msg 0x44 1) p" "MsgSeqNum p = 1" by (rule example_msg_ok[of "0x44" 1]) auto
  have g: "LastGapSeqNo logged_on < 2 ^ 32 - 1"
    by (simp add: logged_on_def OnLogonInitiate_def SendLogon_def Let_def OnFixSessionConnected_def RunAfter_def ClearFixSession_def ClearRecvKeeper_def)
  have e: "After example_env = (\<lambda>_. 0)" "Cfg example_env = example_config" by (simp_all add: example_env_def)
  show ?thesis
    using application_order[OF logged_on_run example_config_facts e p(1) _ g] p(2) by auto
qed

subsection \<open>A silent peer\<close>

fun ticks :: "session_env \<Rightarrow> int list \<Rightarrow> fix_session \<Rightarrow> fix_session" where
  "ticks e [] s = s"
| "ticks e (idle # idles) s = ticks e idles (session_step e (EvTimer idle) s)"

definition patience :: "fix_config \<Rightarrow> fix_session_st \<Rightarrow> nat" where
  "patience cfg st = (case st of ApReady \<Rightarrow> HbTestRequestCount cfg + 2 | LogonTest \<Rightarrow> MaxLogonTestCount cfg + 1
     | LogonRecovering \<Rightarrow> 2 | _ \<Rightarrow> 1)"

lemma closed_stays: "CloseCauses s \<noteq> [] \<Longrightarrow> CloseCauses (session_step e (EvTimer i) s) \<noteq> []"
  by (cases "FixSt s") (auto simp: FixSessionOnTimer_def TimerApReady_def SendLogonTestRequest_def Let_def CloseSession_def
      RunAfter_def SendMsg_def)

lemma closed_ticks: "CloseCauses s \<noteq> [] \<Longrightarrow> CloseCauses (ticks e is s) \<noteq> []"
  by (induction "is" arbitrary: s) (auto simp del: session_step.simps dest: closed_stays)

lemma ApReady_ticks:
  assumes "FixSt s = ApReady" "MsgReceivedCount s = 0" "FixOut s \<noteq> None" "HbTestRequestCount (Cfg e) < 2 ^ 32 - 1"
    and "HbTestRequestCount (Cfg e) < HbTestCount s + length is \<and> is \<noteq> []" "HbTestCount s < 2 ^ 32 - 1"
    and "\<forall>i\<in>set is. int (1000 * HeartBtInt s) - 1000 \<le> i"
  shows "CloseCauses (ticks e is s) \<noteq> []"
  using assms
proof (induction "is" arbitrary: s)
  case (Cons i "is")
  let ?s = "session_step e (EvTimer i) s" and ?c = "uadd 32 (HbTestCount s) 1"
  have c: "?c = HbTestCount s + 1" using Cons.prems(6) by (simp add: wrap_simps)
  have m: "uadd 32 (HbTestRequestCount (Cfg e)) 1 = HbTestRequestCount (Cfg e) + 1" using Cons.prems(4) by (simp add: wrap_simps)
  have r: "\<not> 1000 < int (1000 * HeartBtInt s) - i" using Cons.prems(7) by auto
  show ?case
  proof (cases "HbTestRequestCount (Cfg e) \<le> HbTestCount s")
    case True
    have "CloseCauses ?s \<noteq> []"
      using Cons.prems(1-3) r c m True by (auto simp: FixSessionOnTimer_def TimerApReady_def Let_def CloseSession_def RunAfter_def)
    then show ?thesis using closed_ticks by simp
  next
    case False
    have "FixSt ?s = ApReady" "MsgReceivedCount ?s = 0" "FixOut ?s \<noteq> None" "HbTestCount ?s = HbTestCount s + 1"
      "HeartBtInt ?s = HeartBtInt s"
      using Cons.prems(1-3,6) r c m False
      by (simp_all add: FixSessionOnTimer_def TimerApReady_def Let_def RunAfter_def SendMsg_def)
    moreover have "is \<noteq> []" using Cons.prems(5) False by auto
    ultimately show ?thesis using Cons.IH[of ?s] Cons.prems(4-7) False by simp
  qed
qed simp

lemma LogonTest_ticks:
  assumes "FixSt s = LogonTest" "MsgReceivedCount s = 0" "MaxLogonTestCount (Cfg e) < 2 ^ 32"
    and "MaxLogonTestCount (Cfg e) \<le> HbTestCount s + length is \<and> is \<noteq> []" "HbTestCount s < 2 ^ 32 - 1"
  shows "CloseCauses (ticks e is s) \<noteq> []"
  using assms
proof (induction "is" arbitrary: s)
  case (Cons i "is")
  let ?s = "session_step e (EvTimer i) s"
  have c: "uadd 32 (HbTestCount s) 1 = HbTestCount s + 1" using Cons.prems(5) by (simp add: wrap_simps)
  show ?case
  proof (cases "MaxLogonTestCount (Cfg e) \<le> HbTestCount s + 1")
    case True
    have "CloseCauses ?s \<noteq> []" using Cons.prems(1,2) c True by (simp add: FixSessionOnTimer_def Let_def CloseSession_def)
    then show ?thesis using closed_ticks by simp
  next
    case False
    have "FixSt ?s = LogonTest" "MsgReceivedCount ?s = 0" "HbTestCount ?s = HbTestCount s + 1"
      using Cons.prems(1,2,5) c False
      by (simp_all add: FixSessionOnTimer_def Let_def SendLogonTestRequest_def SendMsg_def RunAfter_def st_order)
    moreover have "is \<noteq> []" using Cons.prems(4) False by auto
    ultimately show ?thesis using Cons.IH[of ?s] Cons.prems(3-5) False by simp
  qed
qed simp

text \<open>C7: a peer that is silent is left, when our own side is idle as well: when nothing is received, and at every timer
  event the last message we sent is \<open>HeartBtInt\<close> seconds old but for one, a session that is not
  disconnected asks for its link to be closed after a number of timer events that depends on its state
  only: at once while it waits for a logon or a logout, at the second event in the recovery, and one event after
  \<open>MaxLogonTestCount\<close> test requests, or \<open>HbTestRequestCount\<close> + 1 heartbeats, at the latest. While our side goes on
  sending, the silence is not looked at (\<open>busy_side_keeps_a_silent_peer\<close>).\<close>

theorem silent_peer_is_left:
  assumes "FixSt s \<noteq> Disconnected" "FixSt s = ApReady \<Longrightarrow> FixOut s \<noteq> None" "patience (Cfg e) (FixSt s) \<le> length is"
    and "\<forall>i\<in>set is. int (1000 * HeartBtInt s) - 1000 \<le> i" "HbTestCount s < 2 ^ 32 - 1"
    and "HbTestRequestCount (Cfg e) < 2 ^ 32 - 1" "0 < MaxLogonTestCount (Cfg e)" "MaxLogonTestCount (Cfg e) < 2 ^ 32"
  shows "CloseCauses (ticks e is s) \<noteq> []"
proof -
  obtain i js where "is": "is = i # js" using assms(3) by (cases "is") (auto simp: patience_def split: fix_session_st.splits)
  let ?s = "session_step e (EvTimer i) s"
  consider (ready) "FixSt s = ApReady" | (test) "FixSt s = LogonTest" | (rec) "FixSt s = LogonRecovering"
    | (now) "FixSt s \<in> {Connected, LogonSent, LogoutPending}" using assms(1) by (cases "FixSt s") auto
  then show ?thesis
  proof cases
    case ready
    show ?thesis
    proof (cases "MsgReceivedCount s = 0")
      case True
      show ?thesis by (rule ApReady_ticks) (use assms ready True "is" in \<open>auto simp: patience_def\<close>)
    next
      case False
      have r: "\<not> 1000 < int (1000 * HeartBtInt s) - i" using assms(4) "is" by auto
      have "FixSt ?s = ApReady" "MsgReceivedCount ?s = 0" "FixOut ?s \<noteq> None" "HbTestCount ?s = 0" "HeartBtInt ?s = HeartBtInt s"
        using ready False assms(2) r by (auto simp: FixSessionOnTimer_def TimerApReady_def Let_def RunAfter_def)
      then have "CloseCauses (ticks e js ?s) \<noteq> []"
        by (intro ApReady_ticks) (use assms ready "is" in \<open>auto simp: patience_def\<close>)
      then show ?thesis using "is" by simp
    qed
  next
    case test
    show ?thesis
    proof (cases "MsgReceivedCount s = 0")
      case True
      show ?thesis by (rule LogonTest_ticks) (use assms test True "is" in \<open>auto simp: patience_def\<close>)
    next
      case False
      have "FixSt ?s = LogonTest" "MsgReceivedCount ?s = 0" "HbTestCount ?s = 0"
        using test False by (auto simp: FixSessionOnTimer_def SendLogonTestRequest_def SendMsg_def Let_def RunAfter_def st_order)
      moreover have "MaxLogonTestCount (Cfg e) \<le> length js" using assms(3) test "is" by (simp add: patience_def)
      ultimately show ?thesis using LogonTest_ticks[of ?s e js] assms(7,8) "is"
        by (cases js) (auto simp del: session_step.simps)
    qed
  next
    case rec
    obtain j ks where js: "js = j # ks" using assms(3) rec "is" by (cases js) (auto simp: patience_def)
    have "CloseCauses (session_step e (EvTimer j) ?s) \<noteq> []"
      using rec by (simp add: FixSessionOnTimer_def CloseSession_def RunAfter_def)
    then show ?thesis using closed_ticks "is" js by simp
  next
    case now
    then have "CloseCauses ?s \<noteq> []" by (auto simp: FixSessionOnTimer_def CloseSession_def)
    then show ?thesis using closed_ticks "is" by simp
  qed
qed

text \<open>
  In the state \<open>ApReady\<close> a timer event that comes while our last message is younger only sets the timer again: a
  session whose application keeps sending never counts, nor leaves, a peer that has fallen silent.
\<close>

theorem busy_side_keeps_a_silent_peer:
  assumes "FixSt s = ApReady" "FixOut s \<noteq> None" "\<forall>i\<in>set is. i < int (1000 * HeartBtInt s) - 1000"
  shows "CloseCauses (ticks e is s) = CloseCauses s \<and> HbTestCount (ticks e is s) = HbTestCount s"
  using assms
proof (induction "is" arbitrary: s)
  case (Cons i "is")
  let ?s = "session_step e (EvTimer i) s"
  have "1000 < int (1000 * HeartBtInt s) - i" using Cons.prems(3) by auto
  then have "FixSt ?s = ApReady" "FixOut ?s \<noteq> None" "HeartBtInt ?s = HeartBtInt s" "CloseCauses ?s = CloseCauses s"
    "HbTestCount ?s = HbTestCount s"
    using Cons.prems(1,2) by (auto simp: FixSessionOnTimer_def TimerApReady_def Let_def RunAfter_def)
  then show ?case using Cons.IH[of ?s] Cons.prems(3) by simp
qed simp

lemma FetchConfig_fields: "HbTestRequestCount (FetchConfig c k f) = HbTestRequestCount c"
  "MaxLogonTestCount (FetchConfig c k f) = MaxLogonTestCount c"
  by (simp_all add: FetchConfig_def split: option.split prod.split)

lemma silent_peer_is_left_witness:
  "CloseCauses (ticks example_env [0] logged_on) \<noteq> [] \<and>
   CloseCauses (ticks example_env (replicate 11 0) (logged_on\<lparr>FixSt := LogonTest, HeartBtInt := 0\<rparr>)) \<noteq> []"
proof -
  have m: "HbTestRequestCount example_config = 2" "MaxLogonTestCount example_config = 10"
    by (simp_all add: example_config_def InitFixConfig_def InitFixConfig_receiver_def Let_def FetchConfig_fields)
       (simp_all add: FixConfig_def)
  have l: "FixSt logged_on = LogonSent" "HbTestCount logged_on = 0" "HeartBtInt logged_on = 5" "FixOut logged_on \<noteq> None"
    by (simp_all add: logged_on_def OnLogonInitiate_def SendLogon_def Let_def OnFixSessionConnected_def RunAfter_def
        ClearFixSession_def ClearRecvKeeper_def)
  have "CloseCauses (ticks example_env [5000] logged_on) \<noteq> []"
    by (rule silent_peer_is_left) (use l m in \<open>simp_all add: patience_def example_env_def\<close>)
  then have "CloseCauses (ticks example_env [0] logged_on) \<noteq> []" using l by (simp add: FixSessionOnTimer_def)
  moreover have "CloseCauses (ticks example_env (replicate 11 0) (logged_on\<lparr>FixSt := LogonTest, HeartBtInt := 0\<rparr>)) \<noteq> []"
    by (rule silent_peer_is_left) (use l m in \<open>simp_all add: patience_def example_env_def\<close>)
  ultimately show ?thesis by blast
qed

subsection \<open>A gap, and its end\<close>

definition for_ap :: "session_env \<Rightarrow> comp_ids \<Rightarrow> fix_msg_type_config \<Rightarrow> fix_parser \<Rightarrow> bool" where
  "for_ap e ids c p \<longleftrightarrow> (\<exists>fld. GetField p 35 = Some fld \<and> GetConfig (Cfg e) (Value fld) = Some c) \<and>
     FixMsgHandler c = Some ApHandler \<and> CompIDs_Check ids p = 0 \<and>
     FixSeqAllow c = \<lparr>AllowTooHigh = False, AllowTooLow = False, NoPreRecord = False\<rparr>"

lemma Write_fields [simp]:
  "Out (Write h t a fs) = Out fs" "NextSendSeq (Write h t a fs) = NextSendSeq fs" "BeginHeader (Write h t a fs) = BeginHeader fs"
  "RecCompIDs (Write h t a fs) = RecCompIDs fs" "IsReplayingAll (Write h t a fs) = IsReplayingAll fs"
  by (simp_all add: Write_def WriteBuffer_def AddWork_def Let_def)

lemma Send_Out:
  assumes "\<not> IsReplayingAll fs" "RecCompIDs fs = CompIDs sc ss tc ts" "Buffer b = body_of ufs" "Time b = None"
  shows "\<exists>b'. Out (Send now (SPLFLDMSGTYPE mt) b fs) = Out fs @ [Final (BeginHeader fs) b'] \<and>
    Buffer b' = body_of (sent_fields mt (NextSendSeq fs) (FIXMS now) (comp_id_fields sc ss tc ts) ufs)"
proof -
  have "Header (RecCompIDs fs) = body_of (comp_id_fields sc ss tc ts)" using assms(2) CompIDs_fields by simp
  then have "Buffer (SendBuilder now (SPLFLDMSGTYPE mt) b fs) =
      body_of (sent_fields mt (NextSendSeq fs) (FIXMS now) (comp_id_fields sc ss tc ts) ufs)"
    using assms(3,4) by (simp add: SendBuilder_def RevPut_def PutUtcNow_def PutUtcTime_def SPLFLDMSGTYPE_def body_of_def sent_fields_def)
  moreover have "Out (Send now (SPLFLDMSGTYPE mt) b fs) = Out fs @ [Final (BeginHeader fs) (SendBuilder now (SPLFLDMSGTYPE mt) b fs)]"
    using assms(1) by (simp add: Send_def SendNext_def Let_def OnSendFixMessage_def WriteAfterSend_def WriteBuffer_def AddWork_def)
  ultimately show ?thesis by blast
qed

text \<open>C6: the first message behind a gap is not handed to the application and not counted; the session asks
  for everything from the number it expects: up to the message before it when its type is valid for
  ever, and then the message is kept, up to the message itself otherwise.\<close>

theorem gap_is_asked_for:
  assumes "FixOut s = Some fs" "\<not> IsReplayingAll fs" "RecCompIDs fs = CompIDs sc ss tc ts"
    and "for_ap e (RecCompIDs fs) c (Msg s)" "NextRecvSeq fs < MsgSeqNum (Msg s)" "MsgSeqNum (Msg s) < 2 ^ 32"
    and "LastGapSeqNo s < MsgSeqNum (Msg s)" "ResendRequestEndSeqNo s = 0"
  defines "n \<equiv> MsgSeqNum (Msg s)" and "s' \<equiv> DispatchFixMessage e s"
  shows "Delivered s' = Delivered s \<and> RecvSeq s' = RecvSeq s \<and> LastGapSeqNo s' = n \<and>
    MsgKeeper s' = MsgKeeper s @ (if IsInfiniteTTL c then [(OrigMsgStr s, n)] else []) \<and>
    ResendRequestEndSeqNo s' = (if IsInfiniteTTL c then n - 1 else n) \<and>
    (\<exists>fs' b. FixOut s' = Some fs' \<and> Out fs' = Out fs @ [Final (BeginHeader fs) b] \<and>
       Buffer b = body_of (sent_fields kMSGTYPE_ResendRequest (NextSendSeq fs) (FIXMS (Now e)) (comp_id_fields sc ss tc ts)
         [(7, UIntToStrRev [] (NextRecvSeq fs)), (16, UIntToStrRev [] (if IsInfiniteTTL c then n - 1 else n))]))"
proof -
  let ?check = "CheckMsgKeeper (Suc (length (MsgKeeper s))) e" and ?hdr = "if IsInfiniteTTL c then HdrGapRecv else HdrIgnoreRecv"
  let ?last = "if IsInfiniteTTL c then n - 1 else n"
  let ?b = "RevPut (SPLTAGEQ 7 @ UIntToStrRev [] (NextRecvSeq fs) @ SPLTAGEQ 16 @ UIntToStrRev [] ?last) FixBuilder"
  let ?fs = "Write ?hdr (Now e) (OrigMsgStr s) fs"
  obtain fld where fld: "GetField (Msg s) 35 = Some fld" "GetConfig (Cfg e) (Value fld) = Some c" using assms(4) by (auto simp: for_ap_def)
  have st: "CompareFixSeqNum (MsgSeqNum (Msg s)) (NextRecvSeq fs) = TooHigh" using assms(5) by (simp add: CompareFixSeqNum_def)
  have x: "s' = DispatchNotConform ?check e (Value fld) (s\<lparr>SeqSt := TooHigh\<rparr>)"
    using assms(1,4) fld st by (simp add: s'_def DispatchFixMessage_def DispatchWith_def for_ap_def RecvSeq_def Let_def)
  also have "\<dots> = OnMsgSeqNumNotExpected e (if IsInfiniteTTL c then GapKeepRequired else GapDontKeep) (s\<lparr>SeqSt := TooHigh\<rparr>)"
    using assms(4) fld by (simp add: DispatchNotConform_def for_ap_def handler_of_def)
  finally have "s' = s\<lparr>SeqSt := TooHigh, LastGapSeqNo := n,
      MsgKeeper := MsgKeeper s @ (if IsInfiniteTTL c then [(OrigMsgStr s, n)] else []), ResendRequestEndSeqNo := ?last,
      FixOut := Some (Send (Now e) (SPLFLDMSGTYPE kMSGTYPE_ResendRequest) ?b ?fs)\<rparr>"
    using assms(1,6-8)
    by (simp add: OnMsgSeqNumNotExpected_def Let_def WriteRec_def UseSender_def SendResendRequest_def SendMsg_def RecvSeq_def wrap_simps n_def)
  moreover have "\<exists>b. Out (Send (Now e) (SPLFLDMSGTYPE kMSGTYPE_ResendRequest) ?b ?fs) = Out ?fs @ [Final (BeginHeader ?fs) b] \<and>
      Buffer b = body_of (sent_fields kMSGTYPE_ResendRequest (NextSendSeq ?fs) (FIXMS (Now e)) (comp_id_fields sc ss tc ts)
        [(7, UIntToStrRev [] (NextRecvSeq fs)), (16, UIntToStrRev [] ?last)])"
    by (rule Send_Out) (use assms(2,3) in \<open>simp_all add: RevPut_def FixBuilder_def body_of_def\<close>)
  ultimately show ?thesis using assms(1) by (simp add: RecvSeq_def)
qed

lemma GetConfig_Fetch:
  "config_ok c \<Longrightarrow> GetConfig (FetchConfig c k f) t =
    (if t = k then Some (f (case GetConfig c k of Some m \<Rightarrow> m | None \<Rightarrow> FixMsgTypeConfig)) else GetConfig c t)"
  using config_get_fetch_facts by simp

definition ap_config :: fix_msg_type_config where
  "ap_config = FixMsgTypeConfig\<lparr>FixMsgHandler := Some ApHandler\<rparr>"

lemma example_config_types:
  "GetConfig example_config [0x38] = Some (ap_config\<lparr>TTL := None\<rparr>)" "GetConfig example_config [0x44] = Some ap_config"
proof -
  note ok = config_get_fetch_facts(1) config_ok_FixConfig
  have d: "(case GetConfig FixConfig t of Some m \<Rightarrow> m | None \<Rightarrow> FixMsgTypeConfig) = FixMsgTypeConfig" for t
    using GetConfig_FixConfig[of t] by (cases "GetConfig FixConfig t") auto
  show "GetConfig example_config [0x38] = Some (ap_config\<lparr>TTL := None\<rparr>)" "GetConfig example_config [0x44] = Some ap_config"
    unfolding example_config_def InitFixConfig_def InitFixConfig_receiver_def Let_def
    by (simp_all add: GetConfig_Fetch ok d ascii_def ap_config_def)
qed

lemma example_for_ap:
  assumes "FP p F" "\<forall>t\<in>{35, 49, 56}. vals F t = vals (example_fields mt n) t" "GetConfig example_config [mt] = Some c"
    "FixMsgHandler c = Some ApHandler" "FixSeqAllow c = FixSeqAllow FixMsgTypeConfig"
  shows "for_ap example_env (CompIDs (ascii ''A'') [] (ascii ''B'') []) c p"
proof -
  have v: "vals F 35 = [mt] # []" "vals F 49 = ascii ''B'' # []" "vals F 56 = ascii ''A'' # []"
    using assms(2) by (simp_all add: vals_def example_fields_def sent_fields_def comp_id_fields_def)
  note g = FP_first_value[OF assms(1) v(1)] FP_first_value[OF assms(1) v(2)] FP_first_value[OF assms(1) v(3)]
  then have "CompIDs_Check (CompIDs (ascii ''A'') [] (ascii ''B'') []) p = 0"
    by (simp add: CompIDs_Check_def CompID_Check_def CompIDs_def Let_def)
  then show ?thesis using g assms(3-5) by (simp add: for_ap_def example_env_def FixMsgTypeConfig_def)
qed

lemma gap_is_asked_for_witness:
  "\<exists>p. let s = logged_on\<lparr>FixSt := ApReady, FixOut := Some example_sender, Msg := p, OrigMsgStr := example_msg 0x38 5\<rparr>;
         s' = DispatchFixMessage example_env s
       in MsgKeeper s' = [(example_msg 0x38 5, 5)] \<and> ResendRequestEndSeqNo s' = 4 \<and> Delivered s' = []"
proof -
  obtain p where p: "MsgSeqNum p = 5" "FP p (example_fields 0x38 5)" by (rule example_msg_ok[of "0x38" 5]) auto
  let ?s = "logged_on\<lparr>FixSt := ApReady, FixOut := Some example_sender, Msg := p, OrigMsgStr := example_msg 0x38 5\<rparr>"
  have a: "for_ap example_env (RecCompIDs example_sender) (ap_config\<lparr>TTL := None\<rparr>) (Msg ?s)"
    using example_for_ap[OF p(2) _ example_config_types(1)] by (simp add: ap_config_def)
  have l: "LastGapSeqNo logged_on = 0" "ResendRequestEndSeqNo logged_on = 0" "MsgKeeper logged_on = []" "Delivered logged_on = []"
    by (simp_all add: logged_on_def OnLogonInitiate_def SendLogon_def Let_def OnFixSessionConnected_def RunAfter_def
        ClearFixSession_def ClearRecvKeeper_def FixSession_def)
  have f: "FixOut ?s = Some example_sender" "\<not> IsReplayingAll example_sender" "RecCompIDs example_sender = CompIDs (ascii ''A'') [] (ascii ''B'') []"
    "NextRecvSeq example_sender < MsgSeqNum (Msg ?s)" "MsgSeqNum (Msg ?s) < 2 ^ 32" "LastGapSeqNo ?s < MsgSeqNum (Msg ?s)"
    "ResendRequestEndSeqNo ?s = 0" using l p(1) by simp_all
  show ?thesis
    using gap_is_asked_for[OF f(1-3) a f(4-7)] l p(1)
    by (intro exI[of _ p]) (simp add: Let_def IsInfiniteTTL_def)
qed

lemma sender_setup [simp]:
  "RecCompIDs (Send t mt b f) = RecCompIDs f" "RecCompIDs (WriteInputConform t m f) = RecCompIDs f"
  by (simp_all add: Send_def SendNext_def Let_def WriteAfterSend_def OnSendFixMessage_def WriteInputConform_def WriteBuffer_def AddWork_def)

text \<open>What one message for the application changes.\<close>

definition delivered_one :: "nat \<Rightarrow> byte list \<Rightarrow> fix_session \<Rightarrow> fix_session \<Rightarrow> bool" where
  "delivered_one n m s s' \<longleftrightarrow> (\<forall>fs. FixOut s = Some fs \<longrightarrow> (\<exists>fs'. FixOut s' = Some fs' \<and> RecCompIDs fs' = RecCompIDs fs \<and>
       NextRecvSeq fs' = n + 1)) \<and> Delivered s' = Delivered s @ [(n, m)] \<and> MsgKeeper s' = MsgKeeper s \<and>
     ResendRequestEndSeqNo s' = ResendRequestEndSeqNo s \<and> LastGapSeqNo s' = LastGapSeqNo s \<and> Msg s' = Msg s"

lemma fold_SendMsg_same:
  "\<exists>fs'. FixOut s = Some fs \<longrightarrow> FixOut (fold (\<lambda>(mt, b). SendMsg e mt b) xs s) = Some fs' \<and> RecCompIDs fs' = RecCompIDs fs \<and> NextRecvSeq fs' = NextRecvSeq fs"
proof (induction xs arbitrary: s fs)
  case Nil
  show ?case by (intro exI[of _ fs]) simp
next
  case (Cons x xs)
  have "FixOut s = Some fs \<Longrightarrow> FixOut (SendMsg e (fst x) (snd x) s) = Some (Send (Now e) (SPLFLDMSGTYPE (fst x)) (snd x) fs)"
    by (simp add: SendMsg_def)
  then show ?case
    using Cons.IH[of "SendMsg e (fst x) (snd x) s" "Send (Now e) (SPLFLDMSGTYPE (fst x)) (snd x) fs"]
    by (auto simp: case_prod_beta)
qed

lemma RecvAp_one:
  assumes "FixOut s = Some fs" "NextRecvSeq fs = MsgSeqNum (Msg s) + 1"
  shows "delivered_one (MsgSeqNum (Msg s)) (OrigMsgStr s) s (RecvAp e s)"
proof -
  let ?s = "s\<lparr>Delivered := Delivered s @ [(MsgSeqNum (Msg s), OrigMsgStr s)]\<rparr>"
  have k: "MsgKeeper (fold (\<lambda>(mt, b). SendMsg e mt b) xs t) = MsgKeeper t \<and> ResendRequestEndSeqNo (fold (\<lambda>(mt, b). SendMsg e mt b) xs t) = ResendRequestEndSeqNo t \<and>
      LastGapSeqNo (fold (\<lambda>(mt, b). SendMsg e mt b) xs t) = LastGapSeqNo t \<and> Msg (fold (\<lambda>(mt, b). SendMsg e mt b) xs t) = Msg t" for xs t
    by (induction xs arbitrary: t) (auto simp: SendMsg_def)
  show ?thesis
    using k[of "ApAnswers e (OrigMsgStr s) (Msg s)" ?s] fold_SendMsg_same[of ?s fs e "ApAnswers e (OrigMsgStr s) (Msg s)"] RecvAp_counts(1)[of e s] assms
    by (auto simp: delivered_one_def RecvAp_def)
qed

lemma Dispatch_ap:
  assumes "FixOut s = Some fs" "for_ap e (RecCompIDs fs) c (Msg s)" "MsgSeqNum (Msg s) = NextRecvSeq fs" "NextRecvSeq fs + 1 < 2 ^ 32"
  obtains s' where "DispatchWith check e s = OnMessageProcessed check (NextRecvSeq fs) s'"
    "delivered_one (NextRecvSeq fs) (OrigMsgStr s) s s'"
proof -
  obtain fld where fld: "GetField (Msg s) 35 = Some fld" "GetConfig (Cfg e) (Value fld) = Some c" using assms(2) by (auto simp: for_ap_def)
  let ?s1 = "UseSender (WriteInputConform (Now e) (OrigMsgStr s)) (s\<lparr>SeqSt := Conform\<rparr>)"
  have f1: "FixOut ?s1 = Some (WriteInputConform (Now e) (OrigMsgStr s) fs)" "Msg ?s1 = Msg s" "OrigMsgStr ?s1 = OrigMsgStr s"
    using assms(1) by simp_all
  have "delivered_one (MsgSeqNum (Msg ?s1)) (OrigMsgStr ?s1) ?s1 (RecvAp e ?s1)"
    by (rule RecvAp_one[OF f1(1)]) (use assms(3,4) in \<open>simp add: wrap_simps\<close>)
  then have "delivered_one (NextRecvSeq fs) (OrigMsgStr s) s (RecvAp e ?s1)"
    using f1 assms(1,3) by (simp add: delivered_one_def)
  moreover have "DispatchWith check e s = OnMessageProcessed check (NextRecvSeq fs) (RecvAp e ?s1)"
    using assms(1-3) fld
    by (simp add: DispatchWith_def Let_def RecvSeq_def CompareFixSeqNum_def for_ap_def DispatchConform_def handler_of_def)
  ultimately show thesis using that by blast
qed

text \<open>A kept message that is for the application, however it is read again.\<close>

definition kept_ap :: "session_env \<Rightarrow> comp_ids \<Rightarrow> byte list \<Rightarrow> nat \<Rightarrow> bool" where
  "kept_ap e ids m n \<longleftrightarrow> (\<forall>q. parser_wf q \<longrightarrow> parser_wf (reparse (After e) m q) \<and> MsgSeqNum (reparse (After e) m q) = n \<and>
     (\<exists>c. for_ap e ids c (reparse (After e) m q)))"

lemma CheckMsgKeeper_releases:
  assumes "FixOut s = Some fs" "NextRecvSeq fs = n" "MsgKeeper s = zip ms [n..<n + length ms]" "LastGapSeqNo s < n + length ms"
    and "ResendRequestEndSeqNo s < n" "parser_wf (Msg s)" "n + length ms < 2 ^ 32" "length ms < fuel"
    and "\<forall>(m, i)\<in>set (zip ms [n..<n + length ms]). kept_ap e (RecCompIDs fs) m i"
  defines "s' \<equiv> CheckMsgKeeper fuel e n s"
  shows "Delivered s' = Delivered s @ zip [n..<n + length ms] ms \<and> RecvSeq s' = n + length ms \<and> MsgKeeper s' = [] \<and>
    ResendRequestEndSeqNo s' = 0 \<and> LastGapSeqNo s' = 0"
  using assms(1-9) unfolding s'_def
proof (induction ms arbitrary: s fs n fuel)
  case Nil
  have "Delivered (OnRecoverDone e s) = Delivered s" "RecvSeq (OnRecoverDone e s) = RecvSeq s"
    using neutral_more(4)[of s e] by (simp_all add: neutral_def)
  moreover have "ResendRequestEndSeqNo (OnRecoverDone e s) = 0"
    by (simp add: OnRecoverDone_def Let_def SendLogonTestRequest_def WriteRec_def SendMsg_def RunAfter_def)
  ultimately show ?case using Nil CheckMsgKeeper_end(1,3)[of e s] by (cases fuel) (auto simp: RecvSeq_def)
next
  case (Cons m ms)
  obtain k where k: "fuel = Suc k" using Cons.prems(8) by (cases fuel) auto
  have up: "[n..<n + length (m # ms)] = n # [Suc n..<Suc n + length ms]" by (simp add: upt_rec[of n] del: upt_Suc)
  have K: "MsgKeeper s = (m, n) # zip ms [Suc n..<Suc n + length ms]" using Cons.prems(3) unfolding up by (simp del: upt_Suc)
  let ?t = "TakeKept e m s"
  have mt: "Msg ?t = reparse (After e) m (Msg s)" by (simp add: TakeKept_def reparse_def)
  have ka: "kept_ap e (RecCompIDs fs) m n" "\<forall>(m, i)\<in>set (zip ms [Suc n..<Suc n + length ms]). kept_ap e (RecCompIDs fs) m i"
    using Cons.prems(9) unfolding up by (simp_all del: upt_Suc)
  then obtain c where c: "parser_wf (Msg ?t)" "MsgSeqNum (Msg ?t) = n" "for_ap e (RecCompIDs fs) c (Msg ?t)"
    using Cons.prems(6) by (auto simp: kept_ap_def mt)
  have t: "FixOut ?t = Some fs" "OrigMsgStr ?t = m" using Cons.prems(1) by (simp_all add: TakeKept_def)
  obtain d where d: "DispatchWith (CheckMsgKeeper k e) e ?t = OnMessageProcessed (CheckMsgKeeper k e) n d" "delivered_one n m ?t d"
    using Dispatch_ap[OF t(1) c(3), where check = "CheckMsgKeeper k e"] c(2) Cons.prems(2,7) t(2) by auto
  obtain fs' where fs': "FixOut d = Some fs'" "RecCompIDs fs' = RecCompIDs fs" "NextRecvSeq fs' = n + 1"
    using d(2) t(1) by (auto simp: delivered_one_def)
  have dd: "MsgKeeper d = MsgKeeper s" "ResendRequestEndSeqNo d = ResendRequestEndSeqNo s" "LastGapSeqNo d = LastGapSeqNo s"
    "parser_wf (Msg d)" "Delivered d = Delivered s @ [(n, m)]"
    using d(2) c(1) by (simp_all add: delivered_one_def) (simp_all add: TakeKept_def)
  have x: "CheckMsgKeeper fuel e n s = CheckMsgKeeper k e (Suc n) (PopFront d)"
    using K k d(1) dd(2) Cons.prems(5,7) by (simp add: OnMessageProcessed_def wrap_simps)
  have P: "FixOut (PopFront d) = Some fs'" "MsgKeeper (PopFront d) = zip ms [Suc n..<Suc n + length ms]"
    "LastGapSeqNo (PopFront d) = LastGapSeqNo s" "ResendRequestEndSeqNo (PopFront d) = ResendRequestEndSeqNo s"
    "Msg (PopFront d) = Msg d" "Delivered (PopFront d) = Delivered d"
    using K dd fs'(1) by (simp_all add: PopFront_def)
  have "Delivered (CheckMsgKeeper k e (Suc n) (PopFront d)) = Delivered (PopFront d) @ zip [Suc n..<Suc n + length ms] ms \<and>
      RecvSeq (CheckMsgKeeper k e (Suc n) (PopFront d)) = Suc n + length ms \<and> MsgKeeper (CheckMsgKeeper k e (Suc n) (PopFront d)) = [] \<and>
      ResendRequestEndSeqNo (CheckMsgKeeper k e (Suc n) (PopFront d)) = 0 \<and> LastGapSeqNo (CheckMsgKeeper k e (Suc n) (PopFront d)) = 0"
    by (rule Cons.IH[OF P(1)]) (use fs' P dd Cons.prems(4-8) ka(2) k in \<open>simp_all del: upt_Suc\<close>)
  then show ?case unfolding x P(6) dd(5) up by (simp del: upt_Suc)
qed

text \<open>C5: the message that closes a gap releases the messages kept behind it: it is handed to the
  application, then every kept message in order, all of them are counted, and the session is no longer
  in recovery.\<close>

theorem kept_messages_are_released:
  assumes "FixOut s = Some fs" "for_ap e (RecCompIDs fs) c (Msg s)" "MsgSeqNum (Msg s) = NextRecvSeq fs" "parser_wf (Msg s)"
    and "0 < NextRecvSeq fs" "ResendRequestEndSeqNo s = NextRecvSeq fs" "NextRecvSeq fs + 1 + length ms < 2 ^ 32"
    and "MsgKeeper s = zip ms [NextRecvSeq fs + 1..<NextRecvSeq fs + 1 + length ms]" "LastGapSeqNo s = NextRecvSeq fs + length ms"
    and "\<forall>(m, i)\<in>set (MsgKeeper s). kept_ap e (RecCompIDs fs) m i"
  defines "n \<equiv> NextRecvSeq fs" and "s' \<equiv> DispatchFixMessage e s"
  shows "Delivered s' = Delivered s @ zip [n..<n + 1 + length ms] (OrigMsgStr s # ms) \<and> RecvSeq s' = n + 1 + length ms \<and>
    MsgKeeper s' = [] \<and> ResendRequestEndSeqNo s' = 0 \<and> LastGapSeqNo s' = 0"
proof -
  define fuel where "fuel = Suc (length (MsgKeeper s))"
  have n1: "NextRecvSeq fs + 1 < 2 ^ 32" using assms(7) by simp
  obtain d where d: "s' = OnMessageProcessed (CheckMsgKeeper fuel e) n d" "delivered_one n (OrigMsgStr s) s d"
    using Dispatch_ap[OF assms(1-3) n1, where check = "CheckMsgKeeper fuel e"] by (auto simp: s'_def n_def DispatchFixMessage_def fuel_def)
  obtain fs' where fs': "FixOut d = Some fs'" "RecCompIDs fs' = RecCompIDs fs" "NextRecvSeq fs' = n + 1"
    using d(2) assms(1) by (auto simp: delivered_one_def)
  have dd: "MsgKeeper d = MsgKeeper s" "ResendRequestEndSeqNo d = n" "LastGapSeqNo d = LastGapSeqNo s" "Msg d = Msg s"
    "Delivered d = Delivered s @ [(n, OrigMsgStr s)]"
    using d(2) assms(6) by (simp_all add: delivered_one_def n_def)
  have "s' = CheckMsgKeeper fuel e (n + 1) d"
    using d(1) dd(2) assms(5) n1 by (simp add: OnMessageProcessed_def uadd_eq n_def)
  moreover have "Delivered (CheckMsgKeeper fuel e (n + 1) d) = Delivered d @ zip [n + 1..<n + 1 + length ms] ms \<and>
      RecvSeq (CheckMsgKeeper fuel e (n + 1) d) = n + 1 + length ms \<and> MsgKeeper (CheckMsgKeeper fuel e (n + 1) d) = [] \<and>
      ResendRequestEndSeqNo (CheckMsgKeeper fuel e (n + 1) d) = 0 \<and> LastGapSeqNo (CheckMsgKeeper fuel e (n + 1) d) = 0"
    by (rule CheckMsgKeeper_releases[OF fs'(1,3)])
      (use assms(4,7-10) dd fs'(2) in \<open>simp_all add: n_def fuel_def del: upt_Suc\<close>)
  moreover have "zip [n..<n + 1 + length ms] (OrigMsgStr s # ms) = (n, OrigMsgStr s) # zip [n + 1..<n + 1 + length ms] ms"
    by (simp add: upt_rec[of n] del: upt_Suc)
  ultimately show ?thesis using dd(5) by (simp del: upt_Suc)
qed

lemma example_kept_ap: "kept_ap example_env (CompIDs (ascii ''A'') [] (ascii ''B'') []) (example_msg 0x38 6) 6"
proof -
  let ?F = "framed (ascii ''FIX.4.4'') (example_fields 0x38 6)"
  have "parser_wf p \<and> MsgSeqNum p = 6 \<and> (\<exists>c. for_ap example_env (CompIDs (ascii ''A'') [] (ascii ''B'') []) c p)"
    if "FP p' (?F cks)" "p = ParseFieldsEnd p'" for p p' cks
  proof -
    have "vals (?F cks) 34 = UIntToStrRev [] 6 # []"
      by (simp add: vals_framed) (simp add: vals_def example_fields_def sent_fields_def comp_id_fields_def)
    then have "MsgSeqNum p = 6" using FP_number[OF that(1)] that(2) by simp
    moreover have "for_ap example_env (CompIDs (ascii ''A'') [] (ascii ''B'') []) (ap_config\<lparr>TTL := None\<rparr>) p"
      using example_for_ap[of p "?F cks" "0x38" 6 "ap_config\<lparr>TTL := None\<rparr>"] that example_config_types(1)
      by (simp add: ParseFieldsEnd_FP vals_framed ap_config_def)
    ultimately show ?thesis using FP_parser_wf[OF that(1)] that(2) by blast
  qed
  moreover have "\<exists>p' cks. reparse (\<lambda>_. 0) (example_msg 0x38 6) q = ParseFieldsEnd p' \<and> FP p' (?F cks)" if "parser_wf q" for q
    unfolding example_msg_def
    by (rule reparse_Final[OF _ _ that example_fields_ok(1)]) (simp_all add: example_fields_def sent_fields_def)
  moreover have "After example_env = (\<lambda>_. 0)" by (simp add: example_env_def)
  ultimately show ?thesis unfolding kept_ap_def by metis
qed

text \<open>A session that waits for message 5 and keeps message 6.\<close>

definition waiting_for_5 :: "fix_parser \<Rightarrow> fix_session" where
  "waiting_for_5 p = logged_on\<lparr>FixSt := ApReady, FixOut := Some (example_sender\<lparr>NextRecvSeq := 5\<rparr>), Msg := p,
     OrigMsgStr := example_msg 0x38 5, MsgKeeper := [(example_msg 0x38 6, 6)], ResendRequestEndSeqNo := 5,
     LastGapSeqNo := 6, Delivered := []\<rparr>"

lemma kept_messages_are_released_witness:
  "\<exists>p. let s' = DispatchFixMessage example_env (waiting_for_5 p)
       in Delivered s' = [(5, example_msg 0x38 5), (6, example_msg 0x38 6)] \<and> RecvSeq s' = 7 \<and> MsgKeeper s' = []"
proof -
  obtain p where p: "MsgSeqNum p = 5" "FP p (example_fields 0x38 5)" "msg_ok (\<lambda>_. 0) (example_msg 0x38 5) p"
    by (rule example_msg_ok[of "0x38" 5]) auto
  let ?s = "waiting_for_5 p" and ?fs = "example_sender\<lparr>NextRecvSeq := 5\<rparr>"
  have f: "FixOut ?s = Some ?fs" by (simp add: waiting_for_5_def)
  have a: "for_ap example_env (RecCompIDs ?fs) (ap_config\<lparr>TTL := None\<rparr>) (Msg ?s)"
    using example_for_ap[OF p(2) _ example_config_types(1)] by (simp add: ap_config_def waiting_for_5_def)
  have u: "[5::nat..<7] = [5, 6]" "[6::nat..<7] = [6]" by (simp_all add: upt_rec)
  have k: "MsgKeeper ?s = zip [example_msg 0x38 6] [NextRecvSeq ?fs + 1..<NextRecvSeq ?fs + 1 + length [example_msg 0x38 6]]"
    by (simp add: waiting_for_5_def)
  have z: "\<forall>(m, i)\<in>set (MsgKeeper ?s). kept_ap example_env (RecCompIDs ?fs) m i"
    using example_kept_ap by (simp add: waiting_for_5_def)
  have w: "parser_wf (Msg ?s)" using p(3) by (simp add: waiting_for_5_def msg_ok_def)
  show ?thesis
    using kept_messages_are_released[OF f a _ w _ _ _ k _ z] p(1) u
    by (intro exI[of _ p]) (simp add: waiting_for_5_def Let_def)
qed

text \<open>a message whose number is too low is never handed over and never counted. When it is marked as a
  possible duplicate it is only recorded; otherwise the session logs out and says why.\<close>

theorem too_low_is_refused:
  assumes "FixOut s = Some fs" "\<not> IsReplayingAll fs" "RecCompIDs fs = CompIDs sc ss tc ts"
    and "for_ap e (RecCompIDs fs) c (Msg s)" "MsgSeqNum (Msg s) < NextRecvSeq fs" "FixSt s \<noteq> LogoutPending"
  defines "dup \<equiv> (case GetField (Msg s) 43 of Some fld \<Rightarrow> Get1stIs 0x59 (Value fld) | None \<Rightarrow> False)"
    and "s' \<equiv> DispatchFixMessage e s"
  shows "Delivered s' = Delivered s \<and> RecvSeq s' = RecvSeq s \<and>
    FixSt s' = (if dup then FixSt s else LogoutPending) \<and>
    (\<exists>fs'. FixOut s' = Some fs' \<and> (if dup then Out fs' = Out fs
       else \<exists>b. Out fs' = Out fs @ [Final (BeginHeader fs) b] \<and>
         Buffer b = body_of (sent_fields kMSGTYPE_Logout (NextSendSeq fs) (FIXMS (Now e)) (comp_id_fields sc ss tc ts)
           [(58, ascii ''MsgSeqNum too low, expecting '' @ UIntToStrRev [] (NextRecvSeq fs) @
              ascii '' but received '' @ UIntToStrRev [] (MsgSeqNum (Msg s)))])))"
proof -
  let ?check = "CheckMsgKeeper (Suc (length (MsgKeeper s))) e" and ?hdr = "if dup then HdrIgnoreRecv else HdrError"
  let ?text = "ascii ''MsgSeqNum too low, expecting '' @ UIntToStrRev [] (NextRecvSeq fs) @
    ascii '' but received '' @ UIntToStrRev [] (MsgSeqNum (Msg s))"
  let ?fs = "Write ?hdr (Now e) (OrigMsgStr s) fs"
  obtain fld where fld: "GetField (Msg s) 35 = Some fld" "GetConfig (Cfg e) (Value fld) = Some c" using assms(4) by (auto simp: for_ap_def)
  have st: "CompareFixSeqNum (MsgSeqNum (Msg s)) (NextRecvSeq fs) = TooLow" using assms(5) by (simp add: CompareFixSeqNum_def)
  have "s' = DispatchNotConform ?check e (Value fld) (s\<lparr>SeqSt := TooLow\<rparr>)"
    using assms(1,4) fld st by (simp add: s'_def DispatchFixMessage_def DispatchWith_def for_ap_def RecvSeq_def Let_def)
  also have "\<dots> = OnMsgSeqNumTooLow e (s\<lparr>SeqSt := TooLow\<rparr>)"
    using assms(4) fld by (simp add: DispatchNotConform_def for_ap_def handler_of_def OnMsgSeqNumNotExpected_def)
  finally have x: "s' = (if dup then s\<lparr>SeqSt := TooLow, FixOut := Some ?fs\<rparr>
    else s\<lparr>SeqSt := TooLow, FixSt := LogoutPending, TimerAfter := Some (TiLogoutPending (Cfg e)),
           FixOut := Some (Send (Now e) (SPLFLDMSGTYPE kMSGTYPE_Logout) (LogoutText ?text) ?fs)\<rparr>)"
    using assms(1,6)
    by (auto simp: OnMsgSeqNumTooLow_def dup_def WriteRec_def UseSender_def OnLogoutRequired_def SendLogout_def SendMsg_def
        RunAfter_def RecvSeq_def split: option.split)
  have "\<exists>b. Out (Send (Now e) (SPLFLDMSGTYPE kMSGTYPE_Logout) (LogoutText ?text) ?fs) = Out ?fs @ [Final (BeginHeader ?fs) b] \<and>
      Buffer b = body_of (sent_fields kMSGTYPE_Logout (NextSendSeq ?fs) (FIXMS (Now e)) (comp_id_fields sc ss tc ts) [(58, ?text)])"
    by (rule Send_Out) (use assms(2,3) in \<open>simp_all add: LogoutText_def RevPut_def FixBuilder_def body_of_def\<close>)
  then show ?thesis using x assms(1) by (auto simp: RecvSeq_def)
qed

lemma too_low_is_refused_witness:
  "\<exists>p. let s' = DispatchFixMessage example_env (logged_on\<lparr>FixSt := ApReady, FixOut := Some (example_sender\<lparr>NextRecvSeq := 5\<rparr>), Msg := p\<rparr>)
       in FixSt s' = LogoutPending \<and> RecvSeq s' = 5"
proof -
  obtain p where p: "MsgSeqNum p = 2" "FP p (example_fields 0x44 2)" by (rule example_msg_ok[of "0x44" 2]) auto
  let ?s = "logged_on\<lparr>FixSt := ApReady, FixOut := Some (example_sender\<lparr>NextRecvSeq := 5\<rparr>), Msg := p\<rparr>"
    and ?fs = "example_sender\<lparr>NextRecvSeq := 5\<rparr>"
  have a: "for_ap example_env (RecCompIDs ?fs) ap_config (Msg ?s)"
    using example_for_ap[OF p(2) _ example_config_types(2)] by (simp add: ap_config_def)
  have "vals (example_fields 0x44 2) 43 = []" by (simp add: vals_def example_fields_def sent_fields_def comp_id_fields_def)
  then have "GetField p 43 = None" using FP_GetField[OF p(2), of 43] by simp
  then show ?thesis
    using too_low_is_refused[OF _ _ _ a, of "ascii ''A''" "[]" "ascii ''B''" "[]"] p(1)
    by (intro exI[of _ p]) (simp add: Let_def RecvSeq_def)
qed

subsection \<open>Two numbers that go wrong\<close>

text \<open>C18: a \<open>ResendRequest\<close> that arrives in sequence is answered but not counted, although its handler is
  installed so that it must count it: the number expected stays at its own number, and the next message of
  the peer looks like a gap.\<close>

theorem resend_request_is_not_counted:
  assumes "FixOut s = Some fs" "GetField (Msg s) 35 = Some fld" "Value fld = kMSGTYPE_ResendRequest"
    and "Cfg e = InitFixConfig c" "config_ok c" "CompIDs_Check (RecCompIDs fs) (Msg s) = 0"
    and "MsgSeqNum (Msg s) = NextRecvSeq fs" "ResendRequestEndSeqNo s = 0" "live s"
  defines "s' \<equiv> DispatchFixMessage e s"
  shows "RecvSeq s' = MsgSeqNum (Msg s) \<and> CompareFixSeqNum (MsgSeqNum (Msg s) + 1) (RecvSeq s') = TooHigh"
proof -
  let ?check = "CheckMsgKeeper (Suc (length (MsgKeeper s))) e" and ?s1 = "s\<lparr>SeqSt := Conform\<rparr>"
  let ?any = "\<lparr>AllowTooHigh = True, AllowTooLow = True, NoPreRecord = True\<rparr>"
  have h: "\<exists>d. handler_of (GetConfig (Cfg e) (Value fld)) = Some (d\<lparr>FixSeqAllow := ?any, FixMsgHandler := Some OnRecvResendRequest\<rparr>, OnRecvResendRequest)"
    unfolding assms(4) InitFixConfig_def InitFixConfig_receiver_def Let_def
    by (simp add: GetConfig_Fetch config_get_fetch_facts(1) assms(3,5) msgtypes ascii_def handler_of_def) (rule exI, rule refl)
  have "s' = OnMessageProcessed ?check (NextRecvSeq fs) (DispatchConform ?check e (Value fld) ?s1)"
    using assms(1,2,6,7) by (simp add: s'_def DispatchFixMessage_def DispatchWith_def RecvSeq_def CompareFixSeqNum_def)
  moreover have "DispatchConform ?check e (Value fld) ?s1 = AnswerResendRequest e ?s1"
  proof -
    have "live ?s1" using assms(9) by (simp add: live_def)
    then have "SeqSt (AnswerResendRequest e ?s1) = Conform" using AnswerResendRequest_quiet[of ?s1 e] by (simp add: quiet_def)
    then show ?thesis using h by (auto simp: DispatchConform_def RecvResendRequest_def Let_def)
  qed
  moreover have "ResendRequestEndSeqNo (AnswerResendRequest e ?s1) = 0"
    using AnswerResendRequest_quiet[of ?s1 e] assms(8,9) by (simp add: quiet_def live_def)
  ultimately have "s' = AnswerResendRequest e ?s1" by (simp add: OnMessageProcessed_def)
  then have "RecvSeq s' = RecvSeq ?s1" using neutral_Answer(1)[of ?s1 e] by (simp add: neutral_def)
  then show ?thesis using assms(1,7) by (simp add: RecvSeq_def CompareFixSeqNum_def)
qed

lemma resend_request_is_not_counted_witness:
  "\<exists>p. RecvSeq (DispatchFixMessage example_env (logged_on\<lparr>FixOut := Some (example_sender\<lparr>NextRecvSeq := 5\<rparr>), Msg := p\<rparr>)) = 5"
proof -
  obtain p where p: "MsgSeqNum p = 5" "FP p (example_fields 0x32 5)" by (rule example_msg_ok[of "0x32" 5]) auto
  let ?s = "logged_on\<lparr>FixOut := Some (example_sender\<lparr>NextRecvSeq := 5\<rparr>), Msg := p\<rparr>"
  have v: "vals (example_fields 0x32 5) 35 = [0x32] # []" "vals (example_fields 0x32 5) 49 = ascii ''B'' # []"
    "vals (example_fields 0x32 5) 56 = ascii ''A'' # []"
    by (simp_all add: vals_def example_fields_def sent_fields_def comp_id_fields_def)
  note g = FP_first_value[OF p(2) v(1)] FP_first_value[OF p(2) v(2)] FP_first_value[OF p(2) v(3)]
  then have ck: "CompIDs_Check (RecCompIDs (example_sender\<lparr>NextRecvSeq := 5\<rparr>)) (Msg ?s) = 0"
    by (simp add: CompIDs_Check_def CompID_Check_def CompIDs_def Let_def)
  have l: "live ?s" "ResendRequestEndSeqNo ?s = 0"
    by (simp_all add: live_def logged_on_def OnLogonInitiate_def SendLogon_def Let_def OnFixSessionConnected_def RunAfter_def
        ClearFixSession_def ClearRecvKeeper_def FixSession_def)
  have c: "config_ok (FetchConfig (FetchConfig FixConfig [0x44] (\<lambda>m. m\<lparr>FixMsgHandler := Some ApHandler\<rparr>))
     [0x38] (\<lambda>m. m\<lparr>TTL := None, FixMsgHandler := Some ApHandler\<rparr>))"
    by (intro config_get_fetch_facts(1) config_ok_FixConfig)
  have "Value (FieldArray p 35) = kMSGTYPE_ResendRequest" using g by (simp add: msgtypes)
  then show ?thesis
    using resend_request_is_not_counted[OF _ _ _ _ c ck _ l(2,1), of "FieldArray p 35" example_env] g p(1)
    by (intro exI[of _ p]) (simp add: example_env_def example_config_def)
qed

text \<open>when two messages behind a gap were not kept, the session asks again for the first of them only:
  once the range asked for has arrived it takes itself to be complete, although the last message that
  arrived behind the gap was thrown away and is still missing; nothing is sent.\<close>

theorem last_message_behind_gap_is_forgotten:
  assumes "FixOut s = Some fs" "for_ap e (RecCompIDs fs) c (Msg s)" "MsgSeqNum (Msg s) = NextRecvSeq fs"
    and "0 < NextRecvSeq fs" "NextRecvSeq fs + 2 < 2 ^ 32" "ResendRequestEndSeqNo s = NextRecvSeq fs" "MsgKeeper s = []"
    and "LastGapSeqNo s = NextRecvSeq fs + 1" "FixSt s = ApReady" "ApAnswers e (OrigMsgStr s) (Msg s) = []"
  defines "s' \<equiv> DispatchFixMessage e s"
  shows "RecvSeq s' = LastGapSeqNo s \<and> LastGapSeqNo s' = 0 \<and> ResendRequestEndSeqNo s' = 0 \<and>
    Delivered s' = Delivered s @ [(NextRecvSeq fs, OrigMsgStr s)] \<and> map_option Out (FixOut s') = Some (Out fs)"
proof -
  obtain fld where fld: "GetField (Msg s) 35 = Some fld" "GetConfig (Cfg e) (Value fld) = Some c" using assms(2) by (auto simp: for_ap_def)
  let ?n = "NextRecvSeq fs" and ?fs1 = "WriteInputConform (Now e) (OrigMsgStr s) fs"
  let ?s1 = "s\<lparr>SeqSt := Conform, FixOut := Some ?fs1, Delivered := Delivered s @ [(?n, OrigMsgStr s)]\<rparr>"
  define fuel where "fuel = length (MsgKeeper s)"
  have r: "NextRecvSeq ?fs1 = ?n + 1" using assms(5) by (simp add: wrap_simps)
  have o: "Out ?fs1 = Out fs" by (simp add: WriteInputConform_def WriteBuffer_def AddWork_def Let_def)
  have "s' = OnMessageProcessed (CheckMsgKeeper (Suc fuel) e) ?n ?s1"
    using assms(1-3,10) fld
    by (simp add: s'_def DispatchFixMessage_def DispatchWith_def Let_def RecvSeq_def CompareFixSeqNum_def for_ap_def DispatchConform_def
        handler_of_def RecvAp_def UseSender_def fuel_def)
  also have "\<dots> = CheckMsgKeeper (Suc fuel) e (?n + 1) ?s1"
    using assms(4-6) by (simp add: OnMessageProcessed_def uadd_eq)
  also have "\<dots> = OnRecoverDone e ?s1" using assms(7,8) by simp
  finally have "s' = ?s1\<lparr>ResendRequestEndSeqNo := 0, LastGapSeqNo := 0,
      FixOut := Some (Write HdrInfo (Now e) (ascii ''OnRecoverDone|NextRecvSeq='' @ UIntToStrRev [] (?n + 1)) ?fs1)\<rparr>"
    using assms(9) r by (simp add: OnRecoverDone_def Let_def WriteRec_def UseSender_def RecvSeq_def SendLogonTestRequest_def st_order)
  then show ?thesis using r o assms(8) by (simp add: RecvSeq_def)
qed

lemma last_message_behind_gap_is_forgotten_witness:
  "\<exists>p. let s' = DispatchFixMessage example_env (waiting_for_5 p\<lparr>MsgKeeper := []\<rparr>) in RecvSeq s' = 6 \<and> LastGapSeqNo s' = 0"
proof -
  obtain p where p: "MsgSeqNum p = 5" "FP p (example_fields 0x44 5)" by (rule example_msg_ok[of "0x44" 5]) auto
  let ?s = "waiting_for_5 p\<lparr>MsgKeeper := []\<rparr>" and ?fs = "example_sender\<lparr>NextRecvSeq := 5\<rparr>"
  have a: "for_ap example_env (RecCompIDs ?fs) ap_config (Msg ?s)"
    using example_for_ap[OF p(2) _ example_config_types(2)] by (simp add: ap_config_def waiting_for_5_def)
  show ?thesis
    using last_message_behind_gap_is_forgotten[OF _ a] p(1)
    by (intro exI[of _ p]) (simp add: waiting_for_5_def Let_def example_env_def)
qed

end
