(* ===== verification/Endian.thy ===== *)
theory Endian
  imports Fon9_Prelude
begin

text \<open>
  Byte order (\<open>fon9/Endian.hpp\<close>). The fixed-size loads and stores are the unrolled loops
  \<open>load_big\<close>, \<open>load_little\<close>, \<open>store_big\<close>, \<open>store_little\<close> over \<open>n\<close> bytes; the packed forms
  write as few bytes as the value needs and read as many as they are told. An integer type
  \<open>T\<close> is a \<open>'a word\<close>; a function that is written from an address towards lower addresses
  puts its bytes in front of those already written.
  The lemmas: the value of a byte list (\<open>le_val\<close>), what each reader and writer does in
  terms of it, the round trips, and the size of a packed value.
\<close>

subsection \<open>Fixed size\<close>

fun load_little :: "byte list \<Rightarrow> 'a::len word" where
  "load_little [] = 0"
| "load_little (b # bs) = (if bs = [] then ucast b else ucast b OR push_bit 8 (load_little bs))"

definition load_big :: "byte list \<Rightarrow> 'a::len word" where
  "load_big bs = load_little (rev bs)"

primrec store_little :: "nat \<Rightarrow> 'a::len word \<Rightarrow> byte list" where
  "store_little 0 v = []"
| "store_little (Suc n) v = ucast v # store_little n (drop_bit 8 v)"

primrec store_big :: "nat \<Rightarrow> 'a::len word \<Rightarrow> byte list \<Rightarrow> byte list" where
  "store_big 0 v acc = acc"
| "store_big (Suc n) v acc = store_big n (drop_bit 8 v) (ucast v # acc)"

definition size_of :: "'a::len word \<Rightarrow> nat" where
  "size_of v = size v div 8"

definition PutBigEndian :: "'a::len word \<Rightarrow> byte list" where
  "PutBigEndian v = store_big (size_of v) v []"

definition GetBigEndian :: "byte list \<Rightarrow> 'a::len word" where
  "GetBigEndian bs = load_big bs"

definition PutLittleEndian :: "'a::len word \<Rightarrow> byte list" where
  "PutLittleEndian v = store_little (size_of v) v"

definition GetLittleEndian :: "byte list \<Rightarrow> 'a::len word" where
  "GetLittleEndian bs = load_little bs"

subsection \<open>Packed\<close>

lemma unat_drop_byte: "unat (drop_bit 8 (v::'a::len word)) = unat v div 256"
  by (simp only: unat_drop_bit_eq) (simp add: drop_bit_eq_div)

lemma drop_byte_zero: "drop_bit 8 (v::'a::len word) = 0 \<longleftrightarrow> unat v < 256"
  by (simp add: unat_eq_zero [symmetric] unat_drop_byte div_eq_0_iff)

lemma drop_byte_less: "drop_bit 8 (v::'a::len word) \<noteq> 0 \<Longrightarrow> unat (drop_bit 8 v) < unat v"
  unfolding drop_byte_zero by (simp add: unat_drop_byte)

function PackLittleEndian :: "'a::len word \<Rightarrow> byte list" where
  "PackLittleEndian v = ucast v # (if drop_bit 8 v = 0 then [] else PackLittleEndian (drop_bit 8 v))"
  by auto
termination
  by (relation "measure unat") (auto intro: drop_byte_less)

function PackBigEndianRev :: "'a::len word \<Rightarrow> byte list \<Rightarrow> byte list" where
  "PackBigEndianRev v acc =
     (let acc' = ucast v # acc; v' = drop_bit 8 v in if v' = 0 then acc' else PackBigEndianRev v' acc')"
  by auto
termination
  by (relation "measure (\<lambda>(v, _). unat v)") (auto intro: drop_byte_less)

text \<open>The signed overloads: a negative value takes all its bytes.\<close>

definition PackLittleEndian_s :: "'a::len word \<Rightarrow> byte list" where
  "PackLittleEndian_s v = (if 0 \<le> sint v then PackLittleEndian v else PutLittleEndian v)"

definition PackBigEndianRev_s :: "'a::len word \<Rightarrow> byte list \<Rightarrow> byte list" where
  "PackBigEndianRev_s v acc = (if 0 \<le> sint v then PackBigEndianRev v acc else PutBigEndian v @ acc)"

primrec packed_big_loop :: "'a::len word \<Rightarrow> byte list \<Rightarrow> 'a word" where
  "packed_big_loop v [] = v"
| "packed_big_loop v (b # bs) = packed_big_loop (push_bit 8 v OR ucast b) bs"

fun GetPackedBigEndian :: "byte list \<Rightarrow> 'a::len word" where
  "GetPackedBigEndian [] = 0"
| "GetPackedBigEndian (b # bs) = packed_big_loop (ucast b) bs"

definition GetPackedLittleEndian :: "byte list \<Rightarrow> 'a::len word" where
  "GetPackedLittleEndian bs = (if bs = [] then 0 else packed_big_loop (ucast (last bs)) (rev (butlast bs)))"

declare PackLittleEndian.simps [simp del] PackBigEndianRev.simps [simp del]

subsection \<open>The value of a byte list\<close>

primrec le_val :: "byte list \<Rightarrow> nat" where
  "le_val [] = 0"
| "le_val (b # bs) = unat b + 256 * le_val bs"

lemma le_val_append: "le_val (xs @ ys) = le_val xs + 256 ^ length xs * le_val ys"
  by (induction xs) (auto simp: algebra_simps)

lemma unat_byte: "unat (b::byte) < 256"
  using unsigned_less [of b, where 'a = nat] by simp

lemma le_val_less: "le_val bs < 256 ^ length bs"
proof (induction bs)
  case (Cons b bs)
  have "le_val bs + 1 \<le> 256 ^ length bs" using Cons by simp
  then have "256 * le_val bs + 256 \<le> 256 * 256 ^ length bs"
    using mult_le_mono2 [of "le_val bs + 1" "256 ^ length bs" 256] by simp
  then show ?case using unat_byte [of b] by simp
qed simp

lemma byte_in_nat: "unat (b::byte) + 256 * n = push_bit 8 n OR unat b"
proof -
  have "push_bit 8 n AND unat b = 0"
    by (rule bit_eqI) (auto simp: bit_simps dest: bit_imp_le_length)
  then show ?thesis
    by (simp add: disjunctive_add_eq_or [symmetric] push_bit_eq_mult)
qed

lemma push_or_byte:
  "push_bit 8 (of_nat n :: 'a::len word) OR ucast (b::byte) = of_nat (unat b + 256 * n)"
  unfolding byte_in_nat by (rule bit_word_eqI) (auto simp: bit_simps)

lemma ucast_byte: "(ucast (b::byte) :: 'a::len word) = of_nat (unat b)"
  by (rule bit_word_eqI) (auto simp: bit_simps)

lemma load_little_val: "(load_little bs :: 'a::len word) = of_nat (le_val bs)"
proof (induction bs)
  case (Cons b bs)
  show ?case
  proof (cases "bs = []")
    case False
    have "(load_little (b # bs) :: 'a word) = push_bit 8 (load_little bs) OR ucast b"
      using False by (simp only: load_little.simps if_False or.commute)
    then show ?thesis by (simp only: Cons.IH push_or_byte le_val.simps)
  qed (simp only: load_little.simps simp_thms if_True ucast_byte le_val.simps mult_0_right add_0_right)
qed simp

lemma packed_big_loop_val:
  "packed_big_loop (of_nat n :: 'a::len word) bs = of_nat (le_val (rev bs) + 256 ^ length bs * n)"
proof (induction bs arbitrary: n)
  case (Cons b bs)
  have "packed_big_loop (of_nat n :: 'a word) (b # bs)
      = of_nat (le_val (rev bs) + 256 ^ length bs * (unat b + 256 * n))"
    by (simp only: packed_big_loop.simps push_or_byte Cons.IH)
  also have "le_val (rev bs) + 256 ^ length bs * (unat b + 256 * n)
      = le_val (rev (b # bs)) + 256 ^ length (b # bs) * n"
    by (simp add: le_val_append algebra_simps)
  finally show ?case .
qed simp

lemma GetPackedBigEndian_val: "(GetPackedBigEndian bs :: 'a::len word) = of_nat (le_val (rev bs))"
proof (cases bs)
  case (Cons b cs)
  have "(GetPackedBigEndian bs :: 'a word) = of_nat (le_val (rev cs) + 256 ^ length cs * unat b)"
    by (simp only: Cons GetPackedBigEndian.simps ucast_byte packed_big_loop_val)
  moreover have "le_val (rev cs) + 256 ^ length cs * unat b = le_val (rev bs)"
    by (simp add: Cons le_val_append)
  ultimately show ?thesis by simp
qed simp

lemma GetPackedLittleEndian_val: "(GetPackedLittleEndian bs :: 'a::len word) = of_nat (le_val bs)"
proof (cases bs rule: rev_cases)
  case (snoc ys y)
  have "(GetPackedLittleEndian bs :: 'a word) = of_nat (le_val ys + 256 ^ length ys * unat y)"
    unfolding snoc GetPackedLittleEndian_def ucast_byte packed_big_loop_val by simp
  moreover have "le_val ys + 256 ^ length ys * unat y = le_val bs"
    by (simp add: snoc le_val_append)
  ultimately show ?thesis by simp
qed (simp add: GetPackedLittleEndian_def)

lemma load_big_val: "(load_big bs :: 'a::len word) = of_nat (le_val (rev bs))"
  by (simp add: load_big_def load_little_val)

lemma unat_low_byte: "unat (ucast (v::'a::len word) :: byte) = unat v mod 256"
  by (simp add: unsigned_ucast_eq take_bit_eq_mod)

lemma unat_small: "n < 2 ^ LENGTH('a) \<Longrightarrow> unat (of_nat n :: 'a::len word) = n"
  by (simp add: unsigned_of_nat take_bit_nat_eq_self)

lemma ucast_small:
  "n < 2 ^ LENGTH('a) \<Longrightarrow> (ucast (of_nat n :: 'a::len word) :: 'b::len word) = of_nat n"
proof -
  assume n: "n < 2 ^ LENGTH('a)"
  have "(ucast w :: 'b word) = of_nat (unat w)" for w :: "'a word"
    by (rule bit_word_eqI) (auto simp: bit_simps)
  then show ?thesis by (metis n unat_small)
qed

subsection \<open>What is written\<close>

lemma PackLittleEndian_val: "le_val (PackLittleEndian v) = unat v"
proof (induction v rule: PackLittleEndian.induct)
  case (1 v)
  then show ?case
    by (subst PackLittleEndian.simps)
      (auto simp: unat_low_byte drop_byte_zero unat_drop_byte)
qed

lemma PackBigEndianRev_eq: "PackBigEndianRev v acc = rev (PackLittleEndian v) @ acc"
proof (induction v acc rule: PackBigEndianRev.induct)
  case (1 v acc)
  then show ?case
    by (subst PackBigEndianRev.simps, subst PackLittleEndian.simps) (auto simp: Let_def)
qed

lemma PackLittleEndian_not_Nil [simp]: "PackLittleEndian v \<noteq> []"
  by (subst PackLittleEndian.simps) simp

lemma PackLittleEndian_last:
  "1 < length (PackLittleEndian v) \<Longrightarrow> last (PackLittleEndian v) \<noteq> 0"
proof (induction v rule: PackLittleEndian.induct)
  case (1 v)
  let ?d = "drop_bit 8 v"
  have d: "?d \<noteq> 0" using "1.prems" by (subst (asm) PackLittleEndian.simps) (auto split: if_splits)
  then have eq: "PackLittleEndian v = ucast v # PackLittleEndian ?d"
    by (subst PackLittleEndian.simps) simp
  show ?case
  proof (cases "drop_bit 8 ?d = 0")
    case True
    then have "PackLittleEndian ?d = [ucast ?d]" by (subst PackLittleEndian.simps) simp
    moreover have "(ucast ?d :: byte) \<noteq> 0"
      using d True unfolding drop_byte_zero
      by (metis d mod_less unat_eq_zero unat_low_byte)
    ultimately show ?thesis using eq by simp
  next
    case False
    then have "1 < length (PackLittleEndian ?d)"
      by (subst PackLittleEndian.simps) simp
    then show ?thesis using "1.IH" [OF d] eq by simp
  qed
qed

text \<open>The bytes used: as few as the value allows.\<close>

lemma PackLittleEndian_low: "1 < length (PackLittleEndian v) \<Longrightarrow> 256 ^ (length (PackLittleEndian v) - 1) \<le> unat v"
proof -
  assume len: "1 < length (PackLittleEndian v)"
  let ?p = "PackLittleEndian v"
  have "unat v = le_val (butlast ?p) + 256 ^ (length ?p - 1) * unat (last ?p)"
    using le_val_append [of "butlast ?p" "[last ?p]"] by (simp add: PackLittleEndian_val)
  moreover have "1 \<le> unat (last ?p)"
    using PackLittleEndian_last [OF len] by (simp add: unat_gt_0 Suc_le_eq)
  ultimately show ?thesis
    by (metis add_increasing mult_le_mono2 mult_1_right zero_le le_add2 order_trans)
qed

lemma PackLittleEndian_length:
  assumes "unat v < 256 ^ n" "0 < n"
  shows "length (PackLittleEndian v) \<le> n"
proof (rule ccontr)
  assume "\<not> ?thesis"
  then have "n \<le> length (PackLittleEndian v) - 1" "1 < length (PackLittleEndian v)" using assms by auto
  then have "256 ^ n \<le> unat v"
    using PackLittleEndian_low [of v] power_increasing [of n "length (PackLittleEndian v) - 1" "256::nat"] by linarith
  then show False using assms by simp
qed

lemma store_little_val: "le_val (store_little n v) = unat v mod 256 ^ n"
proof (induction n arbitrary: v)
  case (Suc n)
  then show ?case by (simp add: unat_low_byte unat_drop_byte mod_mult2_eq)
qed simp

lemma store_little_length [simp]: "length (store_little n v) = n"
  by (induction n arbitrary: v) auto

lemma store_big_eq: "store_big n v acc = rev (store_little n v) @ acc"
  by (induction n arbitrary: v acc) auto

lemma unat_less_256: "LENGTH('a) = 8 * n \<Longrightarrow> unat (v::'a::len word) < 256 ^ n"
  using unsigned_less [of v, where 'a = nat] by (simp add: power_mult)

lemma size_of_eq: "LENGTH('a) = 8 * n \<Longrightarrow> size_of (v::'a::len word) = n"
  by (simp add: size_of_def word_size)

lemma word_size_pos: "LENGTH('a::len) = 8 * n \<Longrightarrow> 0 < n"
  using len_gt_0 [where 'a = 'a] by linarith

lemma pack_big_get: "GetPackedBigEndian (PackBigEndianRev v []) = v"
  by (simp add: GetPackedBigEndian_val PackBigEndianRev_eq PackLittleEndian_val)

lemma pack_little_get: "GetPackedLittleEndian (PackLittleEndian v) = v"
  by (simp add: GetPackedLittleEndian_val PackLittleEndian_val)

lemma pack_length: "LENGTH('a) = 8 * n \<Longrightarrow> length (PackLittleEndian (v::'a::len word)) \<le> n"
  by (rule PackLittleEndian_length) (auto intro: unat_less_256 word_size_pos)

lemma fixed_little: "LENGTH('a) = 8 * n \<Longrightarrow> le_val (PutLittleEndian (v::'a::len word)) = unat v"
  using unat_less_256 [of n v] by (simp add: PutLittleEndian_def store_little_val size_of_eq)

lemma PutBigEndian_eq: "PutBigEndian v = rev (PutLittleEndian v)"
  by (simp add: PutBigEndian_def PutLittleEndian_def store_big_eq)

subsection \<open>Properties\<close>

text \<open>
  Fixed-size integers. What is put in either byte order is got back in that order, the
  bytes of one order are those of the other reversed, and they are as many as the type has.
\<close>

theorem fixed_integers_roundtrip:
  fixes v :: "'a::len word"
  assumes "LENGTH('a) = 8 * n"
  shows "GetBigEndian (PutBigEndian v) = v \<and> GetLittleEndian (PutLittleEndian v) = v
    \<and> PutBigEndian v = rev (PutLittleEndian v) \<and> length (PutLittleEndian v) = n"
  using assms
  by (simp add: GetBigEndian_def GetLittleEndian_def load_big_val load_little_val fixed_little
      PutBigEndian_eq PutLittleEndian_def [of v] size_of_eq [OF assms] store_little_val unat_less_256)

lemma fixed_integers_roundtrip_witness:
  "GetBigEndian (PutBigEndian (0x01020304 :: u32)) = (0x01020304 :: u32)
    \<and> GetLittleEndian (PutLittleEndian (0x01020304 :: u32)) = (0x01020304 :: u32)
    \<and> PutBigEndian (0x01020304 :: u32) = rev (PutLittleEndian (0x01020304 :: u32))
    \<and> length (PutLittleEndian (0x01020304 :: u32)) = 4"
  by (rule fixed_integers_roundtrip) simp

text \<open>
  Packed integers. A packed value is read back; it takes at least one byte, at most as
  many as its type has, and never more than any number of bytes that can hold it.
\<close>

theorem packed_integers_roundtrip:
  fixes v :: "'a::len word"
  assumes "LENGTH('a) = 8 * n" "0 < k" "unat v < 256 ^ k"
  shows "GetPackedBigEndian (PackBigEndianRev v []) = v \<and> GetPackedLittleEndian (PackLittleEndian v) = v
    \<and> length (PackBigEndianRev v []) \<in> {1..min n k} \<and> length (PackLittleEndian v) \<in> {1..min n k}"
  using pack_length [OF assms(1), of v] PackLittleEndian_length [OF assms(3,2)] pack_big_get [of v]
  by (simp add: pack_little_get PackBigEndianRev_eq Suc_le_eq)

lemma packed_integers_roundtrip_witness:
  "GetPackedBigEndian (PackBigEndianRev (0x1234 :: u64) []) = (0x1234 :: u64)
    \<and> GetPackedLittleEndian (PackLittleEndian (0x1234 :: u64)) = (0x1234 :: u64)
    \<and> length (PackBigEndianRev (0x1234 :: u64) []) \<in> {1..min 8 2}
    \<and> length (PackLittleEndian (0x1234 :: u64)) \<in> {1..min 8 2}"
  by (rule packed_integers_roundtrip) simp_all

end
