(* ===== verification/DcQueueProps.thy ===== *)
theory DcQueueProps
  imports DcQueue
begin

text \<open>
  What the queue promises: \<open>wf\<close> is its invariant, \<open>content\<close> the bytes it holds, \<open>items\<close>
  the bytes and control nodes in their order. The locale \<open>byte_source\<close> is the part of the
  contract on which the decoders of a queue rely.
\<close>

subsection \<open>Invariant and abstractions\<close>

definition wf :: "dc_queue \<Rightarrow> bool" where
  "wf q = (case BlockList q of [] \<Rightarrow> Mem q = []
     | n # ns \<Rightarrow> Mem q \<noteq> [] \<and> suffix (Mem q) (GetData n))"

definition content :: "dc_queue \<Rightarrow> byte list" where
  "content q = Mem q @ concat (map GetData (tl (BlockList q)))"

datatype item = Byte byte | Control nat

primrec node_items :: "buffer_node \<Rightarrow> item list" where
  "node_items (DataNode d) = map Byte d"
| "node_items (VirtualNode i crossing) = [Control i]"

definition items :: "dc_queue \<Rightarrow> item list" where
  "items q = map Byte (Mem q) @ concat (map node_items (tl (BlockList q)))"

text \<open>Consuming \<open>n\<close> bytes: the control nodes met, and what is left.\<close>

fun pop_items :: "nat \<Rightarrow> item list \<Rightarrow> nat list \<times> item list" where
  "pop_items n [] = ([], [])"
| "pop_items n (Control i # xs) = (let (is, r) = pop_items n xs in (i # is, r))"
| "pop_items 0 (Byte b # xs) = ([], Byte b # xs)"
| "pop_items (Suc n) (Byte b # xs) = pop_items n xs"

primrec item_bytes :: "item list \<Rightarrow> byte list" where
  "item_bytes [] = []"
| "item_bytes (x # xs) = (case x of Byte b \<Rightarrow> b # item_bytes xs | Control i \<Rightarrow> item_bytes xs)"

primrec item_controls :: "item list \<Rightarrow> nat list" where
  "item_controls [] = []"
| "item_controls (x # xs) = (case x of Byte b \<Rightarrow> item_controls xs | Control i \<Rightarrow> i # item_controls xs)"

lemma item_bytes_append [simp]: "item_bytes (xs @ ys) = item_bytes xs @ item_bytes ys"
  by (induction xs) (auto split: item.splits)

lemma item_bytes_map [simp]: "item_bytes (map Byte bs) = bs"
  by (induction bs) auto

lemma item_bytes_node [simp]: "item_bytes (node_items n) = GetData n"
  by (cases n) auto

lemma item_bytes_nodes [simp]: "item_bytes (concat (map node_items ns)) = concat (map GetData ns)"
  by (induction ns) auto

lemma item_bytes_items: "item_bytes (items q) = content q"
  by (simp add: items_def content_def)

lemma item_controls_append [simp]: "item_controls (xs @ ys) = item_controls xs @ item_controls ys"
  by (induction xs) (auto split: item.splits)

lemma item_controls_map [simp]: "item_controls (map Byte bs) = []"
  by (induction bs) auto

lemma pop_items_bytes: "item_bytes (snd (pop_items n xs)) = drop n (item_bytes xs)"
  by (induction n xs rule: pop_items.induct) (auto split: prod.splits)

lemma pop_items_controls: "fst (pop_items n xs) @ item_controls (snd (pop_items n xs)) = item_controls xs"
  by (induction n xs rule: pop_items.induct) (auto split: prod.splits)

lemma pop_items_drop:
  "n < length bs \<Longrightarrow> pop_items n (map Byte bs @ xs) = ([], map Byte (drop n bs) @ xs)"
proof (induction bs arbitrary: n)
  case (Cons b bs)
  then show ?case by (cases n) auto
qed simp

lemma pop_items_skip:
  "length bs \<le> n \<Longrightarrow> pop_items n (map Byte bs @ xs) = pop_items (n - length bs) xs"
proof (induction bs arbitrary: n)
  case (Cons b bs)
  then show ?case by (cases n) auto
qed simp

lemma GetDataSize_simps [simp]:
  "GetDataSize (DataNode d) = length d" "GetDataSize (VirtualNode i crossing) = 0"
  by (simp_all add: GetDataSize_def)

lemma OnConsumed_simps [simp]:
  "OnConsumed (DataNode d) = []" "OnConsumed (VirtualNode i crossing) = [OnBufferConsumed i]"
  "OnConsumedErr e (DataNode d) = []" "OnConsumedErr e (VirtualNode i crossing) = [OnBufferConsumedErr i e]"
  by (simp_all add: OnConsumed_def OnConsumedErr_def)

lemma wf_front:
  "wf q \<Longrightarrow> BlockList q = n # ns \<Longrightarrow> \<exists>d. n = DataNode d \<and> Mem q \<noteq> [] \<and> suffix (Mem q) d"
  by (cases n) (auto simp: wf_def)

lemma wf_Nil: "wf q \<Longrightarrow> Mem q = [] \<longleftrightarrow> BlockList q = []"
  by (auto simp: wf_def split: list.splits)

lemma wf_dcq_empty [simp]: "wf dcq_empty" "content dcq_empty = []"
  by (simp_all add: dcq_empty_def wf_def content_def)

lemma CalcDataSize_length: "CalcDataSize ns = length (concat (map GetData ns))"
  by (induction ns) (auto simp: GetDataSize_def)

lemma CalcSize_length: "wf q \<Longrightarrow> CalcSize q = length (content q)"
  by (auto simp: CalcSize_def content_def CalcDataSize_length wf_def split: list.splits)

subsection \<open>Consuming\<close>

definition notify :: "nat list \<Rightarrow> node_event list" where
  "notify is = map OnBufferConsumed is"

lemma notify_simps [simp]: "notify [] = []" "notify (i # is) = OnBufferConsumed i # notify is"
  "notify (is @ js) = notify is @ notify js"
  by (simp_all add: notify_def)

text \<open>The state after a consuming operation: \<open>pop_items\<close> of the items.\<close>

definition after_pop :: "nat \<Rightarrow> item list \<Rightarrow> node_event list \<Rightarrow> dc_queue \<Rightarrow> bool" where
  "after_pop n its evs q' = (wf q' \<and> items q' = snd (pop_items n its)
     \<and> Notified q' = evs @ notify (fst (pop_items n its)))"

lemma after_pop_skip:
  "\<not> n < length bs \<Longrightarrow>
   after_pop n (map Byte bs @ xs) evs q' = after_pop (n - length bs) xs evs q'"
  by (simp add: after_pop_def pop_items_skip)

lemma remove_loop_pop:
  "after_pop sz (concat (map node_items ns)) (Notified q) (remove_loop sz ns q)"
proof (induction sz ns q rule: remove_loop.induct)
  case (1 sz q)
  then show ?case by (simp add: after_pop_def wf_def items_def)
next
  case (2 sz n ns q)
  show ?case
  proof (cases n)
    case (DataNode d)
    show ?thesis
    proof (cases "sz < length d")
      case True
      then show ?thesis
        by (auto simp: after_pop_def wf_def items_def DataNode pop_items_drop suffix_drop)
    next
      case False
      then show ?thesis
        using "2.IH" by (simp add: DataNode after_pop_skip)
    qed
  next
    case (VirtualNode i crossing)
    then show ?thesis
      using "2.IH" by (simp add: after_pop_def split: prod.splits)
  qed
qed

lemma PopConsumed_pop:
  assumes "wf q"
  shows "after_pop sz (items q) (Notified q) (PopConsumed sz q)"
proof (cases "sz < length (Mem q)")
  case True
  then show ?thesis
    using assms
    by (auto simp: PopConsumed_def after_pop_def items_def pop_items_drop wf_def
        intro: suffix_order.trans [OF suffix_drop] split: list.splits)
next
  case False
  show ?thesis
  proof (cases "BlockList q")
    case Nil
    then show ?thesis
      using assms by (simp add: PopConsumed_def DcQueueRemoveMore_def after_pop_def items_def wf_def)
  next
    case (Cons n ns)
    with assms obtain d where "n = DataNode d" using wf_front by blast
    then show ?thesis
      using False remove_loop_pop [of "sz - length (Mem q)" ns "q\<lparr>BlockList := ns\<rparr>"]
      by (simp add: PopConsumed_def DcQueueRemoveMore_def pop_consumed_def Cons items_def
          after_pop_skip)
  qed
qed

lemma PopConsumed_wf [intro, simp]: "wf q \<Longrightarrow> wf (PopConsumed sz q)"
  using PopConsumed_pop by (auto simp: after_pop_def)

lemma PopConsumed_content [simp]: "wf q \<Longrightarrow> content (PopConsumed sz q) = drop sz (content q)"
  using PopConsumed_pop [of q sz]
  by (simp add: after_pop_def flip: item_bytes_items) (simp add: pop_items_bytes)

lemma read_loop_eq: "read_loop sz ns q out = (out @ take sz (concat (map GetData ns)), remove_loop sz ns q)"
proof (induction sz ns q out rule: read_loop.induct)
  case (2 sz n ns q out)
  show ?case
  proof (cases "0 < GetDataSize n \<and> sz < GetDataSize n")
    case True
    then show ?thesis by (simp add: GetDataSize_def)
  next
    case False
    then show ?thesis using "2.IH" by (auto simp: GetDataSize_def)
  qed
qed simp

lemma Read_eq: "wf q \<Longrightarrow> Read sz q = (take sz (content q), if sz = 0 then q else PopConsumed sz q)"
proof -
  assume wf: "wf q"
  show ?thesis
  proof (cases "BlockList q")
    case Nil
    then show ?thesis
      using wf by (simp add: Read_def content_def wf_def PopConsumed_def DcQueueRemoveMore_def)
  next
    case (Cons n ns)
    with wf obtain d where "n = DataNode d" "Mem q \<noteq> []" using wf_front by blast
    then show ?thesis
      by (auto simp: Read_def content_def Cons Let_def min_def DcQueueReadMore_def pop_consumed_def
          read_loop_eq PopConsumed_def DcQueueRemoveMore_def)
  qed
qed

subsection \<open>Looking\<close>

lemma peek_more_eq:
  "0 < sz \<Longrightarrow> peek_more sz ns =
     (let c = concat (map GetData ns) in if sz \<le> length c then Some (take sz c) else None)"
proof (induction sz ns rule: peek_more.induct)
  case (2 sz n ns)
  show ?case
  proof (cases "sz \<le> GetDataSize n")
    case True
    then show ?thesis using "2.prems" by (auto simp: GetDataSize_def min_def)
  next
    case False
    then show ?thesis
      using "2.IH" "2.prems" by (cases "GetDataSize n = 0") (auto simp: GetDataSize_def min_def Let_def)
  qed
qed simp

lemma has_more_eq: "nodesz < sz \<Longrightarrow> has_more sz nodesz ns = (sz \<le> nodesz + length (concat (map GetData ns)))"
  by (induction sz nodesz ns rule: has_more.induct) (auto simp: Let_def GetDataSize_def)

lemma Peek_eq:
  assumes "wf q" "0 < sz"
  shows "Peek sz q = (if sz \<le> length (content q) then Some (take sz (content q)) else None)"
  using assms
  by (auto simp: Peek_def DcQueuePeekMore_def content_def wf_def peek_more_eq Let_def split: list.splits)

lemma Peek1_eq: "wf q \<Longrightarrow> Peek1 q = (case content q of [] \<Rightarrow> None | b # bs \<Rightarrow> Some b)"
  by (auto simp: Peek1_def content_def wf_def split: list.splits)

lemma IsSizeEnough_eq: "wf q \<Longrightarrow> IsSizeEnough sz q = (sz \<le> length (content q))"
  by (auto simp: IsSizeEnough_def DcQueueHasMore_def content_def wf_def has_more_eq split: list.splits)

subsection \<open>Filling\<close>

lemma front_loop_pop: "Mem q = [] \<Longrightarrow> after_pop 0 (concat (map node_items ns)) (Notified q) (front_loop ns q)"
proof (induction ns q rule: front_loop.induct)
  case (2 n ns q)
  show ?case
  proof (cases n)
    case (DataNode d)
    show ?thesis
      using "2.prems" "2.IH" pop_items_drop [of 0 d "concat (map node_items ns)"]
      by (cases "d = []") (auto simp: DataNode after_pop_def wf_def items_def)
  next
    case (VirtualNode i crossing)
    then show ?thesis using "2.IH" "2.prems" by (simp add: after_pop_def split: prod.splits)
  qed
qed (simp add: after_pop_def wf_def items_def)

lemma push_back_list_pop:
  assumes "wf q"
  shows "after_pop 0 (items q @ concat (map node_items ns)) (Notified q) (push_back_list ns q)"
proof (cases "Mem q = []")
  case True
  then have "BlockList q = []" using assms wf_Nil by blast
  then show ?thesis
    using True front_loop_pop [of "q\<lparr>BlockList := ns\<rparr>" ns]
    by (simp add: push_back_list_def FrontToCurrBlock_def items_def)
next
  case False
  then obtain n ms where bl: "BlockList q = n # ms" using assms wf_Nil by (cases "BlockList q") auto
  then show ?thesis
    using assms False pop_items_drop [of 0 "Mem q" "concat (map node_items (ms @ ns))"]
    by (auto simp: push_back_list_def FrontToCurrBlock_def items_def after_pop_def wf_def)
qed

lemma push_back_list_wf [simp]: "wf q \<Longrightarrow> wf (push_back_list ns q)"
  using push_back_list_pop by (auto simp: after_pop_def)

lemma push_back_list_content [simp]:
  "wf q \<Longrightarrow> content (push_back_list ns q) = content q @ concat (map GetData ns)"
  using push_back_list_pop [of q ns]
  by (simp add: after_pop_def flip: item_bytes_items) (simp add: pop_items_bytes)

lemma push_back_eq: "push_back n q = push_back_list [n] q"
  by (simp add: push_back_def push_back_list_def)

subsection \<open>The contract of a queue\<close>

locale byte_source =
  fixes ok :: "'s \<Rightarrow> bool"
    and bytes :: "'s \<Rightarrow> byte list"
    and peek1 :: "'s \<Rightarrow> byte option"
    and peek :: "nat \<Rightarrow> 's \<Rightarrow> byte list option"
    and pop :: "nat \<Rightarrow> 's \<Rightarrow> 's"
  assumes peek1_bytes: "ok s \<Longrightarrow> peek1 s = (case bytes s of [] \<Rightarrow> None | b # bs \<Rightarrow> Some b)"
    and peek_bytes: "ok s \<Longrightarrow> 0 < n \<Longrightarrow>
      peek n s = (if n \<le> length (bytes s) then Some (take n (bytes s)) else None)"
    and pop_ok: "ok s \<Longrightarrow> ok (pop n s)"
    and pop_bytes: "ok s \<Longrightarrow> bytes (pop n s) = drop n (bytes s)"
begin

lemma peek1_Cons: "ok s \<Longrightarrow> bytes s = b # bs \<Longrightarrow> peek1 s = Some b"
  by (simp add: peek1_bytes)

lemma peek1_Nil: "ok s \<Longrightarrow> bytes s = [] \<Longrightarrow> peek1 s = None"
  by (simp add: peek1_bytes)

lemma peek_prefix: "ok s \<Longrightarrow> bytes s = xs @ ys \<Longrightarrow> length xs = n \<Longrightarrow> 0 < n \<Longrightarrow> peek n s = Some xs"
  by (auto simp: peek_bytes)

lemma peek_short: "ok s \<Longrightarrow> length (bytes s) < n \<Longrightarrow> peek n s = None"
  by (auto simp: peek_bytes)

lemma pop_prefix: "ok s \<Longrightarrow> bytes s = xs @ ys \<Longrightarrow> length xs = n \<Longrightarrow> ok (pop n s) \<and> bytes (pop n s) = ys"
  by (auto simp: pop_bytes pop_ok)

end

interpretation dcl: byte_source wf content Peek1 Peek PopConsumed
  by unfold_locales (simp_all add: Peek1_eq Peek_eq)

text \<open>
  \<open>DcQueueFixedMem\<close>: one block, \<open>None\<close> for \<open>nullptr\<close>. An empty block that is not \<open>nullptr\<close>
  is outside the contract: \<open>Peek1\<close> hands out its address.
\<close>

type_synonym fixed_mem = "byte list option"

definition fixed_block :: "fixed_mem \<Rightarrow> byte list" where
  "fixed_block m = (case m of None \<Rightarrow> [] | Some bs \<Rightarrow> bs)"

definition fixed_ok :: "fixed_mem \<Rightarrow> bool" where
  "fixed_ok m = (m \<noteq> Some [])"

definition fixed_Peek1 :: "fixed_mem \<Rightarrow> byte option" where
  "fixed_Peek1 m = map_option hd m"

definition fixed_Peek :: "nat \<Rightarrow> fixed_mem \<Rightarrow> byte list option" where
  "fixed_Peek sz m = (if sz \<le> length (fixed_block m) then map_option (take sz) m else None)"

definition fixed_PopConsumed :: "nat \<Rightarrow> fixed_mem \<Rightarrow> fixed_mem" where
  "fixed_PopConsumed sz m = (if sz < length (fixed_block m) then map_option (drop sz) m else None)"

interpretation dcf: byte_source fixed_ok fixed_block fixed_Peek1 fixed_Peek fixed_PopConsumed
  by unfold_locales
    (auto simp: fixed_ok_def fixed_block_def fixed_Peek1_def fixed_Peek_def fixed_PopConsumed_def
      split: option.splits list.splits)

subsection \<open>Loops over blocks\<close>

lemma remove_loop_blocks: "length (BlockList (remove_loop sz ns q)) \<le> length ns"
  by (induction sz ns q rule: remove_loop.induct) (auto simp: Let_def)

lemma block_popped:
  "wf q \<Longrightarrow> Mem q \<noteq> [] \<Longrightarrow> length (BlockList (PopConsumed (length (Mem q)) q)) < length (BlockList q)"
  using remove_loop_blocks [of 0 "tl (BlockList q)" "pop_consumed q"]
  by (cases "BlockList q") (auto simp: PopConsumed_def DcQueueRemoveMore_def pop_consumed_def wf_def)

lemma content_Mem: "\<exists>r. content q = Mem q @ r"
  by (simp add: content_def)

lemma content_Nil: "wf q \<Longrightarrow> Mem q = [] \<Longrightarrow> content q = []"
  by (simp add: content_def wf_Nil)

lemma takeWhile_found:
  "length (takeWhile P xs) < length xs \<Longrightarrow> takeWhile P (xs @ ys) = takeWhile P xs"
  by (metis less_irrefl takeWhile_append1 takeWhile_eq_all_conv)

lemma takeWhile_missing:
  "\<not> length (takeWhile P xs) < length xs \<Longrightarrow> takeWhile P xs = xs \<and> (\<forall>x\<in>set xs. P x)"
proof -
  assume "\<not> length (takeWhile P xs) < length xs"
  then have "takeWhile P xs = xs"
    by (metis le_neq_implies_less length_takeWhile_le takeWhile_eq_take take_all order_refl)
  then show ?thesis by (metis set_takeWhileD)
qed

lemma pop_unknown_loop_eq:
  assumes "wf q" "length (BlockList q) < f"
  shows "\<exists>q'. pop_unknown_loop f ch removed q = Some (removed + length (takeWhile (\<lambda>b. b \<noteq> ch) (content q)), q')
    \<and> wf q' \<and> content q' = dropWhile (\<lambda>b. b \<noteq> ch) (content q)"
  using assms
proof (induction f arbitrary: removed q)
  case (Suc f)
  let ?P = "\<lambda>b. b \<noteq> ch"
  show ?case
  proof (cases "Mem q = []")
    case True
    then show ?thesis using Suc.prems by (simp add: PeekCurrBlock_def content_Nil)
  next
    case ne: False
    obtain r where r: "content q = Mem q @ r" using content_Mem by blast
    show ?thesis
    proof (cases "length (takeWhile ?P (Mem q)) < length (Mem q)")
      case True
      then have tw: "takeWhile ?P (content q) = takeWhile ?P (Mem q)" by (simp add: r takeWhile_found)
      have dw: "dropWhile ?P (content q) = drop (length (takeWhile ?P (Mem q))) (content q)"
        by (simp add: dropWhile_eq_drop tw)
      show ?thesis
        using True ne Suc.prems by (auto simp: PeekCurrBlock_def Let_def tw dw)
    next
      case False
      note all = takeWhile_missing [OF False]
      let ?q = "PopConsumed (length (Mem q)) q"
      have "length (BlockList ?q) < f" using block_popped [OF Suc.prems(1) ne] Suc.prems(2) by simp
      then obtain q' where "pop_unknown_loop f ch (removed + length (Mem q)) ?q
          = Some (removed + length (Mem q) + length (takeWhile ?P (content ?q)), q')"
        "wf q'" "content q' = dropWhile ?P (content ?q)"
        using Suc.IH [of ?q "removed + length (Mem q)"] Suc.prems by auto
      moreover have "content ?q = r" using Suc.prems by (simp add: r)
      moreover have "takeWhile ?P (content q) = Mem q @ takeWhile ?P r"
        "dropWhile ?P (content q) = dropWhile ?P r"
        using all by (simp_all add: r takeWhile_append2 dropWhile_append2)
      ultimately show ?thesis
        using False ne by (simp add: PeekCurrBlock_def)
    qed
  qed
qed simp

definition line_of :: "byte \<Rightarrow> byte list \<Rightarrow> byte list" where
  "line_of ch bs = takeWhile (\<lambda>b. b \<noteq> ch) bs @ [ch]"

text \<open>What one \<open>PeekUntil\<close> leaves, after the line found has been popped.\<close>

definition line_taken :: "byte \<Rightarrow> line_peeker \<Rightarrow> byte list \<Rightarrow> byte list option \<times> line_peeker \<times> dc_queue \<Rightarrow> bool" where
  "line_taken ch lp bs res = (case res of
     (None, lp', q') \<Rightarrow> ch \<notin> set bs \<and> wf q' \<and> content q' = [] \<and> TmpBuf lp' = TmpBuf lp @ bs
   | (Some ln, lp', q') \<Rightarrow> ch \<in> set bs \<and> ln = TmpBuf lp @ line_of ch bs \<and> LineSize lp' = length ln
       \<and> (case LinePopConsumed lp' q' of (lp'', q'') \<Rightarrow>
            TmpBuf lp'' = [] \<and> LineSize lp'' = 0 \<and> wf q'' \<and> content q'' = drop (length (line_of ch bs)) bs))"

lemma peek_until_loop_eq:
  assumes "wf q" "length (BlockList q) < f"
  shows "\<exists>res. peek_until_loop f ch lp q = Some res \<and> line_taken ch lp (content q) res"
  using assms
proof (induction f arbitrary: lp q)
  case (Suc f)
  let ?P = "\<lambda>b. b \<noteq> ch"
  show ?case
  proof (cases "Mem q = []")
    case True
    then show ?thesis using Suc.prems by (simp add: PeekCurrBlock_def content_Nil line_taken_def)
  next
    case ne: False
    obtain r where r: "content q = Mem q @ r" using content_Mem by blast
    show ?thesis
    proof (cases "length (takeWhile ?P (Mem q)) < length (Mem q)")
      case True
      let ?n = "length (takeWhile ?P (Mem q))"
      have "Mem q ! ?n = ch" using nth_length_takeWhile [OF True] by simp
      then have line: "take (Suc ?n) (Mem q) = line_of ch (content q)" and "ch \<in> set (content q)"
        using True nth_mem [OF True]
        by (simp_all add: line_of_def r takeWhile_found take_Suc_conv_app_nth takeWhile_eq_take [symmetric])
      moreover have "length (line_of ch (content q)) = Suc ?n"
        by (simp add: line_of_def r takeWhile_found [OF True])
      ultimately show ?thesis
        using True ne Suc.prems
        by (auto simp: PeekCurrBlock_def Let_def line_taken_def LinePopConsumed_def)
    next
      case False
      note all = takeWhile_missing [OF False]
      let ?q = "PopConsumed (length (Mem q)) q" and ?lp = "lp\<lparr>TmpBuf := TmpBuf lp @ Mem q\<rparr>"
      have "length (BlockList ?q) < f" using block_popped [OF Suc.prems(1) ne] Suc.prems(2) by simp
      then obtain res where res: "peek_until_loop f ch ?lp ?q = Some res" "line_taken ch ?lp (content ?q) res"
        using Suc.IH [of ?q ?lp] Suc.prems by auto
      have c: "content ?q = r" using Suc.prems by (simp add: r)
      have "line_taken ch lp (content q) res"
        using res(2) all unfolding c r
        by (auto simp: line_taken_def line_of_def takeWhile_append2 split: option.splits)
      then show ?thesis using res(1) False ne by (simp add: PeekCurrBlock_def)
    qed
  qed
qed simp

end
