(* ===== verification/DcQueueSpec.thy ===== *)
theory DcQueueSpec
  imports DcQueueProps
begin

text \<open>
  The properties of the buffer queue: its operations are those of a byte list, over any run
  of operations no byte and no control node is lost, repeated or taken out of turn, lines
  are found whatever the blocks are, and two defects of error and default paths.
\<close>

subsection \<open>Filling and emptying\<close>

lemma concat_nodes_Nil: "concat (map node_items ns) = [] \<Longrightarrow> concat (map GetData ns) = []"
  by (metis item_bytes.simps(1) item_bytes_nodes)

lemma AppendToBuffer_cases:
  obtains "AppendToBuffer room src ns = ns @ [DataNode src]"
  | d ms where "ns = ms @ [DataNode d]" "AppendToBuffer room src ns = ms @ [DataNode (d @ src)]"
proof (cases "rev ns")
  case Nil
  then show ?thesis using that(1) by (simp add: AppendToBuffer_def split: option.splits)
next
  case (Cons n ms)
  then have ns: "ns = rev ms @ [n]" by (metis rev.simps(2) rev_rev_ident)
  show ?thesis
  proof (cases n)
    case (DataNode d)
    then show ?thesis
      using that(1) that(2) [of "rev ms" d]
      by (cases room; cases "the room < length src") (simp_all add: AppendToBuffer_def ns)
  next
    case (VirtualNode i crossing)
    then show ?thesis using that(1) by (cases room) (simp_all add: AppendToBuffer_def ns)
  qed
qed

lemma AppendBytes_pop:
  assumes "wf q"
  shows "after_pop 0 (items q @ map Byte src) (Notified q) (AppendBytes room src q)"
proof (cases "BlockList q")
  case Nil
  then have "AppendToBuffer room src (BlockList q) = [DataNode src]" "Mem q = []"
    using assms by (auto simp: AppendToBuffer_def wf_def split: option.splits)
  then show ?thesis
    using front_loop_pop [of "q\<lparr>BlockList := [DataNode src]\<rparr>" "[DataNode src]"] Nil
    by (simp add: AppendBytes_def FrontToCurrBlock_def items_def Let_def del: front_loop.simps)
next
  case (Cons n ns)
  then obtain d where n: "n = DataNode d" "Mem q \<noteq> []" "suffix (Mem q) d"
    using assms wf_front by blast
  have pop: "pop_items 0 (map Byte (Mem q) @ xs) = ([], map Byte (Mem q) @ xs)" for xs
    using n pop_items_drop [of 0 "Mem q" xs] by simp
  show ?thesis
  proof (cases rule: AppendToBuffer_cases [of room src "BlockList q"])
    case 1
    then show ?thesis
      using n by (auto simp: AppendBytes_def Cons BackExpanded_def after_pop_def wf_def items_def pop)
  next
    case (2 d' ms)
    show ?thesis
    proof (cases ms)
      case Nil
      then show ?thesis
        using 2 n pop_items_drop [of 0 "Mem q @ src" "[]"]
        by (auto simp: AppendBytes_def Cons BackExpanded_def after_pop_def wf_def items_def suffix_def)
    next
      case (Cons m ms')
      then show ?thesis
        using 2 n \<open>BlockList q = n # ns\<close>
        by (auto simp: AppendBytes_def BackExpanded_def after_pop_def wf_def items_def pop)
    qed
  qed
qed

lemma pop_all_loop_eq:
  "pop_all_loop ns q = q \<lparr> Mem := [], BlockList := [],
     Notified := Notified q @ notify (item_controls (concat (map node_items ns))) \<rparr>"
proof (induction ns q rule: pop_all_loop.induct)
  case (2 n ns q)
  then show ?case by (cases n) auto
qed simp

lemma PopConsumedAll_eq:
  assumes "wf q"
  shows "PopConsumedAll q = q \<lparr> Mem := [], BlockList := [],
    Notified := Notified q @ notify (item_controls (items q)) \<rparr>"
proof (cases "BlockList q")
  case Nil
  then show ?thesis using assms by (simp add: PopConsumedAll_def items_def wf_def)
next
  case (Cons n ns)
  then obtain d where "n = DataNode d" using assms wf_front by blast
  then show ?thesis by (simp add: PopConsumedAll_def pop_all_loop_eq items_def Cons)
qed

subsection \<open>Runs\<close>

datatype dcq_op =
    OpPush "buffer_node list" | OpAppend "nat option" "byte list"
  | OpPop nat | OpRead nat | OpFetch nat | OpPopAll

text \<open>The queue with what has been put in and the bytes that have been taken out.\<close>

type_synonym dcq_run = "item list \<times> byte list \<times> dc_queue"

definition dcq_step :: "dcq_run \<Rightarrow> dcq_op \<Rightarrow> dcq_run" where
  "dcq_step s op = (case s of (inp, out, q) \<Rightarrow> (case op of
     OpPush ns \<Rightarrow> (inp @ concat (map node_items ns), out, push_back_list ns q)
   | OpAppend room src \<Rightarrow> (inp @ map Byte src, out, AppendBytes room src q)
   | OpPop n \<Rightarrow> (inp, out @ take n (content q), PopConsumed n q)
   | OpRead n \<Rightarrow> (case Read n q of (bs, q') \<Rightarrow> (inp, out @ bs, q'))
   | OpFetch n \<Rightarrow> (case Fetch n q of (None, q') \<Rightarrow> (inp, out, q') | (Some bs, q') \<Rightarrow> (inp, out @ bs, q'))
   | OpPopAll \<Rightarrow> (inp, out @ content q, PopConsumedAll q)))"

definition account :: "dcq_run \<Rightarrow> bool" where
  "account s = (case s of (inp, out, q) \<Rightarrow> wf q \<and> item_bytes inp = out @ content q
     \<and> notify (item_controls inp) = Notified q @ notify (item_controls (items q)))"

lemma after_pop_account:
  assumes "after_pop n (items q @ xs) (Notified q) q'" "account (inp, out, q)" "n \<le> length (content q)"
  shows "account (inp @ xs, out @ take n (content q), q')"
proof -
  have wf: "wf q'" and it: "items q' = snd (pop_items n (items q @ xs))"
    and nt: "Notified q' = Notified q @ notify (fst (pop_items n (items q @ xs)))"
    using assms(1) by (auto simp: after_pop_def)
  have "content q' = drop n (content q @ item_bytes xs)"
    unfolding item_bytes_items [symmetric] it pop_items_bytes by (simp add: item_bytes_items)
  then have "item_bytes (inp @ xs) = (out @ take n (content q)) @ content q'"
    using assms(2,3) by (auto simp: account_def)
  moreover have "notify (item_controls (inp @ xs)) = Notified q' @ notify (item_controls (items q'))"
  proof -
    have "Notified q' @ notify (item_controls (items q')) = Notified q @ notify (item_controls (items q @ xs))"
      unfolding it nt by (simp add: pop_items_controls flip: notify_simps(3))
    then show ?thesis using assms(2) by (simp add: account_def)
  qed
  ultimately show ?thesis using wf by (simp add: account_def)
qed

lemma pop_account:
  "account (inp, out, q) \<Longrightarrow> account (inp, out @ take n (content q), PopConsumed n q)"
proof -
  assume a: "account (inp, out, q)"
  then have wf: "wf q" by (simp add: account_def)
  note ap = PopConsumed_pop [OF wf, of n]
  have wf': "wf (PopConsumed n q)" and it: "items (PopConsumed n q) = snd (pop_items n (items q))"
    and nt: "Notified (PopConsumed n q) = Notified q @ notify (fst (pop_items n (items q)))"
    using ap by (auto simp: after_pop_def)
  have "Notified (PopConsumed n q) @ notify (item_controls (items (PopConsumed n q)))
      = Notified q @ notify (item_controls (items q))"
    unfolding it nt by (simp add: pop_items_controls flip: notify_simps(3))
  then show ?thesis using a wf by (simp add: account_def)
qed

lemma account_step: "account s \<Longrightarrow> account (dcq_step s op)"
proof -
  assume a: "account s"
  obtain inp out q where s: "s = (inp, out, q)" by (cases s)
  then have wf: "wf q" using a by (simp add: account_def)
  show ?thesis
  proof (cases op)
    case (OpPush ns)
    then show ?thesis
      using after_pop_account [OF push_back_list_pop [OF wf]] a by (simp add: dcq_step_def s)
  next
    case (OpAppend room src)
    then show ?thesis
      using after_pop_account [OF AppendBytes_pop [OF wf]] a by (simp add: dcq_step_def s)
  next
    case (OpPop n)
    then show ?thesis using pop_account a by (simp add: dcq_step_def s)
  next
    case (OpRead n)
    then show ?thesis using pop_account [of inp out q n] a wf by (auto simp: dcq_step_def s Read_eq)
  next
    case (OpFetch n)
    have "Peek n q = Some bs \<Longrightarrow> bs = take n (content q)" for bs
      using wf Peek_eq [OF wf, of n] by (cases "n = 0") (auto simp: Peek_def split: if_splits)
    then show ?thesis
      using pop_account [of inp out q n] a OpFetch by (auto simp: dcq_step_def s Fetch_def split: option.splits)
  next
    case OpPopAll
    then show ?thesis using a wf by (auto simp: dcq_step_def s account_def PopConsumedAll_eq wf_def content_def items_def)
  qed
qed

lemma account_init: "account ([], [], dcq_empty)"
  by (simp add: account_def dcq_empty_def wf_def content_def items_def)

interpretation dcq: invariant_system dcq_step "([], [], dcq_empty)" "\<lambda>op. True" account
  by unfold_locales (simp_all add: account_step account_init)

lemma err_loop_eq:
  "err_loop e ns q = q \<lparr> Mem := [], BlockList := [],
     Notified := Notified q @ concat (map (\<lambda>i. [OnBufferConsumedErr i e, OnBufferConsumedErr i e])
       (item_controls (concat (map node_items ns)))) \<rparr>"
proof (induction e ns q rule: err_loop.induct)
  case (2 e n ns q)
  then show ?case by (cases n) auto
qed simp

subsection \<open>Properties\<close>

text \<open>
  C27: The queue refines a byte list. Looking at, sizing, reading and consuming the first
  bytes of a queue is doing so with the list of its bytes, in whatever nodes they are; a
  queue with too few bytes is found out and left as it is.
\<close>

theorem queue_refines_byte_list:
  assumes "wf q" "0 < n"
  shows "Peek n q = (if n \<le> length (content q) then Some (take n (content q)) else None)
    \<and> Fetch n q = (if n \<le> length (content q) then (Some (take n (content q)), PopConsumed n q) else (None, q))
    \<and> IsSizeEnough n q = (n \<le> length (content q)) \<and> CalcSize q = length (content q)
    \<and> wf (PopConsumed n q) \<and> content (PopConsumed n q) = drop n (content q)
    \<and> fst (Read n q) = take n (content q) \<and> content (snd (Read n q)) = drop n (content q)
    \<and> content (push_back_list ns q) = content q @ concat (map GetData ns)"
  using assms by (simp add: Fetch_def Peek_eq IsSizeEnough_eq CalcSize_length Read_eq)

definition three_nodes :: dc_queue where
  "three_nodes = push_back_list [DataNode [1, 2], VirtualNode 7 False, DataNode [3], DataNode [4, 5]] dcq_empty"

lemma wf_three_nodes [simp]: "wf three_nodes"
  by (simp add: three_nodes_def)

lemma queue_refines_byte_list_witness:
  "Peek 4 three_nodes = Some [1, 2, 3, 4] \<and> fst (Read 4 three_nodes) = [1, 2, 3, 4]"
proof -
  have "content three_nodes = [1, 2, 3, 4, 5]" by (simp add: three_nodes_def)
  then show ?thesis using queue_refines_byte_list [of three_nodes 4 "[]"] by (simp add: numeral_eq_Suc)
qed

text \<open>
  C28: Over any sequence of operations from the empty queue, the bytes put in are the bytes
  taken out followed by those still there, and the control nodes put in are those told so
  far, in that order and each once, followed by those still waiting.
\<close>

theorem queue_account:
  "case foldl dcq_step ([], [], dcq_empty) ops of (inp, out, q) \<Rightarrow>
     wf q \<and> item_bytes inp = out @ content q
     \<and> map OnBufferConsumed (item_controls inp) = Notified q @ map OnBufferConsumed (item_controls (items q))"
  using dcq.run_inv [of ops] by (auto simp: account_def notify_def split: prod.splits)

text \<open>
  Consuming bytes tells exactly the control nodes whose bytes in front have all been
  consumed: \<open>PopConsumed\<close> is \<open>pop_items\<close> on the sequence of bytes and control nodes.
\<close>

theorem control_nodes_wait_for_their_bytes:
  assumes "wf q"
  shows "items (PopConsumed n q) = snd (pop_items n (items q))
    \<and> Notified (PopConsumed n q) = Notified q @ map OnBufferConsumed (fst (pop_items n (items q)))"
  using PopConsumed_pop [OF assms] by (simp add: after_pop_def notify_def)

lemma control_nodes_wait_for_their_bytes_witness:
  "Notified (PopConsumed 1 three_nodes) = [] \<and> Notified (PopConsumed 2 three_nodes) = [OnBufferConsumed 7]"
proof -
  have "Notified three_nodes = []" "items three_nodes = [Byte 1, Byte 2, Control 7, Byte 3, Byte 4, Byte 5]"
    by (simp_all add: three_nodes_def push_back_list_def FrontToCurrBlock_def dcq_empty_def items_def)
  then show ?thesis
    using control_nodes_wait_for_their_bytes [of three_nodes 1] control_nodes_wait_for_their_bytes [of three_nodes 2]
    by (simp add: numeral_eq_Suc)
qed

text \<open>
  Lines. Whatever blocks the bytes came in, \<open>PeekUntil\<close> returns the bytes kept from
  before with the first line, which \<open>PopConsumed\<close> then removes; without the character it
  returns nothing and has kept all bytes.
\<close>

theorem line_is_found_in_any_blocks:
  assumes "wf q"
  shows "\<exists>res. PeekUntil ch lp q = Some res \<and> line_taken ch lp (content q) res"
  using peek_until_loop_eq [OF assms lessI] by (simp add: PeekUntil_def)

lemma line_is_found_in_any_blocks_witness:
  "\<exists>res. PeekUntil 4 \<lparr> TmpBuf = [9], LineSize = 0 \<rparr> three_nodes = Some res
     \<and> line_taken 4 \<lparr> TmpBuf = [9], LineSize = 0 \<rparr> (content three_nodes) res"
  by (rule line_is_found_in_any_blocks) simp

text \<open>
  C29: Skipping to a character. \<open>PopUnknownChar\<close> ends, removes the bytes before the first
  occurrence of the character and returns their number.
\<close>

theorem unknown_bytes_are_skipped:
  assumes "wf q"
  shows "\<exists>q'. PopUnknownChar ch q = Some (length (takeWhile (\<lambda>b. b \<noteq> ch) (content q)), q')
    \<and> wf q' \<and> content q' = dropWhile (\<lambda>b. b \<noteq> ch) (content q)"
  using pop_unknown_loop_eq [OF assms lessI, of ch 0] by (simp add: PopUnknownChar_def)

lemma unknown_bytes_are_skipped_witness:
  "\<exists>q'. PopUnknownChar 4 three_nodes = Some (length (takeWhile (\<lambda>b. b \<noteq> 4) (content three_nodes)), q')
     \<and> wf q' \<and> content q' = dropWhile (\<lambda>b. b \<noteq> 4) (content three_nodes)"
  by (rule unknown_bytes_are_skipped) simp

text \<open>
  When the consumer reports an error, every control node behind the front is told of it
  twice: \<open>ConsumeErr\<close> calls \<open>OnBufferConsumedErr\<close> and then \<open>NodeConsumed\<close>, which calls it
  again.
\<close>

theorem error_is_told_twice:
  assumes "wf q"
  shows "Notified (ConsumeErr e q) = Notified q
    @ concat (map (\<lambda>i. [OnBufferConsumedErr i e, OnBufferConsumedErr i e]) (item_controls (items q)))"
proof (cases "BlockList q")
  case Nil
  then show ?thesis using assms by (simp add: ConsumeErr_def items_def wf_def)
next
  case (Cons n ns)
  then obtain d where "n = DataNode d" using assms wf_front by blast
  then show ?thesis by (simp add: ConsumeErr_def err_loop_eq items_def Cons)
qed

lemma error_is_told_twice_witness:
  "Notified (ConsumeErr 5 three_nodes) = Notified three_nodes
    @ concat (map (\<lambda>i. [OnBufferConsumedErr i 5, OnBufferConsumedErr i 5]) (item_controls (items three_nodes)))"
  by (rule error_is_told_twice) simp

text \<open>
  The default \<open>DcQueue::DcQueueReadMore\<close> reads from one block only, however many bytes
  are asked for and present.
\<close>

theorem default_read_stops_after_one_block:
  assumes "wf q" "Mem (DcQueueRemoveMore 0 q) \<noteq> []" "0 < n"
  shows "base_ReadMore n q = Some (take n (Mem (DcQueueRemoveMore 0 q)),
    PopConsumed (min n (length (Mem (DcQueueRemoveMore 0 q)))) (DcQueueRemoveMore 0 q))"
  using assms by (auto simp: base_ReadMore_def Let_def min_def)

lemma default_read_stops_after_one_block_witness:
  "map_option fst (base_ReadMore 3 three_nodes) = Some [3]"
proof -
  have "Mem (DcQueueRemoveMore 0 three_nodes) = [3]"
    by (simp add: three_nodes_def push_back_list_def FrontToCurrBlock_def dcq_empty_def
        DcQueueRemoveMore_def pop_consumed_def)
  then show ?thesis using default_read_stops_after_one_block [of three_nodes 3] by simp
qed

end
