(* ===== verification/Decimal.thy ===== *)
theory Decimal
  imports Fon9_Prelude
begin

text \<open>
  Fixed-point numbers (\<open>fon9/DecBase.hpp\<close>, \<open>DecBase.cpp\<close>, \<open>Decimal.hpp\<close>). An integer type
  is its width and signedness; a value of it is an \<open>int\<close> in its range, \<open>cast\<close> is
  \<open>static_cast\<close> and \<open>usual\<close> the type in which an expression of two types is computed. Signed
  overflow, which C++ leaves undefined, is not given a meaning: the properties stay in range
  or go through unsigned arithmetic, as the code does.
  The three policies for a value that does not fit (\<open>AdjustDecScaleExIgnore\<close>, \<open>ExThrow\<close>,
  \<open>ExLimit\<close>) are a datatype. The properties: rounding, and exactly when a change of the
  number of decimals is accepted, refused or clamped.
\<close>

subsection \<open>Integer types\<close>

datatype int_type = UInt nat | SInt nat

primrec num_min :: "int_type \<Rightarrow> int" where
  "num_min (UInt w) = 0"
| "num_min (SInt w) = - (2 ^ (w - 1))"

primrec num_max :: "int_type \<Rightarrow> int" where
  "num_max (UInt w) = 2 ^ w - 1"
| "num_max (SInt w) = 2 ^ (w - 1) - 1"

primrec cast :: "int_type \<Rightarrow> int \<Rightarrow> int" where
  "cast (UInt w) v = v mod 2 ^ w"
| "cast (SInt w) v = (v + 2 ^ (w - 1)) mod 2 ^ w - 2 ^ (w - 1)"

definition fits :: "int_type \<Rightarrow> int \<Rightarrow> bool" where
  "fits t v = (num_min t \<le> v \<and> v \<le> num_max t)"

primrec imax :: "int_type \<Rightarrow> int_type" where
  "imax (UInt w) = UInt 64"
| "imax (SInt w) = SInt 64"

primrec promote :: "int_type \<Rightarrow> int_type" where
  "promote (UInt w) = (if w < 32 then SInt 32 else UInt w)"
| "promote (SInt w) = (if w < 32 then SInt 32 else SInt w)"

fun usual_of :: "int_type \<Rightarrow> int_type \<Rightarrow> int_type" where
  "usual_of (UInt a) (UInt b) = UInt (max a b)"
| "usual_of (SInt a) (SInt b) = SInt (max a b)"
| "usual_of (UInt a) (SInt b) = (if b \<le> a then UInt a else SInt b)"
| "usual_of (SInt a) (UInt b) = (if a \<le> b then UInt b else SInt a)"

definition usual :: "int_type \<Rightarrow> int_type \<Rightarrow> int_type" where
  "usual s t = usual_of (promote s) (promote t)"

definition less_cc :: "int_type \<Rightarrow> int_type \<Rightarrow> int \<Rightarrow> int \<Rightarrow> bool" where
  "less_cc s t a b = (cast (usual s t) a < cast (usual s t) b)"

text \<open>Division truncates towards zero.\<close>

definition trunc_div :: "int \<Rightarrow> int \<Rightarrow> int" where
  "trunc_div a b = sgn a * sgn b * (\<bar>a\<bar> div \<bar>b\<bar>)"

definition div_cc :: "int_type \<Rightarrow> int_type \<Rightarrow> int \<Rightarrow> int \<Rightarrow> int" where
  "div_cc s t a b = trunc_div (cast (usual s t) a) (cast (usual s t) b)"

subsection \<open>Divisors and rounding\<close>

datatype dec_error = range_error | underflow_error | overflow_error

definition DecScaleMax :: nat where
  "DecScaleMax = 18"

definition DecDivisor :: "nat \<Rightarrow> int" where
  "DecDivisor scale = 10 ^ scale"

definition GetDecDivisor :: "nat \<Rightarrow> dec_error + int" where
  "GetDecDivisor scale = (if scale < DecScaleMax + 1 then Inr (DecDivisor scale) else Inl range_error)"

definition RoundByDivisor_u :: "int \<Rightarrow> int \<Rightarrow> int" where
  "RoundByDivisor_u num divisor =
     cast (UInt 64) (num div divisor + (if divisor div 2 \<le> num mod divisor then 1 else 0))"

definition RoundByDivisor_s :: "int \<Rightarrow> int \<Rightarrow> int" where
  "RoundByDivisor_s num divisor =
     (if num < 0
      then trunc_div num (cast (SInt 64) divisor) - (if divisor div 2 \<le> (- num) mod divisor then 1 else 0)
      else cast (SInt 64) (RoundByDivisor_u num divisor))"

definition Round :: "int_type \<Rightarrow> int \<Rightarrow> nat \<Rightarrow> dec_error + int" where
  "Round t num scale = (case GetDecDivisor scale of Inl e \<Rightarrow> Inl e
     | Inr d \<Rightarrow> Inr (case t of UInt w \<Rightarrow> RoundByDivisor_u num d | SInt w \<Rightarrow> RoundByDivisor_s num d))"

subsection \<open>Changing the number of decimals\<close>

datatype adjust_ex = ExIgnore | ExThrow | ExLimit

text \<open>\<open>s\<close> is the type of \<open>src\<close>, \<open>r\<close> the type of the result.\<close>

primrec OnAfterRound :: "adjust_ex \<Rightarrow> int_type \<Rightarrow> int_type \<Rightarrow> int \<Rightarrow> dec_error + int" where
  "OnAfterRound ExIgnore s r src = Inr (cast r src)"
| "OnAfterRound ExThrow s r src =
     (if less_cc s r src (num_min r) then Inl underflow_error
      else if less_cc r s (num_max r) src then Inl overflow_error
      else Inr (cast r src))"
| "OnAfterRound ExLimit s r src =
     (if less_cc s r src (num_min r) then Inr (num_min r)
      else if less_cc r s (num_max r) src then Inr (num_max r)
      else Inr (cast r src))"

text \<open>The multiplication is unsigned: the divisor is a \<open>uintmax_t\<close>.\<close>

definition mul_result :: "int_type \<Rightarrow> int_type \<Rightarrow> int \<Rightarrow> int \<Rightarrow> int" where
  "mul_result s r src m = cast r (cast (UInt 64) (cast (UInt 64) (cast (imax s) src) * m))"

definition mul_exact :: "int_type \<Rightarrow> int_type \<Rightarrow> int \<Rightarrow> int \<Rightarrow> bool" where
  "mul_exact s r src m =
     (src = cast s (div_cc r (imax s) (mul_result s r src m) (cast (imax s) m)))"

primrec OnMultipleDivisor :: "adjust_ex \<Rightarrow> int_type \<Rightarrow> int_type \<Rightarrow> int \<Rightarrow> int \<Rightarrow> dec_error + int" where
  "OnMultipleDivisor ExIgnore s r src m = Inr (mul_result s r src m)"
| "OnMultipleDivisor ExThrow s r src m =
     (if \<not> mul_exact s r src m then (if src < 0 then Inl underflow_error else Inl overflow_error)
      else Inr (mul_result s r src m))"
| "OnMultipleDivisor ExLimit s r src m =
     (if \<not> mul_exact s r src m then Inr (if src < 0 then num_min r else num_max r)
      else Inr (mul_result s r src m))"

definition AdjustDecScale ::
  "int_type \<Rightarrow> int_type \<Rightarrow> adjust_ex \<Rightarrow> int \<Rightarrow> nat \<Rightarrow> nat \<Rightarrow> dec_error + int" where
  "AdjustDecScale s r ex src srcScale reScale =
     (if reScale = srcScale then OnAfterRound ex s r src
      else if reScale < srcScale
      then (case Round (imax s) (cast (imax s) src) (srcScale - reScale) of Inl e \<Rightarrow> Inl e
              | Inr v \<Rightarrow> OnAfterRound ex (imax s) r v)
      else (case GetDecDivisor (reScale - srcScale) of Inl e \<Rightarrow> Inl e
              | Inr d \<Rightarrow> OnMultipleDivisor ex s r src d))"

subsection \<open>Decimal\<close>

text \<open>\<open>Decimal<IntTypeT, ScaleN>\<close>: the type, the number of decimals and the integer.\<close>

record dec_type =
  IntTypeT :: int_type
  ScaleN :: nat

definition OrigNull :: "dec_type \<Rightarrow> int" where
  "OrigNull t = (case IntTypeT t of SInt w \<Rightarrow> num_min (SInt w) | UInt w \<Rightarrow> num_max (UInt w))"

definition IsNull :: "dec_type \<Rightarrow> int \<Rightarrow> bool" where
  "IsNull t v = (v = OrigNull t)"

definition IsZero :: "int \<Rightarrow> bool" where
  "IsZero v = (v = 0)"

definition IsNullOrZero :: "dec_type \<Rightarrow> int \<Rightarrow> bool" where
  "IsNullOrZero t v = (v = OrigNull t \<or> v = 0)"

text \<open>The constructor from a number with its scale, and \<open>Assign\<close>.\<close>

definition Decimal_make :: "dec_type \<Rightarrow> int_type \<Rightarrow> adjust_ex \<Rightarrow> int \<Rightarrow> nat \<Rightarrow> dec_error + int" where
  "Decimal_make t s ex src srcScale = AdjustDecScale s (IntTypeT t) ex src srcScale (ScaleN t)"

definition Assign :: "dec_type \<Rightarrow> int_type \<Rightarrow> adjust_ex \<Rightarrow> int \<Rightarrow> nat \<Rightarrow> dec_error + int" where
  "Assign t s ex src srcScale = map_sum id (cast (IntTypeT t))
     (AdjustDecScale s (imax s) ex src srcScale (ScaleN t))"

definition GetIntPart :: "dec_type \<Rightarrow> int \<Rightarrow> int" where
  "GetIntPart t v = trunc_div v (DecDivisor (ScaleN t))"

definition trunc_mod :: "int \<Rightarrow> int \<Rightarrow> int" where
  "trunc_mod a b = a - b * trunc_div a b"

definition RemoveIntPart :: "dec_type \<Rightarrow> int \<Rightarrow> int" where
  "RemoveIntPart t v = (if 0 \<le> v then trunc_mod v (DecDivisor (ScaleN t))
     else trunc_mod (- v) (DecDivisor (ScaleN t)))"

definition RemoveDecPart :: "dec_type \<Rightarrow> int \<Rightarrow> int" where
  "RemoveDecPart t v = (if 0 \<le> v then v - trunc_mod v (DecDivisor (ScaleN t))
     else v + trunc_mod (- v) (DecDivisor (ScaleN t)))"

definition GetDecPart :: "dec_type \<Rightarrow> int \<Rightarrow> int" where
  "GetDecPart t v = RemoveIntPart t v"

definition dec_compare :: "int \<Rightarrow> int \<Rightarrow> int" where
  "dec_compare v w = (if v < w then -1 else if v = w then 0 else 1)"

subsection \<open>Casts\<close>

lemma fits_simps:
  "fits (UInt w) v = (0 \<le> v \<and> v < 2 ^ w)" "fits (SInt w) v = (- (2 ^ (w - 1)) \<le> v \<and> v < 2 ^ (w - 1))"
  by (auto simp: fits_def)

lemma cast_fits [simp]: "fits t v \<Longrightarrow> t \<noteq> SInt 0 \<Longrightarrow> cast t v = v"
proof (cases t)
  case (SInt w)
  assume "fits t v" "t \<noteq> SInt 0"
  then have "(2::int) ^ w = 2 * 2 ^ (w - 1)" using SInt by (cases w) auto
  then show ?thesis using \<open>fits t v\<close> by (simp add: SInt fits_simps mod_pos_pos_trivial)
qed (simp add: fits_simps)

lemma cast_in_range: "t \<noteq> SInt 0 \<Longrightarrow> fits t (cast t v)"
proof (cases t)
  case (SInt w)
  assume "t \<noteq> SInt 0"
  then have w: "(2::int) ^ w = 2 * 2 ^ (w - 1)" using SInt by (cases w) auto
  have "0 \<le> (v + 2 ^ (w - 1)) mod 2 ^ w" "(v + 2 ^ (w - 1)) mod 2 ^ w < 2 ^ w" by simp_all
  then show ?thesis using w by (simp add: SInt fits_simps)
qed (simp add: fits_simps)

primrec width :: "int_type \<Rightarrow> nat" where
  "width (UInt w) = w"
| "width (SInt w) = w"

lemma cast_mod: "cast t v mod 2 ^ width t = v mod 2 ^ width t"
  by (cases t) (simp_all add: mod_diff_left_eq)

lemma cast_cong: "v mod 2 ^ width t = v' mod 2 ^ width t \<Longrightarrow> cast t v = cast t v'"
proof (cases t)
  case (SInt w)
  assume "v mod 2 ^ width t = v' mod 2 ^ width t"
  then have "(v + 2 ^ (w - 1)) mod 2 ^ w = (v' + 2 ^ (w - 1)) mod 2 ^ w"
    using SInt by (intro mod_add_cong) simp_all
  then show ?thesis by (simp add: SInt)
qed simp

lemma cast_cast: "width t \<le> width u \<Longrightarrow> cast t (cast u v) = cast t v"
proof (rule cast_cong)
  assume "width t \<le> width u"
  then have d: "(2::int) ^ width t dvd 2 ^ width u" by (rule le_imp_power_dvd)
  have "cast u v mod 2 ^ width t = (cast u v mod 2 ^ width u) mod 2 ^ width t"
    using d by (simp add: mod_mod_cancel)
  then show "cast u v mod 2 ^ width t = v mod 2 ^ width t"
    using d by (simp add: cast_mod mod_mod_cancel)
qed

lemma cast_mult_left: "cast u (cast u a * b) = cast u (a * b)"
  by (rule cast_cong) (metis cast_mod mod_mult_left_eq)

declare cast.simps [simp del] num_min.simps [simp del] num_max.simps [simp del]

subsection \<open>Signed types\<close>

text \<open>The signed types of the code.\<close>

definition signed_type :: "int_type \<Rightarrow> bool" where
  "signed_type t = (case t of SInt w \<Rightarrow> 0 < w \<and> w \<le> 64 | UInt w \<Rightarrow> False)"

lemma signed_typeE:
  assumes "signed_type t"
  obtains w where "t = SInt w" "0 < w" "w \<le> 64"
  using assms by (cases t) (auto simp: signed_type_def)

lemma fits_mono: "fits (SInt a) v \<Longrightarrow> a \<le> b \<Longrightarrow> fits (SInt b) v"
proof -
  assume "fits (SInt a) v" "a \<le> b"
  moreover have "(2::int) ^ (a - 1) \<le> 2 ^ (b - 1)" using \<open>a \<le> b\<close> by (intro power_increasing) auto
  ultimately show ?thesis unfolding fits_simps by linarith
qed

lemma usual_signed: "usual (SInt a) (SInt b) = SInt (max (max 32 a) (max 32 b))"
  by (auto simp: usual_def max_def)

lemma cast_usual:
  "fits (SInt a) v \<Longrightarrow> cast (usual (SInt a) (SInt b)) v = v"
  "fits (SInt b) v \<Longrightarrow> cast (usual (SInt a) (SInt b)) v = v"
  by (auto simp: usual_signed intro!: cast_fits elim: fits_mono)

lemma fits_min: "0 < w \<Longrightarrow> fits (SInt w) (num_min (SInt w))"
  and fits_max: "0 < w \<Longrightarrow> fits (SInt w) (num_max (SInt w))"
  by (simp_all add: fits_def num_min.simps num_max.simps)

lemma less_cc_signed:
  "fits (SInt a) x \<Longrightarrow> fits (SInt b) y \<Longrightarrow> less_cc (SInt a) (SInt b) x y = (x < y)"
  by (simp add: less_cc_def cast_usual)

text \<open>What a policy does with an exact value that need not fit the result type.\<close>

primrec by_policy :: "adjust_ex \<Rightarrow> int_type \<Rightarrow> int \<Rightarrow> dec_error + int" where
  "by_policy ExIgnore r v = Inr (cast r v)"
| "by_policy ExThrow r v = (if fits r v then Inr v else if v < 0 then Inl underflow_error else Inl overflow_error)"
| "by_policy ExLimit r v = (if fits r v then Inr v else if v < 0 then Inr (num_min r) else Inr (num_max r))"

lemma OnAfterRound_signed:
  assumes "signed_type s" "signed_type r" "fits s v"
  shows "OnAfterRound ex s r v = by_policy ex r v"
proof -
  obtain a b where s: "s = SInt a" "0 < a" "r = SInt b" "0 < b"
    using assms by (auto elim!: signed_typeE)
  have "less_cc s r v (num_min r) = (v < num_min r)" "less_cc r s (num_max r) v = (num_max r < v)"
    using assms(3) s by (simp_all add: less_cc_signed fits_min fits_max)
  moreover have "num_min r < 0" "0 \<le> num_max r" using s by (simp_all add: num_min.simps num_max.simps)
  ultimately show ?thesis
    using s by (cases ex) (auto simp: fits_def)
qed

lemma abs_trunc_div: "\<bar>trunc_div a b\<bar> = (if b = 0 then 0 else \<bar>a\<bar> div \<bar>b\<bar>)"
proof -
  have "0 \<le> \<bar>a\<bar> div \<bar>b\<bar>" by (simp add: div_int_pos_iff)
  then show ?thesis
    by (cases "a = 0"; cases "b = 0") (auto simp: trunc_div_def abs_mult abs_sgn_eq)
qed

lemma trunc_div_mult: "b \<noteq> 0 \<Longrightarrow> trunc_div (a * b) b = a"
proof -
  assume b: "b \<noteq> 0"
  then have "\<bar>a * b\<bar> div \<bar>b\<bar> = \<bar>a\<bar>" by (simp add: abs_mult)
  moreover have "sgn (a * b) * sgn b = sgn a"
  proof -
    have "sgn b * sgn b = 1" using b by (auto simp: sgn_if)
    then show ?thesis by (simp add: sgn_mult mult.assoc)
  qed
  ultimately show ?thesis by (simp add: trunc_div_def sgn_mult_abs)
qed

lemma trunc_div_sgn: "0 < b \<Longrightarrow> trunc_div a b \<noteq> 0 \<Longrightarrow> sgn (trunc_div a b) = sgn a"
proof -
  assume b: "0 < b" and nz: "trunc_div a b \<noteq> 0"
  have "0 \<le> \<bar>a\<bar> div \<bar>b\<bar>" by (simp add: div_int_pos_iff)
  then have "0 < \<bar>a\<bar> div \<bar>b\<bar>" using nz by (simp add: trunc_div_def)
  then show ?thesis using b by (simp add: trunc_div_def sgn_mult)
qed

text \<open>The multiplication that went through unsigned arithmetic is found out when it did not fit.\<close>

lemma mul_result_signed:
  assumes "signed_type s" "signed_type r" "fits s src"
  shows "mul_result s r src m = cast r (src * m)"
proof -
  obtain a b where s: "s = SInt a" "0 < a" "a \<le> 64" "r = SInt b" "b \<le> 64"
    using assms by (auto elim!: signed_typeE)
  have "fits (SInt 64) src" using assms(3) s fits_mono by blast
  then have "cast (imax s) src = src" using s by simp
  then have "mul_result s r src m = cast r (cast (UInt 64) (src * m))"
    by (simp add: mul_result_def cast_mult_left)
  also have "\<dots> = cast r (src * m)" using s by (intro cast_cast) simp
  finally show ?thesis .
qed

lemma wrapped_quotient:
  assumes src: "fits (SInt a) src" and a: "0 < a" and b: "0 < b" and m: "0 < m"
    and no: "\<not> fits (SInt b) (src * m)"
  shows "cast (SInt a) (trunc_div (cast (SInt b) (src * m)) m) \<noteq> src"
proof
  let ?P = "src * m" and ?B = "(2::int) ^ (b - 1)"
  let ?r = "cast (SInt b) ?P"
  let ?q = "trunc_div ?r m"
  assume eq: "cast (SInt a) ?q = src"
  have r: "- ?B \<le> ?r" "?r < ?B" using cast_in_range [of "SInt b" ?P] b by (simp_all add: fits_simps)
  have P: "?P < - ?B \<or> ?B \<le> ?P" using no by (auto simp: fits_simps)
  then have rP: "\<bar>?r\<bar> \<le> \<bar>?P\<bar>" using r by linarith
  then have "\<bar>?q\<bar> \<le> \<bar>?P\<bar> div m"
    using m by (simp add: abs_trunc_div zdiv_mono1)
  also have "\<bar>?P\<bar> div m = \<bar>src\<bar>" using m by (simp add: abs_mult)
  finally have q: "\<bar>?q\<bar> \<le> \<bar>src\<bar>" .
  have bound: "\<bar>?q\<bar> * m \<le> \<bar>?r\<bar>"
  proof -
    have "\<bar>?q\<bar> = \<bar>?r\<bar> div m" using m by (simp add: abs_trunc_div)
    then have "\<bar>?q\<bar> * m = \<bar>?r\<bar> - \<bar>?r\<bar> mod m" by (simp add: minus_mod_eq_div_mult)
    then show ?thesis using pos_mod_sign [OF m, of "\<bar>?r\<bar>"] by linarith
  qed
  have same: "sgn ?q = sgn ?r \<or> ?q = 0" using trunc_div_sgn [OF m] by blast
  show False
  proof (cases "fits (SInt a) ?q")
    case True
    then have "?q = src" using eq a by simp
    then have "\<bar>?P\<bar> \<le> \<bar>?r\<bar>" using bound m by (simp add: abs_mult)
    then have "\<bar>?P\<bar> = ?B \<and> ?r = - ?B" using r P by linarith
    then have "?P = ?B" "?r < 0" using P by auto
    then have "0 < src" "sgn ?r = - 1"
      using m by (auto simp: zero_less_mult_iff sgn_if) (metis zero_less_mult_pos2 zero_less_power zero_less_numeral)
    then show False using same \<open>?q = src\<close> by auto
  next
    case False
    then have "?q = 2 ^ (a - 1)" "src = - (2 ^ (a - 1))"
      using q src by (auto simp: fits_simps)
    moreover have "(0::int) < 2 ^ (a - 1)" by simp
    ultimately have "sgn ?r = 1" "?P < 0" "\<bar>?P\<bar> \<le> ?r"
      using same bound m by (auto simp: abs_mult mult_neg_pos sgn_if split: if_splits)
    then show False using r P by linarith
  qed
qed

lemma OnMultipleDivisor_signed:
  assumes "signed_type s" "signed_type r" "fits s src" "0 < m" "fits (SInt 64) m"
  shows "OnMultipleDivisor ex s r src m = by_policy ex r (src * m)"
proof -
  obtain a b where s: "s = SInt a" "0 < a" "a \<le> 64" "r = SInt b" "0 < b" "b \<le> 64"
    using assms by (auto elim!: signed_typeE)
  have "fits (SInt 64) (cast r (src * m))" using s cast_in_range [of r "src * m"] fits_mono by blast
  then have "div_cc r (imax s) (cast r (src * m)) (cast (imax s) m) = trunc_div (cast r (src * m)) m"
    using s assms(5) cast_in_range [of r "src * m"] by (simp add: div_cc_def cast_usual)
  then have ex: "mul_exact s r src m = (src = cast s (trunc_div (cast r (src * m)) m))"
    by (simp add: mul_exact_def mul_result_signed [OF assms(1-3)])
  have "mul_exact s r src m = fits r (src * m)"
  proof (cases "fits r (src * m)")
    case True
    then show ?thesis unfolding ex using s assms(3,4) by (simp add: trunc_div_mult)
  next
    case False
    then show ?thesis
      unfolding ex using wrapped_quotient [of a src b m] s assms(3,4) by auto
  qed
  moreover have "fits r (src * m) \<Longrightarrow> cast r (src * m) = src * m" using s by simp
  ultimately show ?thesis
    using assms(4) by (cases ex) (simp_all add: mul_result_signed [OF assms(1-3)] mult_less_0_iff)
qed

subsection \<open>Rounding\<close>

text \<open>Half a unit rounds away from zero.\<close>

definition round_half_away :: "int \<Rightarrow> nat \<Rightarrow> int" where
  "round_half_away num scale = sgn num * ((2 * \<bar>num\<bar> + 10 ^ scale) div (2 * 10 ^ scale))"

lemma round_half:
  assumes "0 < (h::int)" "0 \<le> n"
  shows "n div (2 * h) + (if h \<le> n mod (2 * h) then 1 else 0) = (2 * n + 2 * h) div (2 * (2 * h))"
proof -
  let ?q = "n div (2 * h)" and ?r = "n mod (2 * h)"
  have n: "n = 2 * h * ?q + ?r" by simp
  have r: "0 \<le> ?r" "?r < 2 * h" using assms by simp_all
  have "2 * n + 2 * h = (2 * ?r + 2 * h) + 2 * (2 * h) * ?q"
    by (subst (1) n) (simp add: algebra_simps)
  then have "(2 * n + 2 * h) div (2 * (2 * h)) = (2 * ?r + 2 * h) div (2 * (2 * h)) + ?q"
    using assms by (simp only: div_mult_self2 mult_eq_0_iff) simp
  moreover have "(2 * ?r + 2 * h) div (2 * (2 * h)) = (if h \<le> ?r then 1 else 0)"
  proof (cases "h \<le> ?r")
    case True
    then show ?thesis using r by (intro div_pos_geq [THEN trans]) (auto simp: div_pos_pos_trivial)
  next
    case False
    then show ?thesis using r assms by (simp add: div_pos_pos_trivial)
  qed
  ultimately show ?thesis by simp
qed

lemma ten_even: "0 < k \<Longrightarrow> (10::int) ^ k = 2 * (10 ^ k div 2)"
  by (cases k) simp_all

lemma round_abs:
  assumes "0 < k" "0 \<le> (n::int)"
  shows "n div 10 ^ k + (if 10 ^ k div 2 \<le> n mod 10 ^ k then 1 else 0) = (2 * n + 10 ^ k) div (2 * 10 ^ k)"
proof -
  have "(0::int) < 10 ^ k div 2"
    using assms(1) by (cases k) simp_all
  then show ?thesis
    using round_half [of "10 ^ k div 2" n] assms(2) unfolding ten_even [OF assms(1), symmetric] by simp
qed

lemma round_bound:
  assumes "0 < k" "0 \<le> (n::int)"
  shows "(2 * n + 10 ^ k) div (2 * 10 ^ k) \<le> n"
proof (cases "n = 0")
  case True
  then show ?thesis by (simp add: div_pos_pos_trivial)
next
  case False
  let ?d = "(10::int) ^ k"
  have d: "10 \<le> ?d" using assms(1) power_increasing [of 1 k "10::int"] by simp
  have "(?d - 1) * 1 \<le> (?d - 1) * n" using False assms(2) d by (intro mult_left_mono) auto
  then have "2 * n + ?d \<le> n * (2 * ?d)" using d by (simp add: algebra_simps)
  then have "(2 * n + ?d) div (2 * ?d) \<le> (n * (2 * ?d)) div (2 * ?d)"
    by (intro zdiv_mono1) simp_all
  then show ?thesis by simp
qed

lemma ten_fits: "k \<le> 18 \<Longrightarrow> fits (SInt 64) (10 ^ k)"
proof -
  assume "k \<le> 18"
  then have "(10::int) ^ k \<le> 10 ^ 18" by (intro power_increasing) auto
  moreover have "- (2 ^ 63) \<le> (10::int) ^ k" by (rule order_trans [of _ 0]) simp_all
  ultimately show ?thesis by (simp add: fits_simps)
qed

lemma GetDecDivisor_eq: "GetDecDivisor k = (if k \<le> 18 then Inr (10 ^ k) else Inl range_error)"
  by (auto simp: GetDecDivisor_def DecScaleMax_def DecDivisor_def)

lemma Round_signed:
  assumes "fits (SInt 64) num" "num \<noteq> num_min (SInt 64)" "0 < k" "k \<le> 18"
  shows "Round (SInt 64) num k = Inr (round_half_away num k)"
    and "fits (SInt 64) (round_half_away num k)"
proof -
  let ?v = "(2 * \<bar>num\<bar> + 10 ^ k) div (2 * 10 ^ k)"
  have b: "?v \<le> \<bar>num\<bar>" using round_bound [OF assms(3), of "\<bar>num\<bar>"] by simp
  have v0: "0 \<le> ?v" by (simp add: div_int_pos_iff)
  have num: "\<bar>num\<bar> < 2 ^ 63" using assms(1,2) by (auto simp: fits_simps num_min.simps)
  have rnd: "\<bar>num\<bar> div 10 ^ k + (if 10 ^ k div 2 \<le> \<bar>num\<bar> mod 10 ^ k then 1 else 0) = ?v"
    using round_abs [OF assms(3), of "\<bar>num\<bar>"] by simp
  have c: "cast (SInt 64) (10 ^ k) = 10 ^ k" using ten_fits [OF assms(4)] by simp
  have "RoundByDivisor_s num (10 ^ k) = round_half_away num k"
  proof (cases "num < 0")
    case True
    then have "trunc_div num (10 ^ k) = - (\<bar>num\<bar> div 10 ^ k)" by (simp add: trunc_div_def)
    then show ?thesis using True rnd by (simp add: RoundByDivisor_s_def round_half_away_def c)
  next
    case False
    have fit: "fits (UInt 64) ?v" "fits (SInt 64) ?v" using b v0 num by (simp_all add: fits_simps)
    have "cast (UInt 64) ?v = ?v" "cast (SInt 64) ?v = ?v" by (rule cast_fits, use fit in simp_all)+
    moreover have "num div 10 ^ k + (if 10 ^ k div 2 \<le> num mod 10 ^ k then 1 else 0) = ?v"
      using rnd False by simp
    ultimately have "RoundByDivisor_s num (10 ^ k) = ?v"
      using False by (simp add: RoundByDivisor_s_def RoundByDivisor_u_def)
    moreover have "num = 0 \<Longrightarrow> ?v = 0" by (simp add: div_pos_pos_trivial)
    ultimately show ?thesis using False by (cases "num = 0") (auto simp: round_half_away_def)
  qed
  then show "Round (SInt 64) num k = Inr (round_half_away num k)"
    using assms(4) by (simp add: Round_def GetDecDivisor_eq)
  have "\<bar>round_half_away num k\<bar> \<le> ?v" using v0 by (simp add: round_half_away_def abs_mult abs_sgn_eq)
  then have "\<bar>round_half_away num k\<bar> < 2 ^ 63" using b num by linarith
  then show "fits (SInt 64) (round_half_away num k)" by (auto simp: fits_simps abs_less_iff)
qed

definition rescale :: "int \<Rightarrow> nat \<Rightarrow> nat \<Rightarrow> int" where
  "rescale src srcScale reScale =
     (if reScale < srcScale then round_half_away src (srcScale - reScale) else src * 10 ^ (reScale - srcScale))"

lemma AdjustDecScale_signed:
  assumes s: "signed_type s" and r: "signed_type r" and src: "fits s src" "src \<noteq> num_min (SInt 64)"
  shows "AdjustDecScale s r ex src srcScale reScale =
    (if srcScale - reScale \<le> 18 \<and> reScale - srcScale \<le> 18
     then by_policy ex r (rescale src srcScale reScale) else Inl range_error)"
proof -
  obtain a where a: "s = SInt a" "0 < a" "a \<le> 64" using s by (auto elim!: signed_typeE)
  have src64: "fits (SInt 64) src" using src(1) a fits_mono by blast
  then have c: "cast (SInt 64) src = src" by simp
  have im: "imax s = SInt 64" using a by simp
  consider "reScale = srcScale" | "reScale < srcScale" | "srcScale < reScale" by linarith
  then show ?thesis
  proof cases
    case 1
    then show ?thesis by (simp add: AdjustDecScale_def OnAfterRound_signed [OF s r src(1)] rescale_def)
  next
    case 2
    have 64: "signed_type (SInt 64)" by (simp add: signed_type_def)
    note rs = Round_signed [OF src64 src(2), of "srcScale - reScale"]
    show ?thesis
    proof (cases "srcScale - reScale \<le> 18")
      case True
      then show ?thesis
        using 2 rs OnAfterRound_signed [OF 64 r rs(2)] by (simp add: AdjustDecScale_def c im rescale_def)
    next
      case False
      then show ?thesis using 2 by (simp add: AdjustDecScale_def c im Round_def GetDecDivisor_eq)
    qed
  next
    case 3
    then show ?thesis
      using OnMultipleDivisor_signed [OF s r src(1) _ ten_fits]
      by (simp add: AdjustDecScale_def GetDecDivisor_eq rescale_def)
  qed
qed

subsection \<open>Properties\<close>

text \<open>
  C30: A change of the number of decimals between signed types. Up to 18 decimals of
  difference, the exact result (the product, or the quotient rounded half away from zero) is
  returned when it fits; else it is wrapped, refused as underflow or overflow, or clamped, as
  the policy says. A larger difference is a range error.
\<close>

theorem rescaling_follows_the_policy:
  assumes "signed_type s" "signed_type (IntTypeT t)" "fits s src" "src \<noteq> num_min (SInt 64)"
  shows "Decimal_make t s ex src srcScale =
    (if srcScale - ScaleN t \<le> 18 \<and> ScaleN t - srcScale \<le> 18
     then by_policy ex (IntTypeT t) (rescale src srcScale (ScaleN t)) else Inl range_error)"
  using AdjustDecScale_signed [OF assms] by (simp add: Decimal_make_def)

lemma rescaling_follows_the_policy_witness:
  "Decimal_make \<lparr> IntTypeT = SInt 32, ScaleN = 3 \<rparr> (SInt 64) ExThrow 12345678 5 = Inr 123457"
  using rescaling_follows_the_policy [of "SInt 64" "\<lparr> IntTypeT = SInt 32, ScaleN = 3 \<rparr>" 12345678 ExThrow 5]
  by (simp add: signed_type_def fits_simps rescale_def round_half_away_def num_min.simps)

text \<open>
  \<open>Assign\<close> with a number and its scale does not apply its policy to the type it assigns
  to: whatever fits 64 bits is accepted and then cut to the type.
\<close>

theorem assign_wraps_instead_of_refusing:
  assumes "signed_type s" "fits s src" "src \<noteq> num_min (SInt 64)"
    and "srcScale - ScaleN t \<le> 18" "ScaleN t - srcScale \<le> 18"
    and "fits (SInt 64) (rescale src srcScale (ScaleN t))"
  shows "Assign t s ExThrow src srcScale = Inr (cast (IntTypeT t) (rescale src srcScale (ScaleN t)))"
proof -
  obtain a where "s = SInt a" using assms(1) by (auto elim!: signed_typeE)
  moreover have "signed_type (SInt 64)" by (simp add: signed_type_def)
  ultimately show ?thesis
    using AdjustDecScale_signed [OF assms(1) _ assms(2,3), of "SInt 64" ExThrow srcScale "ScaleN t"] assms(4-6)
    by (simp add: Assign_def)
qed

lemma assign_wraps_instead_of_refusing_witness:
  "Assign \<lparr> IntTypeT = SInt 32, ScaleN = 2 \<rparr> (SInt 64) ExThrow 42949673 0 = Inr 4"
  using assign_wraps_instead_of_refusing [of "SInt 64" 42949673 0 "\<lparr> IntTypeT = SInt 32, ScaleN = 2 \<rparr>"]
  by (simp add: signed_type_def fits_simps rescale_def num_min.simps cast.simps)

text \<open>
  The integer part and the fractional part make up the number: the fraction is not
  negative and smaller than one, and removing it leaves the integer part.
\<close>

theorem parts_make_the_number:
  "v = GetIntPart t v * 10 ^ ScaleN t + sgn v * GetDecPart t v
    \<and> GetDecPart t v \<in> {0..<10 ^ ScaleN t} \<and> RemoveDecPart t v = GetIntPart t v * 10 ^ ScaleN t"
proof -
  let ?d = "(10::int) ^ ScaleN t"
  have dm: "(- v) div ?d * ?d + (- v) mod ?d = - v" "v div ?d * ?d + v mod ?d = v"
    by (rule div_mult_mod_eq)+
  have m: "x - ?d * (x div ?d) = x mod ?d" for x by (simp add: minus_mult_div_eq_mod)
  show ?thesis
  proof (cases "v < 0")
    case True
    have "trunc_div (- v) ?d = (- v) div ?d" "trunc_div v ?d = - ((- v) div ?d)"
      using True by (simp_all add: trunc_div_def)
    then show ?thesis
      using True dm(1) by (simp add: GetIntPart_def GetDecPart_def RemoveIntPart_def RemoveDecPart_def
          trunc_mod_def DecDivisor_def m)
  next
    case False
    have "trunc_div v ?d = v div ?d" using False by (cases "v = 0") (simp_all add: trunc_div_def)
    then show ?thesis
      using False dm(2) by (cases "v = 0") (simp_all add: GetIntPart_def GetDecPart_def RemoveIntPart_def
          RemoveDecPart_def trunc_mod_def DecDivisor_def m)
  qed
qed

end
