(* ===== verification/PkReceiver.thy ===== *)
theory PkReceiver
  imports DcQueueProps
begin

text \<open>
  The receiver of exchange packets (\<open>fon9/PkReceiver.hpp\<close>, \<open>PkReceiver.cpp\<close>): a packet
  begins with the byte 27, ends with a checksum byte and 0x0d 0x0a, and its size is computed
  from its head. The derived class is a parameter: the size of a packet (\<open>GetPkSize\<close>) and
  what is done with one (\<open>OnPkReceived\<close>, on a state of its own, which can also end the
  feeding). The loop takes at least one byte in each round; its fuel is the number of bytes.
  The receiver of packets of one size, \<open>FixedSizePkReceiver\<close>, follows.
\<close>

subsection \<open>Packets with a head\<close>

definition kMaxPacketSize :: nat where
  "kMaxPacketSize = 1024 * 64"

definition kPkHeadLeader :: byte where
  "kPkHeadLeader = 27"

record 'a pk_class =
  PkHeadSize :: nat
  IsDgram :: bool
  GetPkSize :: "byte list \<Rightarrow> nat"
  OnPkReceived :: "'a \<Rightarrow> byte list \<Rightarrow> bool \<times> 'a"

record pk_receiver =
  ReceivedCount :: nat
  ChkSumErrCount :: nat
  DroppedBytes :: nat

definition ClearStatus :: "pk_receiver \<Rightarrow> pk_receiver" where
  "ClearStatus r = r \<lparr> ReceivedCount := 0, ChkSumErrCount := 0, DroppedBytes := 0 \<rparr>"

text \<open>From the second byte of the packet to the one at \<open>pksz - 4\<close>.\<close>

definition CalcCheckSum :: "byte list \<Rightarrow> nat \<Rightarrow> byte" where
  "CalcCheckSum pk pksz = foldl (XOR) (pk ! 1) (take (pksz - 5) (drop 2 pk))"

definition count_dropped :: "nat \<Rightarrow> pk_receiver \<Rightarrow> pk_receiver" where
  "count_dropped n r = r \<lparr> DroppedBytes := add64 (DroppedBytes r) n \<rparr>"

text \<open>What a round of the loop finds at the front of the queue.\<close>

datatype pk_found = NeedsMore | Packet "byte list" | BadCheckSum nat | NotAPacket | NoLeader

definition look :: "'a pk_class \<Rightarrow> dc_queue \<Rightarrow> pk_found" where
  "look c q = (case Peek (PkHeadSize c) q of None \<Rightarrow> NeedsMore
    | Some pkptr \<Rightarrow>
        if pkptr ! 0 = kPkHeadLeader
        then (let pksz = GetPkSize c pkptr
              in if PkHeadSize c + 2 < pksz \<and> pksz < kMaxPacketSize
                 then (case Peek pksz q of None \<Rightarrow> NeedsMore
                         | Some pkL \<Rightarrow>
                             if pkL ! (pksz - 2) = 0x0d \<and> pkL ! (pksz - 1) = 0x0a
                             then (if CalcCheckSum pkL (pksz + 1) = 0 then Packet pkL else BadCheckSum pksz)
                             else NotAPacket)
                 else NotAPacket)
        else NoLeader)"

primrec feed_loop :: "nat \<Rightarrow> 'a pk_class \<Rightarrow> pk_receiver \<Rightarrow> 'a \<Rightarrow> dc_queue \<Rightarrow>
    (bool \<times> pk_receiver \<times> 'a \<times> dc_queue) option" where
  "feed_loop 0 c r a q = None"
| "feed_loop (Suc f) c r a q = (case look c q of
     NeedsMore \<Rightarrow> Some (True, r, a, q)
   | Packet pk \<Rightarrow>
       (let r' = r \<lparr> ReceivedCount := add64 (ReceivedCount r) 1 \<rparr>; (go_on, a') = OnPkReceived c a pk
        in if go_on then feed_loop f c r' a' (PopConsumed (length pk) q)
           else Some (False, r', a', PopConsumed (length pk) q))
   | BadCheckSum pksz \<Rightarrow>
       feed_loop f c (r \<lparr> ChkSumErrCount := add64 (ChkSumErrCount r) 1 \<rparr>) a (PopConsumed pksz q)
   | NotAPacket \<Rightarrow>
       (case PopUnknownChar kPkHeadLeader (PopConsumed 1 q) of None \<Rightarrow> None
          | Some (n, q') \<Rightarrow> feed_loop f c (count_dropped n (count_dropped 1 r)) a q')
   | NoLeader \<Rightarrow>
       (case PopUnknownChar kPkHeadLeader q of None \<Rightarrow> None
          | Some (n, q') \<Rightarrow> feed_loop f c (count_dropped n r) a q'))"

definition drop_dgram_rest :: "'a pk_class \<Rightarrow> pk_receiver \<Rightarrow> dc_queue \<Rightarrow> pk_receiver \<times> dc_queue" where
  "drop_dgram_rest c r q =
     (if IsDgram c \<and> Peek1 q \<noteq> None
      then (let remain = CalcSize q
            in if remain \<noteq> 0 then (count_dropped remain r, PopConsumed remain q) else (r, q))
      else (r, q))"

definition PkFeedBuffer :: "'a pk_class \<Rightarrow> pk_receiver \<Rightarrow> 'a \<Rightarrow> dc_queue \<Rightarrow>
    (bool \<times> pk_receiver \<times> 'a \<times> dc_queue) option" where
  "PkFeedBuffer c r a q = (case feed_loop (Suc (CalcSize q)) c r a q of
     Some (True, r', a', q') \<Rightarrow> (let (r'', q'') = drop_dgram_rest c r' q' in Some (True, r'', a', q''))
   | res \<Rightarrow> res)"

subsection \<open>Packets of one size\<close>

text \<open>
  A packet is handed out where it lies in the first block of the queue, or in the buffer of
  the receiver.
\<close>

datatype pk_pos = InQueue "byte list" | InBuffer "byte list"

record fixed_receiver =
  PkBuffer :: "byte list"
  PkBufOfs :: nat
  PkCount :: nat
  PkSize :: nat

definition fixed_clear :: "fixed_receiver \<Rightarrow> fixed_receiver" where
  "fixed_clear r = r \<lparr> PkBufOfs := 0, PkCount := 0 \<rparr>"

definition fixed_FeedBuffer :: "fixed_receiver \<Rightarrow> dc_queue \<Rightarrow> pk_pos option \<times> fixed_receiver \<times> dc_queue" where
  "fixed_FeedBuffer r q =
     (if PkBufOfs r \<noteq> 0
      then let (bs, q') = Read (PkSize r - PkBufOfs r) q;
               buf = take (PkBufOfs r) (PkBuffer r) @ bs;
               ofs = PkBufOfs r + length bs
           in if ofs < PkSize r then (None, r \<lparr> PkBuffer := buf, PkBufOfs := ofs \<rparr>, q')
              else (Some (InBuffer buf), r \<lparr> PkBuffer := buf, PkBufOfs := 0, PkCount := PkCount r + 1 \<rparr>, q')
      else case Peek (PkSize r) q of
             None \<Rightarrow> (let (bs, q') = Read (PkSize r) q in (None, r \<lparr> PkBuffer := bs, PkBufOfs := length bs \<rparr>, q'))
           | Some bs \<Rightarrow>
               if PkSize r \<le> length (Mem q) then (Some (InQueue bs), r \<lparr> PkCount := PkCount r + 1 \<rparr>, q)
               else (Some (InBuffer bs), r \<lparr> PkBuffer := bs, PkCount := PkCount r + 1 \<rparr>, q))"

definition fixed_pop :: "fixed_receiver \<Rightarrow> pk_pos option \<Rightarrow> dc_queue \<Rightarrow> dc_queue" where
  "fixed_pop r p q = (case p of Some (InQueue bs) \<Rightarrow> PopConsumed (PkSize r) q | _ \<Rightarrow> q)"

subsection \<open>The loop as a function of the bytes\<close>

text \<open>The reference: the same decisions on a byte list.\<close>

definition found_in :: "'a pk_class \<Rightarrow> byte list \<Rightarrow> pk_found" where
  "found_in c bs =
     (if length bs < PkHeadSize c then NeedsMore
      else if hd bs \<noteq> kPkHeadLeader then NoLeader
      else let n = GetPkSize c (take (PkHeadSize c) bs)
           in if \<not> (PkHeadSize c + 2 < n \<and> n < kMaxPacketSize) then NotAPacket
              else if length bs < n then NeedsMore
              else if bs ! (n - 2) \<noteq> 0x0d \<or> bs ! (n - 1) \<noteq> 0x0a then NotAPacket
              else if CalcCheckSum bs (n + 1) = 0 then Packet (take n bs) else BadCheckSum n)"

lemma CalcCheckSum_take: "5 \<le> n \<Longrightarrow> CalcCheckSum (take (n - 1) bs) n = CalcCheckSum bs n"
  by (auto simp: CalcCheckSum_def drop_take min_def nth_take)

lemma look_eq:
  assumes "wf q" "0 < PkHeadSize c"
  shows "look c q = found_in c (content q)"
proof (cases "length (content q) < PkHeadSize c")
  case True
  then show ?thesis using assms by (simp add: look_def found_in_def Peek_eq)
next
  case False
  then have ne: "content q \<noteq> []" using assms(2) by auto
  have hd: "take (PkHeadSize c) (content q) ! 0 = hd (content q)"
    using assms(2) ne by (simp add: hd_conv_nth)
  let ?n = "GetPkSize c (take (PkHeadSize c) (content q))"
  show ?thesis
  proof (cases "PkHeadSize c + 2 < ?n \<and> ?n < kMaxPacketSize \<and> ?n \<le> length (content q)")
    case True
    then have "CalcCheckSum (take ?n (content q)) (?n + 1) = CalcCheckSum (content q) (?n + 1)"
      using CalcCheckSum_take [of "?n + 1" "content q"] assms(2) by simp
    then show ?thesis
      using True False assms hd by (auto simp: look_def found_in_def Peek_eq Let_def)
  next
    case no: False
    then show ?thesis
      using False assms hd by (auto simp: look_def found_in_def Peek_eq Let_def)
  qed
qed

text \<open>Every round takes at least one byte.\<close>

definition taken :: "byte list \<Rightarrow> pk_found \<Rightarrow> nat" where
  "taken bs fnd = (case fnd of NeedsMore \<Rightarrow> 0 | Packet pk \<Rightarrow> length pk | BadCheckSum n \<Rightarrow> n
    | NotAPacket \<Rightarrow> 1 + length (takeWhile (\<lambda>b. b \<noteq> kPkHeadLeader) (drop 1 bs))
    | NoLeader \<Rightarrow> length (takeWhile (\<lambda>b. b \<noteq> kPkHeadLeader) bs))"

lemma taken_pos:
  assumes "0 < PkHeadSize c" "found_in c bs \<noteq> NeedsMore"
  shows "0 < taken bs (found_in c bs) \<and> taken bs (found_in c bs) \<le> length bs"
proof -
  have len: "PkHeadSize c \<le> length bs" using assms(2) by (auto simp: found_in_def split: if_splits)
  then obtain b cs where bs: "bs = b # cs" using assms(1) by (cases bs) auto
  have "length (takeWhile (\<lambda>b. b \<noteq> kPkHeadLeader) xs) \<le> length xs" for xs by (rule length_takeWhile_le)
  then show ?thesis
    using assms len by (auto simp: found_in_def taken_def bs Let_def)
qed

lemma drop_unknown: "dropWhile P xs = drop (length (takeWhile P xs)) xs"
  by (rule dropWhile_eq_drop)

text \<open>The loop on bytes, with the counters that the round changes.\<close>

definition counted_round :: "pk_found \<Rightarrow> byte list \<Rightarrow> pk_receiver \<Rightarrow> pk_receiver" where
  "counted_round fnd bs r = (case fnd of
     NeedsMore \<Rightarrow> r
   | Packet pk \<Rightarrow> r \<lparr> ReceivedCount := add64 (ReceivedCount r) 1 \<rparr>
   | BadCheckSum n \<Rightarrow> r \<lparr> ChkSumErrCount := add64 (ChkSumErrCount r) 1 \<rparr>
   | NotAPacket \<Rightarrow> count_dropped (taken bs fnd - 1) (count_dropped 1 r)
   | NoLeader \<Rightarrow> count_dropped (taken bs fnd) r)"

definition app_round :: "'a pk_class \<Rightarrow> pk_found \<Rightarrow> 'a \<Rightarrow> bool \<times> 'a" where
  "app_round c fnd a = (case fnd of Packet pk \<Rightarrow> OnPkReceived c a pk | _ \<Rightarrow> (True, a))"

function feed_bytes :: "'a pk_class \<Rightarrow> pk_receiver \<Rightarrow> 'a \<Rightarrow> byte list \<Rightarrow>
    bool \<times> pk_receiver \<times> 'a \<times> byte list" where
  "feed_bytes c r a bs =
     (let fnd = found_in c bs; n = taken bs fnd; r' = counted_round fnd bs r; (go_on, a') = app_round c fnd a
      in if fnd = NeedsMore \<or> n = 0 \<or> bs = [] then (True, r, a, bs)
         else if go_on then feed_bytes c r' a' (drop n bs) else (False, r', a', drop n bs))"
  by auto
termination
  by (relation "measure (\<lambda>(c, r, a, bs). length bs)") auto

declare feed_bytes.simps [simp del]

lemma feed_bytes_stop: "found_in c bs = NeedsMore \<Longrightarrow> feed_bytes c r a bs = (True, r, a, bs)"
  by (subst feed_bytes.simps) (simp add: app_round_def)

lemma feed_bytes_round:
  assumes "0 < PkHeadSize c" "found_in c bs \<noteq> NeedsMore"
  shows "feed_bytes c r a bs =
    (case app_round c (found_in c bs) a of (go_on, a') \<Rightarrow>
       if go_on then feed_bytes c (counted_round (found_in c bs) bs r) a' (drop (taken bs (found_in c bs)) bs)
       else (False, counted_round (found_in c bs) bs r, a', drop (taken bs (found_in c bs)) bs))"
proof -
  have "0 < taken bs (found_in c bs)" "bs \<noteq> []" using taken_pos [OF assms] by auto
  then show ?thesis
    using assms(2) by (subst feed_bytes.simps) (simp add: Let_def split: prod.splits)
qed

lemma Packet_length: "found_in c bs = Packet pk \<Longrightarrow> \<exists>n. pk = take n bs \<and> n \<le> length bs"
  by (auto simp: found_in_def Let_def split: if_splits)

text \<open>The loop of the queue is that of its bytes.\<close>

definition same_result :: "(bool \<times> pk_receiver \<times> 'a \<times> dc_queue) option \<Rightarrow>
    bool \<times> pk_receiver \<times> 'a \<times> byte list \<Rightarrow> bool" where
  "same_result res spec = (case res of None \<Rightarrow> False
     | Some (ok, r, a, q) \<Rightarrow> wf q \<and> spec = (ok, r, a, content q))"

lemma same_resultI: "wf q \<Longrightarrow> spec = (ok, r, a, content q) \<Longrightarrow> same_result (Some (ok, r, a, q)) spec"
  by (simp add: same_result_def)

lemma PopUnknownChar_content:
  assumes "wf q"
  obtains q' where "PopUnknownChar ch q = Some (length (takeWhile (\<lambda>b. b \<noteq> ch) (content q)), q')"
    "wf q'" "content q' = dropWhile (\<lambda>b. b \<noteq> ch) (content q)"
  using pop_unknown_loop_eq [OF assms lessI, of ch 0] that by (auto simp: PopUnknownChar_def)

lemma feed_loop_eq:
  assumes "0 < PkHeadSize c" "wf q" "length (content q) < f"
  shows "same_result (feed_loop f c r a q) (feed_bytes c r a (content q))"
  using assms(2,3)
proof (induction f arbitrary: r a q)
  case (Suc f)
  let ?bs = "content q"
  have look: "look c q = found_in c ?bs" using Suc.prems assms(1) by (simp add: look_eq)
  show ?case
  proof (cases "found_in c ?bs = NeedsMore")
    case True
    then show ?thesis using Suc.prems by (simp add: look feed_bytes_stop same_result_def)
  next
    case False
    let ?n = "taken ?bs (found_in c ?bs)"
    have n: "0 < ?n" "?n \<le> length ?bs" using taken_pos [OF assms(1) False] by auto
    note spec = feed_bytes_round [OF assms(1) False, of r a]
    have next_round: "same_result (feed_loop f c r' a' q') (feed_bytes c r' a' (drop ?n ?bs))"
      if "wf q'" "content q' = drop ?n ?bs" for r' a' q'
      using Suc.IH [OF that(1), of r' a'] that n Suc.prems(2) by simp
    show ?thesis
    proof (cases "found_in c ?bs")
      case NeedsMore
      then show ?thesis using False by simp
    next
      case (Packet pk)
      then have len: "length pk = ?n" by (simp add: taken_def)
      obtain go_on a' where on: "OnPkReceived c a pk = (go_on, a')" by fastforce
      show ?thesis
        using next_round [of "PopConsumed ?n q"] Suc.prems
        by (cases go_on) (auto simp: look Packet spec [unfolded Packet] app_round_def counted_round_def on
            len [unfolded Packet] intro: same_resultI)
    next
      case (BadCheckSum m)
      then show ?thesis
        using next_round [of "PopConsumed ?n q"] Suc.prems
        by (simp add: look BadCheckSum spec app_round_def counted_round_def taken_def)
    next
      case NotAPacket
      obtain q' where q': "PopUnknownChar kPkHeadLeader (PopConsumed 1 q) = Some (?n - 1, q')" "wf q'"
        "content q' = drop ?n ?bs"
        by (rule PopUnknownChar_content [of "PopConsumed 1 q" kPkHeadLeader])
          (use Suc.prems NotAPacket in \<open>simp_all add: taken_def drop_unknown\<close>)
      then show ?thesis
        using next_round [OF q'(2,3)] by (simp add: look NotAPacket spec app_round_def counted_round_def)
    next
      case NoLeader
      obtain q' where q': "PopUnknownChar kPkHeadLeader q = Some (?n, q')" "wf q'"
        "content q' = drop ?n ?bs"
        by (rule PopUnknownChar_content [of q kPkHeadLeader])
          (use Suc.prems NoLeader in \<open>simp_all add: taken_def drop_unknown\<close>)
      then show ?thesis
        using next_round [OF q'(2,3)] by (simp add: look NoLeader spec app_round_def counted_round_def)
    qed
  qed
qed simp

lemma feed_loop_result:
  assumes "0 < PkHeadSize c" "wf q"
  obtains ok r' a' q' where "feed_loop (Suc (CalcSize q)) c r a q = Some (ok, r', a', q')"
    "wf q'" "feed_bytes c r a (content q) = (ok, r', a', content q')"
proof -
  have "same_result (feed_loop (Suc (CalcSize q)) c r a q) (feed_bytes c r a (content q))"
    using assms by (intro feed_loop_eq) (simp_all add: CalcSize_length)
  then show ?thesis using that by (auto simp: same_result_def split: option.splits)
qed

lemma Peek1_None: "wf q \<Longrightarrow> Peek1 q = None \<longleftrightarrow> content q = []"
  by (simp add: Peek1_eq split: list.splits)

lemma PkFeedBuffer_stream:
  assumes "0 < PkHeadSize c" "wf q" "\<not> IsDgram c"
  shows "same_result (PkFeedBuffer c r a q) (feed_bytes c r a (content q))"
proof -
  obtain ok r' a' q' where "feed_loop (Suc (CalcSize q)) c r a q = Some (ok, r', a', q')"
    "wf q'" "feed_bytes c r a (content q) = (ok, r', a', content q')"
    by (rule feed_loop_result [OF assms(1,2)])
  then show ?thesis
    using assms(3) by (cases ok) (simp_all add: PkFeedBuffer_def drop_dgram_rest_def same_result_def)
qed

lemma PkFeedBuffer_dgram:
  assumes "0 < PkHeadSize c" "wf q" "IsDgram c" "feed_bytes c r a (content q) = (True, r1, a1, rest)"
  shows "\<exists>q'. PkFeedBuffer c r a q = Some (True, if rest = [] then r1 else count_dropped (length rest) r1, a1, q')
    \<and> wf q' \<and> content q' = []"
proof -
  obtain q' where "feed_loop (Suc (CalcSize q)) c r a q = Some (True, r1, a1, q')" "wf q'" "content q' = rest"
    using feed_loop_result [OF assms(1,2), of r a] assms(4) by auto
  then show ?thesis
    using assms(3)
    by (cases "content q' = []")
      (auto simp: PkFeedBuffer_def drop_dgram_rest_def Peek1_None CalcSize_length Let_def simp del: feed_loop.simps)
qed

subsection \<open>Feeding in pieces\<close>

text \<open>Bytes that cannot begin a packet may still wait or have been counted already.\<close>

fun settle :: "bool \<times> pk_receiver \<times> 'a \<times> byte list \<Rightarrow> bool \<times> pk_receiver \<times> 'a \<times> byte list" where
  "settle (ok, r, a, bs) =
     (ok, count_dropped (length (takeWhile (\<lambda>b. b \<noteq> kPkHeadLeader) bs)) r, a, dropWhile (\<lambda>b. b \<noteq> kPkHeadLeader) bs)"

lemma found_in_append:
  assumes "found_in c xs \<noteq> NeedsMore" "0 < PkHeadSize c"
  shows "found_in c (xs @ ys) = found_in c xs"
proof -
  let ?n = "GetPkSize c (take (PkHeadSize c) xs)"
  have len: "PkHeadSize c \<le> length xs" using assms(1) by (auto simp: found_in_def split: if_splits)
  then have "xs \<noteq> []" using assms(2) by auto
  moreover have "CalcCheckSum (xs @ ys) (?n + 1) = CalcCheckSum xs (?n + 1)"
    if "PkHeadSize c + 2 < ?n" "?n \<le> length xs"
    using CalcCheckSum_take [of "?n + 1" xs] CalcCheckSum_take [of "?n + 1" "xs @ ys"] that assms(2) by simp
  ultimately show ?thesis
    using assms(1) len by (auto simp: found_in_def Let_def nth_append split: if_splits)
qed

lemma count_dropped_twice: "count_dropped m (count_dropped n r) = count_dropped (n + m) r"
  by (simp add: count_dropped_def uadd_def mod_add_left_eq add.assoc)

lemma count_dropped_less: "DroppedBytes (count_dropped n r) < 2 ^ 64"
  using uadd_less [of 64 "DroppedBytes r" n] by (simp add: count_dropped_def)

lemma count_dropped_0: "DroppedBytes r < 2 ^ 64 \<Longrightarrow> count_dropped 0 r = r"
  by (simp add: count_dropped_def uadd_def)

lemma counted_round_less: "DroppedBytes r < 2 ^ 64 \<Longrightarrow> DroppedBytes (counted_round fnd bs r) < 2 ^ 64"
  using count_dropped_less by (cases fnd) (auto simp: counted_round_def simp del: One_nat_def)

lemma feed_bytes_less:
  assumes "0 < PkHeadSize c" "DroppedBytes r < 2 ^ 64"
  shows "DroppedBytes (fst (snd (feed_bytes c r a bs))) < 2 ^ 64"
  using assms(2)
proof (induction "length bs" arbitrary: r a bs rule: less_induct)
  case less
  show ?case
  proof (cases "found_in c bs = NeedsMore")
    case False
    have "length (drop (taken bs (found_in c bs)) bs) < length bs"
      using taken_pos [OF assms(1) False] by (simp add: length_drop) linarith
    then show ?thesis
      using less.hyps [of "drop (taken bs (found_in c bs)) bs"] counted_round_less [OF less.prems, of "found_in c bs" bs]
      by (simp add: feed_bytes_round [OF assms(1) False] split: prod.splits)
  qed (use less.prems in \<open>simp add: feed_bytes_stop\<close>)
qed

lemma found_in_short: "length bs < PkHeadSize c \<Longrightarrow> found_in c bs = NeedsMore"
  by (simp add: found_in_def)

lemma takeWhile_dropWhile_same: "takeWhile P (dropWhile P xs) = []" "dropWhile P (dropWhile P xs) = dropWhile P xs"
  by (induction xs) auto

lemma settle_skip:
  assumes "0 < PkHeadSize c" "DroppedBytes r < 2 ^ 64" "k = length (takeWhile (\<lambda>b. b \<noteq> kPkHeadLeader) bs)"
  shows "settle (feed_bytes c r a bs) = settle (feed_bytes c (count_dropped k r) a (drop k bs))"
proof (cases "k = 0")
  case True
  then show ?thesis using assms(2) by (simp add: count_dropped_0)
next
  case k: False
  then have hd: "bs \<noteq> []" "hd bs \<noteq> kPkHeadLeader" using assms(3) by (cases bs; auto split: if_splits)+
  have rest: "drop k bs = dropWhile (\<lambda>b. b \<noteq> kPkHeadLeader) bs" by (simp add: assms(3) drop_unknown)
  show ?thesis
  proof (cases "length bs < PkHeadSize c")
    case True
    then have "found_in c bs = NeedsMore" "found_in c (drop k bs) = NeedsMore"
      by (auto intro: found_in_short)
    then show ?thesis
      using rest by (simp add: feed_bytes_stop count_dropped_twice flip: assms(3))
        (simp add: takeWhile_dropWhile_same)
  next
    case False
    then have "found_in c bs = NoLeader" using hd by (simp add: found_in_def)
    then show ?thesis
      using feed_bytes_round [OF assms(1), of bs r a] assms(3)
      by (simp add: app_round_def counted_round_def taken_def)
  qed
qed

lemma takeWhile_all_append:
  "takeWhile P xs = xs \<Longrightarrow> takeWhile P (xs @ ys) = xs @ takeWhile P ys"
  by (metis takeWhile_append2 takeWhile_eq_all_conv)

lemma takeWhile_stop_append:
  "takeWhile P xs \<noteq> xs \<Longrightarrow> takeWhile P (xs @ ys) = takeWhile P xs"
  by (metis takeWhile_append1 takeWhile_eq_all_conv)

text \<open>A round that skips: on the longer input it may skip more.\<close>

lemma skip_append:
  assumes "0 < PkHeadSize c" "found_in c xs = fnd" "fnd = NotAPacket \<or> fnd = NoLeader" "xs \<noteq> []"
  obtains "taken (xs @ ys) fnd = taken xs fnd"
  | "taken xs fnd = length xs"
    "taken (xs @ ys) fnd = length xs + length (takeWhile (\<lambda>b. b \<noteq> kPkHeadLeader) ys)"
proof -
  let ?P = "\<lambda>b. b \<noteq> kPkHeadLeader"
  let ?zs = "if fnd = NoLeader then xs else drop 1 xs"
  have d: "drop 1 (xs @ ys) = drop 1 xs @ ys" using assms(4) by (cases xs) auto
  have len: "taken xs fnd = (if fnd = NoLeader then 0 else 1) + length (takeWhile ?P ?zs)"
    "taken (xs @ ys) fnd = (if fnd = NoLeader then 0 else 1) + length (takeWhile ?P (?zs @ ys))"
    using assms(3) by (auto simp: taken_def d simp del: drop_append One_nat_def)
  have size: "(if fnd = NoLeader then 0 else 1) + length ?zs = length xs"
    using assms(3,4) by (cases xs) auto
  show ?thesis
  proof (cases "takeWhile ?P ?zs = ?zs")
    case True
    show ?thesis
      by (rule that(2)) (simp_all only: len True takeWhile_all_append [OF True] length_append add.assoc [symmetric] size)
  next
    case False
    show ?thesis by (rule that(1)) (simp only: len takeWhile_stop_append [OF False])
  qed
qed

lemma counted_skip:
  assumes "fnd = NotAPacket \<or> fnd = NoLeader" "taken (xs @ ys) fnd = taken xs fnd + k" "0 < taken xs fnd"
  shows "counted_round fnd (xs @ ys) r = count_dropped k (counted_round fnd xs r)"
  using assms by (auto simp: counted_round_def count_dropped_twice)

lemma feed_bytes_append:
  assumes c: "0 < PkHeadSize c" and less: "DroppedBytes r < 2 ^ 64"
    and res: "feed_bytes c r a xs = (True, r1, a1, rest)"
  shows "settle (feed_bytes c r a (xs @ ys)) = settle (feed_bytes c r1 a1 (rest @ ys))"
  using less res
proof (induction "length xs" arbitrary: r a xs rule: less_induct)
  case less
  show ?case
  proof (cases "found_in c xs = NeedsMore")
    case True
    then show ?thesis using less.prems by (simp add: feed_bytes_stop)
  next
    case False
    let ?f = "found_in c xs"
    let ?n = "taken xs ?f"
    have n: "0 < ?n" "?n \<le> length xs" using taken_pos [OF c False] by auto
    have ne: "xs \<noteq> []" using n by auto
    have f: "found_in c (xs @ ys) = ?f" "found_in c (xs @ ys) \<noteq> NeedsMore"
      using found_in_append [OF False c] False by simp_all
    obtain go_on a' where app: "app_round c ?f a = (go_on, a')" by fastforce
    let ?r = "counted_round ?f xs r"
    have r: "DroppedBytes ?r < 2 ^ 64" using less.prems(1) by (rule counted_round_less)
    have go: "go_on" and rest: "feed_bytes c ?r a' (drop ?n xs) = (True, r1, a1, rest)"
      using less.prems(2) feed_bytes_round [OF c False, of r a] app by (auto split: if_splits)
    have IH: "settle (feed_bytes c ?r a' (drop ?n xs @ ys)) = settle (feed_bytes c r1 a1 (rest @ ys))"
      using less.hyps [OF _ r rest] n by simp
    have whole: "feed_bytes c r a (xs @ ys) =
        feed_bytes c (counted_round ?f (xs @ ys) r) a' (drop (taken (xs @ ys) ?f) (xs @ ys))"
      using feed_bytes_round [OF c f(2), of r a] app go f(1) by simp
    have same: ?thesis if "taken (xs @ ys) ?f = ?n" "counted_round ?f (xs @ ys) r = ?r"
      using whole IH n by (simp add: that)
    show ?thesis
    proof (cases "?f = NotAPacket \<or> ?f = NoLeader")
      case True
      show ?thesis
      proof (cases rule: skip_append [OF c refl True ne, of ys])
        case 1
        then have "counted_round ?f (xs @ ys) r = count_dropped 0 ?r"
          using counted_skip [OF True, of xs ys 0 r] n by simp
        then show ?thesis using same 1 r by (simp add: count_dropped_0)
      next
        case 2
        let ?k = "length (takeWhile (\<lambda>b. b \<noteq> kPkHeadLeader) ys)"
        have "counted_round ?f (xs @ ys) r = count_dropped ?k ?r"
          using counted_skip [OF True, of xs ys ?k r] n 2 by simp
        then have "feed_bytes c r a (xs @ ys) = feed_bytes c (count_dropped ?k ?r) a' (drop ?k ys)"
          using whole 2 by simp
        then show ?thesis using settle_skip [OF c r refl, of a' ys] IH 2 by simp
      qed
    next
      case other: False
      then show ?thesis
        using same False by (cases ?f) (auto simp: taken_def counted_round_def)
    qed
  qed
qed

end
