(* ===== verification/PkReceiverSpec.thy ===== *)
theory PkReceiverSpec
  imports PkReceiver
begin

text \<open>
  The properties of the packet receivers: the way the network cuts the stream does not
  matter, packets are found between bytes that belong to none, and what the receiver of
  packets of one size does with a packet that lies in two blocks.
\<close>

subsection \<open>Stuck states\<close>

lemma feed_bytes_stuck:
  assumes "0 < PkHeadSize c" "feed_bytes c r a bs = (True, r1, a1, rest)"
  shows "found_in c rest = NeedsMore"
  using assms(2)
proof (induction "length bs" arbitrary: r a bs rule: less_induct)
  case less
  show ?case
  proof (cases "found_in c bs = NeedsMore")
    case False
    have n: "0 < taken bs (found_in c bs)" "taken bs (found_in c bs) \<le> length bs"
      using taken_pos [OF assms(1) False] by auto
    then show ?thesis
      using less.hyps [of "drop (taken bs (found_in c bs)) bs"] less.prems
      by (auto simp: feed_bytes_round [OF assms(1) False] split: prod.splits if_splits)
  qed (use less.prems in \<open>simp add: feed_bytes_stop\<close>)
qed

primrec feed_chunks :: "'a pk_class \<Rightarrow> pk_receiver \<Rightarrow> 'a \<Rightarrow> dc_queue \<Rightarrow> buffer_node list list \<Rightarrow>
    (bool \<times> pk_receiver \<times> 'a \<times> dc_queue) option" where
  "feed_chunks c r a q [] = Some (True, r, a, q)"
| "feed_chunks c r a q (ns # nss) = (case PkFeedBuffer c r a (push_back_list ns q) of
     Some (True, r', a', q') \<Rightarrow> feed_chunks c r' a' q' nss
   | res \<Rightarrow> res)"

lemma same_resultE:
  assumes "same_result res (ok, r, a, bs)"
  obtains q where "res = Some (ok, r, a, q)" "wf q" "content q = bs"
  using assms by (auto simp: same_result_def split: option.splits)

lemma feed_chunks_settled:
  assumes c: "0 < PkHeadSize c" "\<not> IsDgram c"
    and "wf q" "DroppedBytes r < 2 ^ 64" "found_in c (content q) = NeedsMore"
    and "feed_chunks c r a q nss = Some (True, r1, a1, q1)"
  shows "wf q1 \<and> settle (True, r1, a1, content q1)
    = settle (feed_bytes c r a (content q @ concat (map GetData (concat nss))))"
  using assms(3-)
proof (induction nss arbitrary: r a q)
  case Nil
  then show ?case by (simp add: feed_bytes_stop)
next
  case (Cons ns nss)
  let ?bs = "content q @ concat (map GetData ns)"
  obtain ok r' a' rest where fb: "feed_bytes c r a ?bs = (ok, r', a', rest)" by (metis prod_cases4)
  have "same_result (PkFeedBuffer c r a (push_back_list ns q)) (ok, r', a', rest)"
    using PkFeedBuffer_stream [OF c(1) _ c(2), of "push_back_list ns q" r a] Cons.prems(1) fb by simp
  then obtain q' where q': "PkFeedBuffer c r a (push_back_list ns q) = Some (ok, r', a', q')" "wf q'" "content q' = rest"
    by (rule same_resultE)
  have ok: "ok" using Cons.prems(4) q'(1) by (cases ok) auto
  have less: "DroppedBytes r' < 2 ^ 64"
    using feed_bytes_less [OF c(1) Cons.prems(2), of a ?bs] fb by simp
  have stuck: "found_in c (content q') = NeedsMore"
    using feed_bytes_stuck [OF c(1)] fb ok q'(3) by simp
  have "wf q1 \<and> settle (True, r1, a1, content q1)
      = settle (feed_bytes c r' a' (content q' @ concat (map GetData (concat nss))))"
    by (rule Cons.IH [OF q'(2) less stuck]) (use Cons.prems(4) q'(1) ok in simp)
  moreover have "settle (feed_bytes c r a (?bs @ concat (map GetData (concat nss))))
      = settle (feed_bytes c r' a' (rest @ concat (map GetData (concat nss))))"
    by (rule feed_bytes_append [OF c(1) Cons.prems(2)]) (use fb ok in simp)
  ultimately show ?case by (simp add: q'(3))
qed

subsection \<open>Packets among other bytes\<close>

definition good_packet :: "'a pk_class \<Rightarrow> byte list \<Rightarrow> bool" where
  "good_packet c p = (hd p = kPkHeadLeader \<and> length p = GetPkSize c (take (PkHeadSize c) p)
     \<and> PkHeadSize c + 2 < length p \<and> length p < kMaxPacketSize
     \<and> p ! (length p - 2) = 0x0d \<and> p ! (length p - 1) = 0x0a \<and> CalcCheckSum p (length p + 1) = 0)"

definition frame_bytes :: "(byte list \<times> byte list) list \<Rightarrow> byte list" where
  "frame_bytes frames = concat (map (\<lambda>(junk, p). junk @ p) frames)"

definition good_frames :: "'a pk_class \<Rightarrow> (byte list \<times> byte list) list \<Rightarrow> bool" where
  "good_frames c frames = list_all (\<lambda>(junk, p). kPkHeadLeader \<notin> set junk \<and> good_packet c p) frames"

lemma found_good_packet: "good_packet c p \<Longrightarrow> 0 < PkHeadSize c \<Longrightarrow> found_in c (p @ bs) = Packet p"
  using found_in_append [of c p bs] by (auto simp: good_packet_def found_in_def Let_def)

lemma skip_junk:
  assumes "0 < PkHeadSize c" "kPkHeadLeader \<notin> set junk" "good_packet c p" "junk \<noteq> []"
  shows "feed_bytes c r a (junk @ p @ bs) = feed_bytes c (count_dropped (length junk) r) a (p @ bs)"
proof -
  have len: "PkHeadSize c \<le> length (junk @ p @ bs)" and p: "p \<noteq> []" "hd p = kPkHeadLeader"
    using assms(3) by (auto simp: good_packet_def)
  have hd: "hd (junk @ p @ bs) \<noteq> kPkHeadLeader" using assms(2,4) by (cases junk) auto
  have f: "found_in c (junk @ p @ bs) = NoLeader" using len hd by (simp add: found_in_def)
  have tw: "takeWhile (\<lambda>b. b \<noteq> kPkHeadLeader) (junk @ p @ bs) = junk"
    using assms(2) p by (subst takeWhile_append2) (auto simp: neq_Nil_conv)
  show ?thesis
    using feed_bytes_round [OF assms(1), of "junk @ p @ bs" r a]
    by (simp add: f app_round_def counted_round_def taken_def tw)
qed

lemma feed_frames:
  assumes c: "0 < PkHeadSize c" "OnPkReceived c = (\<lambda>a p. (True, g a p))"
    and "good_frames c frames" "ReceivedCount r < 2 ^ 64" "DroppedBytes r < 2 ^ 64"
  shows "feed_bytes c r a (frame_bytes frames) = (True,
    r \<lparr> ReceivedCount := add64 (ReceivedCount r) (length frames),
        DroppedBytes := add64 (DroppedBytes r) (length (concat (map fst frames))) \<rparr>,
    foldl g a (map snd frames), [])"
  using assms(3-)
proof (induction frames arbitrary: r a)
  case Nil
  have "found_in c [] = NeedsMore" using c(1) by (simp add: found_in_def)
  then show ?case using Nil by (simp add: frame_bytes_def feed_bytes_stop uadd_def)
next
  case (Cons fr frames)
  obtain junk p where fr: "fr = (junk, p)" by fastforce
  have good: "kPkHeadLeader \<notin> set junk" "good_packet c p" "good_frames c frames"
    using Cons.prems(1) by (auto simp: good_frames_def fr)
  let ?more = "frame_bytes frames"
  let ?r = "r \<lparr> DroppedBytes := add64 (DroppedBytes r) (length junk) \<rparr>"
  have "feed_bytes c r a (junk @ p @ ?more) = feed_bytes c ?r a (p @ ?more)"
  proof (cases "junk = []")
    case True
    then show ?thesis using Cons.prems(3) by (simp add: uadd_def)
  next
    case False
    then show ?thesis using skip_junk [OF c(1) good(1,2)] by (simp add: count_dropped_def)
  qed
  also have "\<dots> = feed_bytes c (?r \<lparr> ReceivedCount := add64 (ReceivedCount r) 1 \<rparr>) (g a p) ?more"
    using feed_bytes_round [OF c(1), of "p @ ?more" ?r a] found_good_packet [OF good(2) c(1), of ?more]
    by (simp add: app_round_def counted_round_def taken_def c(2))
  also have "\<dots> = (True,
      r \<lparr> ReceivedCount := add64 (ReceivedCount r) (length (fr # frames)),
          DroppedBytes := add64 (DroppedBytes r) (length (concat (map fst (fr # frames)))) \<rparr>,
      foldl g a (map snd (fr # frames)), [])"
  proof -
    have "add64 (add64 x m) n = add64 x (m + n)" for x m n
      by (simp add: uadd_def mod_add_left_eq add.assoc)
    moreover have "add64 x n < 2 ^ 64" for x n by (rule uadd_less)
    ultimately show ?thesis using Cons.IH [OF good(3)] by (simp add: fr)
  qed
  finally show ?case by (simp add: frame_bytes_def fr)
qed

subsection \<open>Properties\<close>


definition example_class :: "byte list list pk_class" where
  "example_class = \<lparr> PkHeadSize = 2, IsDgram = False, GetPkSize = (\<lambda>h. unat (h ! 1)),
     OnPkReceived = (\<lambda>a p. (True, a @ [p])) \<rparr>"

definition example_packet :: "byte list" where
  "example_packet = [27, 7, 1, 2, 4, 13, 10]"

definition zero_counts :: pk_receiver where
  "zero_counts = \<lparr> ReceivedCount = 0, ChkSumErrCount = 0, DroppedBytes = 0 \<rparr>"

lemma example_good: "good_packet example_class example_packet"
  by (simp add: good_packet_def example_class_def example_packet_def kPkHeadLeader_def kMaxPacketSize_def
      CalcCheckSum_def)

text \<open>
  C20: Packets are found wherever they lie: of a stream of good packets, each with bytes in front
  of it that hold no leader, the derived class gets all packets in order, they are counted,
  and exactly the other bytes are counted as dropped.
\<close>

theorem packets_are_found_among_other_bytes:
  assumes "0 < PkHeadSize c" "\<not> IsDgram c" "OnPkReceived c = (\<lambda>a p. (True, g a p))" "wf q"
    and "content q = frame_bytes frames" "good_frames c frames"
    and "ReceivedCount r < 2 ^ 64" "DroppedBytes r < 2 ^ 64"
  shows "\<exists>q'. PkFeedBuffer c r a q = Some (True,
      r \<lparr> ReceivedCount := add64 (ReceivedCount r) (length frames),
          DroppedBytes := add64 (DroppedBytes r) (length (concat (map fst frames))) \<rparr>,
      foldl g a (map snd frames), q') \<and> wf q' \<and> content q' = []"
proof -
  note fed = feed_frames [OF assms(1,3,6,7,8), of a]
  have "same_result (PkFeedBuffer c r a q) (feed_bytes c r a (content q))"
    by (rule PkFeedBuffer_stream [OF assms(1,4,2)])
  then show ?thesis unfolding assms(5) fed by (rule same_resultE) blast
qed

definition example_queue :: dc_queue where
  "example_queue = push_back_list [DataNode [9, 27, 7, 1], DataNode [2, 4, 13, 10]] dcq_empty"

lemma packets_are_found_among_other_bytes_witness:
  "\<exists>q'. PkFeedBuffer example_class zero_counts [] example_queue = Some (True,
      zero_counts \<lparr> ReceivedCount := 1, DroppedBytes := 1 \<rparr>, [example_packet], q') \<and> wf q' \<and> content q' = []"
proof -
  have "good_frames example_class [([9], example_packet)]"
    using example_good by (simp add: good_frames_def kPkHeadLeader_def)
  moreover have "content example_queue = frame_bytes [([9], example_packet)]" "wf example_queue"
    by (simp_all add: example_queue_def frame_bytes_def example_packet_def)
  ultimately show ?thesis
    using packets_are_found_among_other_bytes [of example_class "\<lambda>a p. a @ [p]" example_queue
        "[([9], example_packet)]" zero_counts "[]"]
    by (simp add: example_class_def zero_counts_def uadd_def)
qed


text \<open>
  A packet of the fixed-size receiver that lies in two blocks is handed out from the buffer
  of the receiver and not removed from the queue: what the session does next meets the same
  packet again.
\<close>

theorem packet_in_two_blocks_is_repeated:
  assumes "wf q" "PkBufOfs r = 0" "length (Mem q) < PkSize r" "PkSize r \<le> length (content q)"
  shows "\<exists>r'. fixed_FeedBuffer r q = (Some (InBuffer (take (PkSize r) (content q))), r', q)
    \<and> fixed_pop r' (Some (InBuffer (take (PkSize r) (content q)))) q = q
    \<and> PkBufOfs r' = 0 \<and> PkSize r' = PkSize r"
  using assms by (auto simp: fixed_FeedBuffer_def Peek_eq fixed_pop_def)

lemma packet_in_two_blocks_is_repeated_witness:
  "\<exists>r'. fixed_FeedBuffer \<lparr> PkBuffer = [], PkBufOfs = 0, PkCount = 0, PkSize = 6 \<rparr> example_queue
      = (Some (InBuffer [9, 27, 7, 1, 2, 4]), r', example_queue)"
proof -
  have "content example_queue = [9, 27, 7, 1, 2, 4, 13, 10]" "wf example_queue" "length (Mem example_queue) = 4"
    by (simp_all add: example_queue_def) (simp add: push_back_list_def FrontToCurrBlock_def dcq_empty_def)
  then show ?thesis
    using packet_in_two_blocks_is_repeated [of example_queue
        "\<lparr> PkBuffer = [], PkBufOfs = 0, PkCount = 0, PkSize = 6 \<rparr>"]
    by auto
qed

end
