(* ===== verification/Bitv.thy ===== *)
theory Bitv
  imports Endian DcQueueProps Decimal
begin

text \<open>
  The binary encoding of values (\<open>fon9/Bitv.h\<close>, \<open>BitvEncode.hpp\<close>, \<open>BitvEncode.cpp\<close>,
  \<open>BitvDecode.hpp\<close>, \<open>BitvDecode.cpp\<close>, \<open>BitvFixedInt.hpp\<close>). An encoder puts its bytes in
  front of a \<open>RevBuffer\<close> and returns their number; a decoder takes them from a queue or
  raises. An integer type is a \<open>'a word\<close>; the values of a \<open>Decimal\<close> are those of the theory
  \<open>Decimal\<close>. The byte that begins a value holds its type in the upper five bits.
\<close>

subsection \<open>Types and reserved values\<close>

definition BitvT_Mask :: byte where "BitvT_Mask = 0xf8"
definition BitvT_ByteArray :: byte where "BitvT_ByteArray = 0x80"
definition BitvT_Container :: byte where "BitvT_Container = 0x88"
definition BitvT_IntegerPos :: byte where "BitvT_IntegerPos = 0x90"
definition BitvT_IntegerNeg :: byte where "BitvT_IntegerNeg = 0xa0"
definition BitvT_Decimal :: byte where "BitvT_Decimal = 0xb0"
definition BitvT_Zero :: byte where "BitvT_Zero = 0xf0"
definition BitvT_Null :: byte where "BitvT_Null = 0xf8"
definition BitvV_Number0 :: byte where "BitvV_Number0 = BitvT_Zero + 0"
definition BitvV_Char0 :: byte where "BitvV_Char0 = BitvT_Zero + 1"
definition BitvV_BoolFalse :: byte where "BitvV_BoolFalse = BitvT_Zero + 2"
definition BitvV_ByteArrayEmpty :: byte where "BitvV_ByteArrayEmpty = BitvT_Null + 0"
definition BitvV_NumberNull :: byte where "BitvV_NumberNull = BitvT_Null + 1"
definition BitvV_ContainerEmpty :: byte where "BitvV_ContainerEmpty = BitvT_Null + 2"
definition BitvV_BoolTrue :: byte where "BitvV_BoolTrue = BitvT_Null + 3"

lemmas bitv_consts = BitvT_Mask_def BitvT_ByteArray_def BitvT_Container_def BitvT_IntegerPos_def
  BitvT_IntegerNeg_def BitvT_Decimal_def BitvT_Zero_def BitvT_Null_def BitvV_Number0_def BitvV_Char0_def
  BitvV_BoolFalse_def BitvV_ByteArrayEmpty_def BitvV_NumberNull_def BitvV_ContainerEmpty_def BitvV_BoolTrue_def

datatype bitv_error =
    BitvNeedsMore | BitvTypeNotMatch | BitvSignedError | int_overflow | bary_out_of_range | length_error
  | dec_failed dec_error

type_synonym rev_buffer = "byte list"

subsection \<open>Encoding\<close>

definition RevPutBitv :: "rev_buffer \<Rightarrow> byte \<Rightarrow> nat \<times> rev_buffer" where
  "RevPutBitv rbuf v = (1, v # rbuf)"

definition ToBitv_bool :: "rev_buffer \<Rightarrow> bool \<Rightarrow> nat \<times> rev_buffer" where
  "ToBitv_bool rbuf v = RevPutBitv rbuf (if v then BitvV_BoolTrue else BitvV_BoolFalse)"

definition ToBitv_char :: "rev_buffer \<Rightarrow> byte \<Rightarrow> nat \<times> rev_buffer" where
  "ToBitv_char rbuf v = (if v = 0 then RevPutBitv rbuf BitvV_Char0 else (2, 0 # v # rbuf))"

definition IntToBitv_NoZero :: "rev_buffer \<Rightarrow> 'a::len word \<Rightarrow> byte \<Rightarrow> nat \<times> rev_buffer" where
  "IntToBitv_NoZero rbuf v typ =
     (let packed = PackBigEndianRev v []; vByteCount = length packed
      in (vByteCount + 1, (typ OR of_nat (vByteCount - 1)) # packed @ rbuf))"

definition IntToBitv_u :: "rev_buffer \<Rightarrow> 'a::len word \<Rightarrow> nat \<times> rev_buffer" where
  "IntToBitv_u rbuf v =
     (if v = 0 then RevPutBitv rbuf BitvV_Number0 else IntToBitv_NoZero rbuf v BitvT_IntegerPos)"

definition IntToBitv_s :: "rev_buffer \<Rightarrow> 'a::len word \<Rightarrow> nat \<times> rev_buffer" where
  "IntToBitv_s rbuf v =
     (if v = 0 then RevPutBitv rbuf BitvV_Number0
      else if 0 < sint v then IntToBitv_NoZero rbuf v BitvT_IntegerPos
      else IntToBitv_NoZero rbuf (NOT v) BitvT_IntegerNeg)"

text \<open>Zeros at the end of the decimals are removed, two at a time, then one.\<close>

function adjust_loop :: "int \<Rightarrow> nat \<Rightarrow> int \<times> nat" where
  "adjust_loop v scale =
     (if 0 \<le> v \<and> v < 0x400 then (v, scale)
      else if scale = 1 \<or> scale = 0 \<or> trunc_mod v 100 \<noteq> 0
      then (if trunc_mod v 10 = 0 then (trunc_div v 10, scale - 1) else (v, scale))
      else if scale - 2 = 0 then (trunc_div v 100, 0) else adjust_loop (trunc_div v 100) (scale - 2))"
  by auto
termination by (relation "measure snd") auto

declare adjust_loop.simps [simp del]

definition BitvAdjustScale :: "int \<Rightarrow> nat \<Rightarrow> int \<times> nat" where
  "BitvAdjustScale v scale = (if scale \<le> 0 then (v, 0) else adjust_loop v scale)"

definition DecToBitv_raw :: "rev_buffer \<Rightarrow> u64 \<Rightarrow> nat \<Rightarrow> bool \<Rightarrow> nat \<times> rev_buffer" where
  "DecToBitv_raw rbuf v scale isNeg =
     (let sc = (push_bit 3 (of_nat scale) :: byte);
          sc' = (if isNeg then sc OR 0x04 else sc);
          packed = PackBigEndianRev v [];
          (body, vByteCount) =
            (if length packed > 1 \<and> hd packed AND 0xfc = 0
             then ((hd packed OR sc') # tl packed, length packed - 1)
             else (sc' # packed, length packed))
      in (vByteCount + 2, (BitvT_Decimal OR of_nat (vByteCount - 1)) # body @ rbuf))"

definition DecToBitv_u :: "rev_buffer \<Rightarrow> u64 \<Rightarrow> nat \<Rightarrow> nat \<times> rev_buffer" where
  "DecToBitv_u rbuf v scale =
     (if v = 0 then RevPutBitv rbuf BitvV_Number0
      else let (x, scale') = BitvAdjustScale (uint v) scale; v' = word_of_int x :: u64
           in if scale' = 0 then IntToBitv_NoZero rbuf v' BitvT_IntegerPos
              else DecToBitv_raw rbuf v' scale' False)"

definition DecToBitv_s :: "rev_buffer \<Rightarrow> u64 \<Rightarrow> nat \<Rightarrow> nat \<times> rev_buffer" where
  "DecToBitv_s rbuf v scale =
     (if v = 0 then RevPutBitv rbuf BitvV_Number0
      else let (x, scale') = BitvAdjustScale (sint v) scale; v' = word_of_int x :: u64
           in if scale' = 0
              then (if x < 0 then IntToBitv_NoZero rbuf (NOT v') BitvT_IntegerNeg
                    else IntToBitv_NoZero rbuf v' BitvT_IntegerPos)
              else if x < 0 then DecToBitv_raw rbuf (NOT v') scale' True
              else DecToBitv_raw rbuf v' scale' False)"

definition ToBitv_dec :: "rev_buffer \<Rightarrow> dec_type \<Rightarrow> int \<Rightarrow> nat \<times> rev_buffer" where
  "ToBitv_dec rbuf t v =
     (if v = OrigNull t then RevPutBitv rbuf BitvV_NumberNull
      else case IntTypeT t of
        UInt w \<Rightarrow> DecToBitv_u rbuf (word_of_int v) (ScaleN t)
      | SInt w \<Rightarrow> DecToBitv_s rbuf (word_of_int v) (ScaleN t))"

definition kBitvMaxByteArraySize :: nat where
  "kBitvMaxByteArraySize = 2 ^ 32 - 1 - 5"

definition ByteArraySizeToBitvT_AboveX80 :: "rev_buffer \<Rightarrow> u32 \<Rightarrow> nat \<times> rev_buffer" where
  "ByteArraySizeToBitvT_AboveX80 rbuf byteCount =
     (let packed = PackBigEndianRev (byteCount - 0x80 - 1) []; vByteCount = length packed
      in if vByteCount > 1 \<and> hd packed = 1
         then (vByteCount, (hd packed OR (BitvT_ByteArray OR push_bit 1 (of_nat (vByteCount - 2)))) # tl packed @ rbuf)
         else (vByteCount + 1, (BitvT_ByteArray OR push_bit 1 (of_nat (vByteCount - 1))) # packed @ rbuf))"

definition ByteArraySizeToBitvT_NoEmpty :: "rev_buffer \<Rightarrow> u32 \<Rightarrow> nat \<times> rev_buffer" where
  "ByteArraySizeToBitvT_NoEmpty rbuf byteCount =
     (if byteCount \<le> 0x80 then (1, ucast (byteCount - 1) # rbuf)
      else ByteArraySizeToBitvT_AboveX80 rbuf byteCount)"

definition ByteArraySizeToBitvT :: "rev_buffer \<Rightarrow> nat \<Rightarrow> bitv_error + nat \<times> rev_buffer" where
  "ByteArraySizeToBitvT rbuf byteCount =
     (if byteCount > kBitvMaxByteArraySize then Inl length_error
      else if byteCount = 0 then Inr (RevPutBitv rbuf BitvV_ByteArrayEmpty)
      else if byteCount \<le> 0x80 then Inr (1, of_nat (byteCount - 1) # rbuf)
      else Inr (ByteArraySizeToBitvT_AboveX80 rbuf (of_nat byteCount)))"

definition ByteArrayToBitv_NoEmpty :: "rev_buffer \<Rightarrow> byte list \<Rightarrow> bitv_error + nat \<times> rev_buffer" where
  "ByteArrayToBitv_NoEmpty rbuf byteArray =
     (let byteCount = length byteArray
      in if byteCount > kBitvMaxByteArraySize then Inl length_error
         else let (n, rbuf') = ByteArraySizeToBitvT_NoEmpty (byteArray @ rbuf) (of_nat byteCount)
              in Inr (byteCount + n, rbuf'))"

definition ByteArrayToBitv :: "rev_buffer \<Rightarrow> byte list \<Rightarrow> bitv_error + nat \<times> rev_buffer" where
  "ByteArrayToBitv rbuf byteArray =
     (if length byteArray > 0 then ByteArrayToBitv_NoEmpty rbuf byteArray
      else Inr (RevPutBitv rbuf BitvV_ByteArrayEmpty))"

definition ElementCountToBitv :: "rev_buffer \<Rightarrow> nat \<Rightarrow> rev_buffer" where
  "ElementCountToBitv rbuf sz = snd (if sz \<noteq> 0
     then IntToBitv_NoZero rbuf (of_nat sz :: u64) BitvT_Container
     else RevPutBitv rbuf BitvV_ContainerEmpty)"

text \<open>A container: the elements from the last to the first, then their number.\<close>

definition ToBitv_container :: "(rev_buffer \<Rightarrow> 'v \<Rightarrow> rev_buffer) \<Rightarrow> rev_buffer \<Rightarrow> 'v list \<Rightarrow> rev_buffer" where
  "ToBitv_container put rbuf vs = ElementCountToBitv (foldl put rbuf (rev vs)) (length vs)"

subsection \<open>Fixed sizes\<close>

definition ToBitvFixedRev :: "nat \<Rightarrow> rev_buffer \<Rightarrow> 'a::len word \<Rightarrow> rev_buffer" where
  "ToBitvFixedRev len rbuf v = store_big len v rbuf"

definition ToBitv_FixedUInt :: "nat \<Rightarrow> rev_buffer \<Rightarrow> 'a::len word \<Rightarrow> nat \<times> rev_buffer" where
  "ToBitv_FixedUInt len rbuf v = (len + 1, (BitvT_IntegerPos OR of_nat (len - 1)) # ToBitvFixedRev len rbuf v)"

definition ToBitvFixedScale :: "rev_buffer \<Rightarrow> dec_type \<Rightarrow> int \<Rightarrow> nat \<times> rev_buffer" where
  "ToBitvFixedScale rbuf t v =
     (if IsZero v then (1, BitvV_Number0 # rbuf)
      else if IsNull t v then (1, BitvV_NumberNull # rbuf)
      else DecToBitv_raw rbuf (word_of_int v) (ScaleN t) (v < 0))"

definition ToBitvFixedScale_bits :: "nat \<Rightarrow> rev_buffer \<Rightarrow> dec_type \<Rightarrow> int \<Rightarrow> nat \<times> rev_buffer" where
  "ToBitvFixedScale_bits bitSize rbuf t v =
     (let len = 1 + ((bitSize + 7 - 2) div 8);
          body = ToBitvFixedRev len rbuf (word_of_int \<bar>v\<bar> :: u64);
          b1 = hd body OR push_bit 3 (of_nat (ScaleN t));
          b2 = (if v < 0 then b1 OR 0x40 else b1)
      in (len + 1, (BitvT_Decimal OR of_nat (len - 2)) # b2 # tl body))"

fun CalcValueBits :: "nat \<Rightarrow> nat" where
  "CalcValueBits v = (if v \<noteq> 0 then CalcValueBits (v div 2) + 1 else 0)"

declare CalcValueBits.simps [simp del]

subsection \<open>Decoding\<close>

text \<open>Peeking \<open>n\<close> bytes, or the exception.\<close>

definition need :: "nat \<Rightarrow> dc_queue \<Rightarrow> (byte list \<Rightarrow> bitv_error + 'v) \<Rightarrow> bitv_error + 'v" where
  "need n q f = (case Peek n q of None \<Rightarrow> Inl BitvNeedsMore | Some bs \<Rightarrow> f bs)"

definition need1 :: "dc_queue \<Rightarrow> (byte \<Rightarrow> bitv_error + 'v) \<Rightarrow> bitv_error + 'v" where
  "need1 q f = (case Peek1 q of None \<Rightarrow> Inl BitvNeedsMore | Some b \<Rightarrow> f b)"

definition IsBitvIntegerNeg :: "dc_queue \<Rightarrow> bool" where
  "IsBitvIntegerNeg q = (case Peek1 q of None \<Rightarrow> False | Some p1 \<Rightarrow> p1 AND BitvT_Mask = BitvT_IntegerNeg)"

definition IsBitvByteArray :: "dc_queue \<Rightarrow> bool" where
  "IsBitvByteArray q = (case Peek1 q of None \<Rightarrow> False
     | Some p1 \<Rightarrow> p1 AND 0x80 = 0 \<or> p1 = BitvV_ByteArrayEmpty \<or> p1 AND BitvT_Mask = BitvT_ByteArray)"

definition BitvToChar :: "dc_queue \<Rightarrow> bitv_error + byte \<times> dc_queue" where
  "BitvToChar q = need1 q (\<lambda>typ.
     if typ = BitvV_Char0 then Inr (0, PopConsumed 1 q)
     else if typ \<noteq> 0 then Inl BitvTypeNotMatch
     else need 2 q (\<lambda>pbuf. Inr (pbuf ! 1, PopConsumed 2 q)))"

definition BitvToBool :: "dc_queue \<Rightarrow> bitv_error + bool \<times> dc_queue" where
  "BitvToBool q = need1 q (\<lambda>v.
     if v = BitvV_BoolTrue then Inr (True, PopConsumed 1 q)
     else if v = BitvV_BoolFalse then Inr (False, PopConsumed 1 q)
     else Inl BitvTypeNotMatch)"

text \<open>
  \<open>PeekBitvByteArraySizeR\<close>: the head is not complete; the size is known and the data not
  complete; or the size of the head and of the data, which is there.
\<close>

datatype bary_size = NeedsMoreHead | NeedsMoreData nat | DataReady nat nat

text \<open>The size in a head of \<open>bCount\<close> bytes behind its first.\<close>

definition head_size :: "byte list \<Rightarrow> nat \<Rightarrow> nat" where
  "head_size pnum bCount =
     (let sz = ucast (GetPackedBigEndian (tl pnum) :: u32) :: u64;
          sz' = (if hd pnum AND 0x01 \<noteq> 0 then sz OR push_bit (bCount * 8) 1 else sz)
      in unat (sz' + 0x80 + 1))"

definition PeekBitvByteArraySize :: "dc_queue \<Rightarrow> bitv_error + bary_size" where
  "PeekBitvByteArraySize q = (case Peek1 q of None \<Rightarrow> Inr NeedsMoreHead
    | Some typ \<Rightarrow>
       if typ AND 0x80 = 0
       then (let barySize = unat typ + 1
             in Inr (if \<not> IsSizeEnough (barySize + 1) q then NeedsMoreData barySize else DataReady 1 barySize))
       else if typ = BitvV_ByteArrayEmpty then Inr (DataReady 1 0)
       else if typ AND BitvT_Mask \<noteq> BitvT_ByteArray then Inl BitvTypeNotMatch
       else (let bCount = unat (drop_bit 1 typ AND 0x03) + 1
             in case Peek (bCount + 1) q of None \<Rightarrow> Inr NeedsMoreHead
                | Some pnum \<Rightarrow>
                   (let barySize = head_size pnum bCount
                    in Inr (if \<not> IsSizeEnough (barySize + (bCount + 1)) q then NeedsMoreData barySize
                            else DataReady (bCount + 1) barySize))))"

definition PopBitvByteArraySize :: "dc_queue \<Rightarrow> bitv_error + (bool \<times> nat \<times> dc_queue)" where
  "PopBitvByteArraySize q = (case PeekBitvByteArraySize q of Inl e \<Rightarrow> Inl e
     | Inr (DataReady hdrSize barySize) \<Rightarrow> Inr (True, barySize, PopConsumed hdrSize q)
     | Inr (NeedsMoreData barySize) \<Rightarrow> Inr (False, barySize, q)
     | Inr NeedsMoreHead \<Rightarrow> Inr (False, 0, q))"

primrec str_append_loop :: "nat \<Rightarrow> nat \<Rightarrow> dc_queue \<Rightarrow> byte list \<Rightarrow> (byte list \<times> dc_queue) option" where
  "str_append_loop 0 byteCount q dst = None"
| "str_append_loop (Suc f) byteCount q dst =
     (let blk = PeekCurrBlock q; n = min (length blk) byteCount;
          dst' = dst @ take n blk; q' = PopConsumed n q
      in if byteCount - n = 0 then Some (dst', q') else str_append_loop f (byteCount - n) q' dst')"

definition BitvToStrAppend :: "dc_queue \<Rightarrow> byte list \<Rightarrow> bitv_error + (byte list \<times> dc_queue) option" where
  "BitvToStrAppend q dst = (case PopBitvByteArraySize q of Inl e \<Rightarrow> Inl e
     | Inr (ready, byteCount, q') \<Rightarrow>
         if \<not> ready then Inl BitvNeedsMore
         else if byteCount > 0 then Inr (str_append_loop (Suc (length (BlockList q'))) byteCount q' dst)
         else Inr (Some (dst, q')))"

definition BitvToByteArray :: "dc_queue \<Rightarrow> nat \<Rightarrow> bitv_error + (nat \<times> byte list) \<times> dc_queue" where
  "BitvToByteArray q barySize = (case PopBitvByteArraySize q of Inl e \<Rightarrow> Inl e
     | Inr (ready, byteCount, q') \<Rightarrow>
         if \<not> ready then Inl BitvNeedsMore
         else if barySize < byteCount then Inl bary_out_of_range
         else let (bs, q'') = Read byteCount q'
              in Inr ((byteCount, bs @ replicate (barySize - byteCount) 0), q''))"

definition BitvToIntAux ::
  "bool \<Rightarrow> byte \<Rightarrow> byte \<Rightarrow> byte \<Rightarrow> dc_queue \<Rightarrow> 'a::len word \<Rightarrow> bitv_error + 'a word \<times> dc_queue" where
  "BitvToIntAux is_unsigned BitvT_Pos BitvV_0 BitvV_Null q nullValue = need1 q (\<lambda>ptype.
     let typ = ptype AND BitvT_Mask;
         pop_int = (let byteCount = unat (ptype AND 0x07) + 1
           in if byteCount \<le> size_of nullValue
              then need (byteCount + 1) q (\<lambda>pnum.
                let v = GetPackedBigEndian (tl pnum)
                in Inr (if typ = BitvT_IntegerNeg then NOT v else v, PopConsumed (byteCount + 1) q))
              else Inl int_overflow)
     in if typ = BitvT_Pos then pop_int
        else if typ = BitvT_IntegerNeg then (if is_unsigned then Inl BitvSignedError else pop_int)
        else if ptype = BitvV_0 then Inr (0, PopConsumed 1 q)
        else if ptype = BitvV_Null then Inr (nullValue, PopConsumed 1 q)
        else Inl BitvTypeNotMatch)"

definition BitvToInt_u :: "dc_queue \<Rightarrow> 'a::len word \<Rightarrow> bitv_error + 'a word \<times> dc_queue" where
  "BitvToInt_u q nullValue = BitvToIntAux True BitvT_IntegerPos BitvV_Number0 BitvV_NumberNull q nullValue"

definition BitvToInt_s :: "dc_queue \<Rightarrow> 'a::len word \<Rightarrow> bitv_error + 'a word \<times> dc_queue" where
  "BitvToInt_s q nullValue = BitvToIntAux False BitvT_IntegerPos BitvV_Number0 BitvV_NumberNull q nullValue"

definition BitvToContainerElementCount :: "dc_queue \<Rightarrow> bitv_error + u64 \<times> dc_queue" where
  "BitvToContainerElementCount q =
     BitvToIntAux True BitvT_Container BitvV_ContainerEmpty BitvV_ContainerEmpty q 0"

datatype num_type = BitvNumT_Zero | BitvNumT_Pos | BitvNumT_Neg | BitvNumT_Null

record bitv_num =
  NumType :: num_type
  Scale :: nat
  Num :: u64

definition BitvToNumber :: "dc_queue \<Rightarrow> bitv_error + bitv_num \<times> dc_queue" where
  "BitvToNumber q = need1 q (\<lambda>ptype.
     let typ = ptype AND BitvT_Mask; byteCount = unat (ptype AND 0x07) + 1;
         get_int = (\<lambda>nt. need (byteCount + 1) q (\<lambda>pnum.
           let v = GetPackedBigEndian (tl pnum) :: u64
           in Inr (\<lparr> NumType = nt, Scale = 0, Num = (if nt = BitvNumT_Neg then NOT v else v) \<rparr>,
                   PopConsumed (byteCount + 1) q)))
     in if typ = BitvT_IntegerPos then get_int BitvNumT_Pos
        else if typ = BitvT_IntegerNeg then get_int BitvNumT_Neg
        else if typ = BitvT_Decimal
        then need (byteCount + 2) q (\<lambda>pnum.
               let b = pnum ! 1; nt = (if b AND 0x04 \<noteq> 0 then BitvNumT_Neg else BitvNumT_Pos);
                   v = packed_big_loop (ucast (b AND 0x03)) (take byteCount (drop 2 pnum)) :: u64
               in Inr (\<lparr> NumType = nt, Scale = unat (drop_bit 3 b),
                         Num = (if nt = BitvNumT_Neg then NOT v else v) \<rparr>, PopConsumed (byteCount + 2) q))
        else if ptype = BitvV_Number0
        then Inr (\<lparr> NumType = BitvNumT_Zero, Scale = 0, Num = 0 \<rparr>, PopConsumed 1 q)
        else if ptype = BitvV_NumberNull
        then Inr (\<lparr> NumType = BitvNumT_Null, Scale = 0, Num = 0 \<rparr>, PopConsumed 1 q)
        else Inl BitvTypeNotMatch)"

text \<open>The value of a decimal of type \<open>t\<close> that was \<open>v\<close>.\<close>

definition is_unsigned_type :: "int_type \<Rightarrow> bool" where
  "is_unsigned_type t = (case t of UInt w \<Rightarrow> True | SInt w \<Rightarrow> False)"

definition BitvToDec :: "adjust_ex \<Rightarrow> dec_type \<Rightarrow> dc_queue \<Rightarrow> bitv_error + int \<times> dc_queue" where
  "BitvToDec ex t q = (case BitvToNumber q of Inl e \<Rightarrow> Inl e
     | Inr (numr, q') \<Rightarrow>
        (let assigned = (\<lambda>r. case r of Inl e \<Rightarrow> Inl (dec_failed e) | Inr v \<Rightarrow> Inr (v, q'))
         in case NumType numr of
              BitvNumT_Null \<Rightarrow> Inr (OrigNull t, q')
            | BitvNumT_Zero \<Rightarrow> Inr (0, q')
            | BitvNumT_Neg \<Rightarrow>
                if is_unsigned_type (IntTypeT t) then Inl BitvSignedError
                else assigned (Assign t (SInt 64) ex (sint (Num numr)) (Scale numr))
            | BitvNumT_Pos \<Rightarrow> assigned (Assign t (UInt 64) ex (uint (Num numr)) (Scale numr))))"

text \<open>A container: its elements in order.\<close>

primrec BitvToArray :: "(dc_queue \<Rightarrow> bitv_error + 'v \<times> dc_queue) \<Rightarrow> nat \<Rightarrow> dc_queue \<Rightarrow> bitv_error + 'v list \<times> dc_queue" where
  "BitvToArray get 0 q = Inr ([], q)"
| "BitvToArray get (Suc n) q = (case get q of Inl e \<Rightarrow> Inl e
     | Inr (v, q') \<Rightarrow> (case BitvToArray get n q' of Inl e \<Rightarrow> Inl e | Inr (vs, q'') \<Rightarrow> Inr (v # vs, q'')))"

definition BitvTo_container :: "(dc_queue \<Rightarrow> bitv_error + 'v \<times> dc_queue) \<Rightarrow> dc_queue \<Rightarrow> bitv_error + 'v list \<times> dc_queue" where
  "BitvTo_container get q = (case BitvToContainerElementCount q of Inl e \<Rightarrow> Inl e
     | Inr (sz, q') \<Rightarrow> BitvToArray get (unat sz) q')"

definition ToBitv_pair :: "(rev_buffer \<Rightarrow> 'k \<Rightarrow> rev_buffer) \<Rightarrow> (rev_buffer \<Rightarrow> 'v \<Rightarrow> rev_buffer) \<Rightarrow>
    rev_buffer \<Rightarrow> 'k \<times> 'v \<Rightarrow> rev_buffer" where
  "ToBitv_pair put_key put_value rbuf kv = put_key (put_value rbuf (snd kv)) (fst kv)"

definition BitvTo_pair :: "(dc_queue \<Rightarrow> bitv_error + 'k \<times> dc_queue) \<Rightarrow> (dc_queue \<Rightarrow> bitv_error + 'v \<times> dc_queue) \<Rightarrow>
    dc_queue \<Rightarrow> bitv_error + ('k \<times> 'v) \<times> dc_queue" where
  "BitvTo_pair get_key get_value q = (case get_key q of Inl e \<Rightarrow> Inl e
     | Inr (k, q') \<Rightarrow> (case get_value q' of Inl e \<Rightarrow> Inl e | Inr (v, q'') \<Rightarrow> Inr ((k, v), q'')))"

end
