(* ===== verification/BitvProps.thy ===== *)
theory BitvProps
  imports Bitv
begin

text \<open>
  What an encoder and its decoder promise each other (\<open>bitv_codec\<close>): the decoder gives the
  value back and leaves the bytes behind it, and asks for more on every proper beginning of
  an encoding, whatever nodes the bytes lie in. Pairs, arrays and containers inherit it from
  their elements. The codecs of integers, characters, flags and byte arrays follow.
\<close>

subsection \<open>Reading from a queue\<close>

lemma need1_Cons: "wf q \<Longrightarrow> content q = b # bs \<Longrightarrow> need1 q f = f b"
  by (simp add: need1_def dcl.peek1_Cons)

lemma need1_Nil: "wf q \<Longrightarrow> content q = [] \<Longrightarrow> need1 q f = Inl BitvNeedsMore"
  by (simp add: need1_def dcl.peek1_Nil)

lemma need_full: "wf q \<Longrightarrow> content q = xs @ ys \<Longrightarrow> length xs = n \<Longrightarrow> 0 < n \<Longrightarrow> need n q f = f xs"
  by (simp add: need_def dcl.peek_prefix)

lemma need_short: "wf q \<Longrightarrow> length (content q) < n \<Longrightarrow> need n q f = Inl BitvNeedsMore"
  by (simp add: need_def dcl.peek_short)

lemma strict_prefix_first:
  assumes "strict_prefix xs (b # bs)"
  obtains "xs = []" | ys where "xs = b # ys" "length xs < Suc (length bs)"
proof (cases xs)
  case (Cons y ys)
  then have "y = b" "strict_prefix ys bs" using assms by (auto simp: strict_prefix_def)
  then show ?thesis using that(2) [of ys] Cons prefix_length_less [of ys bs] by simp
qed (rule that(1))

lemma strict_prefix_short: "strict_prefix xs ys \<Longrightarrow> length xs < length ys"
  by (rule prefix_length_less)

subsection \<open>The contract\<close>

locale bitv_codec =
  fixes put :: "rev_buffer \<Rightarrow> 'v \<Rightarrow> rev_buffer"
    and get :: "dc_queue \<Rightarrow> bitv_error + 'v \<times> dc_queue"
    and good :: "'v \<Rightarrow> bool"
  assumes put_front: "good v \<Longrightarrow> put rbuf v = put [] v @ rbuf"
    and get_put: "good v \<Longrightarrow> wf q \<Longrightarrow> content q = put [] v @ rest \<Longrightarrow>
      \<exists>q'. get q = Inr (v, q') \<and> wf q' \<and> content q' = rest"
    and get_part: "good v \<Longrightarrow> wf q \<Longrightarrow> strict_prefix (content q) (put [] v) \<Longrightarrow> get q = Inl BitvNeedsMore"
begin

lemma put_elements: "list_all good vs \<Longrightarrow> foldl put rbuf (rev vs) = concat (map (put []) vs) @ rbuf"
proof (induction vs)
  case (Cons v vs)
  then show ?case by (simp add: put_front [of v "concat (map (put []) vs) @ rbuf"])
qed simp

lemma array_roundtrip:
  "list_all good vs \<Longrightarrow> wf q \<Longrightarrow> content q = concat (map (put []) vs) @ rest \<Longrightarrow>
   \<exists>q'. BitvToArray get (length vs) q = Inr (vs, q') \<and> wf q' \<and> content q' = rest"
proof (induction vs arbitrary: q)
  case (Cons v vs)
  then obtain q1 where q1: "get q = Inr (v, q1)" "wf q1" "content q1 = concat (map (put []) vs) @ rest"
    using get_put [of v q "concat (map (put []) vs) @ rest"] by auto
  then obtain q2 where "BitvToArray get (length vs) q1 = Inr (vs, q2)" "wf q2" "content q2 = rest"
    using Cons.IH [of q1] Cons.prems(1) by auto
  then show ?case using q1 by simp
qed simp

lemma array_part:
  "list_all good vs \<Longrightarrow> wf q \<Longrightarrow> strict_prefix (content q) (concat (map (put []) vs)) \<Longrightarrow>
   BitvToArray get (length vs) q = Inl BitvNeedsMore"
proof (induction vs arbitrary: q)
  case (Cons v vs)
  then have good: "good v" "list_all good vs" by auto
  have "strict_prefix (content q) (put [] v) \<or>
      (\<exists>zs. content q = put [] v @ zs \<and> strict_prefix zs (concat (map (put []) vs)))"
    using Cons.prems(3) by (auto simp: strict_prefix_def prefix_append)
  then show ?case
  proof
    assume "strict_prefix (content q) (put [] v)"
    then show ?thesis using get_part [OF good(1) Cons.prems(2)] by simp
  next
    assume "\<exists>zs. content q = put [] v @ zs \<and> strict_prefix zs (concat (map (put []) vs))"
    then obtain zs q1 where "get q = Inr (v, q1)" "wf q1" "content q1 = zs"
      "strict_prefix zs (concat (map (put []) vs))"
      using get_put [OF good(1) Cons.prems(2)] by blast
    then show ?thesis using Cons.IH [OF good(2)] by simp
  qed
qed (simp add: strict_prefix_def)

end

text \<open>A pair is its key and then its value.\<close>

locale bitv_pair = k: bitv_codec put_key get_key good_key + v: bitv_codec put_value get_value good_value
  for put_key :: "rev_buffer \<Rightarrow> 'k \<Rightarrow> rev_buffer" and get_key and good_key
    and put_value :: "rev_buffer \<Rightarrow> 'v \<Rightarrow> rev_buffer" and get_value and good_value
begin

lemma pair_put:
  "good_key k \<Longrightarrow> good_value w \<Longrightarrow>
   ToBitv_pair put_key put_value rbuf (k, w) = put_key [] k @ put_value [] w @ rbuf"
  by (simp add: ToBitv_pair_def v.put_front [of w rbuf] k.put_front [of k "put_value [] w @ rbuf"])

lemma pair_get_put:
  assumes "good_key k" "good_value w" "wf q" "content q = put_key [] k @ put_value [] w @ rest"
  shows "\<exists>q'. BitvTo_pair get_key get_value q = Inr ((k, w), q') \<and> wf q' \<and> content q' = rest"
proof -
  obtain q1 where "get_key q = Inr (k, q1)" "wf q1" "content q1 = put_value [] w @ rest"
    using k.get_put assms by blast
  moreover from this obtain q2 where "get_value q1 = Inr (w, q2)" "wf q2" "content q2 = rest"
    using v.get_put assms by blast
  ultimately show ?thesis by (simp add: BitvTo_pair_def)
qed

lemma pair_get_part:
  assumes "good_key k" "good_value w" "wf q" "strict_prefix (content q) (put_key [] k @ put_value [] w)"
  shows "BitvTo_pair get_key get_value q = Inl BitvNeedsMore"
proof -
  have "strict_prefix (content q) (put_key [] k) \<or>
      (\<exists>zs. content q = put_key [] k @ zs \<and> strict_prefix zs (put_value [] w))"
    using assms(4) by (auto simp: strict_prefix_def prefix_append)
  then show ?thesis
  proof
    assume "strict_prefix (content q) (put_key [] k)"
    then show ?thesis using k.get_part assms by (simp add: BitvTo_pair_def)
  next
    assume "\<exists>zs. content q = put_key [] k @ zs \<and> strict_prefix zs (put_value [] w)"
    then obtain zs where zs: "content q = put_key [] k @ zs" "strict_prefix zs (put_value [] w)" by blast
    then obtain q1 where "get_key q = Inr (k, q1)" "wf q1" "content q1 = zs"
      using k.get_put assms by blast
    then show ?thesis using v.get_part zs assms by (simp add: BitvTo_pair_def)
  qed
qed

end

sublocale bitv_pair \<subseteq> bitv_codec "ToBitv_pair put_key put_value" "BitvTo_pair get_key get_value"
  "\<lambda>kv. good_key (fst kv) \<and> good_value (snd kv)"
proof (unfold_locales, goal_cases)
  case (1 kv rbuf)
  then show ?case by (cases kv) (simp add: pair_put)
next
  case (2 kv q rest)
  then show ?case by (cases kv) (auto simp: pair_put intro: pair_get_put)
next
  case (3 kv q)
  then show ?case by (cases kv) (auto simp: pair_put intro: pair_get_part)
qed

subsection \<open>The first byte\<close>

lemma low_cases: "k < 8 \<Longrightarrow> k = 0 \<or> k = 1 \<or> k = 2 \<or> k = 3 \<or> k = 4 \<or> k = 5 \<or> k = 6 \<or> k = (7::nat)"
  by linarith

lemma tag_simps:
  assumes "k < 8" "t = BitvT_IntegerPos \<or> t = BitvT_IntegerNeg \<or> t = BitvT_Container \<or> t = BitvT_Decimal"
  shows "(t OR of_nat k) AND BitvT_Mask = t" "unat ((t OR of_nat k) AND 0x07) = k"
  using low_cases [OF assms(1)] assms(2)
  by (elim disjE; simp add: bitv_consts)+

lemma packed_length_le:
  "LENGTH('a) = 8 * n \<Longrightarrow> n \<le> 8 \<Longrightarrow> length (PackBigEndianRev (v::'a::len word) []) - 1 < 8"
  using pack_length [of n v] by (simp add: PackBigEndianRev_eq)

lemma packed_length_pos: "0 < length (PackBigEndianRev v [])"
  by (simp add: PackBigEndianRev_eq)

lemma packed_val: "(GetPackedBigEndian (PackBigEndianRev v []) :: 'b::len word) = ucast v"
  by (simp add: GetPackedBigEndian_val PackBigEndianRev_eq PackLittleEndian_val)

text \<open>The types whose width is up to eight bytes.\<close>

definition byte_type :: "'a::len itself \<Rightarrow> bool" where
  "byte_type T \<longleftrightarrow> (\<exists>n. LENGTH('a) = 8 * n \<and> n \<le> 8)"

lemma byte_type_simps [simp]:
  "byte_type TYPE(8)" "byte_type TYPE(16)" "byte_type TYPE(32)" "byte_type TYPE(64)"
  by (auto simp: byte_type_def)

subsection \<open>Integers\<close>

lemma NoZero_eq:
  "IntToBitv_NoZero rbuf v t = (length (PackBigEndianRev v []) + 1,
     (t OR of_nat (length (PackBigEndianRev v []) - 1)) # PackBigEndianRev v [] @ rbuf)"
  by (simp add: IntToBitv_NoZero_def Let_def)

lemma IntAux_value:
  fixes v :: "'a::len word" and nv :: "'b::len word"
  assumes "byte_type TYPE('a)" "wf q" "content q = snd (IntToBitv_NoZero [] v t) @ rest"
    and "length (PackBigEndianRev v []) \<le> size_of nv"
    and "t = pos \<or> \<not> u \<and> t = BitvT_IntegerNeg"
    and "t = BitvT_IntegerPos \<or> t = BitvT_IntegerNeg \<or> t = BitvT_Container"
  shows "\<exists>q'. BitvToIntAux u pos v0 vn q nv =
      Inr (if t = BitvT_IntegerNeg then NOT (ucast v) else ucast v, q')
    \<and> wf q' \<and> content q' = rest"
proof -
  let ?p = "PackBigEndianRev v []" and ?k = "length (PackBigEndianRev v []) - 1"
  have k: "?k < 8" using assms(1) packed_length_le by (auto simp: byte_type_def)
  have t: "t = BitvT_IntegerPos \<or> t = BitvT_IntegerNeg \<or> t = BitvT_Container \<or> t = BitvT_Decimal"
    using assms(6) by blast
  have c: "content q = (t OR of_nat ?k) # ?p @ rest" using assms(3) by (simp add: NoZero_eq)
  then have c': "content q = ((t OR of_nat ?k) # ?p) @ rest" by simp
  have n: "?k + 1 = length ?p" using packed_length_pos [of v] by simp
  have pop: "wf (PopConsumed (length ?p + 1) q) \<and> content (PopConsumed (length ?p + 1) q) = rest"
    using dcl.pop_prefix [OF assms(2) c'] by simp
  show ?thesis
    unfolding BitvToIntAux_def need1_Cons [OF assms(2) c] Let_def tag_simps [OF k t] n
    using assms(4,5) pop by (auto simp: packed_val need_full [OF assms(2) c'])
qed

lemma IntAux_part:
  fixes v :: "'a::len word" and nv :: "'b::len word"
  assumes "byte_type TYPE('a)" "wf q" "strict_prefix (content q) (snd (IntToBitv_NoZero [] v t))"
    and "length (PackBigEndianRev v []) \<le> size_of nv"
    and "t = pos \<or> \<not> u \<and> t = BitvT_IntegerNeg"
    and "t = BitvT_IntegerPos \<or> t = BitvT_IntegerNeg \<or> t = BitvT_Container"
  shows "BitvToIntAux u pos v0 vn q nv = Inl BitvNeedsMore"
proof -
  let ?p = "PackBigEndianRev v []" and ?k = "length (PackBigEndianRev v []) - 1"
  have k: "?k < 8" using assms(1) packed_length_le by (auto simp: byte_type_def)
  have t: "t = BitvT_IntegerPos \<or> t = BitvT_IntegerNeg \<or> t = BitvT_Container \<or> t = BitvT_Decimal"
    using assms(6) by blast
  have n: "?k + 1 = length ?p" using packed_length_pos [of v] by simp
  show ?thesis
  proof (rule strict_prefix_first [OF assms(3) [unfolded NoZero_eq snd_conv append_Nil2]])
    assume "content q = []"
    then show ?thesis by (simp add: BitvToIntAux_def need1_Nil [OF assms(2)])
  next
    fix ys assume ys: "content q = (t OR of_nat ?k) # ys" and len: "length (content q) < Suc (length ?p)"
    show ?thesis
      unfolding BitvToIntAux_def need1_Cons [OF assms(2) ys] Let_def tag_simps [OF k t] n
      using assms(4,5) len need_short [OF assms(2)] by auto
  qed
qed

lemma IntAux_const:
  assumes "wf q" "content q = b # rest" "b AND BitvT_Mask \<noteq> pos" "b AND BitvT_Mask \<noteq> BitvT_IntegerNeg"
  shows "BitvToIntAux u pos v0 vn q nv =
    (if b = v0 then Inr (0, PopConsumed 1 q) else if b = vn then Inr (nv, PopConsumed 1 q) else Inl BitvTypeNotMatch)"
  by (simp add: BitvToIntAux_def need1_Cons [OF assms(1,2)] Let_def assms(3,4))

lemma Number0_mask: "BitvV_Number0 AND BitvT_Mask = BitvT_Zero" "BitvV_ContainerEmpty AND BitvT_Mask = BitvT_Null"
  "BitvV_NumberNull AND BitvT_Mask = BitvT_Null"
  by (simp_all add: bitv_consts)

lemma pop1: "wf q \<Longrightarrow> content q = b # rest \<Longrightarrow> wf (PopConsumed 1 q) \<and> content (PopConsumed 1 q) = rest"
  by simp

lemma packed_fits: "byte_type TYPE('a) \<Longrightarrow> length (PackBigEndianRev (v::'a::len word) []) \<le> size_of (w::'a word)"
  using pack_length [of _ v] by (auto simp: byte_type_def size_of_eq PackBigEndianRev_eq)

definition put_u :: "rev_buffer \<Rightarrow> 'a::len word \<Rightarrow> rev_buffer" where
  "put_u rbuf v = snd (IntToBitv_u rbuf v)"

definition put_s :: "rev_buffer \<Rightarrow> 'a::len word \<Rightarrow> rev_buffer" where
  "put_s rbuf v = snd (IntToBitv_s rbuf v)"

lemma unsigned_codec: "bitv_codec put_u (\<lambda>q. BitvToInt_u q nv) (\<lambda>v::'a::len word. byte_type TYPE('a))"
proof (unfold_locales, goal_cases)
  case (1 v rbuf)
  then show ?case by (simp add: put_u_def IntToBitv_u_def RevPutBitv_def NoZero_eq)
next
  case (2 v q rest)
  show ?case
  proof (cases "v = 0")
    case True
    then have "content q = BitvV_Number0 # rest" using 2 by (simp add: put_u_def IntToBitv_u_def RevPutBitv_def)
    then show ?thesis
      using IntAux_const [OF 2(2), of _ rest BitvT_IntegerPos True BitvV_Number0 BitvV_NumberNull nv] pop1 [OF 2(2)] True
      by (simp add: BitvToInt_u_def Number0_mask) (simp add: bitv_consts)
  next
    case False
    then show ?thesis
      using IntAux_value [OF 2(1,2), of v BitvT_IntegerPos rest nv BitvT_IntegerPos True BitvV_Number0 BitvV_NumberNull] 2
        packed_fits [OF 2(1)]
      by (simp add: put_u_def IntToBitv_u_def BitvToInt_u_def) (simp add: bitv_consts)
  qed
next
  case (3 v q)
  show ?case
  proof (cases "v = 0")
    case True
    then have "content q = []"
      using 3 by (cases "content q") (auto simp: put_u_def IntToBitv_u_def RevPutBitv_def strict_prefix_def)
    then show ?thesis by (simp add: BitvToInt_u_def BitvToIntAux_def need1_Nil [OF 3(2)])
  next
    case False
    then show ?thesis
      using IntAux_part [OF 3(1,2), of v BitvT_IntegerPos nv BitvT_IntegerPos True] 3 packed_fits [OF 3(1)]
      by (simp add: put_u_def IntToBitv_u_def BitvToInt_u_def)
  qed
qed

lemma put_s_eq:
  "v \<noteq> 0 \<Longrightarrow> put_s rbuf v = snd (if 0 < sint v then IntToBitv_NoZero rbuf v BitvT_IntegerPos
     else IntToBitv_NoZero rbuf (NOT v) BitvT_IntegerNeg)"
  by (simp add: put_s_def IntToBitv_s_def)

lemma signed_codec: "bitv_codec put_s (\<lambda>q. BitvToInt_s q nv) (\<lambda>v::'a::len word. byte_type TYPE('a))"
proof (unfold_locales, goal_cases)
  case (1 v rbuf)
  then show ?case by (simp add: put_s_def IntToBitv_s_def RevPutBitv_def NoZero_eq)
next
  case (2 v q rest)
  show ?case
  proof (cases "v = 0")
    case True
    then have "content q = BitvV_Number0 # rest" using 2 by (simp add: put_s_def IntToBitv_s_def RevPutBitv_def)
    then show ?thesis
      using IntAux_const [OF 2(2), of _ rest BitvT_IntegerPos False BitvV_Number0 BitvV_NumberNull nv] pop1 [OF 2(2)] True
      by (simp add: BitvToInt_s_def Number0_mask) (simp add: bitv_consts)
  next
    case False
    have ne: "BitvT_IntegerPos \<noteq> BitvT_IntegerNeg" by (simp add: bitv_consts)
    note val = IntAux_value [OF 2(1,2), of _ _ rest nv BitvT_IntegerPos False BitvV_Number0 BitvV_NumberNull]
    show ?thesis
      using val [of v BitvT_IntegerPos] val [of "NOT v" BitvT_IntegerNeg] 2(3) ne packed_fits [OF 2(1)]
      by (cases "0 < sint v") (simp_all add: put_s_eq [OF False] BitvToInt_s_def)
  qed
next
  case (3 v q)
  show ?case
  proof (cases "v = 0")
    case True
    then have "content q = []"
      using 3 by (cases "content q") (auto simp: put_s_def IntToBitv_s_def RevPutBitv_def strict_prefix_def)
    then show ?thesis by (simp add: BitvToInt_s_def BitvToIntAux_def need1_Nil [OF 3(2)])
  next
    case False
    note part = IntAux_part [OF 3(1,2), of _ _ nv BitvT_IntegerPos False BitvV_Number0 BitvV_NumberNull]
    show ?thesis
      using part [of v BitvT_IntegerPos] part [of "NOT v" BitvT_IntegerNeg] 3(3) packed_fits [OF 3(1)]
      by (cases "0 < sint v") (simp_all add: put_s_eq [OF False] BitvToInt_s_def)
  qed
qed

interpretation uns: bitv_codec put_u "\<lambda>q. BitvToInt_u q nv" "\<lambda>v::'a::len word. byte_type TYPE('a)" for nv
  by (rule unsigned_codec)

interpretation sgn: bitv_codec put_s "\<lambda>q. BitvToInt_s q nv" "\<lambda>v::'a::len word. byte_type TYPE('a)" for nv
  by (rule signed_codec)

subsection \<open>Flags and characters\<close>

lemma one_byte: "strict_prefix xs [b] \<Longrightarrow> xs = []"
  by (cases xs) (auto simp: strict_prefix_def)

interpretation flag: bitv_codec "\<lambda>rbuf v. snd (ToBitv_bool rbuf v)" BitvToBool "\<lambda>v. True"
proof (unfold_locales, goal_cases)
  case (1 v rbuf)
  then show ?case by (simp add: ToBitv_bool_def RevPutBitv_def)
next
  case (2 v q rest)
  then have c: "content q = (if v then BitvV_BoolTrue else BitvV_BoolFalse) # rest"
    by (simp add: ToBitv_bool_def RevPutBitv_def)
  have "BitvV_BoolTrue \<noteq> BitvV_BoolFalse" by (simp add: bitv_consts)
  then show ?case
    using pop1 [OF 2(2) c] by (simp add: BitvToBool_def need1_Cons [OF 2(2) c])
next
  case (3 v q)
  then have "content q = []" by (auto simp: ToBitv_bool_def RevPutBitv_def dest: one_byte)
  then show ?case using 3 by (simp add: BitvToBool_def need1_Nil)
qed

interpretation chr: bitv_codec "\<lambda>rbuf v. snd (ToBitv_char rbuf v)" BitvToChar "\<lambda>v. True"
proof (unfold_locales, goal_cases)
  case (1 v rbuf)
  then show ?case by (simp add: ToBitv_char_def RevPutBitv_def)
next
  case (2 v q rest)
  show ?case
  proof (cases "v = 0")
    case True
    then have c: "content q = BitvV_Char0 # rest" using 2 by (simp add: ToBitv_char_def RevPutBitv_def)
    then show ?thesis using pop1 [OF 2(2) c] True by (simp add: BitvToChar_def need1_Cons [OF 2(2) c])
  next
    case False
    then have c: "content q = [0, v] @ rest" using 2 by (simp add: ToBitv_char_def)
    then have c0: "content q = 0 # v # rest" by simp
    have "BitvV_Char0 \<noteq> 0" by (simp add: bitv_consts)
    then show ?thesis
      using dcl.pop_prefix [OF 2(2) c, of 2]
      by (simp add: BitvToChar_def need1_Cons [OF 2(2) c0] need_full [OF 2(2) c])
  qed
next
  case (3 v q)
  show ?case
  proof (cases "content q = []")
    case True
    then show ?thesis using 3 by (simp add: BitvToChar_def need1_Nil)
  next
    case False
    then have "v \<noteq> 0" using 3 one_byte [of "content q" BitvV_Char0] by (auto simp: ToBitv_char_def RevPutBitv_def)
    then obtain ys where c: "content q = 0 # ys" "length (content q) < 2"
      using 3 False strict_prefix_first [of "content q" 0 "[v]"] by (auto simp: ToBitv_char_def)
    have "BitvV_Char0 \<noteq> 0" by (simp add: bitv_consts)
    then show ?thesis
      by (simp add: BitvToChar_def need1_Cons [OF 3(2) c(1)] need_short [OF 3(2) c(2)])
  qed
qed

end
