(* ===== verification/BitvBytes.thy ===== *)
theory BitvBytes
  imports BitvProps
begin

text \<open>
  Byte arrays: the head that holds the size, in one to five bytes, and the array behind it.
  The highest bit of a size can lie in the first byte of the head.
\<close>

subsection \<open>The head\<close>

definition size_head :: "nat \<Rightarrow> byte list" where
  "size_head n = snd (ByteArraySizeToBitvT_NoEmpty [] (of_nat n))"

text \<open>A head of several bytes for the size \<open>n\<close>: what the decoder finds in it.\<close>

definition long_head :: "nat \<Rightarrow> byte \<Rightarrow> byte list \<Rightarrow> bool" where
  "long_head n b bs = (b AND 0x80 \<noteq> 0 \<and> b \<noteq> BitvV_ByteArrayEmpty \<and> b AND BitvT_Mask = BitvT_ByteArray
     \<and> unat (drop_bit 1 b AND 0x03) + 1 = length bs \<and> length bs \<le> 4
     \<and> le_val (rev bs) + (if b AND 1 \<noteq> 0 then 256 ^ length bs else 0) + 129 = n)"

lemma small_cases: "1 \<le> c \<Longrightarrow> c \<le> 4 \<Longrightarrow> c = 1 \<or> c = 2 \<or> c = 3 \<or> c = (4::nat)"
  by linarith

lemma AboveX80_head:
  assumes "129 \<le> n" "n \<le> kBitvMaxByteArraySize"
  shows "\<exists>b bs. snd (ByteArraySizeToBitvT_AboveX80 rbuf (of_nat n)) = b # bs @ rbuf \<and> long_head n b bs
    \<and> fst (ByteArraySizeToBitvT_AboveX80 rbuf (of_nat n)) = Suc (length bs)"
proof -
  have n32: "n < 2 ^ 32" using assms(2) by (simp add: kBitvMaxByteArraySize_def)
  define v :: u32 where "v = of_nat n - 0x80 - 1"
  have eq: "v = of_nat (n - 129)" using assms(1) by (simp add: v_def of_nat_diff)
  have "unat (of_nat (n - 129) :: u32) = n - 129" using n32 by (intro unat_small) simp
  then have vn: "unat v = n - 129" unfolding eq .
  let ?p = "PackBigEndianRev v []"
  have len: "1 \<le> length ?p" using packed_length_pos [of v] by linarith
  have len4: "length ?p \<le> 4" using pack_length [of 4 v] by (simp add: PackBigEndianRev_eq)
  have val: "le_val (rev ?p) = n - 129" by (simp only: PackBigEndianRev_eq append_Nil2 rev_rev_ident PackLittleEndian_val vn)
  obtain h t where p: "?p = h # t" using len by (cases ?p) auto
  have ht: "le_val (rev t) + 256 ^ length t * unat h = n - 129" using val by (simp add: p le_val_append)
  show ?thesis
  proof (cases "1 < length ?p \<and> h = 1")
    case True
    let ?b = "1 OR (BitvT_ByteArray OR push_bit 1 (of_nat (length ?p - 2)))"
    have enc: "ByteArraySizeToBitvT_AboveX80 rbuf (of_nat n) = (length ?p, ?b # t @ rbuf)"
      using True unfolding ByteArraySizeToBitvT_AboveX80_def v_def [symmetric] p Let_def by simp
    have "long_head n ?b t"
      unfolding long_head_def using small_cases [OF len len4] True ht assms(1)
      by (elim disjE; simp add: p bitv_consts)
    then show ?thesis using enc p by auto
  next
    case False
    let ?b = "BitvT_ByteArray OR push_bit 1 (of_nat (length ?p - 1))"
    have enc: "ByteArraySizeToBitvT_AboveX80 rbuf (of_nat n) = (Suc (length ?p), ?b # ?p @ rbuf)"
      using False unfolding ByteArraySizeToBitvT_AboveX80_def v_def [symmetric] p Let_def by auto
    have "long_head n ?b ?p"
      unfolding long_head_def using small_cases [OF len len4] val assms(1)
      by (elim disjE; simp add: bitv_consts)
    then show ?thesis using enc by auto
  qed
qed

lemma size_head_cases:
  assumes "1 \<le> n" "n \<le> kBitvMaxByteArraySize"
  obtains "n \<le> 128" "size_head n = [of_nat (n - 1)]"
  | b bs where "128 < n" "size_head n = b # bs" "long_head n b bs"
proof -
  have n32: "n < 2 ^ 32" using assms(2) by (simp add: kBitvMaxByteArraySize_def)
  then have le: "(of_nat n :: u32) \<le> 0x80 \<longleftrightarrow> n \<le> 128"
    by (simp add: word_le_nat_alt unat_small)
  show ?thesis
  proof (cases "n \<le> 128")
    case True
    have "(of_nat n - 1 :: u32) = of_nat (n - 1)" using assms(1) by (simp add: of_nat_diff)
    moreover have "(ucast (of_nat (n - 1) :: u32) :: byte) = of_nat (n - 1)"
      using True by (simp add: ucast_small)
    ultimately have "size_head n = [of_nat (n - 1)]"
      using le True by (simp add: size_head_def ByteArraySizeToBitvT_NoEmpty_def)
    then show ?thesis using that(1) True by blast
  next
    case False
    then obtain b bs where "size_head n = b # bs" "long_head n b bs"
      using le AboveX80_head [of n "[]"] assms(2)
      by (auto simp: size_head_def ByteArraySizeToBitvT_NoEmpty_def)
    then show ?thesis using that(2) False by simp
  qed
qed

lemma size_head_front:
  assumes "1 \<le> n" "n \<le> kBitvMaxByteArraySize"
  shows "snd (ByteArraySizeToBitvT_NoEmpty rbuf (of_nat n)) = size_head n @ rbuf"
    and "fst (ByteArraySizeToBitvT_NoEmpty rbuf (of_nat n)) = length (size_head n)"
  by (auto simp: size_head_def ByteArraySizeToBitvT_NoEmpty_def ByteArraySizeToBitvT_AboveX80_def Let_def)

subsection \<open>Decoding the size\<close>

lemma or_push_bit_add:
  "x < 2 ^ k \<Longrightarrow> (of_nat x :: 'a::len word) OR push_bit k 1 = of_nat (x + 2 ^ k)"
proof -
  assume x: "x < 2 ^ k"
  have "\<not> bit x k"
    by (metis x bit_take_bit_iff less_irrefl take_bit_nat_eq_self)
  then have "x AND 2 ^ k = 0"
    by (intro bit_eqI) (auto simp: bit_and_iff bit_exp_iff)
  then have "x + 2 ^ k = x OR push_bit k 1"
    by (simp add: disjunctive_add_eq_or)
  then show ?thesis
    by (simp only:) (rule bit_word_eqI, auto simp: bit_simps)
qed

lemma long_head_size:
  assumes "long_head n b bs" "n \<le> kBitvMaxByteArraySize"
  shows "head_size (b # bs) (length bs) = n"
proof -
  have len: "length bs \<le> 4" and n: "le_val (rev bs) + (if b AND 1 \<noteq> 0 then 256 ^ length bs else 0) + 129 = n"
    using assms(1) by (auto simp: long_head_def)
  have x: "le_val (rev bs) < 256 ^ length bs" using le_val_less [of "rev bs"] by simp
  also have "(256::nat) ^ length bs \<le> 256 ^ 4" using len by (intro power_increasing) auto
  finally have x32: "le_val (rev bs) < 2 ^ 32" by simp
  have g: "(ucast (GetPackedBigEndian bs :: u32) :: u64) = of_nat (le_val (rev bs))"
    using x32 by (simp add: GetPackedBigEndian_val ucast_small)
  have p: "(256::nat) ^ length bs = 2 ^ (length bs * 8)" by (simp add: power_mult mult.commute [of _ 8])
  have sum: "(if b AND 0x01 \<noteq> 0 then (of_nat (le_val (rev bs)) :: u64) OR push_bit (length bs * 8) 1
      else of_nat (le_val (rev bs))) + 0x80 + 1 = of_nat n"
    using x n or_push_bit_add [of "le_val (rev bs)" "length bs * 8"] unfolding p by auto
  have "n < 2 ^ 64" using assms(2) by (simp add: kBitvMaxByteArraySize_def)
  then have "unat ((of_nat n) :: u64) = n" by (simp add: unat_small)
  then show ?thesis unfolding head_size_def Let_def list.sel g sum .
qed

lemma small_byte: "k < 128 \<Longrightarrow> (of_nat k :: byte) AND 0x80 = 0 \<and> unat (of_nat k :: byte) = k"
proof -
  assume k: "k < 128"
  have "take_bit 7 k = k" using k by (simp add: take_bit_nat_eq_self)
  then have "\<not> bit k 7" by (metis bit_take_bit_iff less_irrefl)
  then have "(of_nat k :: byte) AND 2 ^ 7 = 0"
    by (intro bit_word_eqI) (auto simp: bit_simps bit_exp_iff simp del: power_numeral)
  then show ?thesis using k by (simp add: unat_small)
qed

lemma PeekSize_ready:
  assumes "wf q" "content q = size_head n @ data" "1 \<le> n" "n \<le> kBitvMaxByteArraySize"
  shows "PeekBitvByteArraySize q =
    Inr (if n \<le> length data then DataReady (length (size_head n)) n else NeedsMoreData n)"
proof (rule size_head_cases [OF assms(3,4)])
  assume n: "n \<le> 128" "size_head n = [of_nat (n - 1)]"
  have "Peek1 q = Some (of_nat (n - 1))" using dcl.peek1_Cons [OF assms(1)] assms(2) n(2) by simp
  moreover have "n - 1 < 128" using n(1) assms(3) by simp
  ultimately show ?thesis
    using small_byte [of "n - 1"] assms(2,3) n
    by (simp add: PeekBitvByteArraySize_def Let_def IsSizeEnough_eq [OF assms(1)])
next
  fix b bs assume n: "128 < n" "size_head n = b # bs" "long_head n b bs"
  have p1: "Peek1 q = Some b" using dcl.peek1_Cons [OF assms(1)] assms(2) n(2) by simp
  have p: "Peek (length bs + 1) q = Some (b # bs)"
    using dcl.peek_prefix [OF assms(1), of "b # bs" data] assms(2) n(2) by simp
  show ?thesis
    using n(3) assms(2) p
    by (simp add: PeekBitvByteArraySize_def p1 Let_def long_head_def n(2) IsSizeEnough_eq [OF assms(1)]
        long_head_size [OF n(3) assms(4)])
qed

lemma PeekSize_part:
  assumes "wf q" "strict_prefix (content q) (size_head n)" "1 \<le> n" "n \<le> kBitvMaxByteArraySize"
  shows "PeekBitvByteArraySize q = Inr NeedsMoreHead"
proof (cases "content q = []")
  case True
  then show ?thesis using assms(1) by (simp add: PeekBitvByteArraySize_def dcl.peek1_Nil)
next
  case False
  show ?thesis
  proof (rule size_head_cases [OF assms(3,4)])
    assume "size_head n = [of_nat (n - 1)]"
    then show ?thesis using False assms(2) one_byte [of "content q" "of_nat (n - 1)"] by simp
  next
    fix b bs assume n: "size_head n = b # bs" "long_head n b bs"
    obtain ys where ys: "content q = b # ys" "length (content q) < Suc (length bs)"
      using strict_prefix_first assms(2) False n(1) by metis
    have "Peek1 q = Some b" using dcl.peek1_Cons [OF assms(1) ys(1)] .
    moreover have "Peek (Suc (length bs)) q = None" using dcl.peek_short [OF assms(1) ys(2)] .
    ultimately show ?thesis
      using n(2) by (simp add: PeekBitvByteArraySize_def long_head_def)
  qed
qed

subsection \<open>Byte arrays\<close>

definition put_bytes :: "rev_buffer \<Rightarrow> byte list \<Rightarrow> rev_buffer" where
  "put_bytes rbuf bs = (case ByteArrayToBitv rbuf bs of Inl e \<Rightarrow> rbuf | Inr (n, rbuf') \<Rightarrow> rbuf')"

lemma put_bytes_eq:
  assumes "length bs \<le> kBitvMaxByteArraySize"
  shows "put_bytes rbuf bs = (if bs = [] then [BitvV_ByteArrayEmpty] else size_head (length bs) @ bs) @ rbuf"
    and "ByteArrayToBitv rbuf bs = Inr (length (put_bytes [] bs), put_bytes rbuf bs)"
proof -
  have enc: "ByteArrayToBitv rbuf bs =
      Inr (length (if bs = [] then [BitvV_ByteArrayEmpty] else size_head (length bs) @ bs),
        (if bs = [] then [BitvV_ByteArrayEmpty] else size_head (length bs) @ bs) @ rbuf)" for rbuf
  proof (cases "bs = []")
    case False
    then have "1 \<le> length bs" by (simp add: Suc_le_eq)
    then show ?thesis
      using False assms size_head_front [of "length bs" "bs @ rbuf"]
      by (simp add: ByteArrayToBitv_def ByteArrayToBitv_NoEmpty_def Let_def split_beta)
  qed (simp add: ByteArrayToBitv_def RevPutBitv_def)
  show "put_bytes rbuf bs = (if bs = [] then [BitvV_ByteArrayEmpty] else size_head (length bs) @ bs) @ rbuf"
    by (simp add: put_bytes_def enc)
  then show "ByteArrayToBitv rbuf bs = Inr (length (put_bytes [] bs), put_bytes rbuf bs)"
    by (simp add: put_bytes_def enc)
qed

lemma PopSize_bytes:
  assumes "wf q" "content q = put_bytes [] bs @ rest" "length bs \<le> kBitvMaxByteArraySize"
  shows "\<exists>q'. PopBitvByteArraySize q = Inr (True, length bs, q') \<and> wf q' \<and> content q' = bs @ rest"
proof (cases "bs = []")
  case True
  then have c: "content q = BitvV_ByteArrayEmpty # rest" using assms by (simp add: put_bytes_eq)
  then have "PeekBitvByteArraySize q = Inr (DataReady 1 0)"
    using dcl.peek1_Cons [OF assms(1) c] by (simp add: PeekBitvByteArraySize_def) (simp add: bitv_consts)
  then show ?thesis using pop1 [OF assms(1) c] True by (simp add: PopBitvByteArraySize_def)
next
  case False
  then have c: "content q = size_head (length bs) @ bs @ rest" using assms by (simp add: put_bytes_eq)
  have "PeekBitvByteArraySize q = Inr (DataReady (length (size_head (length bs))) (length bs))"
    using PeekSize_ready [OF assms(1) c _ assms(3)] False by (simp add: Suc_le_eq)
  then show ?thesis
    using dcl.pop_prefix [OF assms(1) c] by (simp add: PopBitvByteArraySize_def)
qed

lemma PopSize_part:
  assumes "wf q" "strict_prefix (content q) (put_bytes [] bs)" "length bs \<le> kBitvMaxByteArraySize"
  shows "\<exists>n. PopBitvByteArraySize q = Inr (False, n, q)"
proof (cases "bs = []")
  case True
  then have "content q = []" using assms one_byte by (auto simp: put_bytes_eq)
  then show ?thesis
    using assms(1) by (simp add: PopBitvByteArraySize_def PeekBitvByteArraySize_def dcl.peek1_Nil)
next
  case False
  then have n: "1 \<le> length bs" by (simp add: Suc_le_eq)
  have "strict_prefix (content q) (size_head (length bs)) \<or>
      (\<exists>zs. content q = size_head (length bs) @ zs \<and> strict_prefix zs bs)"
    using assms False by (auto simp: put_bytes_eq strict_prefix_def prefix_append)
  then show ?thesis
  proof
    assume "strict_prefix (content q) (size_head (length bs))"
    then show ?thesis
      using PeekSize_part [OF assms(1) _ n assms(3)] by (simp add: PopBitvByteArraySize_def)
  next
    assume "\<exists>zs. content q = size_head (length bs) @ zs \<and> strict_prefix zs bs"
    then obtain zs where zs: "content q = size_head (length bs) @ zs" "length zs < length bs"
      using strict_prefix_short by blast
    then show ?thesis
      using PeekSize_ready [OF assms(1) zs(1) n assms(3)] by (simp add: PopBitvByteArraySize_def)
  qed
qed

lemma str_append_loop_eq:
  assumes "wf q" "0 < n" "n \<le> length (content q)" "length (BlockList q) < f"
  shows "\<exists>q'. str_append_loop f n q dst = Some (dst @ take n (content q), q') \<and> wf q' \<and> content q' = drop n (content q)"
  using assms
proof (induction f arbitrary: n q dst)
  case (Suc f)
  have ne: "Mem q \<noteq> []" using Suc.prems content_Nil by (metis le_zero_eq length_0_conv less_numeral_extra(3))
  obtain r where r: "content q = Mem q @ r" using content_Mem by blast
  show ?case
  proof (cases "n \<le> length (Mem q)")
    case True
    then show ?thesis using Suc.prems by (simp add: Let_def PeekCurrBlock_def r min_def)
  next
    case False
    let ?q = "PopConsumed (length (Mem q)) q"
    have "length (BlockList ?q) < f" using block_popped [OF Suc.prems(1) ne] Suc.prems(4) by simp
    moreover have "content ?q = r" using Suc.prems(1) by (simp add: r)
    ultimately show ?thesis
      using Suc.IH [of ?q "n - length (Mem q)" "dst @ Mem q"] Suc.prems False
      by (auto simp: Let_def PeekCurrBlock_def r min_def)
  qed
qed simp

lemma StrAppend_bytes:
  assumes "wf q" "content q = put_bytes [] bs @ rest" "length bs \<le> kBitvMaxByteArraySize"
  shows "\<exists>q'. BitvToStrAppend q dst = Inr (Some (dst @ bs, q')) \<and> wf q' \<and> content q' = rest"
proof -
  obtain q1 where q1: "PopBitvByteArraySize q = Inr (True, length bs, q1)" "wf q1" "content q1 = bs @ rest"
    using PopSize_bytes [OF assms] by blast
  show ?thesis
  proof (cases "bs = []")
    case True
    then show ?thesis using q1 by (simp add: BitvToStrAppend_def)
  next
    case False
    then show ?thesis
      using q1 str_append_loop_eq [OF q1(2) _ _ lessI, of "length bs" dst]
      by (auto simp: BitvToStrAppend_def simp del: str_append_loop.simps)
  qed
qed

lemma ByteArray_bytes:
  assumes "wf q" "content q = put_bytes [] bs @ rest" "length bs \<le> kBitvMaxByteArraySize" "length bs \<le> n"
  shows "\<exists>q'. BitvToByteArray q n = Inr ((length bs, bs @ replicate (n - length bs) 0), q')
    \<and> wf q' \<and> content q' = rest"
proof -
  obtain q1 where "PopBitvByteArraySize q = Inr (True, length bs, q1)" "wf q1" "content q1 = bs @ rest"
    using PopSize_bytes [OF assms(1-3)] by blast
  then show ?thesis using assms(4) by (auto simp: BitvToByteArray_def Read_eq)
qed

text \<open>\<open>BitvToStr\<close>; the loop has fuel enough (\<open>StrAppend_bytes\<close>), so that \<open>None\<close> is not met.\<close>

definition BitvToStr :: "dc_queue \<Rightarrow> bitv_error + byte list \<times> dc_queue" where
  "BitvToStr q = (case BitvToStrAppend q [] of Inl e \<Rightarrow> Inl e
     | Inr None \<Rightarrow> Inl BitvNeedsMore | Inr (Some r) \<Rightarrow> Inr r)"

interpretation str: bitv_codec put_bytes BitvToStr "\<lambda>bs. length bs \<le> kBitvMaxByteArraySize"
proof (unfold_locales, goal_cases)
  case (1 v rbuf)
  then show ?case by (simp add: put_bytes_eq)
next
  case (2 v q rest)
  then show ?case using StrAppend_bytes [OF 2(2,3,1), of "[]"] by (auto simp: BitvToStr_def)
next
  case (3 v q)
  then show ?case using PopSize_part [OF 3(2,3,1)] by (auto simp: BitvToStr_def BitvToStrAppend_def)
qed

end
