(* ===== verification/BitvDecimal.thy ===== *)
theory BitvDecimal
  imports BitvBytes
begin

text \<open>
  Decimals: two bytes with the size, the number of decimals, the sign and the two highest
  bits of the number, and the rest of the number behind them. What is encoded is the number
  without the zeros at the end of its decimals.
\<close>

subsection \<open>The second byte\<close>

definition dec_byte :: "byte \<Rightarrow> nat \<Rightarrow> bool \<Rightarrow> byte" where
  "dec_byte h scale isNeg = h OR (if isNeg then push_bit 3 (of_nat scale) OR 0x04 else push_bit 3 (of_nat scale))"

lemma bit_of_scale: "scale < 32 \<Longrightarrow> 5 \<le> n \<Longrightarrow> \<not> bit (of_nat scale :: byte) n"
proof -
  assume s: "scale < 32" and n: "5 \<le> n"
  have "take_bit 5 scale = scale" using s by (simp add: take_bit_nat_eq_self)
  then have "\<not> bit scale n" using n by (metis bit_take_bit_iff not_le)
  then show ?thesis by (simp add: bit_simps)
qed

lemma bit_two_low:
  assumes "(h::byte) AND 0xfc = 0" "2 \<le> n"
  shows "\<not> bit h n"
proof
  assume b: "bit h n"
  then have n: "n < 8" using bit_imp_le_length [OF b] by simp
  have "bit (0xfc :: byte) n" using low_cases [OF n] assms(2) by (elim disjE) simp_all
  then have "bit (h AND 0xfc) n" using b by (simp add: bit_and_iff)
  then show False using assms(1) by simp
qed

lemma dec_byte_parts:
  assumes "h AND 0xfc = 0" "scale < 32"
  shows "dec_byte h scale isNeg AND 0x03 = h" "drop_bit 3 (dec_byte h scale isNeg) = of_nat scale"
    and "(dec_byte h scale isNeg AND 0x04 \<noteq> 0) = isNeg"
proof -
  note hb = bit_two_low [OF assms(1)]
  have sb': "bit (of_nat scale :: byte) n \<Longrightarrow> n < 5" for n
    using bit_of_scale [OF assms(2), of n] not_le by blast
  show "dec_byte h scale isNeg AND 0x03 = h"
  proof (rule bit_word_eqI)
    fix n assume "n < LENGTH(8)"
    then have n: "n < 8" by simp
    show "bit (dec_byte h scale isNeg AND 0x03) n = bit h n"
      using low_cases [OF n] hb [of n] by (elim disjE) (auto simp: dec_byte_def bit_simps)
  qed
  show "drop_bit 3 (dec_byte h scale isNeg) = of_nat scale"
  proof (rule bit_word_eqI)
    fix n assume "n < LENGTH(8)"
    then have n: "n < 8" by simp
    have "\<not> bit (0x04 :: byte) (3 + n)" using low_cases [OF n] by (elim disjE) simp_all
    then show "bit (drop_bit 3 (dec_byte h scale isNeg)) n = bit (of_nat scale :: byte) n"
      using hb [of "3 + n"] sb' [of n] n by (auto simp: dec_byte_def bit_drop_bit_eq bit_or_iff bit_push_bit_iff)
  qed
  have four: "(x AND 0x04 \<noteq> 0) = bit x 2" for x :: byte
  proof -
    have "x AND 2 ^ 2 = (if bit x 2 then 2 ^ 2 else 0)"
      by (rule bit_word_eqI) (auto simp: bit_simps bit_exp_iff simp del: power_numeral)
    then show ?thesis by (auto split: if_splits)
  qed
  show "(dec_byte h scale isNeg AND 0x04 \<noteq> 0) = isNeg"
    unfolding four using hb [of 2] by (auto simp: dec_byte_def bit_simps)
qed

subsection \<open>Encoding and decoding a number with its sign and decimals\<close>

lemma packed_loop_bytes:
  "packed_big_loop (ucast (c::byte)) bs = (of_nat (le_val (rev bs) + 256 ^ length bs * unat c) :: u64)"
  unfolding ucast_byte packed_big_loop_val ..

lemma raw_shape:
  assumes "scale < 32"
  shows "\<exists>h bs. DecToBitv_raw rbuf v scale isNeg =
      (length bs + 2, (BitvT_Decimal OR of_nat (length bs - 1)) # dec_byte h scale isNeg # bs @ rbuf)
    \<and> h AND 0xfc = 0 \<and> 0 < length bs \<and> length bs \<le> 8
    \<and> packed_big_loop (ucast h) bs = v"
proof -
  let ?p = "PackBigEndianRev v []"
  have len: "0 < length ?p" "length ?p \<le> 8"
    using packed_length_pos [of v] pack_length [of 8 v] by (simp_all add: PackBigEndianRev_eq)
  have val: "le_val (rev ?p) = unat v" by (simp add: PackBigEndianRev_eq PackLittleEndian_val)
  obtain h t where p: "?p = h # t" using len(1) by (cases ?p) auto
  show ?thesis
  proof (cases "1 < length ?p \<and> h AND 0xfc = 0")
    case True
    have "DecToBitv_raw rbuf v scale isNeg =
        (length t + 2, (BitvT_Decimal OR of_nat (length t - 1)) # dec_byte h scale isNeg # t @ rbuf)"
      using True by (simp add: DecToBitv_raw_def p Let_def dec_byte_def)
    moreover have "packed_big_loop (ucast h) t = v"
      using val unfolding packed_loop_bytes p by (simp add: le_val_append del: of_nat_add of_nat_mult)
    ultimately show ?thesis using True len p by auto
  next
    case False
    have "DecToBitv_raw rbuf v scale isNeg =
        (length ?p + 2, (BitvT_Decimal OR of_nat (length ?p - 1)) # dec_byte 0 scale isNeg # ?p @ rbuf)"
      using False by (auto simp: DecToBitv_raw_def p Let_def dec_byte_def)
    moreover have "packed_big_loop (ucast (0::byte)) ?p = v"
      using val unfolding packed_loop_bytes by (simp del: of_nat_add of_nat_mult)
    moreover have "(0 :: byte) AND 0xfc = 0" by simp
    ultimately show ?thesis using len by blast
  qed
qed

lemma raw_number:
  assumes "scale < 32" "wf q" "content q = snd (DecToBitv_raw [] v scale isNeg) @ rest"
  shows "\<exists>q'. BitvToNumber q = Inr (\<lparr> NumType = (if isNeg then BitvNumT_Neg else BitvNumT_Pos), Scale = scale,
      Num = (if isNeg then NOT v else v) \<rparr>, q') \<and> wf q' \<and> content q' = rest"
proof -
  obtain h bs where raw: "DecToBitv_raw [] v scale isNeg =
      (length bs + 2, (BitvT_Decimal OR of_nat (length bs - 1)) # dec_byte h scale isNeg # bs @ [])"
    and h: "h AND 0xfc = 0" and bs: "0 < length bs" "length bs \<le> 8" and val: "packed_big_loop (ucast h) bs = v"
    using raw_shape [OF assms(1)] by blast
  let ?t = "BitvT_Decimal OR of_nat (length bs - 1)" and ?b = "dec_byte h scale isNeg"
  have c1: "content q = ?t # ?b # bs @ rest" and c2: "content q = (?t # ?b # bs) @ rest"
    using assms(3) raw by simp_all
  have k: "length bs - 1 < 8" using bs by simp
  note tag = tag_simps [OF k, of BitvT_Decimal, simplified]
  have n: "length bs - 1 + 1 = length bs" using bs by simp
  have ne: "BitvT_Decimal \<noteq> BitvT_IntegerPos" "BitvT_Decimal \<noteq> BitvT_IntegerNeg"
    by (simp_all add: bitv_consts)
  have pop: "wf (PopConsumed (length bs + 2) q) \<and> content (PopConsumed (length bs + 2) q) = rest"
    using dcl.pop_prefix [OF assms(2) c2] by simp
  have sc: "unat (of_nat scale :: byte) = scale" using assms(1) by (simp add: unat_small)
  show ?thesis
    unfolding BitvToNumber_def need1_Cons [OF assms(2) c1] Let_def tag [simplified] n
    using pop by (auto simp: tag ne need_full [OF assms(2) c2] dec_byte_parts [OF h assms(1)] val sc n [simplified])
qed

lemma NoZero_number:
  fixes v :: u64
  assumes "wf q" "content q = snd (IntToBitv_NoZero [] v t) @ rest"
    and "t = (if isNeg then BitvT_IntegerNeg else BitvT_IntegerPos)"
  shows "\<exists>q'. BitvToNumber q = Inr (\<lparr> NumType = (if isNeg then BitvNumT_Neg else BitvNumT_Pos), Scale = 0,
      Num = (if isNeg then NOT v else v) \<rparr>, q') \<and> wf q' \<and> content q' = rest"
proof -
  let ?p = "PackBigEndianRev v []" and ?k = "length (PackBigEndianRev v []) - 1"
  have k: "?k < 8" using packed_length_le [of 8 v] by simp
  have c1: "content q = (t OR of_nat ?k) # ?p @ rest" and c2: "content q = ((t OR of_nat ?k) # ?p) @ rest"
    using assms(2) by (simp_all add: NoZero_eq)
  have t: "t = BitvT_IntegerPos \<or> t = BitvT_IntegerNeg \<or> t = BitvT_Container \<or> t = BitvT_Decimal"
    using assms(3) by simp
  have n: "?k + 1 = length ?p" using packed_length_pos [of v] by simp
  have ne: "BitvT_IntegerPos \<noteq> BitvT_IntegerNeg" by (simp add: bitv_consts)
  have pop: "wf (PopConsumed (length ?p + 1) q) \<and> content (PopConsumed (length ?p + 1) q) = rest"
    using dcl.pop_prefix [OF assms(1) c2] by simp
  show ?thesis
    unfolding BitvToNumber_def need1_Cons [OF assms(1) c1] Let_def tag_simps [OF k t] n
    using pop ne assms(3) by (auto simp: need_full [OF assms(1) c2] packed_val)
qed

subsection \<open>Zeros at the end\<close>

lemma trunc_mod_0: "trunc_mod v d = 0 \<Longrightarrow> trunc_div v d * d = v"
  by (simp add: trunc_mod_def mult.commute)

lemma adjust_loop_value:
  "adjust_loop v s = (x, s') \<Longrightarrow> 0 < s \<Longrightarrow> s' \<le> s \<and> x * 10 ^ (s - s') = v"
proof (induction v s arbitrary: x s' rule: adjust_loop.induct)
  case (1 v s)
  consider "0 \<le> v \<and> v < 0x400"
    | "\<not> (0 \<le> v \<and> v < 0x400)" "s = 1 \<or> s = 0 \<or> trunc_mod v 100 \<noteq> 0"
    | "\<not> (0 \<le> v \<and> v < 0x400)" "\<not> (s = 1 \<or> s = 0 \<or> trunc_mod v 100 \<noteq> 0)" by blast
  then show ?case
  proof cases
    case 1
    then show ?thesis using "1.prems" by (simp add: adjust_loop.simps [of v])
  next
    case 2
    then show ?thesis
      using "1.prems" trunc_mod_0 [of v 10]
      by (auto simp: adjust_loop.simps [of v] split: if_splits)
  next
    case 3
    then have s: "2 \<le> s" and v: "trunc_div v 100 * 100 = v" using trunc_mod_0 [of v 100] by auto
    show ?thesis
    proof (cases "s - 2 = 0")
      case True
      then have "s = 2" using s by simp
      then have "adjust_loop v s = (trunc_div v 100, 0)" using 3 by (subst adjust_loop.simps) auto
      then show ?thesis using \<open>s = 2\<close> "1.prems" v by simp
    next
      case False
      have "adjust_loop v s = adjust_loop (trunc_div v 100) (s - 2)"
        using 3 False by (subst adjust_loop.simps) auto
      then have "adjust_loop (trunc_div v 100) (s - 2) = (x, s')" using "1.prems" by simp
      then have "s' \<le> s - 2 \<and> x * 10 ^ (s - 2 - s') = trunc_div v 100"
        using "1.IH" [of x s'] 3 False by auto
      moreover from this have "s - s' = (s - 2 - s') + 2" using s by linarith
      ultimately show ?thesis using v by (simp add: power_add)
    qed
  qed
qed

lemma BitvAdjustScale_value:
  "BitvAdjustScale v s = (x, s') \<Longrightarrow> s' \<le> s \<and> x * 10 ^ (s - s') = v"
  using adjust_loop_value by (auto simp: BitvAdjustScale_def split: if_splits)

lemma factor_bounds:
  assumes "x * 10 ^ k = (v::int)"
  shows "\<bar>x\<bar> \<le> \<bar>v\<bar>" "x < 0 \<longleftrightarrow> v < 0" "x = 0 \<longleftrightarrow> v = 0"
proof -
  have p: "(1::int) \<le> 10 ^ k" by simp
  have "\<bar>x\<bar> * 1 \<le> \<bar>x\<bar> * 10 ^ k" using p by (intro mult_left_mono) auto
  then show "\<bar>x\<bar> \<le> \<bar>v\<bar>" using assms by (simp add: abs_mult flip: assms)
  show "x < 0 \<longleftrightarrow> v < 0" using assms p by (auto simp: mult_less_0_iff)
  show "x = 0 \<longleftrightarrow> v = 0" using assms by auto
qed

subsection \<open>What a decoded number denotes\<close>

definition num_int :: "bitv_num \<Rightarrow> int" where
  "num_int num = (case NumType num of BitvNumT_Neg \<Rightarrow> sint (Num num) | BitvNumT_Pos \<Rightarrow> uint (Num num) | _ \<Rightarrow> 0)"

definition denotes :: "bitv_num \<Rightarrow> int \<Rightarrow> nat \<Rightarrow> bool" where
  "denotes num v scale = (NumType num = (if v < 0 then BitvNumT_Neg else if v = 0 then BitvNumT_Zero else BitvNumT_Pos)
     \<and> Scale num \<le> scale \<and> num_int num * 10 ^ (scale - Scale num) = v)"

lemma zero_number:
  assumes "wf q" "content q = BitvV_Number0 # rest"
  shows "\<exists>q'. BitvToNumber q = Inr (\<lparr> NumType = BitvNumT_Zero, Scale = 0, Num = 0 \<rparr>, q') \<and> wf q' \<and> content q' = rest"
proof -
  have m: "BitvV_Number0 AND BitvT_Mask = BitvT_Zero" by (rule Number0_mask)
  have ne: "BitvT_Zero \<noteq> BitvT_IntegerPos" "BitvT_Zero \<noteq> BitvT_IntegerNeg" "BitvT_Zero \<noteq> BitvT_Decimal"
    by (simp_all add: bitv_consts)
  show ?thesis
    unfolding BitvToNumber_def need1_Cons [OF assms] Let_def m using pop1 [OF assms] ne by simp
qed

text \<open>The two ways a sign and a number are put: without decimals as an integer, else as a decimal.\<close>

definition put_signed :: "u64 \<Rightarrow> nat \<Rightarrow> bool \<Rightarrow> byte list" where
  "put_signed v scale isNeg = snd (if scale = 0
     then IntToBitv_NoZero [] v (if isNeg then BitvT_IntegerNeg else BitvT_IntegerPos)
     else DecToBitv_raw [] v scale isNeg)"

lemma put_signed_number:
  assumes "scale < 32" "wf q" "content q = put_signed v scale isNeg @ rest"
  shows "\<exists>q'. BitvToNumber q = Inr (\<lparr> NumType = (if isNeg then BitvNumT_Neg else BitvNumT_Pos), Scale = scale,
      Num = (if isNeg then NOT v else v) \<rparr>, q') \<and> wf q' \<and> content q' = rest"
  using assms(3) raw_number [OF assms(1,2)] NoZero_number [OF assms(2) _ refl]
  by (cases "scale = 0") (simp_all add: put_signed_def)

lemma DecToBitv_s_eq:
  assumes "v \<noteq> 0" "BitvAdjustScale (sint v) scale = (x, scale')"
  shows "snd (DecToBitv_s [] v scale) = (if x < 0 then put_signed (NOT (word_of_int x)) scale' True
      else put_signed (word_of_int x) scale' False)"
  using assms by (simp add: DecToBitv_s_def put_signed_def)

lemma DecToBitv_u_eq:
  assumes "v \<noteq> 0" "BitvAdjustScale (uint v) scale = (x, scale')"
  shows "snd (DecToBitv_u [] v scale) = put_signed (word_of_int x) scale' False"
  using assms by (simp add: DecToBitv_u_def put_signed_def)

lemma sint_word_of_int: "- (2 ^ 63) \<le> x \<Longrightarrow> x < 2 ^ 63 \<Longrightarrow> sint (word_of_int x :: u64) = x"
  by (simp add: sint_sbintrunc' signed_take_bit_int_eq_self)

lemma uint_word_of_int: "0 \<le> x \<Longrightarrow> x < 2 ^ 64 \<Longrightarrow> uint (word_of_int x :: u64) = x"
  by (simp add: take_bit_int_eq_self unsigned_of_int)

lemma DecToBitv_s_number:
  assumes "scale < 32" "wf q" "content q = snd (DecToBitv_s [] v scale) @ rest"
  shows "\<exists>num q'. BitvToNumber q = Inr (num, q') \<and> denotes num (sint v) scale \<and> wf q' \<and> content q' = rest"
proof (cases "v = 0")
  case True
  then have "content q = BitvV_Number0 # rest" using assms(3) by (simp add: DecToBitv_s_def RevPutBitv_def)
  then show ?thesis using zero_number [OF assms(2)] True by (fastforce simp: denotes_def num_int_def)
next
  case False
  obtain x s where adj: "BitvAdjustScale (sint v) scale = (x, s)" by fastforce
  note val = BitvAdjustScale_value [OF adj]
  note fb = factor_bounds [OF val [THEN conjunct2]]
  have s: "s < 32" using val assms(1) by linarith
  have v: "- (2 ^ 63) \<le> sint v" "sint v < 2 ^ 63"
    using sint_greater_eq [of v] sint_less [of v] by simp_all
  have nz: "sint v \<noteq> 0" using False by (metis signed_0 signed_word_eqI)
  have x: "x < 0 \<Longrightarrow> sint (word_of_int x :: u64) = x" "0 \<le> x \<Longrightarrow> uint (word_of_int x :: u64) = x"
    using v fb by (auto intro!: sint_word_of_int uint_word_of_int)
  show ?thesis
    using put_signed_number [OF s assms(2), of "NOT (word_of_int x)" True rest]
      put_signed_number [OF s assms(2), of "word_of_int x" False rest] assms(3) x val fb nz
    by (cases "x < 0") (auto simp: DecToBitv_s_eq [OF False adj] denotes_def num_int_def)
qed

lemma DecToBitv_u_number:
  assumes "scale < 32" "wf q" "content q = snd (DecToBitv_u [] v scale) @ rest"
  shows "\<exists>num q'. BitvToNumber q = Inr (num, q') \<and> denotes num (uint v) scale \<and> wf q' \<and> content q' = rest"
proof (cases "v = 0")
  case True
  then have "content q = BitvV_Number0 # rest" using assms(3) by (simp add: DecToBitv_u_def RevPutBitv_def)
  then show ?thesis using zero_number [OF assms(2)] True by (fastforce simp: denotes_def num_int_def)
next
  case False
  obtain x s where adj: "BitvAdjustScale (uint v) scale = (x, s)" by fastforce
  note val = BitvAdjustScale_value [OF adj]
  note fb = factor_bounds [OF val [THEN conjunct2]]
  have s: "s < 32" using val assms(1) by linarith
  have "uint v \<noteq> 0" using False by (metis unsigned_0 unsigned_word_eqI)
  then have v: "0 < uint v" "uint v < 2 ^ 64"
    using unsigned_less [of v, where 'a = int] by (simp_all add: less_le)
  have x: "uint (word_of_int x :: u64) = x"
    using v fb by (intro uint_word_of_int) auto
  show ?thesis
    using put_signed_number [OF s assms(2), of "word_of_int x" False rest] assms(3) x val fb v
    by (auto simp: DecToBitv_u_eq [OF False adj] denotes_def num_int_def)
qed

end
