(* ===== verification/BitvSpec.thy ===== *)
theory BitvSpec
  imports BitvDecimal
begin

text \<open>
  The properties of the binary encoding: containers of pairs, byte arrays and decimals are
  read back whatever nodes they lie in, beginnings of them are recognised, and what goes
  wrong with negative numbers of a fixed scale and with narrow types.
\<close>

subsection \<open>Containers\<close>

definition count_bytes :: "nat \<Rightarrow> byte list" where
  "count_bytes n = ElementCountToBitv [] n"

lemma ElementCount_front: "ElementCountToBitv rbuf n = count_bytes n @ rbuf"
  by (simp add: count_bytes_def ElementCountToBitv_def NoZero_eq RevPutBitv_def)

lemma count_bytes_not_Nil [simp]: "count_bytes n \<noteq> []"
  by (simp add: count_bytes_def ElementCountToBitv_def NoZero_eq RevPutBitv_def)

lemma count_value:
  assumes "wf q" "content q = count_bytes n @ rest" "n < 2 ^ 64"
  shows "\<exists>q'. BitvToContainerElementCount q = Inr (of_nat n, q') \<and> wf q' \<and> content q' = rest"
proof (cases "n = 0")
  case True
  then have c: "content q = BitvV_ContainerEmpty # rest"
    using assms(2) by (simp add: count_bytes_def ElementCountToBitv_def RevPutBitv_def)
  have ne: "BitvT_Null \<noteq> BitvT_Container" "BitvT_Null \<noteq> BitvT_IntegerNeg" by (simp_all add: bitv_consts)
  show ?thesis
    using IntAux_const [OF assms(1) c, of BitvT_Container True BitvV_ContainerEmpty BitvV_ContainerEmpty "0 :: u64"]
      pop1 [OF assms(1) c] ne True
    by (simp add: BitvToContainerElementCount_def Number0_mask)
next
  case False
  then have c: "content q = snd (IntToBitv_NoZero [] (of_nat n :: u64) BitvT_Container) @ rest"
    using assms(2) by (simp add: count_bytes_def ElementCountToBitv_def)
  have ne: "BitvT_Container \<noteq> BitvT_IntegerNeg" by (simp add: bitv_consts)
  show ?thesis
    using IntAux_value [OF _ assms(1) c, of "0 :: u64" BitvT_Container True BitvV_ContainerEmpty BitvV_ContainerEmpty]
      packed_fits [of "of_nat n :: u64" 0] ne
    by (simp add: BitvToContainerElementCount_def)
qed

lemma count_part:
  assumes "wf q" "strict_prefix (content q) (count_bytes n)" "n < 2 ^ 64"
  shows "BitvToContainerElementCount q = Inl BitvNeedsMore"
proof (cases "n = 0")
  case True
  then have "content q = []"
    using assms(2) one_byte [of "content q" BitvV_ContainerEmpty]
    by (simp add: count_bytes_def ElementCountToBitv_def RevPutBitv_def)
  then show ?thesis
    by (simp add: BitvToContainerElementCount_def BitvToIntAux_def need1_Nil [OF assms(1)])
next
  case False
  then show ?thesis
    using IntAux_part [OF _ assms(1), of "of_nat n :: u64" BitvT_Container "0 :: u64" BitvT_Container True]
      packed_fits [of "of_nat n :: u64" 0] assms(2)
    by (simp add: BitvToContainerElementCount_def count_bytes_def ElementCountToBitv_def)
qed

context bitv_codec begin

lemma container_put: "list_all good vs \<Longrightarrow>
    ToBitv_container put rbuf vs = count_bytes (length vs) @ concat (map (put []) vs) @ rbuf"
  by (simp add: ToBitv_container_def ElementCount_front put_elements)

lemma container_roundtrip:
  assumes "list_all good vs" "length vs < 2 ^ 64" "wf q" "content q = ToBitv_container put [] vs @ rest"
  shows "\<exists>q'. BitvTo_container get q = Inr (vs, q') \<and> wf q' \<and> content q' = rest"
proof -
  obtain q1 where q1: "BitvToContainerElementCount q = Inr (of_nat (length vs), q1)" "wf q1"
    "content q1 = concat (map (put []) vs) @ rest"
    using count_value [OF assms(3) _ assms(2)] assms(1,4) container_put by auto
  have "unat (of_nat (length vs) :: u64) = length vs" using assms(2) by (simp add: unat_small)
  then show ?thesis
    using array_roundtrip [OF assms(1) q1(2,3)] q1(1) by (simp add: BitvTo_container_def)
qed

lemma container_part:
  assumes "list_all good vs" "length vs < 2 ^ 64" "wf q" "strict_prefix (content q) (ToBitv_container put [] vs)"
  shows "BitvTo_container get q = Inl BitvNeedsMore"
proof -
  let ?es = "concat (map (put []) vs)"
  have enc: "ToBitv_container put [] vs = count_bytes (length vs) @ ?es"
    using container_put [OF assms(1), of "[]"] by simp
  have "strict_prefix (content q) (count_bytes (length vs)) \<or>
      (\<exists>zs. content q = count_bytes (length vs) @ zs \<and> strict_prefix zs ?es)"
    using assms(4) unfolding enc by (auto simp: strict_prefix_def prefix_append)
  then show ?thesis
  proof
    assume "strict_prefix (content q) (count_bytes (length vs))"
    then show ?thesis using count_part [OF assms(3) _ assms(2)] by (simp add: BitvTo_container_def)
  next
    assume "\<exists>zs. content q = count_bytes (length vs) @ zs \<and> strict_prefix zs ?es"
    then obtain zs q1 where "strict_prefix zs ?es" "wf q1" "content q1 = zs"
      "BitvToContainerElementCount q = Inr (of_nat (length vs), q1)"
      using count_value [OF assms(3) _ assms(2)] by blast
    moreover have "unat (of_nat (length vs) :: u64) = length vs" using assms(2) by (simp add: unat_small)
    ultimately show ?thesis using array_part [OF assms(1)] by (simp add: BitvTo_container_def)
  qed
qed

end

text \<open>A map from byte strings to integers.\<close>

interpretation kv: bitv_pair put_bytes BitvToStr "\<lambda>bs. length bs \<le> kBitvMaxByteArraySize"
  put_s "\<lambda>q. BitvToInt_s q nv" "\<lambda>v::'a::len word. byte_type TYPE('a)" for nv
  by unfold_locales

definition put_kvs :: "(byte list \<times> 'a::len word) list \<Rightarrow> byte list" where
  "put_kvs kvs = ToBitv_container (ToBitv_pair put_bytes put_s) [] kvs"

definition get_kvs :: "'a::len word \<Rightarrow> dc_queue \<Rightarrow> bitv_error + (byte list \<times> 'a word) list \<times> dc_queue" where
  "get_kvs nv q = BitvTo_container (BitvTo_pair BitvToStr (\<lambda>q. BitvToInt_s q nv)) q"

definition short_keys :: "(byte list \<times> 'a::len word) list \<Rightarrow> bool" where
  "short_keys kvs = (list_all (\<lambda>kv. length (fst kv) \<le> kBitvMaxByteArraySize) kvs \<and> length kvs < 2 ^ 64)"

lemma short_keys_good:
  "byte_type TYPE('a) \<Longrightarrow> short_keys kvs \<Longrightarrow>
   list_all (\<lambda>kv. length (fst kv) \<le> kBitvMaxByteArraySize \<and> byte_type TYPE('a)) (kvs :: (byte list \<times> 'a::len word) list)"
  by (simp add: short_keys_def)

subsection \<open>Properties\<close>

text \<open>
  C31: A container of byte strings with signed integers, encoded in front of anything and lying
  in any nodes, is decoded to the same container and leaves the bytes behind it.
\<close>

theorem bitv_container_roundtrip:
  fixes kvs :: "(byte list \<times> 'a::len word) list"
  assumes "byte_type TYPE('a)" "short_keys kvs" "wf q" "content q = put_kvs kvs @ rest"
  shows "\<exists>q'. get_kvs nv q = Inr (kvs, q') \<and> wf q' \<and> content q' = rest"
  unfolding get_kvs_def
  by (rule kv.container_roundtrip [OF short_keys_good [OF assms(1,2)] _ assms(3)])
    (use assms(2,4) in \<open>simp_all add: short_keys_def put_kvs_def\<close>)

definition two_keys :: "(byte list \<times> u32) list" where
  "two_keys = [([65, 66], - 5), ([], 300)]"

lemma two_keys_short: "short_keys two_keys"
  by (simp add: short_keys_def two_keys_def kBitvMaxByteArraySize_def)

lemma bitv_container_roundtrip_witness:
  "\<exists>q'. get_kvs 0 (push_back_list [DataNode (take 3 (put_kvs two_keys @ [7])), DataNode (drop 3 (put_kvs two_keys @ [7]))] dcq_empty)
     = Inr (two_keys, q') \<and> wf q' \<and> content q' = [7]"
  by (rule bitv_container_roundtrip [OF _ two_keys_short])
    (simp_all only: byte_type_simps push_back_list_wf push_back_list_content wf_dcq_empty list.map concat.simps
      GetData.simps append_Nil append_Nil2 append_take_drop_id)

text \<open>
  C32: Every proper beginning of such an encoding makes the decoder ask for more, so that a
  message that has not arrived whole is never taken for another one.
\<close>

theorem bitv_beginning_needs_more:
  fixes kvs :: "(byte list \<times> 'a::len word) list" and nv :: "'a word"
  assumes "byte_type TYPE('a)" "short_keys kvs" "wf q" "strict_prefix (content q) (put_kvs kvs)"
  shows "get_kvs nv q = Inl BitvNeedsMore"
  unfolding get_kvs_def
  by (rule kv.container_part [OF short_keys_good [OF assms(1,2)] _ assms(3)])
    (use assms(2,4) in \<open>simp_all add: short_keys_def put_kvs_def\<close>)

lemma bitv_beginning_needs_more_witness: "get_kvs 0 dcq_empty = (Inl BitvNeedsMore :: bitv_error + (byte list \<times> u32) list \<times> dc_queue)"
proof (rule bitv_beginning_needs_more [OF _ two_keys_short])
  show "strict_prefix (content dcq_empty) (put_kvs two_keys)"
    using count_bytes_not_Nil
    by (simp add: put_kvs_def ToBitv_container_def ElementCount_front strict_prefix_def)
qed simp_all

text \<open>
  Byte arrays: an array of up to 2^32 - 6 bytes is read back into any array at least as
  long, which is filled up with zeros; the head takes one byte up to 128 bytes of data and
  at most five above.
\<close>

lemma size_head_length:
  "1 \<le> n \<Longrightarrow> n \<le> kBitvMaxByteArraySize \<Longrightarrow> length (size_head n) \<le> (if n \<le> 128 then 1 else 5)"
  by (rule size_head_cases [of n]) (auto simp: long_head_def)

theorem byte_array_roundtrip:
  assumes "wf q" "length bs \<le> kBitvMaxByteArraySize" "length bs \<le> n" "content q = put_bytes [] bs @ rest"
  shows "\<exists>q'. BitvToByteArray q n = Inr ((length bs, bs @ replicate (n - length bs) 0), q')
    \<and> wf q' \<and> content q' = rest
    \<and> length (put_bytes [] bs) \<le> length bs + (if length bs \<le> 128 then 1 else 5)"
proof -
  have "length (put_bytes [] bs) \<le> length bs + (if length bs \<le> 128 then 1 else 5)"
    using size_head_length [of "length bs"] assms(2) by (auto simp: put_bytes_eq Suc_le_eq)
  then show ?thesis using ByteArray_bytes [OF assms(1,4,2,3)] by blast
qed

lemma byte_array_roundtrip_witness:
  "\<exists>q'. BitvToByteArray (push_back_list [DataNode (put_bytes [] [1, 2, 3])] dcq_empty) 5
     = Inr ((3, [1, 2, 3, 0, 0]), q') \<and> wf q' \<and> content q' = []"
proof -
  have "length [1::byte, 2, 3] \<le> kBitvMaxByteArraySize" by (simp add: kBitvMaxByteArraySize_def)
  then show ?thesis
    using byte_array_roundtrip [of "push_back_list [DataNode (put_bytes [] [1, 2, 3])] dcq_empty" "[1, 2, 3]" 5 "[]"]
    by (auto simp: numeral_eq_Suc)
qed

text \<open>Reading a decoded number into the type it was written from.\<close>

lemma trunc_div_exact: "0 < (d::int) \<Longrightarrow> 0 \<le> a \<Longrightarrow> trunc_div (a * d) d = a"
  by (rule trunc_div_mult) simp

lemma AdjustDecScale_unsigned_exact:
  assumes "0 \<le> src" "src * 10 ^ (n - k) < 2 ^ 64" "k \<le> n" "n - k \<le> 18"
  shows "AdjustDecScale (UInt 64) (UInt 64) ex src k n = Inr (src * 10 ^ (n - k))"
proof -
  have p: "1 \<le> (10::int) ^ (n - k)" by simp
  have "src * 1 \<le> src * 10 ^ (n - k)" using assms(1) p by (intro mult_left_mono) auto
  then have src: "src < 2 ^ 64" using assms(2) by simp
  have ten: "(10::int) ^ (n - k) \<le> 10 ^ 18" using assms(4) by (intro power_increasing) auto
  show ?thesis
  proof (cases "n = k")
    case True
    then show ?thesis
      using assms(1) src
      by (cases ex) (simp_all add: AdjustDecScale_def less_cc_def usual_def cast.simps num_min.simps num_max.simps)
  next
    case False
    have "mul_result (UInt 64) (UInt 64) src (10 ^ (n - k)) = src * 10 ^ (n - k)"
      using assms(1,2) src p by (simp add: mul_result_def cast.simps)
    moreover have "mul_exact (UInt 64) (UInt 64) src (10 ^ (n - k))"
      using assms(1,2) src p ten calculation
      by (simp add: mul_exact_def div_cc_def usual_def cast.simps trunc_div_mult)
    ultimately show ?thesis
      using False assms(3,4) by (cases ex) (simp_all add: AdjustDecScale_def GetDecDivisor_eq)
  qed
qed

lemma null_number:
  assumes "wf q" "content q = BitvV_NumberNull # rest"
  shows "\<exists>q'. BitvToNumber q = Inr (\<lparr> NumType = BitvNumT_Null, Scale = 0, Num = 0 \<rparr>, q') \<and> wf q' \<and> content q' = rest"
proof -
  have m: "BitvV_NumberNull AND BitvT_Mask = BitvT_Null" by (simp add: bitv_consts)
  have ne: "BitvT_Null \<noteq> BitvT_IntegerPos" "BitvT_Null \<noteq> BitvT_IntegerNeg" "BitvT_Null \<noteq> BitvT_Decimal"
    "BitvV_NumberNull \<noteq> BitvV_Number0"
    by (simp_all add: bitv_consts)
  show ?thesis
    unfolding BitvToNumber_def need1_Cons [OF assms] Let_def m using pop1 [OF assms] ne by simp
qed

text \<open>
  C33: A decimal of a signed type is read back, whatever the policy of the reader; zeros at the
  end of the decimals that the writer took away come back, and null is null.
\<close>

theorem decimal_bitv_roundtrip:
  assumes "signed_type (IntTypeT t)" "ScaleN t \<le> 18" "fits (IntTypeT t) v"
    and "wf q" "content q = snd (ToBitv_dec [] t v) @ rest"
  shows "\<exists>q'. BitvToDec ex t q = Inr (v, q') \<and> wf q' \<and> content q' = rest"
proof -
  obtain w where w: "IntTypeT t = SInt w" "0 < w" "w \<le> 64" using assms(1) by (rule signed_typeE)
  have c: "cast (IntTypeT t) v = v" using assms(3) w by simp
  have v64: "fits (SInt 64) v" using assms(3) w fits_mono by simp
  show ?thesis
  proof (cases "v = OrigNull t")
    case True
    then show ?thesis
      using null_number [OF assms(4), of rest] assms(5)
      by (auto simp: ToBitv_dec_def RevPutBitv_def BitvToDec_def)
  next
    case False
    have nmin: "v \<noteq> num_min (SInt 64)"
    proof
      assume "v = num_min (SInt 64)"
      moreover have "(2::int) ^ (w - 1) \<le> 2 ^ 63" using w by (intro power_increasing) auto
      ultimately show False using assms(3) w False by (auto simp: OrigNull_def fits_simps num_min.simps)
    qed
    have sv: "sint (word_of_int v :: u64) = v"
      using v64 by (intro sint_word_of_int) (simp_all add: fits_simps)
    obtain num q' where dec: "BitvToNumber q = Inr (num, q')" "denotes num v (ScaleN t)" "wf q'" "content q' = rest"
      using DecToBitv_s_number [of "ScaleN t" q "word_of_int v" rest] assms(2,4,5) False w
      by (auto simp: ToBitv_dec_def sv)
    let ?k = "ScaleN t - Scale num"
    have val: "num_int num * 10 ^ ?k = v" "Scale num \<le> ScaleN t" using dec(2) by (simp_all add: denotes_def)
    have bnd: "\<bar>num_int num\<bar> \<le> \<bar>v\<bar>"
      using val(1) mult_left_mono [of 1 "10 ^ ?k" "\<bar>num_int num\<bar>"] by (auto simp: abs_mult)
    consider "v < 0" | "v = 0" | "0 < v" by linarith
    then show ?thesis
    proof cases
      case 1
      have "fits (SInt 64) (num_int num)" "num_int num \<noteq> num_min (SInt 64)"
        using bnd v64 nmin 1 by (auto simp: fits_simps num_min.simps abs_le_iff)
      then have "Assign t (SInt 64) ex (num_int num) (Scale num) = Inr v"
        using AdjustDecScale_signed [of "SInt 64" "SInt 64" "num_int num" ex "Scale num" "ScaleN t"] val assms(2) v64 c
        by (cases ex) (auto simp: Assign_def signed_type_def rescale_def)
      then show ?thesis
        using dec 1 w by (auto simp: BitvToDec_def denotes_def num_int_def is_unsigned_type_def)
    next
      case 2
      then show ?thesis using dec by (auto simp: BitvToDec_def denotes_def)
    next
      case 3
      then have "0 \<le> num_int num" using val(1) by (metis less_le_not_le mult_nonpos_nonneg nle_le zero_le_numeral zero_le_power)
      then have "Assign t (UInt 64) ex (num_int num) (Scale num) = Inr v"
        using AdjustDecScale_unsigned_exact [of "num_int num" "ScaleN t" "Scale num" ex] val assms(2) v64 c
        by (auto simp: Assign_def fits_simps)
      then show ?thesis
        using dec 3 w by (auto simp: BitvToDec_def denotes_def num_int_def)
    qed
  qed
qed

lemma decimal_bitv_roundtrip_witness:
  "\<exists>q'. BitvToDec ExThrow \<lparr> IntTypeT = SInt 64, ScaleN = 6 \<rparr>
      (push_back_list [DataNode (snd (ToBitv_dec [] \<lparr> IntTypeT = SInt 64, ScaleN = 6 \<rparr> (- 98765000)))] dcq_empty)
     = Inr (- 98765000, q') \<and> wf q' \<and> content q' = []"
  by (rule decimal_bitv_roundtrip) (simp_all add: signed_type_def fits_simps)


text \<open>
  A negative number of a fixed scale comes back positive: \<open>ToBitvFixedScale\<close> puts the number
  itself where the decoder expects its complement.
\<close>

theorem fixed_scale_loses_the_sign:
  assumes "v < 0" "- (2 ^ 63) \<le> v" "\<not> IsNull t v" "ScaleN t < 32" "wf q"
    and "content q = snd (ToBitvFixedScale [] t v) @ rest"
  shows "\<exists>num q'. BitvToNumber q = Inr (num, q') \<and> Scale num = ScaleN t \<and> num_int num = - v - 1"
proof -
  have "content q = snd (DecToBitv_raw [] (word_of_int v) (ScaleN t) True) @ rest"
    using assms by (simp add: ToBitvFixedScale_def IsZero_def)
  then obtain q' where "BitvToNumber q = Inr (\<lparr> NumType = BitvNumT_Neg, Scale = ScaleN t, Num = NOT (word_of_int v) \<rparr>, q')"
    using raw_number [OF assms(4,5), of "word_of_int v" True rest] by auto
  moreover have "NOT (word_of_int v :: u64) = word_of_int (- v - 1)"
    by (simp add: not_eq_complement)
  moreover have "sint (word_of_int (- v - 1) :: u64) = - v - 1"
    using assms(1,2) by (intro sint_word_of_int) auto
  ultimately show ?thesis by (auto simp: num_int_def)
qed

lemma fixed_scale_loses_the_sign_witness:
  "\<exists>num q'. BitvToNumber (push_back_list [DataNode (snd (ToBitvFixedScale [] \<lparr> IntTypeT = SInt 64, ScaleN = 2 \<rparr> (- 150)))] dcq_empty)
     = Inr (num, q') \<and> Scale num = 2 \<and> num_int num = 149"
  using fixed_scale_loses_the_sign [of "- 150" "\<lparr> IntTypeT = SInt 64, ScaleN = 2 \<rparr>"
      "push_back_list [DataNode (snd (ToBitvFixedScale [] \<lparr> IntTypeT = SInt 64, ScaleN = 2 \<rparr> (- 150)))] dcq_empty" "[]"]
  by (simp add: IsNull_def OrigNull_def num_min.simps)

text \<open>
  Reading into a narrower signed type: a positive number that takes no more bytes than the
  type has is accepted although it does not fit, and comes out negative.
\<close>

theorem narrow_read_turns_negative:
  fixes v :: "'a::len word" and nv :: "'b::len word"
  assumes "byte_type TYPE('a)" "LENGTH('b) = 8 * n" "0 < sint v" "unat v < 2 ^ LENGTH('b)" "2 ^ (LENGTH('b) - 1) \<le> unat v"
    and "wf q" "content q = put_s [] v @ rest"
  shows "\<exists>w q'. BitvToInt_s q nv = Inr (w, q') \<and> sint w = int (unat v) - 2 ^ LENGTH('b)"
proof -
  have v0: "v \<noteq> 0" using assms(3) by auto
  have "unat v < 256 ^ n" using assms(2,4) by (simp add: power_mult)
  then have len: "length (PackBigEndianRev v []) \<le> size_of nv"
    using PackLittleEndian_length [of v n] word_size_pos [OF assms(2)] size_of_eq [OF assms(2), of nv]
    by (simp add: PackBigEndianRev_eq)
  have ne: "BitvT_IntegerPos \<noteq> BitvT_IntegerNeg" by (simp add: bitv_consts)
  have "\<exists>q'. BitvToInt_s q nv = Inr (ucast v, q')"
    using IntAux_value [OF assms(1,6), of v BitvT_IntegerPos rest nv BitvT_IntegerPos False BitvV_Number0 BitvV_NumberNull]
      assms(3,7) len ne
    by (auto simp: put_s_eq [OF v0] BitvToInt_s_def)
  moreover have "sint (ucast v :: 'b word) = int (unat v) - 2 ^ LENGTH('b)"
  proof -
    let ?x = "int (unat v) - 2 ^ LENGTH('b)"
    have "(word_of_int ?x :: 'b word) = word_of_int (int (unat v))"
      by (metis diff_zero word_of_int_2p_len wi_hom_sub)
    also have "\<dots> = ucast v" by (rule bit_word_eqI) (auto simp: bit_simps)
    finally have w: "(ucast v :: 'b word) = word_of_int ?x" by simp
    have "int (unat v) < 2 ^ LENGTH('b)" "2 ^ (LENGTH('b) - 1) \<le> int (unat v)"
      using assms(4,5)[folded of_nat_less_iff [where 'a = int] of_nat_le_iff [where 'a = int]]
      by (simp_all only: of_nat_power of_nat_numeral)
    moreover have "(2::int) ^ LENGTH('b) = 2 * 2 ^ (LENGTH('b) - 1)"
      using len_gt_0 [where 'a = 'b] by (metis Suc_diff_1 power_Suc)
    ultimately have "- (2 ^ (LENGTH('b) - 1)) \<le> ?x" "?x < 2 ^ (LENGTH('b) - 1)" by linarith+
    then have "signed_take_bit (LENGTH('b) - 1) ?x = ?x" by (rule signed_take_bit_int_eq_self)
    then show ?thesis by (simp only: w sint_sbintrunc')
  qed
  ultimately show ?thesis by auto
qed

lemma narrow_read_turns_negative_witness:
  "\<exists>w q'. BitvToInt_s (push_back_list [DataNode (put_s [] (200 :: 16 word))] dcq_empty) (0 :: 8 word) = Inr (w, q')
     \<and> sint w = - 56"
  using narrow_read_turns_negative [of 1 "200 :: 16 word" "push_back_list [DataNode (put_s [] (200 :: 16 word))] dcq_empty"
      "[]" "0 :: 8 word"]
  by simp

end
