(* ===== verification/TrieMap.thy ===== *)
theory TrieMap
  imports NumText "HOL-Library.List_Lexorder"
begin

text \<open>
  \<open>fon9/Trie.hpp\<close>: a map over byte strings as a tree of levels. A level is an array with a slot
  for each index of a key byte; it keeps the number of values in it and below, and the first and
  the last index in use. The back pointers \<open>OwnerAry_\<close> and \<open>OwnerNode_\<close> are not stored: a
  \<open>Node*\<close> is the list of the indices that lead to it from \<open>Head_\<close>, its owner the list without
  the last one, and \<open>nullptr\<close> is \<open>None\<close>. Where the code relies on an assertion (\<open>First\<close> of a
  node that holds nothing) the result is \<open>None\<close> as well; the invariant rules it out. An index
  behind the array, which only the \<open>NoBound\<close> key types produce, has no slot.
\<close>

subsection \<open>Key types\<close>

record key_trans =
  MaxIndex :: nat
  ToIndex :: "byte \<Rightarrow> nat"
  ToKey :: "nat \<Rightarrow> byte"

definition kSeq2AlphaSize :: nat where
  "kSeq2AlphaSize = 62"

definition TrieKeyChar :: key_trans where
  "TrieKeyChar = \<lparr> MaxIndex = 0xff, ToIndex = unat, ToKey = of_nat \<rparr>"

definition TrieKeyChPr :: key_trans where
  "TrieKeyChPr = \<lparr> MaxIndex = 0x7f - 0x20,
     ToIndex = (\<lambda>val. let i = unat (val - 0x20) in if i > 0x7f - 0x20 then 0x7f - 0x20 else i),
     ToKey = (\<lambda>idx. of_nat (idx + 0x20)) \<rparr>"

definition TrieKeyAlNumNoBound :: key_trans where
  "TrieKeyAlNumNoBound = \<lparr> MaxIndex = kSeq2AlphaSize - 1,
     ToIndex = (\<lambda>val. unat (word_of_int (Alpha2Seq val) :: byte)), ToKey = Seq2Alpha \<rparr>"

definition TrieKeyAlNum :: key_trans where
  "TrieKeyAlNum = \<lparr> MaxIndex = kSeq2AlphaSize,
     ToIndex = (\<lambda>val. let i = unat (word_of_int (Alpha2Seq val) :: byte)
                      in if i > kSeq2AlphaSize then kSeq2AlphaSize else i),
     ToKey = (\<lambda>idx. if idx \<ge> kSeq2AlphaSize then 0x3f else Seq2Alpha idx) \<rparr>"

definition TrieKeyNumNoBound :: key_trans where
  "TrieKeyNumNoBound = \<lparr> MaxIndex = 9, ToIndex = (\<lambda>val. unat (val - 0x30)), ToKey = (\<lambda>idx. of_nat (idx + 0x30)) \<rparr>"

definition TrieKeyNum :: key_trans where
  "TrieKeyNum = \<lparr> MaxIndex = 10,
     ToIndex = (\<lambda>val. let i = unat (val - 0x30) in if i > 10 then 10 else i),
     ToKey = (\<lambda>idx. if idx \<ge> 10 then 0x3f else of_nat (idx + 0x30)) \<rparr>"

subsection \<open>Nodes and levels\<close>

datatype 'v trie_node = Node (NodeValue: "'v option") (NextLevel: "'v lv_ary option")
  and 'v lv_ary = LvAry (Ary: "'v trie_node option list") (LvCount: nat) (IndexMin: nat) (IndexMax: nat)

definition slot :: "'v trie_node option list \<Rightarrow> nat \<Rightarrow> 'v trie_node option" where
  "slot ary i = (if i < length ary then ary ! i else None)"

definition child :: "'v trie_node \<Rightarrow> nat \<Rightarrow> 'v trie_node option" where
  "child n i = (case NextLevel n of None \<Rightarrow> None | Some lv \<Rightarrow> slot (Ary lv) i)"

lemma slot_size: "slot ary i = Some c \<Longrightarrow> size c < size_list (size_option size) ary"
proof -
  assume a: "slot ary i = Some c"
  then have "Some c \<in> set ary" by (auto simp: slot_def split: if_splits) (metis nth_mem)
  then have "size_option size (Some c) \<le> size_list (size_option size) ary" by (rule size_list_estimation') simp
  then show ?thesis by simp
qed

lemma child_size [termination_simp]: "child n i = Some c \<Longrightarrow> size c < size n"
proof (cases n)
  case (Node v nl)
  assume a: "child n i = Some c"
  then obtain lv where "nl = Some lv" "slot (Ary lv) i = Some c"
    using Node by (auto simp: child_def split: option.splits)
  then show ?thesis using slot_size [of "Ary lv" i c] Node by (cases lv) simp
qed

text \<open>The node a path leads to.\<close>

fun get_at :: "'v trie_node \<Rightarrow> nat list \<Rightarrow> 'v trie_node option" where
  "get_at n [] = Some n"
| "get_at n (i # p) = (case child n i of None \<Rightarrow> None | Some c \<Rightarrow> get_at c p)"

definition level_at :: "'v trie_node \<Rightarrow> nat list \<Rightarrow> 'v lv_ary option" where
  "level_at h p = (case get_at h p of None \<Rightarrow> None | Some n \<Rightarrow> NextLevel n)"

definition value_at :: "'v trie_node \<Rightarrow> nat list \<Rightarrow> 'v option" where
  "value_at h p = (case get_at h p of None \<Rightarrow> None | Some n \<Rightarrow> NodeValue n)"

subsection \<open>Moving from node to node\<close>

function First :: "'v trie_node \<Rightarrow> nat list option" where
  "First n = (if NodeValue n \<noteq> None then Some []
     else case NextLevel n of None \<Rightarrow> None
       | Some lv \<Rightarrow> (case child n (IndexMin lv) of None \<Rightarrow> None
           | Some c \<Rightarrow> map_option (Cons (IndexMin lv)) (First c)))"
  by auto
termination by (relation "measure size") (auto simp: child_size)

function Last :: "'v trie_node \<Rightarrow> nat list option" where
  "Last n = (case NextLevel n of
       None \<Rightarrow> if NodeValue n \<noteq> None then Some [] else None
     | Some lv \<Rightarrow> (case child n (IndexMax lv) of None \<Rightarrow> None
         | Some c \<Rightarrow> map_option (Cons (IndexMax lv)) (Last c)))"
  by auto
termination by (relation "measure size") (auto simp: child_size)

declare First.simps [simp del] Last.simps [simp del]

definition first_at :: "'v trie_node \<Rightarrow> nat list \<Rightarrow> nat list option" where
  "first_at h p = (case get_at h p of None \<Rightarrow> None | Some n \<Rightarrow> map_option ((@) p) (First n))"

definition last_at :: "'v trie_node \<Rightarrow> nat list \<Rightarrow> nat list option" where
  "last_at h p = (case get_at h p of None \<Rightarrow> None | Some n \<Rightarrow> map_option ((@) p) (Last n))"

function next_index :: "'v trie_node option list \<Rightarrow> nat \<Rightarrow> nat \<Rightarrow> nat option" where
  "next_index ary hi idx =
     (if idx < hi then (if slot ary (idx + 1) \<noteq> None then Some (idx + 1) else next_index ary hi (idx + 1)) else None)"
  by auto
termination by (relation "measure (\<lambda>(ary, hi, idx). hi - idx)") auto

fun prev_index :: "'v trie_node option list \<Rightarrow> nat \<Rightarrow> nat \<Rightarrow> nat option" where
  "prev_index ary lo idx =
     (if idx > lo then (if slot ary (idx - 1) \<noteq> None then Some (idx - 1) else prev_index ary lo (idx - 1)) else None)"

declare next_index.simps [simp del] prev_index.simps [simp del]

text \<open>\<open>LvAry::Next(idx)\<close> and \<open>LvAry::Prev\<close> of the level below the node \<open>pp\<close>, with the way up.\<close>

function LvNext :: "'v trie_node \<Rightarrow> nat list \<Rightarrow> nat \<Rightarrow> nat list option" where
  "LvNext h pp idx = (case level_at h pp of None \<Rightarrow> None
     | Some lv \<Rightarrow> (case next_index (Ary lv) (IndexMax lv) idx of
           Some j \<Rightarrow> first_at h (pp @ [j])
         | None \<Rightarrow> if pp = [] then None else LvNext h (butlast pp) (last pp)))"
  by auto
termination by (relation "measure (\<lambda>(h, pp, idx). length pp)") auto

function LvPrev :: "'v trie_node \<Rightarrow> nat list \<Rightarrow> nat \<Rightarrow> nat list option" where
  "LvPrev h pp idx = (case level_at h pp of None \<Rightarrow> None
     | Some lv \<Rightarrow> (case prev_index (Ary lv) (IndexMin lv) idx of
           Some j \<Rightarrow> last_at h (pp @ [j])
         | None \<Rightarrow> if value_at h pp \<noteq> None then Some pp
             else if pp = [] then None else LvPrev h (butlast pp) (last pp)))"
  by auto
termination by (relation "measure (\<lambda>(h, pp, idx). length pp)") auto

declare LvNext.simps [simp del] LvPrev.simps [simp del]

definition OwnerNext :: "'v trie_node \<Rightarrow> nat list \<Rightarrow> nat list option" where
  "OwnerNext h p = (if p = [] then None else LvNext h (butlast p) (last p))"

definition NodeNext :: "'v trie_node \<Rightarrow> nat list \<Rightarrow> nat list option" where
  "NodeNext h p = (case level_at h p of
       Some lv \<Rightarrow> first_at h (p @ [IndexMin lv])
     | None \<Rightarrow> OwnerNext h p)"

definition NodePrev :: "'v trie_node \<Rightarrow> nat list \<Rightarrow> nat list option" where
  "NodePrev h p = (if p = [] then None else LvPrev h (butlast p) (last p))"

subsection \<open>Looking up\<close>

type_synonym 'v trie = "'v trie_node option"

fun find_from :: "key_trans \<Rightarrow> 'v trie_node \<Rightarrow> byte list \<Rightarrow> nat list \<Rightarrow> nat list option" where
  "find_from kt cur [] p = Some p"
| "find_from kt cur (k # key) p = (case child cur (ToIndex kt k) of
      Some c \<Rightarrow> find_from kt c key (p @ [ToIndex kt k])
    | None \<Rightarrow> None)"

definition find_node :: "key_trans \<Rightarrow> 'v trie \<Rightarrow> byte list \<Rightarrow> nat list option" where
  "find_node kt t key = (case t of None \<Rightarrow> None | Some h \<Rightarrow> find_from kt h key [])"

definition find_mapped :: "key_trans \<Rightarrow> 'v trie \<Rightarrow> byte list \<Rightarrow> 'v option" where
  "find_mapped kt t key = (case find_node kt t key of None \<Rightarrow> None | Some p \<Rightarrow> value_at (the t) p)"

definition trie_find :: "key_trans \<Rightarrow> 'v trie \<Rightarrow> byte list \<Rightarrow> nat list option" where
  "trie_find kt t key = (case find_node kt t key of None \<Rightarrow> None
     | Some p \<Rightarrow> if value_at (the t) p \<noteq> None then Some p else None)"

datatype search_fn = LowerBound | UpperBound

fun bound_from :: "key_trans \<Rightarrow> search_fn \<Rightarrow> 'v trie_node \<Rightarrow> 'v trie_node \<Rightarrow> nat list \<Rightarrow> byte list \<Rightarrow> nat list option" where
  "bound_from kt sfn h cur p [] =
     (if NodeValue cur \<noteq> None then (if sfn = UpperBound then NodeNext h p else Some p)
      else map_option ((@) p) (First cur))"
| "bound_from kt sfn h cur p (k # key) = (case NextLevel cur of
      Some lv \<Rightarrow> (let idx = ToIndex kt k in
        (case child cur idx of
           Some c \<Rightarrow> bound_from kt sfn h c (p @ [idx]) key
         | None \<Rightarrow> if idx < IndexMin lv then first_at h (p @ [IndexMin lv]) else LvNext h p idx))
    | None \<Rightarrow> map_option ((@) p) (First cur))"

definition SearchBound :: "key_trans \<Rightarrow> search_fn \<Rightarrow> 'v trie \<Rightarrow> byte list \<Rightarrow> nat list option" where
  "SearchBound kt sfn t key = (case t of None \<Rightarrow> None | Some h \<Rightarrow> bound_from kt sfn h h [] key)"

definition trie_begin :: "'v trie \<Rightarrow> nat list option" where
  "trie_begin t = (case t of None \<Rightarrow> None | Some h \<Rightarrow> First h)"

definition ToNext :: "'v trie \<Rightarrow> nat list \<Rightarrow> nat list option" where
  "ToNext t p = (case t of None \<Rightarrow> None | Some h \<Rightarrow> NodeNext h p)"

definition ToPrev :: "'v trie \<Rightarrow> nat list option \<Rightarrow> nat list option" where
  "ToPrev t i = (case t of None \<Rightarrow> None
     | Some h \<Rightarrow> (case i of Some p \<Rightarrow> NodePrev h p | None \<Rightarrow> Last h))"

definition key_of :: "key_trans \<Rightarrow> nat list \<Rightarrow> byte list" where
  "key_of kt p = map (ToKey kt) p"

definition trie_size :: "'v trie \<Rightarrow> nat" where
  "trie_size t = (case t of None \<Rightarrow> 0
     | Some h \<Rightarrow> (case NextLevel h of
           Some lv \<Rightarrow> LvCount lv + (if NodeValue h \<noteq> None then 1 else 0)
         | None \<Rightarrow> if NodeValue h \<noteq> None then 1 else 0))"

definition trie_empty :: "'v trie \<Rightarrow> bool" where
  "trie_empty t = (t = None)"

function tail_loop :: "key_trans \<Rightarrow> 'v trie_node \<Rightarrow> byte list \<Rightarrow> byte list" where
  "tail_loop kt cur out = (case NextLevel cur of None \<Rightarrow> out
     | Some lv \<Rightarrow> (case child cur (IndexMax lv) of None \<Rightarrow> out @ [ToKey kt (IndexMax lv)]
         | Some c \<Rightarrow> tail_loop kt c (out @ [ToKey kt (IndexMax lv)])))"
  by auto
termination by (relation "measure (\<lambda>(kt, cur, out). size cur)") (auto simp: child_size)

declare tail_loop.simps [simp del]

fun tail_from :: "key_trans \<Rightarrow> 'v trie_node \<Rightarrow> byte list \<Rightarrow> byte list \<Rightarrow> byte list" where
  "tail_from kt cur [] out = tail_loop kt cur out"
| "tail_from kt cur (k # key) out = (case child cur (ToIndex kt k) of
      Some c \<Rightarrow> tail_from kt c key (out @ [k]) | None \<Rightarrow> out)"

definition find_tail_keystr :: "key_trans \<Rightarrow> 'v trie \<Rightarrow> byte list \<Rightarrow> byte list" where
  "find_tail_keystr kt t key = (case t of None \<Rightarrow> [] | Some h \<Rightarrow> tail_from kt h key [])"

subsection \<open>Changing\<close>

text \<open>
  \<open>change_at\<close> changes the node at a path, and the numbers of the levels it passes on the way:
  these are the levels that \<open>IncCount\<close> and \<open>DecCount\<close> reach from the level of the node.
\<close>

fun change_at :: "(nat \<Rightarrow> nat) \<Rightarrow> ('v trie_node \<Rightarrow> 'v trie_node) \<Rightarrow> nat list \<Rightarrow> 'v trie_node \<Rightarrow> 'v trie_node" where
  "change_at g f [] n = f n"
| "change_at g f (i # p) n = (case NextLevel n of None \<Rightarrow> n
     | Some lv \<Rightarrow> Node (NodeValue n) (Some (LvAry ((Ary lv)[i := map_option (change_at g f p) (slot (Ary lv) i)])
         (g (LvCount lv)) (IndexMin lv) (IndexMax lv))))"

definition set_value :: "'v option \<Rightarrow> 'v trie_node \<Rightarrow> 'v trie_node" where
  "set_value v n = Node v (NextLevel n)"

text \<open>The way down of \<open>emplace\<close>, which creates what is missing.\<close>

definition new_level :: "key_trans \<Rightarrow> nat \<Rightarrow> 'v lv_ary" where
  "new_level kt idx = LvAry ((replicate (MaxIndex kt + 1) None)[idx := Some (Node None None)]) 0 idx idx"

definition reach_slot :: "key_trans \<Rightarrow> nat \<Rightarrow> 'v lv_ary option \<Rightarrow> 'v lv_ary" where
  "reach_slot kt idx nl = (case nl of None \<Rightarrow> new_level kt idx
     | Some lv \<Rightarrow> (let lo = (if idx < IndexMin lv then idx else IndexMin lv);
                      hi = (if \<not> idx < IndexMin lv \<and> IndexMax lv < idx then idx else IndexMax lv);
                      c = (case slot (Ary lv) idx of None \<Rightarrow> Node None None | Some c \<Rightarrow> c)
                  in LvAry ((Ary lv)[idx := Some c]) (LvCount lv) lo hi))"

fun make_path :: "key_trans \<Rightarrow> byte list \<Rightarrow> 'v trie_node \<Rightarrow> 'v trie_node" where
  "make_path kt [] n = n"
| "make_path kt (k # key) n =
     (let idx = ToIndex kt k; lv = reach_slot kt idx (NextLevel n)
      in Node (NodeValue n) (Some (LvAry ((Ary lv)[idx := map_option (make_path kt key) (slot (Ary lv) idx)])
           (LvCount lv) (IndexMin lv) (IndexMax lv))))"

definition emplace :: "key_trans \<Rightarrow> 'v trie \<Rightarrow> byte list \<Rightarrow> 'v \<Rightarrow> 'v trie \<times> nat list \<times> bool" where
  "emplace kt t key v =
     (let p = map (ToIndex kt) key;
          h = make_path kt key (case t of None \<Rightarrow> Node None None | Some h \<Rightarrow> h)
      in if value_at h p \<noteq> None then (Some h, p, False)
         else (Some (change_at Suc (set_value (Some v)) p h), p, True))"

text \<open>
  \<open>erase\<close>: a node that nothing hangs on goes with the levels that held nothing else. The two
  loops look for the next index in use.
\<close>

function up_from :: "'v trie_node option list \<Rightarrow> nat \<Rightarrow> nat \<Rightarrow> nat" where
  "up_from ary hi i = (if slot ary (i + 1) = None \<and> i + 1 < hi then up_from ary hi (i + 1) else i + 1)"
  by auto
termination by (relation "measure (\<lambda>(ary, hi, i). hi - i)") auto

fun down_from :: "'v trie_node option list \<Rightarrow> nat \<Rightarrow> nat \<Rightarrow> nat" where
  "down_from ary lo i = (if slot ary (i - 1) = None \<and> lo < i - 1 then down_from ary lo (i - 1) else i - 1)"

declare up_from.simps [simp del] down_from.simps [simp del]

definition drop_slot :: "nat \<Rightarrow> 'v trie_node \<Rightarrow> 'v trie_node" where
  "drop_slot idx n = (case NextLevel n of None \<Rightarrow> n
     | Some lv \<Rightarrow> (let ary = (Ary lv)[idx := None] in Node (NodeValue n) (Some (LvAry ary (LvCount lv - 1)
         (if idx = IndexMin lv then up_from ary (IndexMax lv) idx else IndexMin lv)
         (if idx \<noteq> IndexMin lv \<and> idx = IndexMax lv then down_from ary (IndexMin lv) idx else IndexMax lv)))))"

definition drop_level :: "'v trie_node \<Rightarrow> 'v trie_node" where
  "drop_level n = Node (NodeValue n) None"

definition Dec :: "nat \<Rightarrow> nat" where
  "Dec c = c - 1"

function erase_up :: "'v trie_node \<Rightarrow> nat list \<Rightarrow> 'v trie \<times> nat list option" where
  "erase_up h p =
     (if p = [] then (None, None)
      else let pp = butlast p; idx = last p in
       (case level_at h pp of None \<Rightarrow> (Some h, None)
        | Some lv \<Rightarrow>
           if IndexMin lv \<noteq> IndexMax lv
           then (let h' = change_at Dec (drop_slot idx) pp h
                 in (Some h',
                     if idx = IndexMin lv then
                       (case level_at h' pp of None \<Rightarrow> None | Some lv' \<Rightarrow> first_at h' (pp @ [IndexMin lv']))
                     else if idx = IndexMax lv then OwnerNext h' pp
                     else LvNext h' pp idx))
           else if value_at h pp \<noteq> None
           then (let h' = change_at Dec drop_level pp h in (Some h', OwnerNext h' pp))
           else erase_up h pp))"
  by auto
termination by (relation "measure (\<lambda>(h, p). length p)") auto

declare erase_up.simps [simp del]

definition trie_erase :: "'v trie \<Rightarrow> nat list \<Rightarrow> 'v trie \<times> nat list option" where
  "trie_erase t p = (case t of None \<Rightarrow> (None, None)
     | Some h \<Rightarrow> (case level_at h p of
           Some lv \<Rightarrow> (let h' = change_at Dec (set_value None) p h in (Some h', first_at h' (p @ [IndexMin lv])))
         | None \<Rightarrow> erase_up (change_at id (set_value None) p h) p))"

end
