(* ===== verification/TrieProps.thy ===== *)
theory TrieProps
  imports TrieMap
begin

text \<open>
  The invariant of the trie of \<open>TrieMap\<close>, the set of its keys, and what moving between nodes
  finds: \<open>least S r\<close> says that \<open>r\<close> is the first element of \<open>S\<close>, or \<open>None\<close> when it is empty.
  Paths are in lexicographic order, a beginning before what continues it.
\<close>

subsection \<open>Paths\<close>

text \<open>\<open>after p q\<close>: \<open>q\<close> is greater than \<open>p\<close> and all that continues \<open>p\<close>.\<close>

fun after_path :: "nat list \<Rightarrow> nat list \<Rightarrow> bool" where
  "after_path (i # p) (j # q) = (i < j \<or> i = j \<and> after_path p q)"
| "after_path p q = False"

lemma after_Nil [simp]: "\<not> after_path [] q" "\<not> after_path p []"
  by (cases q; simp) (cases p; simp)

lemma less_path_iff: "(p :: nat list) < q \<longleftrightarrow> after_path p q \<or> (\<exists>r. r \<noteq> [] \<and> q = p @ r)"
proof (induction p arbitrary: q)
  case Nil
  then show ?case by (cases q) auto
next
  case (Cons i p)
  then show ?case by (cases q) auto
qed

lemma after_less: "after_path p q \<Longrightarrow> p @ r < q"
  by (induction p q rule: after_path.induct) auto

lemma after_snoc: "after_path (p @ [i]) q \<longleftrightarrow> (\<exists>j r. i < j \<and> q = p @ j # r) \<or> after_path p q"
proof (induction p arbitrary: q)
  case Nil
  then show ?case by (cases q) auto
next
  case (Cons a p)
  then show ?case by (cases q) auto
qed

lemma after_append: "after_path (p @ r) q \<longleftrightarrow> after_path p q \<or> (\<exists>s. q = p @ s \<and> after_path r s)"
proof (induction p arbitrary: q)
  case (Cons a p)
  then show ?case by (cases q) auto
qed auto

lemma append_less: "p @ r < q \<longleftrightarrow> after_path p q \<or> (\<exists>x. q = p @ x \<and> r < (x :: nat list))"
proof (induction p arbitrary: q)
  case (Cons a p)
  then show ?case by (cases q) auto
qed simp

lemma less_snoc: "q < p @ [i] \<longleftrightarrow> (\<exists>j r. j < i \<and> q = p @ j # r) \<or> q = p \<or> q < (p :: nat list)"
proof (induction p arbitrary: q)
  case Nil
  then show ?case by (cases q) auto
next
  case (Cons a p)
  then show ?case by (cases q) auto
qed

lemma append_le_iff [simp]: "p @ a \<le> p @ b \<longleftrightarrow> a \<le> (b :: nat list)"
  by (induction p) auto

lemma append_less_iff [simp]: "p @ a < p @ b \<longleftrightarrow> a < (b :: nat list)"
  by (induction p) auto

subsection \<open>The first and the last of a set\<close>

definition least :: "'a::linorder set \<Rightarrow> 'a option \<Rightarrow> bool" where
  "least S r = (case r of None \<Rightarrow> S = {} | Some q \<Rightarrow> q \<in> S \<and> (\<forall>s\<in>S. q \<le> s))"

definition greatest :: "'a::linorder set \<Rightarrow> 'a option \<Rightarrow> bool" where
  "greatest S r = (case r of None \<Rightarrow> S = {} | Some q \<Rightarrow> q \<in> S \<and> (\<forall>s\<in>S. s \<le> q))"

lemma least_simps [simp]: "least S None = (S = {})" "least S (Some q) = (q \<in> S \<and> (\<forall>s\<in>S. q \<le> s))"
  by (simp_all add: least_def)

lemma greatest_simps [simp]: "greatest S None = (S = {})" "greatest S (Some q) = (q \<in> S \<and> (\<forall>s\<in>S. s \<le> q))"
  by (simp_all add: greatest_def)

lemma least_unique: "least S r \<Longrightarrow> least S r' \<Longrightarrow> r = r'"
  by (cases r; cases r') (auto intro: antisym)

lemma least_image:
  assumes "least S r" "\<And>a b. a \<in> S \<Longrightarrow> b \<in> S \<Longrightarrow> a \<le> b \<Longrightarrow> f a \<le> f b"
  shows "least (f ` S) (map_option f r)"
  using assms by (cases r) auto

lemma greatest_image:
  assumes "greatest S r" "\<And>a b. a \<in> S \<Longrightarrow> b \<in> S \<Longrightarrow> a \<le> b \<Longrightarrow> f a \<le> f b"
  shows "greatest (f ` S) (map_option f r)"
  using assms by (cases r) auto

lemma next_index_least: "least {j. idx < j \<and> j \<le> hi \<and> slot ary j \<noteq> None} (next_index ary hi idx)"
proof (induction ary hi idx rule: next_index.induct)
  case (1 ary hi idx)
  show ?case
  proof (cases "idx < hi \<and> slot ary (idx + 1) = None")
    case True
    have "idx < j \<and> slot ary j \<noteq> None \<longleftrightarrow> idx + 1 < j \<and> slot ary j \<noteq> None" for j
      using True by (cases "j = idx + 1") auto
    then have "{j. idx < j \<and> j \<le> hi \<and> slot ary j \<noteq> None} = {j. idx + 1 < j \<and> j \<le> hi \<and> slot ary j \<noteq> None}"
      by blast
    then show ?thesis using True 1 by (subst next_index.simps) simp
  next
    case False
    then show ?thesis by (subst next_index.simps) auto
  qed
qed

lemma prev_index_greatest: "greatest {j. lo \<le> j \<and> j < idx \<and> slot ary j \<noteq> None} (prev_index ary lo idx)"
proof (induction ary lo idx rule: prev_index.induct)
  case (1 ary lo idx)
  show ?case
  proof (cases "lo < idx \<and> slot ary (idx - 1) = None")
    case True
    have "j < idx \<and> slot ary j \<noteq> None \<longleftrightarrow> j < idx - 1 \<and> slot ary j \<noteq> None" for j
      using True by (cases "j = idx - 1") auto
    then have "{j. lo \<le> j \<and> j < idx \<and> slot ary j \<noteq> None} = {j. lo \<le> j \<and> j < idx - 1 \<and> slot ary j \<noteq> None}"
      by blast
    then show ?thesis using True 1 by (subst prev_index.simps) simp
  next
    case False
    then show ?thesis by (subst prev_index.simps) auto
  qed
qed

subsection \<open>The invariant\<close>

definition node_total :: "'v trie_node \<Rightarrow> nat" where
  "node_total n = (case NextLevel n of Some lv \<Rightarrow> LvCount lv | None \<Rightarrow> 0) + (if NodeValue n \<noteq> None then 1 else 0)"

definition slot_total :: "'v trie_node option \<Rightarrow> nat" where
  "slot_total x = (case x of None \<Rightarrow> 0 | Some c \<Rightarrow> node_total c)"

inductive wf_node :: "nat \<Rightarrow> 'v trie_node \<Rightarrow> bool" for M where
  leaf: "wf_node M (Node (Some v) None)"
| inner: "length ary = M \<Longrightarrow> slot ary lo \<noteq> None \<Longrightarrow> slot ary hi \<noteq> None \<Longrightarrow>
    (\<And>i c. slot ary i = Some c \<Longrightarrow> lo \<le> i \<and> i \<le> hi) \<Longrightarrow>
    (\<And>i c. slot ary i = Some c \<Longrightarrow> wf_node M c) \<Longrightarrow>
    cnt = (\<Sum>i<M. slot_total (slot ary i)) \<Longrightarrow> wf_node M (Node v (Some (LvAry ary cnt lo hi)))"

inductive_cases wf_nodeE: "wf_node M n"
inductive_simps wf_leaf: "wf_node M (Node v None)"
inductive_simps wf_inner: "wf_node M (Node v (Some (LvAry ary cnt lo hi)))"

definition wf_trie :: "key_trans \<Rightarrow> 'v trie \<Rightarrow> bool" where
  "wf_trie kt t = (case t of None \<Rightarrow> True | Some h \<Rightarrow> wf_node (MaxIndex kt + 1) h)"

definition keys :: "'v trie_node \<Rightarrow> nat list set" where
  "keys n = {p. value_at n p \<noteq> None}"

lemma get_at_append: "get_at h (p @ q) = Option.bind (get_at h p) (\<lambda>n. get_at n q)"
  by (induction h p rule: get_at.induct) (auto split: option.splits)

lemma value_at_simps [simp]: "value_at n [] = NodeValue n"
  "value_at n (i # p) = (case child n i of None \<Rightarrow> None | Some c \<Rightarrow> value_at c p)"
  by (auto simp: value_at_def split: option.splits)

lemma value_at_append: "get_at h p = Some n \<Longrightarrow> value_at h (p @ q) = value_at n q"
  by (simp add: value_at_def get_at_append)

lemma value_at_no_node: "get_at h p = None \<Longrightarrow> value_at h (p @ q) = None"
  by (simp add: value_at_def get_at_append)

lemma child_simps [simp]: "child (Node v None) i = None" "child (Node v (Some (LvAry ary cnt lo hi))) i = slot ary i"
  by (simp_all add: child_def)

lemma wf_child: "wf_node M n \<Longrightarrow> child n i = Some c \<Longrightarrow> wf_node M c"
  by (erule wf_nodeE) auto

lemma wf_get_at: "wf_node M n \<Longrightarrow> get_at n p = Some c \<Longrightarrow> wf_node M c"
  by (induction n p rule: get_at.induct) (auto split: option.splits dest: wf_child)

lemma keys_below: "get_at h p = Some n \<Longrightarrow> {q \<in> keys h. \<exists>r. q = p @ r} = (@) p ` keys n"
  by (auto simp: keys_def value_at_append)

lemma keys_leaf: "keys (Node v None) = (if v \<noteq> None then {[]} else {})"
proof -
  have "value_at (Node v None) p = (if p = [] then v else None)" for p by (cases p) simp_all
  then show ?thesis by (auto simp: keys_def)
qed

lemma keys_inner: "keys (Node v (Some (LvAry ary cnt lo hi))) =
  (if v \<noteq> None then {[]} else {}) \<union> (\<Union>i<length ary. case slot ary i of None \<Rightarrow> {} | Some c \<Rightarrow> Cons i ` keys c)"
  (is "?l = ?r")
proof (rule set_eqI)
  fix p
  show "p \<in> ?l \<longleftrightarrow> p \<in> ?r"
  proof (cases p)
    case (Cons i q)
    have "slot ary i \<noteq> None \<Longrightarrow> i < length ary" by (simp add: slot_def split: if_splits)
    then show ?thesis using Cons by (auto simp: keys_def split: option.splits)
  next
    case Nil
    have "[] \<notin> (case slot ary i of None \<Rightarrow> {} | Some c \<Rightarrow> Cons i ` keys c)" for i by (auto split: option.splits)
    then show ?thesis using Nil by (auto simp: keys_def)
  qed
qed

lemma keys_card: "wf_node M n \<Longrightarrow> finite (keys n) \<and> card (keys n) = node_total n \<and> keys n \<noteq> {}"
proof (induction rule: wf_node.induct)
  case (leaf v)
  then show ?case by (simp add: keys_leaf node_total_def)
next
  case (inner ary lo hi cnt v)
  let ?f = "\<lambda>i. case slot ary i of None \<Rightarrow> {} | Some c \<Rightarrow> Cons i ` keys c"
  have fin: "finite (?f i)" and card: "card (?f i) = slot_total (slot ary i)" for i
    using inner.IH [of i] by (auto simp: slot_total_def card_image split: option.split)
  have "card (\<Union>i<length ary. ?f i) = (\<Sum>i<length ary. card (?f i))"
    by (rule card_UN_disjoint) (auto simp: fin split: option.splits)
  then have sum: "card (\<Union>i<length ary. ?f i) = cnt" using card inner.hyps by simp
  have "[] \<notin> (\<Union>i<length ary. ?f i)" by (auto split: option.splits)
  then have "card (keys (Node v (Some (LvAry ary cnt lo hi)))) = node_total (Node v (Some (LvAry ary cnt lo hi)))"
    using sum fin unfolding keys_inner node_total_def by (cases v) (simp_all add: card_insert_if)
  moreover obtain c where c: "slot ary lo = Some c" using inner(2) by auto
  moreover have "lo < length ary" using c by (simp add: slot_def split: if_splits)
  moreover obtain q where "q \<in> keys c" using inner.IH [OF c] by blast
  ultimately have "lo # q \<in> keys (Node v (Some (LvAry ary cnt lo hi)))" by (simp add: keys_def)
  then show ?case
    using \<open>card _ = node_total _\<close> fin unfolding keys_inner by (auto simp: keys_inner)
qed

lemmas keys_finite = keys_card [THEN conjunct1]
lemmas keys_total = keys_card [THEN conjunct2, THEN conjunct1]
lemmas keys_ne = keys_card [THEN conjunct2, THEN conjunct2]

subsection \<open>Moving\<close>

lemma First_least: "wf_node M n \<Longrightarrow> least (keys n) (First n)"
proof (induction rule: wf_node.induct)
  case (leaf v)
  then show ?case by (subst First.simps) (simp add: keys_leaf)
next
  case (inner ary lo hi cnt v)
  obtain c where c: "slot ary lo = Some c" using inner(2) by auto
  have ne: "keys c \<noteq> {}" using keys_ne inner.hyps(5) [OF c] by blast
  then obtain q where q: "First c = Some q" "q \<in> keys c" "\<forall>s\<in>keys c. q \<le> s"
    using inner.IH [OF c] by (cases "First c") auto
  show ?case
  proof (cases v)
    case None
    have "lo # q \<in> keys (Node v (Some (LvAry ary cnt lo hi)))" using q(2) c by (simp add: keys_def)
    moreover have "lo # q \<le> s" if s: "s \<in> keys (Node v (Some (LvAry ary cnt lo hi)))" for s
    proof (cases s)
      case Nil
      then show ?thesis using s None by (simp add: keys_def)
    next
      case (Cons i r)
      then obtain c' where c': "slot ary i = Some c'" "r \<in> keys c'" using s by (auto simp: keys_def split: option.splits)
      then show ?thesis using inner(4) [OF c'(1)] q(3) c Cons by (cases "lo = i") auto
    qed
    ultimately show ?thesis using None c q(1) by (subst First.simps) simp
  next
    case (Some x)
    then show ?thesis by (subst First.simps) (simp add: keys_def)
  qed
qed

lemma Last_greatest: "wf_node M n \<Longrightarrow> greatest (keys n) (Last n)"
proof (induction rule: wf_node.induct)
  case (leaf v)
  then show ?case by (subst Last.simps) (simp add: keys_leaf)
next
  case (inner ary lo hi cnt v)
  obtain c where c: "slot ary hi = Some c" using inner(3) by auto
  have ne: "keys c \<noteq> {}" using keys_ne inner.hyps(5) [OF c] by blast
  then obtain q where q: "Last c = Some q" "q \<in> keys c" "\<forall>s\<in>keys c. s \<le> q"
    using inner.IH [OF c] by (cases "Last c") auto
  have "hi # q \<in> keys (Node v (Some (LvAry ary cnt lo hi)))" using q(2) c by (simp add: keys_def)
  moreover have "s \<le> hi # q" if s: "s \<in> keys (Node v (Some (LvAry ary cnt lo hi)))" for s
  proof (cases s)
    case (Cons i r)
    then obtain c' where c': "slot ary i = Some c'" "r \<in> keys c'" using s by (auto simp: keys_def split: option.splits)
    then show ?thesis using inner(4) [OF c'(1)] q(3) c Cons by (cases "hi = i") auto
  qed simp
  ultimately show ?case using c q(1) by (subst Last.simps) simp
qed

lemma child_iff: "wf_node M n \<Longrightarrow> NextLevel n = Some lv \<Longrightarrow> child n (IndexMin lv) \<noteq> None \<and> child n (IndexMax lv) \<noteq> None
  \<and> (\<forall>i. child n i \<noteq> None \<longrightarrow> IndexMin lv \<le> i \<and> i \<le> IndexMax lv) \<and> length (Ary lv) = M"
  by (erule wf_nodeE) (auto simp: child_def)

lemma first_at_least:
  assumes "wf_node M h" "get_at h p = Some n"
  shows "least {q \<in> keys h. \<exists>r. q = p @ r} (first_at h p)"
  using least_image [OF First_least [OF wf_get_at [OF assms]], of "(@) p"] assms(2)
  by (simp add: first_at_def keys_below)

lemma last_at_greatest:
  assumes "wf_node M h" "get_at h p = Some n"
  shows "greatest {q \<in> keys h. \<exists>r. q = p @ r} (last_at h p)"
  using greatest_image [OF Last_greatest [OF wf_get_at [OF assms]], of "(@) p"] assms(2)
  by (simp add: last_at_def keys_below)

lemma least_union:
  assumes "least A r" "A \<noteq> {}" "\<And>a b. a \<in> A \<Longrightarrow> b \<in> B \<Longrightarrow> a \<le> b"
  shows "least (A \<union> B) r"
  using assms by (cases r) auto

lemma greatest_union:
  assumes "greatest A r" "A \<noteq> {}" "\<And>a b. a \<in> A \<Longrightarrow> b \<in> B \<Longrightarrow> b \<le> a"
  shows "greatest (A \<union> B) r"
  using assms by (cases r) auto

lemma get_at_snoc: "get_at h (p @ [i]) = Option.bind (get_at h p) (\<lambda>n. child n i)"
  by (simp add: get_at_append cong: bind_option_cong) (cases "get_at h p"; auto split: option.split)

lemma key_has_node: "q @ r \<in> keys h \<Longrightarrow> \<exists>n. get_at h q = Some n"
  using value_at_no_node [of h q r] by (cases "get_at h q") (auto simp: keys_def)

lemma keys_below_ne: "wf_node M h \<Longrightarrow> get_at h p = Some n \<Longrightarrow> {q \<in> keys h. \<exists>r. q = p @ r} \<noteq> {}"
  using keys_ne [OF wf_get_at] by (simp add: keys_below)

lemma slot_iff: "get_at h pp = Some n \<Longrightarrow> NextLevel n = Some lv \<Longrightarrow> get_at h (pp @ [j]) = slot (Ary lv) j"
  by (simp add: get_at_snoc child_def)

lemma key_has_slot:
  assumes "get_at h pp = Some n" "NextLevel n = Some lv" "pp @ i # s \<in> keys h"
  shows "slot (Ary lv) i \<noteq> None"
  using key_has_node [of "pp @ [i]" s h] slot_iff [OF assms(1,2)] assms(3) by auto

lemma owner_level:
  assumes "get_at h (pp @ [x]) = Some n"
  obtains m lv where "get_at h pp = Some m" "NextLevel m = Some lv"
  using assms by (auto simp: get_at_snoc child_def bind_eq_Some_conv split: option.splits)

lemma LvNext_step:
  assumes w: "wf_node M h" and n: "get_at h pp = Some n" "NextLevel n = Some lv"
    and up: "next_index (Ary lv) (IndexMax lv) idx = None \<Longrightarrow> least {q \<in> keys h. after_path pp q} r"
  shows "least {q \<in> keys h. after_path (pp @ [idx]) q}
    (case next_index (Ary lv) (IndexMax lv) idx of Some j \<Rightarrow> first_at h (pp @ [j]) | None \<Rightarrow> r)"
proof (cases "next_index (Ary lv) (IndexMax lv) idx")
  case (Some j)
  then have j: "idx < j" "slot (Ary lv) j \<noteq> None" "\<And>i. idx < i \<Longrightarrow> i \<le> IndexMax lv \<Longrightarrow> slot (Ary lv) i \<noteq> None \<Longrightarrow> j \<le> i"
    using next_index_least [of idx "IndexMax lv" "Ary lv"] by auto
  obtain c where c: "get_at h (pp @ [j]) = Some c" using j(2) slot_iff [OF n] by auto
  let ?A = "{q \<in> keys h. \<exists>r. q = (pp @ [j]) @ r}"
  have "least (?A \<union> ({q \<in> keys h. after_path (pp @ [idx]) q} - ?A)) (first_at h (pp @ [j]))"
  proof (rule least_union [OF first_at_least [OF w c] keys_below_ne [OF w c]])
    fix a b assume "a \<in> ?A" and b: "b \<in> {q \<in> keys h. after_path (pp @ [idx]) q} - ?A"
    then obtain r where a: "a = pp @ j # r" by auto
    show "a \<le> b"
    proof (cases "after_path pp b")
      case True
      then show ?thesis using after_less [of pp b] a by (simp add: less_imp_le)
    next
      case False
      then obtain i s where i: "idx < i" "b = pp @ i # s" using b by (auto simp: after_snoc)
      have "slot (Ary lv) i \<noteq> None" using key_has_slot [OF n] b i by auto
      then have "j \<le> i" using j(3) i(1) child_iff [OF wf_get_at [OF w n(1)] n(2)] n(2) by (auto simp: child_def)
      moreover have "i \<noteq> j" using b i by auto
      ultimately show ?thesis using a i by simp
    qed
  qed
  moreover have "?A \<union> ({q \<in> keys h. after_path (pp @ [idx]) q} - ?A) = {q \<in> keys h. after_path (pp @ [idx]) q}"
    using j(1) by (auto simp: after_snoc)
  ultimately show ?thesis using Some by simp
next
  case None
  then have "slot (Ary lv) j = None" if "idx < j" for j
    using next_index_least [of idx "IndexMax lv" "Ary lv"] that
      child_iff [OF wf_get_at [OF w n(1)] n(2)] n(2) by (cases "j \<le> IndexMax lv") (auto simp: child_def)
  then have "{q \<in> keys h. after_path (pp @ [idx]) q} = {q \<in> keys h. after_path pp q}"
    using key_has_slot [OF n] by (fastforce simp: after_snoc)
  then show ?thesis using None up by simp
qed

lemma LvNext_least:
  assumes w: "wf_node M h"
  shows "get_at h pp = Some n \<Longrightarrow> NextLevel n = Some lv \<Longrightarrow> least {q \<in> keys h. after_path (pp @ [idx]) q} (LvNext h pp idx)"
proof (induction pp arbitrary: idx n lv rule: rev_induct)
  case Nil
  then show ?case
    using LvNext_step [OF w Nil, of idx None] by (subst LvNext.simps) (simp add: level_at_def)
next
  case (snoc x pp)
  obtain m lv' where "get_at h pp = Some m" "NextLevel m = Some lv'" using snoc.prems(1) by (rule owner_level)
  then show ?case
    using LvNext_step [OF w snoc.prems snoc.IH [of m lv' x]] snoc.prems
    by (subst LvNext.simps) (simp add: level_at_def cong: option.case_cong split: if_splits)
qed

lemma OwnerNext_least:
  assumes w: "wf_node M h" and "get_at h p = Some n"
  shows "least {q \<in> keys h. after_path p q} (OwnerNext h p)"
proof (cases p rule: rev_cases)
  case (snoc pp x)
  obtain m lv where "get_at h pp = Some m" "NextLevel m = Some lv" using assms(2) unfolding snoc by (rule owner_level)
  then show ?thesis using LvNext_least [OF w, of pp m lv x] by (simp add: OwnerNext_def snoc)
qed (simp add: OwnerNext_def)

lemma NodeNext_least:
  assumes w: "wf_node M h" and n: "get_at h p = Some n"
  shows "least {q \<in> keys h. p < q} (NodeNext h p)"
proof (cases "NextLevel n")
  case None
  have "\<not> (\<exists>r. r \<noteq> [] \<and> p @ r \<in> keys h)"
    using n None by (auto simp: keys_def value_at_append neq_Nil_conv child_def)
  then have "{q \<in> keys h. p < q} = {q \<in> keys h. after_path p q}" by (auto simp: less_path_iff)
  then show ?thesis using OwnerNext_least [OF assms] None n by (simp add: NodeNext_def level_at_def)
next
  case (Some lv)
  let ?A = "{q \<in> keys h. \<exists>r. q = (p @ [IndexMin lv]) @ r}"
  note ci = child_iff [OF wf_get_at [OF w n] Some]
  obtain c where c: "get_at h (p @ [IndexMin lv]) = Some c" using ci slot_iff [OF n Some] Some by (auto simp: child_def)
  have "least (?A \<union> ({q \<in> keys h. p < q} - ?A)) (first_at h (p @ [IndexMin lv]))"
  proof (rule least_union [OF first_at_least [OF w c] keys_below_ne [OF w c]])
    fix a b assume "a \<in> ?A" and b: "b \<in> {q \<in> keys h. p < q} - ?A"
    then obtain r where a: "a = p @ IndexMin lv # r" by auto
    show "a \<le> b"
    proof (cases "after_path p b")
      case True
      then show ?thesis using after_less [of p b] a by (simp add: less_imp_le)
    next
      case False
      then obtain i s where i: "b = p @ i # s" using b by (auto simp: less_path_iff neq_Nil_conv)
      then have "slot (Ary lv) i \<noteq> None" using key_has_slot [OF n Some] b by auto
      then have "IndexMin lv \<le> i" using ci Some by (auto simp: child_def)
      moreover have "i \<noteq> IndexMin lv" using b i by auto
      ultimately show ?thesis using a i by simp
    qed
  qed
  moreover have "?A \<union> ({q \<in> keys h. p < q} - ?A) = {q \<in> keys h. p < q}" by (auto simp: less_path_iff)
  ultimately show ?thesis using Some n by (simp add: NodeNext_def level_at_def)
qed

lemma LvPrev_step:
  assumes w: "wf_node M h" and n: "get_at h pp = Some n" "NextLevel n = Some lv"
    and up: "prev_index (Ary lv) (IndexMin lv) idx = None \<Longrightarrow> NodeValue n = None \<Longrightarrow> greatest {q \<in> keys h. q < pp} r"
  shows "greatest {q \<in> keys h. q < pp @ [idx]}
    (case prev_index (Ary lv) (IndexMin lv) idx of Some j \<Rightarrow> last_at h (pp @ [j])
     | None \<Rightarrow> if value_at h pp \<noteq> None then Some pp else r)"
proof (cases "prev_index (Ary lv) (IndexMin lv) idx")
  case (Some j)
  then have j: "j < idx" "slot (Ary lv) j \<noteq> None" "\<And>i. i < idx \<Longrightarrow> IndexMin lv \<le> i \<Longrightarrow> slot (Ary lv) i \<noteq> None \<Longrightarrow> i \<le> j"
    using prev_index_greatest [of "IndexMin lv" idx "Ary lv"] by auto
  obtain c where c: "get_at h (pp @ [j]) = Some c" using j(2) slot_iff [OF n] by auto
  let ?A = "{q \<in> keys h. \<exists>r. q = (pp @ [j]) @ r}"
  have "greatest (?A \<union> ({q \<in> keys h. q < pp @ [idx]} - ?A)) (last_at h (pp @ [j]))"
  proof (rule greatest_union [OF last_at_greatest [OF w c] keys_below_ne [OF w c]])
    fix a b assume "a \<in> ?A" and b: "b \<in> {q \<in> keys h. q < pp @ [idx]} - ?A"
    then obtain r where a: "a = pp @ j # r" by auto
    consider i s where "i < idx" "b = pp @ i # s" | "b \<le> pp" using b by (auto simp: less_snoc)
    then show "b \<le> a"
    proof cases
      case 1
      have "slot (Ary lv) i \<noteq> None" using key_has_slot [OF n] b 1 by auto
      then have "i \<le> j" using j(3) 1(1) child_iff [OF wf_get_at [OF w n(1)] n(2)] n(2) by (auto simp: child_def)
      moreover have "i \<noteq> j" using b 1 by auto
      ultimately show ?thesis using a 1 by simp
    next
      case 2
      have "pp < a" using a less_path_iff by blast
      then show ?thesis using 2 by simp
    qed
  qed
  moreover have "?A \<union> ({q \<in> keys h. q < pp @ [idx]} - ?A) = {q \<in> keys h. q < pp @ [idx]}"
    using j(1) by (auto simp: less_snoc)
  ultimately show ?thesis using Some by simp
next
  case None
  then have "slot (Ary lv) j = None" if "j < idx" for j
    using prev_index_greatest [of "IndexMin lv" idx "Ary lv"] that
      child_iff [OF wf_get_at [OF w n(1)] n(2)] n(2) by (cases "IndexMin lv \<le> j") (auto simp: child_def)
  then have eq: "{q \<in> keys h. q < pp @ [idx]} = {q \<in> keys h. q \<le> pp}"
    using key_has_slot [OF n] by (fastforce simp: less_snoc)
  have v: "value_at h pp = NodeValue n" using n by (simp add: value_at_def)
  show ?thesis
  proof (cases "NodeValue n")
    case None
    then have "{q \<in> keys h. q \<le> pp} = {q \<in> keys h. q < pp}" using v by (auto simp: keys_def order_le_less)
    then show ?thesis using up \<open>prev_index _ _ _ = None\<close> eq None v by simp
  next
    case (Some x)
    then show ?thesis using \<open>prev_index _ _ _ = None\<close> eq v by (simp add: keys_def)
  qed
qed

lemma LvPrev_greatest:
  assumes w: "wf_node M h"
  shows "get_at h pp = Some n \<Longrightarrow> NextLevel n = Some lv \<Longrightarrow> greatest {q \<in> keys h. q < pp @ [idx]} (LvPrev h pp idx)"
proof (induction pp arbitrary: idx n lv rule: rev_induct)
  case Nil
  then show ?case
    using LvPrev_step [OF w Nil, of idx None]
    by (subst LvPrev.simps) (simp add: level_at_def cong: option.case_cong split: if_splits)
next
  case (snoc x pp)
  obtain m lv' where "get_at h pp = Some m" "NextLevel m = Some lv'" using snoc.prems(1) by (rule owner_level)
  then show ?case
    using LvPrev_step [OF w snoc.prems snoc.IH [of m lv' x]] snoc.prems
    by (subst LvPrev.simps, cases "value_at h (pp @ [x])") (simp_all add: level_at_def cong: option.case_cong)
qed

lemma NodePrev_greatest:
  assumes w: "wf_node M h" and "get_at h p = Some n"
  shows "greatest {q \<in> keys h. q < p} (NodePrev h p)"
proof (cases p rule: rev_cases)
  case (snoc pp x)
  obtain m lv where "get_at h pp = Some m" "NextLevel m = Some lv" using assms(2) unfolding snoc by (rule owner_level)
  then show ?thesis using LvPrev_greatest [OF w, of pp m lv x] by (simp add: NodePrev_def snoc)
qed (simp add: NodePrev_def)

end
