(* ===== verification/TrieUpdate.thy ===== *)
theory TrieUpdate
  imports TrieProps
begin

text \<open>
  What \<open>emplace\<close> and \<open>erase\<close> of \<open>TrieMap\<close> do to the invariant, to the value of every path and to
  the numbers of values.
\<close>

definition index_in_range :: "key_trans \<Rightarrow> bool" where
  "index_in_range kt = (\<forall>k. ToIndex kt k \<le> MaxIndex kt)"

lemma index_in_range_types:
  "index_in_range TrieKeyChar" "index_in_range TrieKeyChPr" "index_in_range TrieKeyAlNum" "index_in_range TrieKeyNum"
proof -
  have "unat k \<le> 255" for k :: byte using unsigned_less [of k, where 'a = nat] by simp
  then show "index_in_range TrieKeyChar" by (simp add: index_in_range_def TrieKeyChar_def)
qed (simp_all add: index_in_range_def TrieKeyChPr_def TrieKeyAlNum_def TrieKeyNum_def Let_def)

lemma slot_update: "slot (ary[i := x]) j = (if i = j \<and> i < length ary then x else slot ary j)"
  by (auto simp: slot_def)

lemma slot_replicate [simp]: "slot (replicate n None) j = None"
  by (simp add: slot_def)

lemma slot_length: "slot ary i = Some c \<Longrightarrow> i < length ary"
  by (simp add: slot_def split: if_splits)

lemma sum_slot_update:
  assumes "i < M" "M \<le> length ary"
  shows "(\<Sum>j<M. slot_total (slot (ary[i := x]) j)) + slot_total (slot ary i) =
    (\<Sum>j<M. slot_total (slot ary j)) + slot_total x"
proof -
  have M: "(\<Sum>j<M. f j) = f i + (\<Sum>j\<in>{..<M} - {i}. f j)" for f :: "nat \<Rightarrow> nat"
    using assms(1) by (intro sum.remove) auto
  have "(\<Sum>j\<in>{..<M} - {i}. slot_total (slot (ary[i := x]) j)) = (\<Sum>j\<in>{..<M} - {i}. slot_total (slot ary j))"
    by (rule sum.cong) (auto simp: slot_update)
  then show ?thesis using assms by (simp add: M slot_update)
qed

subsection \<open>Putting\<close>

lemma wf_put_new:
  assumes "wf_node M c" "i < M" "node_total c = 1"
  shows "wf_node M (Node nv (Some (LvAry ((replicate M None)[i := Some c]) 1 i i)))"
proof (rule wf_node.inner)
  show "1 = (\<Sum>j<M. slot_total (slot ((replicate M None)[i := Some c]) j))"
    using sum_slot_update [of i M "replicate M None" "Some c"] assms by (simp add: slot_total_def)
qed (use assms in \<open>auto simp: slot_update split: if_splits\<close>)

lemma wf_put_old:
  assumes w: "wf_node M (Node nv (Some (LvAry ary cnt lo hi)))" and "wf_node M c" "i < M"
    and "node_total c = Suc (slot_total (slot ary i))"
  shows "wf_node M (Node nv (Some (LvAry (ary[i := Some c]) (Suc cnt)
    (if i < lo then i else lo) (if \<not> i < lo \<and> hi < i then i else hi))))"
proof (rule wf_node.inner)
  note wi = w [unfolded wf_inner]
  show "Suc cnt = (\<Sum>j<M. slot_total (slot (ary[i := Some c]) j))"
    using sum_slot_update [of i M ary "Some c"] assms wi by (simp add: slot_total_def)
  have lohi: "lo \<le> hi" using wi by blast
  show "(if i < lo then i else lo) \<le> j \<and> j \<le> (if \<not> i < lo \<and> hi < i then i else hi)"
    if "slot (ary[i := Some c]) j = Some d" for j d
  proof (cases "i = j")
    case False
    then have "lo \<le> j \<and> j \<le> hi" using that wi by (auto simp: slot_update split: if_splits)
    then show ?thesis by auto
  qed (use lohi in auto)
  show "wf_node M d" if "slot (ary[i := Some c]) j = Some d" for j d
    using that wi assms(2) by (auto simp: slot_update split: if_splits)
qed (use w [unfolded wf_inner] assms in \<open>auto simp: slot_update split: if_splits\<close>)

definition open_node :: "nat \<Rightarrow> 'v trie_node \<Rightarrow> bool" where
  "open_node M n = (wf_node M n \<or> n = Node None None)"

lemma value_at_leaf [simp]: "value_at (Node None None) p = None"
  by (cases p) simp_all

lemma value_at_put:
  assumes "i < length ary" "value_at c' = (value_at c)(q \<mapsto> v)" "\<And>r. value_at c r = value_at (Node nv nl) (i # r)"
    and "\<And>j. j \<noteq> i \<Longrightarrow> slot ary j = child (Node nv nl) j"
  shows "value_at (Node nv (Some (LvAry (ary[i := Some c']) cnt lo hi))) = (value_at (Node nv nl))(i # q \<mapsto> v)"
proof
  fix p
  show "value_at (Node nv (Some (LvAry (ary[i := Some c']) cnt lo hi))) p = ((value_at (Node nv nl))(i # q \<mapsto> v)) p"
    using assms by (cases p) (auto simp: slot_update)
qed

lemma put_node:
  assumes "index_in_range kt" and M: "M = MaxIndex kt + 1"
  shows "open_node M n \<Longrightarrow> value_at n (map (ToIndex kt) key) = None \<Longrightarrow>
    n' = change_at Suc (set_value (Some v)) (map (ToIndex kt) key) (make_path kt key n) \<Longrightarrow>
    wf_node M n' \<and> node_total n' = Suc (node_total n) \<and> value_at n' = (value_at n)(map (ToIndex kt) key \<mapsto> v)"
proof (induction key arbitrary: n n')
  case Nil
  have "value_at (Node (Some v) (NextLevel n)) p = ((value_at n)([] \<mapsto> v)) p" for p
    by (cases p) (simp_all add: child_def)
  moreover have "wf_node M (Node (Some v) (NextLevel n))"
    using Nil.prems(1) unfolding open_node_def by (auto elim!: wf_nodeE simp: wf_leaf wf_inner)
  ultimately show ?case using Nil.prems by (auto simp: set_value_def node_total_def)
next
  case (Cons k key)
  let ?i = "ToIndex kt k" and ?q = "map (ToIndex kt) key"
  have i: "?i < M" using assms by (simp add: index_in_range_def le_imp_less_Suc)
  obtain nv nl where n: "n = Node nv nl" by (cases n)
  define c where "c = (case child n ?i of None \<Rightarrow> Node None None | Some c \<Rightarrow> c)"
  define c' where "c' = change_at Suc (set_value (Some v)) ?q (make_path kt key c)"
  have opn: "open_node M c"
    using Cons.prems(1) wf_child [of M n ?i] by (auto simp: c_def open_node_def split: option.split)
  have vc: "value_at c r = value_at n (?i # r)" for r by (simp add: c_def split: option.split)
  have "value_at c ?q = None" using Cons.prems(2) vc by simp
  from Cons.IH [OF opn this c'_def]
  have IH: "wf_node M c'" "node_total c' = Suc (node_total c)" "value_at c' = (value_at c)(?q \<mapsto> v)" by auto
  show ?case
  proof (cases nl)
    case None
    then have c: "c = Node None None" using n by (simp add: c_def)
    have n': "n' = Node nv (Some (LvAry ((replicate M None)[?i := Some c']) 1 ?i ?i))"
      using Cons.prems(3) i M None n c
      by (simp add: reach_slot_def new_level_def slot_update c'_def Let_def M del: replicate_Suc)
    show ?thesis
      using wf_put_new [OF IH(1) i] IH(2) c value_at_put [of ?i "replicate M None" c' c ?q v nv nl] IH(3) vc i n None
      unfolding n' by (simp add: node_total_def)
  next
    case (Some lv)
    obtain ary cnt lo hi where lv: "lv = LvAry ary cnt lo hi" by (cases lv)
    have w: "wf_node M (Node nv (Some (LvAry ary cnt lo hi)))" using Cons.prems(1) n Some lv by (simp add: open_node_def)
    then have len: "length ary = M" by (simp add: wf_inner)
    have n': "n' = Node nv (Some (LvAry (ary[?i := Some c']) (Suc cnt)
        (if ?i < lo then ?i else lo) (if \<not> ?i < lo \<and> hi < ?i then ?i else hi)))"
      using Cons.prems(3) i M n Some lv len
      by (simp add: reach_slot_def slot_update c'_def c_def Let_def split: option.split)
    have "node_total c = slot_total (slot ary ?i)"
      using n Some lv by (simp add: c_def slot_total_def node_total_def split: option.split)
    then have "wf_node M n'" unfolding n' using wf_put_old [OF w IH(1) i] IH(2) by simp
    moreover have "value_at n' = (value_at n)(?i # ?q \<mapsto> v)"
      unfolding n' n using value_at_put [of ?i ary c' c ?q v nv nl] IH(3) vc i len n Some lv by simp
    ultimately show ?thesis unfolding n' using n Some lv by (simp add: node_total_def)
  qed
qed

lemma make_path_old:
  "index_in_range kt \<Longrightarrow> wf_node (MaxIndex kt + 1) n \<Longrightarrow> value_at n (map (ToIndex kt) key) \<noteq> None \<Longrightarrow> make_path kt key n = n"
proof (induction key arbitrary: n)
  case (Cons k key)
  let ?i = "ToIndex kt k"
  obtain nv nl where n: "n = Node nv nl" by (cases n)
  obtain c where c: "child n ?i = Some c" "value_at c (map (ToIndex kt) key) \<noteq> None"
    using Cons.prems(3) by (auto split: option.splits)
  obtain lv where "nl = Some lv" using c(1) n by (cases nl) auto
  then obtain ary cnt lo hi where nl: "nl = Some (LvAry ary cnt lo hi)" by (cases lv) auto
  have s: "slot ary ?i = Some c" using c(1) n nl by simp
  moreover have "lo \<le> ?i \<and> ?i \<le> hi" using Cons.prems(2) s n nl by (auto simp: wf_inner)
  moreover have "make_path kt key c = c"
    using Cons.IH [OF Cons.prems(1) wf_child [OF Cons.prems(2) c(1)] c(2)] .
  moreover have "ary[?i := Some c] = ary" using s by (auto simp: slot_def intro: list_update_same_conv [THEN iffD2] split: if_splits)
  ultimately show ?case using n nl slot_length [OF s] by (simp add: reach_slot_def slot_update Let_def)
qed simp

lemma make_path_value:
  "index_in_range kt \<Longrightarrow> open_node (MaxIndex kt + 1) n \<Longrightarrow> value_at (make_path kt key n) (map (ToIndex kt) key) = value_at n (map (ToIndex kt) key)"
proof (induction key arbitrary: n)
  case (Cons k key)
  let ?i = "ToIndex kt k"
  have i: "?i < MaxIndex kt + 1" using Cons.prems(1) by (simp add: index_in_range_def le_imp_less_Suc)
  obtain nv nl where n: "n = Node nv nl" by (cases n)
  show ?case
  proof (cases nl)
    case None
    then show ?thesis
      using Cons.IH [OF Cons.prems(1), of "Node None None"] n i
      by (simp add: reach_slot_def new_level_def slot_update Let_def open_node_def del: replicate_Suc)
  next
    case (Some lv)
    obtain ary cnt lo hi where lv: "lv = LvAry ary cnt lo hi" by (cases lv)
    have w: "wf_node (MaxIndex kt + 1) n" using Cons.prems(2) n Some by (simp add: open_node_def)
    then have len: "length ary = MaxIndex kt + 1" using n Some lv by (simp add: wf_inner)
    show ?thesis
    proof (cases "slot ary ?i")
      case None
      then show ?thesis
        using Cons.IH [OF Cons.prems(1), of "Node None None"] n i Some lv len
        by (simp add: reach_slot_def slot_update Let_def open_node_def)
    next
      case s: (Some c)
      then have "open_node (MaxIndex kt + 1) c" using wf_child [OF w, of ?i c] n Some lv by (simp add: open_node_def)
      then show ?thesis
        using Cons.IH [OF Cons.prems(1), of c] n i Some lv len s
        by (simp add: reach_slot_def slot_update Let_def)
    qed
  qed
qed simp

subsection \<open>Taking away\<close>

lemma get_at_change: "get_at (change_at g f (p @ q) h) p = map_option (change_at g f q) (get_at h p)"
proof (induction p arbitrary: h)
  case (Cons i p)
  obtain nv nl where h: "h = Node nv nl" by (cases h)
  show ?case
  proof (cases nl)
    case (Some lv)
    then show ?thesis
      using h Cons by (cases "slot (Ary lv) i") (auto simp: child_def slot_update dest: slot_length)
  qed (simp add: h)
qed simp

lemma change_at_twice:
  "change_at g f p (change_at id f' (p @ q) h) = change_at g (\<lambda>n. f (change_at id f' q n)) p h"
proof (induction p arbitrary: h)
  case (Cons i p)
  obtain nv nl where h: "h = Node nv nl" by (cases h)
  show ?case
  proof (cases nl)
    case (Some lv)
    then show ?thesis
      using h Cons by (cases "slot (Ary lv) i") (auto simp: slot_update dest: slot_length)
  qed (simp add: h)
qed simp

lemma drop_slot_change: "drop_slot i (change_at id f (i # q) n) = drop_slot i n"
  by (cases n) (auto simp: drop_slot_def Let_def split: option.split)

lemma drop_level_change: "drop_level (change_at id f (i # q) n) = drop_level n"
  by (auto simp: drop_level_def split: option.split)

lemma value_at_drop:
  assumes "get_at h p = Some n" "get_at h' p = Some n'"
    and "\<And>q. (\<nexists>r. q = p @ r) \<Longrightarrow> value_at h' q = value_at h q"
  shows "value_at h' q = (if \<exists>r. q = p @ r then value_at n' (drop (length p) q) else value_at h q)"
  using assms by (auto simp: value_at_append)

lemma change_dec:
  "wf_node M h \<Longrightarrow> get_at h p = Some n \<Longrightarrow> wf_node M (f n) \<Longrightarrow> node_total n = Suc (node_total (f n)) \<Longrightarrow>
   h' = change_at Dec f p h \<Longrightarrow> wf_node M h' \<and> node_total h = Suc (node_total h')
     \<and> get_at h' p = Some (f n) \<and> (\<forall>q. (\<nexists>r. q = p @ r) \<longrightarrow> value_at h' q = value_at h q)"
proof (induction p arbitrary: h h')
  case (Cons i p)
  obtain c where c: "child h i = Some c" "get_at c p = Some n" using Cons.prems(2) by (auto split: option.splits)
  define c' where "c' = change_at Dec f p c"
  note IH = Cons.IH [OF wf_child [OF Cons.prems(1) c(1)] c(2) Cons.prems(3,4) c'_def]
  obtain nv nl where h: "h = Node nv nl" by (cases h)
  obtain lv where "nl = Some lv" using c(1) h by (cases nl) auto
  then obtain ary cnt lo hi where nl: "nl = Some (LvAry ary cnt lo hi)" by (cases lv) auto
  have s: "slot ary i = Some c" using c(1) h nl by simp
  have i: "i < length ary" using slot_length [OF s] .
  have w: "length ary = M" "slot ary lo \<noteq> None" "slot ary hi \<noteq> None"
    "\<And>j d. slot ary j = Some d \<Longrightarrow> lo \<le> j \<and> j \<le> hi" "\<And>j d. slot ary j = Some d \<Longrightarrow> wf_node M d"
    "cnt = (\<Sum>j<M. slot_total (slot ary j))"
    using Cons.prems(1) h nl by (auto simp: wf_inner)
  have h': "h' = Node nv (Some (LvAry (ary[i := Some c']) (Dec cnt) lo hi))"
    using Cons.prems(5) h nl s by (simp add: c'_def)
  have sum: "(\<Sum>j<M. slot_total (slot (ary[i := Some c']) j)) = Dec cnt" "cnt = Suc (Dec cnt)"
    using sum_slot_update [of i M ary "Some c'"] i w(1,6) s IH by (auto simp: slot_total_def Dec_def)
  have "wf_node M h'" unfolding h'
  proof (rule wf_node.inner)
    show "lo \<le> j \<and> j \<le> hi" if "slot (ary[i := Some c']) j = Some d" for j d
      using that w(4) s by (auto simp: slot_update split: if_splits)
    show "wf_node M d" if "slot (ary[i := Some c']) j = Some d" for j d
      using that w(5) IH by (auto simp: slot_update split: if_splits)
  qed (use w sum in \<open>auto simp: slot_update\<close>)
  moreover have "value_at h' q = value_at h q" if q: "\<nexists>r. q = (i # p) @ r" for q
  proof (cases q)
    case Nil
    then show ?thesis using h h' by simp
  next
    case (Cons j q')
    then show ?thesis using q IH h h' nl s i by (cases "i = j") (auto simp: slot_update)
  qed
  ultimately show ?case using h h' nl sum IH i by (simp add: node_total_def slot_update)
qed (simp add: Dec_def)

lemma up_from_next: "slot ary hi \<noteq> None \<Longrightarrow> i < hi \<Longrightarrow> next_index ary hi i = Some (up_from ary hi i)"
proof (induction ary hi i rule: up_from.induct)
  case (1 ary hi i)
  then show ?case
    by (subst next_index.simps, subst up_from.simps) (cases "i + 1 = hi"; auto)
qed

lemma down_from_prev: "slot ary lo \<noteq> None \<Longrightarrow> lo < i \<Longrightarrow> prev_index ary lo i = Some (down_from ary lo i)"
proof (induction ary lo i rule: down_from.induct)
  case (1 ary lo i)
  then show ?case
    by (subst prev_index.simps, subst down_from.simps) (cases "i - 1 = lo"; auto)
qed

lemma drop_slot_spec:
  assumes w: "wf_node M (Node nv (Some (LvAry ary cnt lo hi)))" and s: "slot ary i = Some c"
    and c: "node_total c = 1" and ne: "lo \<noteq> hi" and m: "m = drop_slot i (Node nv (Some (LvAry ary cnt lo hi)))"
  shows "wf_node M m" "cnt = Suc (LvCount (the (NextLevel m)))" "NodeValue m = nv"
    "NextLevel m = Some lv \<Longrightarrow> Ary lv = ary[i := None]
      \<and> IndexMin lv = (if i = lo then up_from (ary[i := None]) hi i else lo)
      \<and> IndexMax lv = (if i \<noteq> lo \<and> i = hi then down_from (ary[i := None]) lo i else hi)"
proof -
  have W: "length ary = M" "slot ary lo \<noteq> None" "slot ary hi \<noteq> None"
    "\<And>j d. slot ary j = Some d \<Longrightarrow> lo \<le> j \<and> j \<le> hi" "\<And>j d. slot ary j = Some d \<Longrightarrow> wf_node M d"
    "cnt = (\<Sum>j<M. slot_total (slot ary j))"
    using w by (auto simp: wf_inner)
  let ?a = "ary[i := None]"
  let ?lo = "if i = lo then up_from ?a hi i else lo" and ?hi = "if i \<noteq> lo \<and> i = hi then down_from ?a lo i else hi"
  have lohi: "lo < hi" using W(2,4) ne by fastforce
  have i: "i < length ary" using slot_length [OF s] .
  have m': "m = Node nv (Some (LvAry ?a (cnt - 1) ?lo ?hi))" by (simp add: m drop_slot_def Let_def)
  have sl: "slot ?a j = (if i = j then None else slot ary j)" for j using i by (simp add: slot_update)
  have sum: "(\<Sum>j<M. slot_total (slot ?a j)) = cnt - 1" "0 < cnt"
    using sum_slot_update [of i M ary None] i W(1,6) s c by (auto simp: slot_total_def)
  have lo: "slot ?a ?lo \<noteq> None \<and> (\<forall>j. slot ?a j \<noteq> None \<longrightarrow> ?lo \<le> j)"
  proof (cases "i = lo")
    case True
    then have "next_index ?a hi i = Some ?lo" using up_from_next [of ?a hi i] W(3) sl ne lohi by auto
    then have "?lo \<in> {j. i < j \<and> j \<le> hi \<and> slot ?a j \<noteq> None}" "\<forall>j. i < j \<and> j \<le> hi \<and> slot ?a j \<noteq> None \<longrightarrow> ?lo \<le> j"
      using next_index_least [of i hi ?a] by auto
    moreover have "i < j \<and> j \<le> hi" if "slot ?a j \<noteq> None" for j
      using that W(4) True sl by (fastforce simp: le_less split: if_splits)
    ultimately show ?thesis by blast
  next
    case False
    then show ?thesis using W(2,4) sl by auto
  qed
  have hi: "slot ?a ?hi \<noteq> None \<and> (\<forall>j. slot ?a j \<noteq> None \<longrightarrow> j \<le> ?hi)"
  proof (cases "i \<noteq> lo \<and> i = hi")
    case True
    then have eq: "?hi = down_from ?a lo i" by simp
    have "prev_index ?a lo i = Some ?hi" unfolding eq using True down_from_prev [of ?a lo i] W(2) sl lohi by auto
    then have "?hi \<in> {j. lo \<le> j \<and> j < i \<and> slot ?a j \<noteq> None}" "\<forall>j. lo \<le> j \<and> j < i \<and> slot ?a j \<noteq> None \<longrightarrow> j \<le> ?hi"
      unfolding eq using prev_index_greatest [of lo i ?a] by auto
    moreover have "lo \<le> j \<and> j < i" if "slot ?a j \<noteq> None" for j
      using that W(4) True sl by (fastforce simp: le_less split: if_splits)
    ultimately show ?thesis by blast
  next
    case False
    then show ?thesis using W(3,4) sl ne by auto
  qed
  show "wf_node M m" unfolding m'
  proof (rule wf_node.inner)
    show "?lo \<le> j \<and> j \<le> ?hi" if "slot ?a j = Some d" for j d using that lo hi by auto
    show "wf_node M d" if "slot ?a j = Some d" for j d using that W(5) sl by (auto split: if_splits)
  qed (use W lo hi sum in auto)
  show "cnt = Suc (LvCount (the (NextLevel m)))" "NodeValue m = nv"
    "NextLevel m = Some lv \<Longrightarrow> Ary lv = ?a \<and> IndexMin lv = ?lo \<and> IndexMax lv = ?hi"
    using sum m' by auto
qed

lemma keys_single_total: "wf_node M n \<Longrightarrow> keys n = {r} \<Longrightarrow> node_total n = 1"
  using keys_total [of M n] by simp

text \<open>\<open>removed h p t\<close>: \<open>t\<close> is the trie \<open>h\<close> without the key \<open>p\<close>.\<close>

definition removed :: "nat \<Rightarrow> 'v trie_node \<Rightarrow> nat list \<Rightarrow> 'v trie \<Rightarrow> bool" where
  "removed M h p t = (case t of None \<Rightarrow> keys h = {p}
     | Some h' \<Rightarrow> wf_node M h' \<and> value_at h' = (value_at h)(p := None) \<and> node_total h = Suc (node_total h'))"

lemma keys_removed: "value_at h' = (value_at h)(p := None) \<Longrightarrow> keys h' = keys h - {p}"
  by (auto simp: keys_def)

lemma owner_parts:
  assumes "get_at h (pp @ [i]) = Some n"
  obtains nv ary cnt lo hi where "get_at h pp = Some (Node nv (Some (LvAry ary cnt lo hi)))" "slot ary i = Some n"
proof -
  obtain m lv where m: "get_at h pp = Some m" "NextLevel m = Some lv" using assms by (rule owner_level)
  obtain nv nl where "m = Node nv nl" by (cases m)
  moreover obtain ary cnt lo hi where "lv = LvAry ary cnt lo hi" by (cases lv)
  ultimately show thesis using that m assms by (simp add: get_at_snoc)
qed

lemma erase_in_level:
  assumes w: "wf_node M h" and m: "get_at h pp = Some (Node nv (Some (LvAry ary cnt lo hi)))"
    and s: "slot ary i = Some n" and r: "keys n = {r}" and ne: "lo \<noteq> hi"
    and h': "h' = change_at Dec (drop_slot i) pp h"
  shows "removed M h (pp @ i # r) (Some h') \<and> least {q \<in> keys h. pp @ i # r < q} (LvNext h' pp i)
    \<and> get_at h' pp = Some (drop_slot i (Node nv (Some (LvAry ary cnt lo hi))))"
proof -
  let ?m = "Node nv (Some (LvAry ary cnt lo hi))" and ?m' = "drop_slot i (Node nv (Some (LvAry ary cnt lo hi)))"
  have wm: "wf_node M ?m" using wf_get_at [OF w m] .
  have wn: "wf_node M n" using wf_child [OF wm, of i n] s by simp
  note d = drop_slot_spec [OF wm s keys_single_total [OF wn r] ne refl]
  obtain lv where lv: "NextLevel ?m' = Some lv" by (simp add: drop_slot_def Let_def)
  have tot: "node_total ?m = Suc (node_total ?m')" using d(2,3) lv by (simp add: node_total_def)
  note cd = change_dec [OF w m d(1) tot h']
  have vm: "value_at ?m' q = (if \<exists>x. q = i # x then None else value_at ?m q)" for q
    using d(3) d(4) [OF lv] lv slot_length [OF s] by (cases q) (auto simp: child_def slot_update)
  have vr: "value_at n x \<noteq> None \<longleftrightarrow> x = r" for x using r by (auto simp: keys_def)
  have v: "value_at h' q = ((value_at h)(pp @ i # r := None)) q" for q
  proof (cases "\<exists>x. q = pp @ x")
    case True
    then obtain x where x: "q = pp @ x" by blast
    have "value_at h' q = value_at ?m' x" "value_at h q = value_at ?m x"
      using cd m value_at_append x by blast+
    then show ?thesis using vm [of x] vr s x by (auto; metis)
  next
    case False
    then show ?thesis using cd by auto
  qed
  then have v: "value_at h' = (value_at h)(pp @ i # r := None)" by blast
  have "{q \<in> keys h. pp @ i # r < q} = {q \<in> keys h'. after_path (pp @ [i]) q}"
  proof (rule set_eqI)
    fix q
    have below: "(pp @ [i]) @ x \<in> keys h \<longleftrightarrow> x = r" for x
      using value_at_append [OF m, of "i # x"] s vr by (simp add: keys_def)
    have "pp @ i # r < q \<longleftrightarrow> after_path (pp @ [i]) q" if q: "q \<in> keys h" "q \<noteq> pp @ i # r"
    proof -
      have "(pp @ [i]) @ r < q \<longleftrightarrow> after_path (pp @ [i]) q \<or> (\<exists>x. q = (pp @ [i]) @ x \<and> r < x)"
        by (rule append_less)
      then show ?thesis using below q by auto
    qed
    moreover have "\<not> after_path (pp @ [i]) (pp @ i # r)" using after_less [of "pp @ [i]" "pp @ i # r" r] by auto
    ultimately show "q \<in> {q \<in> keys h. pp @ i # r < q} \<longleftrightarrow> q \<in> {q \<in> keys h'. after_path (pp @ [i]) q}"
      by (auto simp: keys_removed [OF v])
  qed
  moreover have "least {q \<in> keys h'. after_path (pp @ [i]) q} (LvNext h' pp i)"
    using LvNext_least cd lv by blast
  ultimately show ?thesis using cd tot v by (simp add: removed_def)
qed

lemma erase_level:
  assumes w: "wf_node M h" and m: "get_at h pp = Some (Node (Some v) (Some lv))"
    and r: "keys (Node (Some v) (Some lv)) = {[], i # r}" and h': "h' = change_at Dec drop_level pp h"
  shows "removed M h (pp @ i # r) (Some h') \<and> least {q \<in> keys h. pp @ i # r < q} (OwnerNext h' pp)"
proof -
  let ?m = "Node (Some v) (Some lv)" and ?m' = "Node (Some v) None"
  have wm: "wf_node M ?m" using wf_get_at [OF w m] .
  have "node_total ?m = Suc (node_total (drop_level ?m))"
    using keys_total [OF wm] r by (simp add: drop_level_def node_total_def)
  moreover have "wf_node M (drop_level ?m)" by (simp add: drop_level_def wf_leaf)
  ultimately have cd: "wf_node M h'" "node_total h = Suc (node_total h')" "get_at h' pp = Some ?m'"
    "\<And>q. (\<nexists>r. q = pp @ r) \<Longrightarrow> value_at h' q = value_at h q"
    using change_dec [OF w m _ _ h'] by (auto simp: drop_level_def)
  have vm: "value_at ?m' x = ((value_at ?m)(i # r := None)) x" for x
  proof -
    have "value_at ?m x \<noteq> None \<longleftrightarrow> x = [] \<or> x = i # r" using r by (auto simp: keys_def)
    then show ?thesis by (cases x) auto
  qed
  have "value_at h' q = ((value_at h)(pp @ i # r := None)) q" for q
  proof (cases "\<exists>x. q = pp @ x")
    case True
    then obtain x where x: "q = pp @ x" by blast
    then show ?thesis using vm [of x] value_at_append [OF cd(3), of x] value_at_append [OF m, of x] by auto
  next
    case False
    then show ?thesis using cd(4) by auto
  qed
  then have v: "value_at h' = (value_at h)(pp @ i # r := None)" by blast
  have "{q \<in> keys h. pp @ i # r < q} = {q \<in> keys h'. after_path pp q}"
  proof (rule set_eqI)
    fix q
    have below: "pp @ x \<in> keys h \<longleftrightarrow> x = [] \<or> x = i # r" for x
      using value_at_append [OF m, of x] r by (auto simp: keys_def)
    have "pp @ i # r < q \<longleftrightarrow> after_path pp q" if q: "q \<in> keys h"
    proof -
      have "\<not> i # r < x" if "q = pp @ x" for x using q below [of x] that by auto
      then show ?thesis using append_less [of pp "i # r" q] by blast
    qed
    moreover have "\<not> after_path pp (pp @ i # r)" using after_less [of pp "pp @ i # r" "i # r"] by auto
    ultimately show "q \<in> {q \<in> keys h. pp @ i # r < q} \<longleftrightarrow> q \<in> {q \<in> keys h'. after_path pp q}"
      unfolding keys_removed [OF v] by blast
  qed
  then show ?thesis using OwnerNext_least [OF cd(1,3)] cd v by (simp add: removed_def)
qed

end
