(* ===== verification/TrieSpec.thy ===== *)
theory TrieSpec
  imports TrieUpdate "HOL-Library.Sublist"
begin

text \<open>
  The properties of the trie: it is a finite map from paths of indices, its operations are those
  of the map, and its iterators go through the keys in order. The one exception is a search
  for a bound behind a key that nothing continues.
\<close>

subsection \<open>Erasing\<close>

lemma least_keys_cong: "least {q \<in> keys h. P q} r \<Longrightarrow> (\<And>q. q \<in> keys h \<Longrightarrow> P q = Q q) \<Longrightarrow> least {q \<in> keys h. Q q} r"
  by (metis (mono_tags, lifting) Collect_cong)

lemma erase_up_step:
  assumes w: "wf_node M h" and n: "get_at h (pp @ [i]) = Some n" "keys n = {r}"
    and h0: "h0 = change_at id (set_value None) (pp @ i # r) h"
    and up: "\<And>m. get_at h pp = Some m \<Longrightarrow> keys m = {i # r} \<Longrightarrow>
      removed M h (pp @ i # r) (fst (erase_up h0 pp)) \<and> least {q \<in> keys h. pp @ i # r < q} (snd (erase_up h0 pp))"
  shows "removed M h (pp @ i # r) (fst (erase_up h0 (pp @ [i]))) \<and>
    least {q \<in> keys h. pp @ i # r < q} (snd (erase_up h0 (pp @ [i])))"
proof -
  obtain nv ary cnt lo hi where m: "get_at h pp = Some (Node nv (Some (LvAry ary cnt lo hi)))" and s: "slot ary i = Some n"
    using n(1) by (rule owner_parts)
  let ?m = "Node nv (Some (LvAry ary cnt lo hi))" and ?lv0 = "LvAry (ary[i := Some (change_at id (set_value None) r n)]) cnt lo hi"
  have m0: "get_at h0 pp = Some (Node nv (Some ?lv0))"
    unfolding h0 by (simp add: get_at_change m s)
  have lvl: "level_at h0 pp = Some ?lv0" "value_at h0 pp = nv" using m0 by (simp_all add: level_at_def value_at_def)
  have wm: "wf_node M ?m" using wf_get_at [OF w m] .
  show ?thesis
  proof (cases "lo = hi")
    case False
    define h' where "h' = change_at Dec (drop_slot i) pp h"
    have h0': "change_at Dec (drop_slot i) pp h0 = h'"
      unfolding h0 h'_def change_at_twice drop_slot_change ..
    have e: "removed M h (pp @ i # r) (Some h')" "least {q \<in> keys h. pp @ i # r < q} (LvNext h' pp i)"
      "get_at h' pp = Some (drop_slot i ?m)"
      using erase_in_level [OF w m s n(2) False h'_def] by blast+
    obtain lv where lv: "NextLevel (drop_slot i ?m) = Some lv" by (simp add: drop_slot_def Let_def)
    have tot: "node_total n = 1" using keys_single_total [OF wf_child [OF wm] n(2)] s by simp
    have ix: "Ary lv = ary[i := None]" "IndexMin lv = (if i = lo then up_from (ary[i := None]) hi i else lo)"
      "IndexMax lv = (if i \<noteq> lo \<and> i = hi then down_from (ary[i := None]) lo i else hi)"
      using drop_slot_spec(4) [OF wm s tot False refl lv] by blast+
    have l': "level_at h' pp = Some lv" using e(3) lv by (simp add: level_at_def)
    have lohi: "lo < hi" using wm False by (fastforce simp: wf_inner)
    have sl: "slot (ary[i := None]) j = (if i = j then None else slot ary j)" for j
      using slot_length [OF s] by (simp add: slot_update)
    have ends: "slot ary lo \<noteq> None" "slot ary hi \<noteq> None" using wm by (auto simp: wf_inner)
    have "snd (erase_up h0 (pp @ [i])) = LvNext h' pp i"
    proof -
      consider "i = lo" | "i \<noteq> lo" "i = hi" | "i \<noteq> lo" "i \<noteq> hi" by blast
      then show ?thesis
      proof cases
        case 1
        then have "next_index (ary[i := None]) hi i = Some (IndexMin lv)"
          using up_from_next [of "ary[i := None]" hi i] ends sl lohi ix by simp
        then show ?thesis
          using 1 False lvl l' ix h0' lohi
          by (subst erase_up.simps, subst LvNext.simps) (simp add: Let_def)
      next
        case 2
        have "prev_index (ary[i := None]) lo i = Some (IndexMax lv)"
          using down_from_prev [of "ary[i := None]" lo i] ends sl lohi ix 2 by simp
        then have "IndexMax lv < i" using prev_index_greatest [of lo i "ary[i := None]"] by simp
        then have "next_index (ary[i := None]) (IndexMax lv) i = None" by (subst next_index.simps) simp
        then show ?thesis
          using 2 False lvl l' ix(1) h0'
          by (subst erase_up.simps, subst LvNext.simps) (simp add: Let_def OwnerNext_def)
      next
        case 3
        then show ?thesis using False lvl h0' by (subst erase_up.simps) (simp add: Let_def)
      qed
    qed
    moreover have "fst (erase_up h0 (pp @ [i])) = Some h'"
      using False lvl h0' by (subst erase_up.simps) (simp add: Let_def)
    ultimately show ?thesis using e by simp
  next
    case True
    have only: "slot ary j = (if j = i then Some n else None)" for j
      using wm s True unfolding wf_inner by (metis le_antisym option.exhaust)
    have km: "keys ?m = (if nv \<noteq> None then {[]} else {}) \<union> {i # r}"
    proof -
      have "(case slot ary j of None \<Rightarrow> {} | Some c \<Rightarrow> Cons j ` keys c) = (if j = i then {i # r} else {})" for j
        using only [of j] n(2) by simp
      then have "(\<Union>j<length ary. case slot ary j of None \<Rightarrow> {} | Some c \<Rightarrow> Cons j ` keys c) = {i # r}"
        using slot_length [OF s] by (simp only:) (auto split: if_splits)
      then show ?thesis unfolding keys_inner by simp
    qed
    show ?thesis
    proof (cases nv)
      case None
      then have "erase_up h0 (pp @ [i]) = erase_up h0 pp" using True lvl by (subst erase_up.simps) simp
      then show ?thesis using up [OF m] km None by simp
    next
      case (Some v)
      define h' where "h' = change_at Dec drop_level pp h"
      have h0': "change_at Dec drop_level pp h0 = h'" unfolding h0 h'_def change_at_twice drop_level_change ..
      have "erase_up h0 (pp @ [i]) = (Some h', OwnerNext h' pp)"
        using True lvl Some h0' by (subst erase_up.simps) (simp add: Let_def)
      then show ?thesis using erase_level [OF w _ _ h'_def, of v "LvAry ary cnt lo hi" i r] m km Some by auto
    qed
  qed
qed

lemma erase_up_spec:
  assumes w: "wf_node M h" and h0: "h0 = change_at id (set_value None) p h"
  shows "p = p' @ r \<Longrightarrow> get_at h p' = Some n \<Longrightarrow> keys n = {r} \<Longrightarrow>
    removed M h p (fst (erase_up h0 p')) \<and> least {q \<in> keys h. p < q} (snd (erase_up h0 p'))"
proof (induction p' arbitrary: r n rule: rev_induct)
  case Nil
  then show ?case by (subst (1 2) erase_up.simps) (simp add: removed_def)
next
  case (snoc i pp)
  then show ?case
    using erase_up_step [OF w snoc.prems(2,3), of h0] snoc.IH h0 by simp
qed

lemma erase_spec:
  assumes w: "wf_node M h" and p: "p \<in> keys h"
  shows "removed M h p (fst (trie_erase (Some h) p)) \<and> least {q \<in> keys h. p < q} (snd (trie_erase (Some h) p))"
proof -
  obtain n where n: "get_at h p = Some n" using key_has_node [of p "[]" h] p by auto
  have vn: "NodeValue n \<noteq> None" using p n by (simp add: keys_def value_at_def)
  show ?thesis
  proof (cases "NextLevel n")
    case None
    then have "keys n = {[]}" using vn by (cases n) (auto simp: keys_leaf)
    then show ?thesis
      using erase_up_spec [OF w refl _ n, of p "[]"] None n by (simp add: trie_erase_def level_at_def)
  next
    case (Some lv)
    define h' where "h' = change_at Dec (set_value None) p h"
    have wn: "wf_node M n" using wf_get_at [OF w n] .
    have "wf_node M (set_value None n)" using wn Some by (cases n; cases lv) (auto simp: set_value_def wf_inner)
    moreover have "node_total n = Suc (node_total (set_value None n))" using vn by (simp add: node_total_def set_value_def)
    ultimately have cd: "wf_node M h'" "node_total h = Suc (node_total h')" "get_at h' p = Some (set_value None n)"
      "\<And>q. (\<nexists>r. q = p @ r) \<Longrightarrow> value_at h' q = value_at h q"
      using change_dec [OF w n _ _ h'_def] by auto
    have vs: "value_at (set_value None n) x = ((value_at n)([] := None)) x" for x
      by (cases x) (simp_all add: set_value_def child_def)
    have "value_at h' q = ((value_at h)(p := None)) q" for q
    proof (cases "\<exists>x. q = p @ x")
      case True
      then obtain x where x: "q = p @ x" by blast
      then show ?thesis using vs [of x] value_at_append [OF cd(3), of x] value_at_append [OF n, of x] by auto
    next
      case False
      then show ?thesis using cd(4) by auto
    qed
    then have v: "value_at h' = (value_at h)(p := None)" by blast
    have e: "trie_erase (Some h) p = (Some h', NodeNext h' p)"
      using n Some cd(3) by (simp add: trie_erase_def level_at_def h'_def NodeNext_def set_value_def Let_def)
    have "{q \<in> keys h. p < q} = {q \<in> keys h'. p < q}" by (auto simp: keys_removed [OF v])
    then show ?thesis using NodeNext_least [OF cd(1,3)] e cd v by (simp add: removed_def)
  qed
qed

subsection \<open>Searching for a bound\<close>

definition behind :: "search_fn \<Rightarrow> nat list \<Rightarrow> nat list \<Rightarrow> bool" where
  "behind sfn p q = (case sfn of LowerBound \<Rightarrow> p \<le> q | UpperBound \<Rightarrow> p < q)"

definition leaf_between :: "'v trie_node \<Rightarrow> nat list \<Rightarrow> nat list \<Rightarrow> nat list \<Rightarrow> bool" where
  "leaf_between h p q l = (prefix p l \<and> strict_prefix l q \<and> (\<exists>n. get_at h l = Some n \<and> NextLevel n = None))"

lemma least_below_and_after:
  assumes w: "wf_node M h" and n: "get_at h p = Some n"
  shows "least {q \<in> keys h. p \<le> q} (first_at h p)"
proof -
  let ?A = "{q \<in> keys h. \<exists>r. q = p @ r}"
  have "least (?A \<union> {q \<in> keys h. after_path p q}) (first_at h p)"
    by (rule least_union [OF first_at_least [OF w n] keys_below_ne [OF w n]])
      (auto intro: less_imp_le after_less)
  moreover have "?A \<union> {q \<in> keys h. after_path p q} = {q \<in> keys h. p \<le> q}"
    using less_path_iff [of p] by (fastforce simp: order_le_less)
  ultimately show ?thesis by simp
qed

lemma min_is_next:
  assumes w: "wf_node M n" and lv: "NextLevel n = Some lv" and "idx < IndexMin lv"
  shows "next_index (Ary lv) (IndexMax lv) idx = Some (IndexMin lv)"
proof (rule least_unique [OF next_index_least])
  show "least {j. idx < j \<and> j \<le> IndexMax lv \<and> slot (Ary lv) j \<noteq> None} (Some (IndexMin lv))"
    using child_iff [OF w lv] lv assms(3) by (auto simp: child_def)
qed

lemma bound_spec:
  assumes w: "wf_node M h"
  shows "get_at h p = Some cur \<Longrightarrow> full = p @ map (ToIndex kt) key \<Longrightarrow> r = bound_from kt sfn h cur p key \<Longrightarrow>
    (\<forall>l. leaf_between h p full l \<longrightarrow> r = Some l) \<and>
    ((\<exists>l. leaf_between h p full l) \<or> least {q \<in> keys h. behind sfn full q} r)"
proof (induction key arbitrary: p cur r)
  case Nil
  have none: "\<not> leaf_between h p full l" for l
    using Nil.prems(2) by (auto simp: leaf_between_def)
  have "least {q \<in> keys h. behind sfn p q} r"
  proof (cases "NodeValue cur")
    case None
    then have "p \<notin> keys h" using Nil.prems(1) by (simp add: keys_def value_at_def)
    then have "{q \<in> keys h. behind sfn p q} = {q \<in> keys h. p \<le> q}"
      by (cases sfn) (auto simp: behind_def order_le_less)
    then show ?thesis
      using least_below_and_after [OF w Nil.prems(1)] None Nil.prems by (simp add: first_at_def)
  next
    case (Some v)
    then have "p \<in> keys h" using Nil.prems(1) by (simp add: keys_def value_at_def)
    then show ?thesis
      using Some NodeNext_least [OF w Nil.prems(1)] Nil.prems by (cases sfn) (auto simp: behind_def)
  qed
  then show ?case using none Nil.prems by simp
next
  case (Cons k key)
  let ?i = "ToIndex kt k" and ?q = "map (ToIndex kt) key"
  have wc: "wf_node M cur" using wf_get_at [OF w Cons.prems(1)] .
  show ?case
  proof (cases "NextLevel cur")
    case None
    have nil: "get_at cur x = Some n \<Longrightarrow> x = []" for x n using None by (cases x) (simp_all add: child_def)
    have "leaf_between h p full l \<longleftrightarrow> l = p" for l
      using Cons.prems(1,2) None nil by (auto simp: leaf_between_def prefix_def strict_prefix_def get_at_append)
    moreover have "First cur = Some []" using None wc by (subst First.simps) (auto elim: wf_nodeE)
    ultimately show ?thesis using None Cons.prems by auto
  next
    case (Some lv)
    show ?thesis
    proof (cases "child cur ?i")
      case c: (Some c)
      have "leaf_between h (p @ [?i]) full l \<longleftrightarrow> leaf_between h p full l" for l
        using Cons.prems(1,2) Some by (auto simp: leaf_between_def prefix_def strict_prefix_def Cons_eq_append_conv)
      then show ?thesis
        using Cons.IH [of "p @ [?i]" c r] Cons.prems Some c by (simp add: get_at_snoc Let_def)
    next
      case c: None
      have nokey: "p @ ?i # x \<notin> keys h" for x
        using key_has_node [of "p @ [?i]" x h] Cons.prems(1) c by (auto simp: get_at_snoc)
      have "\<not> leaf_between h p full l" for l
      proof
        assume l: "leaf_between h p full l"
        then obtain x where x: "l = p @ x" by (auto simp: leaf_between_def prefix_def)
        then have "strict_prefix x (?i # ?q)" using l Cons.prems(2) by (simp add: leaf_between_def strict_prefix_def)
        then show False using l x Cons.prems(1) Some c
          by (cases x) (auto simp: leaf_between_def get_at_append)
      qed
      moreover have "behind sfn full q \<longleftrightarrow> after_path (p @ [?i]) q" if "q \<in> keys h" for q
      proof -
        have "full < q \<longleftrightarrow> after_path (p @ [?i]) q"
          using append_less [of "p @ [?i]" ?q q] nokey that Cons.prems(2) by auto
        moreover have "full \<noteq> q" using nokey [of ?q] that Cons.prems(2) by auto
        ultimately show ?thesis by (cases sfn) (auto simp: behind_def order_le_less)
      qed
      moreover have "r = LvNext h p ?i"
      proof (cases "?i < IndexMin lv")
        case True
        then show ?thesis
          using min_is_next [OF wc Some True] Cons.prems Some c
          by (subst LvNext.simps) (simp add: level_at_def Let_def)
      next
        case False
        then show ?thesis using Cons.prems Some c by (simp add: Let_def)
      qed
      ultimately show ?thesis
        using least_keys_cong [OF LvNext_least [OF w Cons.prems(1) Some, of ?i], of "behind sfn full"] by blast
    qed
  qed
qed

lemma leaf_iff:
  assumes w: "wf_node M h"
  shows "l \<in> keys h \<and> (\<forall>r\<in>keys h. \<not> strict_prefix l r) \<longleftrightarrow> (\<exists>n. get_at h l = Some n \<and> NextLevel n = None)"
proof
  assume l: "l \<in> keys h \<and> (\<forall>r\<in>keys h. \<not> strict_prefix l r)"
  then obtain n where n: "get_at h l = Some n" using key_has_node [of l "[]" h] by auto
  have "NextLevel n = None"
  proof (rule ccontr)
    assume "NextLevel n \<noteq> None"
    then obtain lv where lv: "NextLevel n = Some lv" by auto
    then obtain c where c: "child n (IndexMin lv) = Some c" using child_iff [OF wf_get_at [OF w n]] by blast
    then obtain q where "q \<in> keys c" using keys_ne [OF wf_child [OF wf_get_at [OF w n]]] by blast
    then have "l @ IndexMin lv # q \<in> keys h" using value_at_append [OF n] c by (simp add: keys_def)
    then show False using l by (auto simp: strict_prefix_def)
  qed
  then show "\<exists>n. get_at h l = Some n \<and> NextLevel n = None" using n by blast
next
  assume "\<exists>n. get_at h l = Some n \<and> NextLevel n = None"
  then obtain n where n: "get_at h l = Some n" "NextLevel n = None" by blast
  have "keys n = {[]}" using wf_get_at [OF w n(1)] n(2) by (cases n) (auto simp: wf_leaf keys_leaf)
  then have "l @ x \<in> keys h \<longleftrightarrow> x = []" for x using value_at_append [OF n(1), of x] by (auto simp: keys_def)
  then show "l \<in> keys h \<and> (\<forall>r\<in>keys h. \<not> strict_prefix l r)"
    by (metis append.right_neutral prefixE strict_prefix_def)
qed

subsection \<open>The trie as a map\<close>

definition trie_map :: "'v trie \<Rightarrow> nat list \<rightharpoonup> 'v" where
  "trie_map t p = (case t of None \<Rightarrow> None | Some h \<Rightarrow> value_at h p)"

definition path_of :: "key_trans \<Rightarrow> byte list \<Rightarrow> nat list" where
  "path_of kt key = map (ToIndex kt) key"

lemma trie_map_simps [simp]: "trie_map None = Map.empty" "trie_map (Some h) = value_at h"
  by (auto simp: trie_map_def)

lemma dom_trie_map [simp]: "dom (value_at h) = keys h"
  by (simp add: dom_def keys_def)

lemma find_from_eq: "get_at h p = Some n \<Longrightarrow> find_from kt n key p =
   (if get_at n (path_of kt key) = None then None else Some (p @ path_of kt key))"
proof (induction key arbitrary: n p)
  case (Cons k key)
  then show ?case
    by (cases "child n (ToIndex kt k)") (simp_all add: path_of_def get_at_snoc)
qed (simp add: path_of_def)

lemma find_mapped_eq: "find_mapped kt t key = trie_map t (path_of kt key)"
  by (cases t) (auto simp: find_mapped_def find_node_def find_from_eq [of _ "[]"] value_at_def)

lemma trie_find_eq: "trie_find kt t key = (if trie_map t (path_of kt key) = None then None else Some (path_of kt key))"
  by (cases t) (auto simp: trie_find_def find_node_def find_from_eq [of _ "[]"] value_at_def split: option.splits)

lemma trie_size_eq:
  assumes "wf_trie kt t"
  shows "finite (dom (trie_map t)) \<and> trie_size t = card (dom (trie_map t))"
proof (cases t)
  case (Some h)
  then have w: "wf_node (MaxIndex kt + 1) h" using assms by (simp add: wf_trie_def)
  have "trie_size t = node_total h" by (simp add: Some trie_size_def node_total_def split: option.split)
  then show ?thesis using keys_finite [OF w] keys_total [OF w] Some by simp
qed (simp add: trie_size_def)

lemma emplace_spec:
  assumes kt: "index_in_range kt" and t: "wf_trie kt t"
  shows "snd (emplace kt t key v) = (path_of kt key, trie_map t (path_of kt key) = None) \<and>
    wf_trie kt (fst (emplace kt t key v)) \<and>
    trie_map (fst (emplace kt t key v)) =
      (if trie_map t (path_of kt key) = None then (trie_map t)(path_of kt key \<mapsto> v) else trie_map t)"
proof -
  let ?n = "case t of None \<Rightarrow> Node None None | Some h \<Rightarrow> h" and ?p = "map (ToIndex kt) key"
  have opn: "open_node (MaxIndex kt + 1) ?n" using t by (simp add: open_node_def wf_trie_def split: option.splits)
  have m: "trie_map t = value_at ?n" by (cases t) (auto simp: fun_eq_iff)
  have v: "value_at (make_path kt key ?n) ?p = value_at ?n ?p" by (rule make_path_value [OF kt opn])
  show ?thesis
  proof (cases "value_at ?n ?p")
    case None
    then show ?thesis
      using put_node [OF kt refl opn None refl, of v] v m by (simp add: emplace_def Let_def path_of_def wf_trie_def)
  next
    case (Some x)
    then obtain h where h: "t = Some h" by (cases t) auto
    then have "make_path kt key h = h" using make_path_old [OF kt, of h key] t Some by (simp add: wf_trie_def)
    then show ?thesis using h Some t by (simp add: emplace_def Let_def path_of_def wf_trie_def)
  qed
qed

lemma trie_erase_spec:
  assumes t: "wf_trie kt t" and p: "trie_map t p \<noteq> None"
  shows "wf_trie kt (fst (trie_erase t p)) \<and> trie_map (fst (trie_erase t p)) = (trie_map t)(p := None) \<and>
    least {q \<in> dom (trie_map t). p < q} (snd (trie_erase t p))"
proof -
  obtain h where h: "t = Some h" using p by (cases t) auto
  have w: "wf_node (MaxIndex kt + 1) h" using t h by (simp add: wf_trie_def)
  have "p \<in> keys h" using p h by (simp add: keys_def)
  from erase_spec [OF w this]
  have e: "removed (MaxIndex kt + 1) h p (fst (trie_erase t p))" "least {q \<in> dom (trie_map t). p < q} (snd (trie_erase t p))"
    using h by simp_all
  show ?thesis
  proof (cases "fst (trie_erase t p)")
    case None
    then have "keys h = {p}" using e(1) by (simp add: removed_def)
    then have "value_at h q \<noteq> None \<longleftrightarrow> q = p" for q by (auto simp: keys_def)
    then have "(value_at h)(p := None) = Map.empty" by (metis fun_upd_apply ext)
    then show ?thesis using None e h by (simp add: wf_trie_def)
  next
    case (Some h')
    then show ?thesis using e h by (simp add: removed_def wf_trie_def)
  qed
qed

datatype 'v trie_op = OpEmplace "byte list" 'v | OpErase "byte list" | OpClear

fun trie_step :: "key_trans \<Rightarrow> 'v trie \<Rightarrow> 'v trie_op \<Rightarrow> 'v trie" where
  "trie_step kt t (OpEmplace key v) = fst (emplace kt t key v)"
| "trie_step kt t (OpErase key) = (case trie_find kt t key of None \<Rightarrow> t | Some p \<Rightarrow> fst (trie_erase t p))"
| "trie_step kt t OpClear = None"

fun map_step :: "key_trans \<Rightarrow> (nat list \<rightharpoonup> 'v) \<Rightarrow> 'v trie_op \<Rightarrow> (nat list \<rightharpoonup> 'v)" where
  "map_step kt m (OpEmplace key v) = (if m (path_of kt key) = None then m(path_of kt key \<mapsto> v) else m)"
| "map_step kt m (OpErase key) = m(path_of kt key := None)"
| "map_step kt m OpClear = Map.empty"

lemma trie_run:
  assumes "index_in_range kt"
  shows "wf_trie kt t \<Longrightarrow> wf_trie kt (foldl (trie_step kt) t ops) \<and>
    trie_map (foldl (trie_step kt) t ops) = foldl (map_step kt) (trie_map t) ops"
proof (induction ops arbitrary: t)
  case (Cons op ops)
  have "wf_trie kt (trie_step kt t op) \<and> trie_map (trie_step kt t op) = map_step kt (trie_map t) op"
  proof (cases op)
    case (OpEmplace key v)
    then show ?thesis using emplace_spec [OF assms Cons.prems, of key v] by simp
  next
    case (OpErase key)
    then show ?thesis
      using trie_erase_spec [OF Cons.prems, of "path_of kt key"] Cons.prems by (auto simp: trie_find_eq fun_eq_iff)
  qed (simp add: wf_trie_def)
  then show ?case using Cons.IH by simp
qed simp

text \<open>
  C34: Over any operations the trie is a map: a lookup by a key finds what a map from the paths of
  the keys holds, and \<open>size\<close> is the number of its entries. Keys that differ only in bytes
  which the key type does not tell apart are one key.
\<close>

theorem trie_refines_map:
  assumes "index_in_range kt"
  shows "find_mapped kt (foldl (trie_step kt) None ops) key = foldl (map_step kt) Map.empty ops (path_of kt key)
    \<and> trie_size (foldl (trie_step kt) None ops) = card (dom (foldl (map_step kt) Map.empty ops))"
proof -
  have "wf_trie kt None" by (simp add: wf_trie_def)
  from trie_run [OF assms this, of ops] show ?thesis
    using trie_size_eq [of kt "foldl (trie_step kt) None ops"] by (simp add: find_mapped_eq)
qed

lemma trie_refines_map_witness:
  "find_mapped TrieKeyAlNum (foldl (trie_step TrieKeyAlNum) None
      [OpEmplace (ascii ''2330'') (1::nat), OpEmplace (ascii ''23'') 2, OpErase (ascii ''2330'')]) (ascii ''23'') = Some 2
   \<and> trie_size (foldl (trie_step TrieKeyAlNum) None
      [OpEmplace (ascii ''2330'') (1::nat), OpEmplace (ascii ''23'') 2, OpErase (ascii ''2330'')]) = 1"
proof -
  let ?ops = "[OpEmplace (ascii ''2330'') (1::nat), OpEmplace (ascii ''23'') 2, OpErase (ascii ''2330'')]"
  have "path_of TrieKeyAlNum (ascii ''23'') \<noteq> path_of TrieKeyAlNum (ascii ''2330'')"
    by (simp add: path_of_def ascii_def)
  then have "foldl (map_step TrieKeyAlNum) Map.empty ?ops = [path_of TrieKeyAlNum (ascii ''23'') \<mapsto> 2]"
    by (auto simp: fun_eq_iff)
  then show ?thesis
    using trie_refines_map [OF index_in_range_types(3), of ?ops "ascii ''23''"] by simp
qed

text \<open>
  A value that is taken out by its iterator is gone and nothing else is; the iterator returned
  stands at the key that follows, or at the end.
\<close>

theorem erase_steps_to_the_next_key:
  assumes "wf_trie kt t" "trie_map t p \<noteq> None"
  shows "trie_map (fst (trie_erase t p)) = (trie_map t)(p := None)
    \<and> least {q \<in> dom (trie_map t). p < q} (snd (trie_erase t p))"
  using trie_erase_spec [OF assms] by blast

lemma erase_steps_to_the_next_key_witness:
  "trie_map (fst (trie_erase (fst (emplace TrieKeyNum None (ascii ''7'') ''x'')) [7])) = Map.empty"
proof -
  have w: "wf_trie TrieKeyNum (None :: string trie)" by (simp add: wf_trie_def)
  have p: "path_of TrieKeyNum (ascii ''7'') = [7]" by (simp add: path_of_def TrieKeyNum_def ascii_def)
  note e = emplace_spec [OF index_in_range_types(4) w, of "ascii ''7''" "''x''", unfolded p]
  then show ?thesis
    using erase_steps_to_the_next_key [of TrieKeyNum "fst (emplace TrieKeyNum None (ascii ''7'') ''x'')" "[7]"] by simp
qed

text \<open>
  \<open>lower_bound\<close> and \<open>upper_bound\<close> find the first key not before the one looked for, or behind
  it, when no entry lies on the way to it that nothing continues.
\<close>

theorem bounds_are_found:
  assumes "wf_trie kt t"
    and "\<And>l. l \<in> dom (trie_map t) \<Longrightarrow> strict_prefix l (path_of kt key) \<Longrightarrow> \<exists>r\<in>dom (trie_map t). strict_prefix l r"
  shows "least {q \<in> dom (trie_map t). behind sfn (path_of kt key) q} (SearchBound kt sfn t key)"
proof (cases t)
  case (Some h)
  have w: "wf_node (MaxIndex kt + 1) h" using assms(1) Some by (simp add: wf_trie_def)
  have "\<not> leaf_between h [] (path_of kt key) l" for l
    using leaf_iff [OF w, of l] assms(2) [of l] Some by (auto simp: leaf_between_def)
  then show ?thesis
    using bound_spec [OF w, of "[]" h "path_of kt key" kt key _ sfn] Some by (auto simp: SearchBound_def path_of_def)
qed (simp add: SearchBound_def)

text \<open>Else they stop at that entry, which lies in front of the key looked for.\<close>

theorem bound_stops_at_a_leaf:
  assumes "wf_trie kt t" "l \<in> dom (trie_map t)" "strict_prefix l (path_of kt key)"
    and "\<And>r. r \<in> dom (trie_map t) \<Longrightarrow> \<not> strict_prefix l r"
  shows "SearchBound kt sfn t key = Some l \<and> l < path_of kt key"
proof -
  obtain h where h: "t = Some h" using assms(2) by (cases t) auto
  have w: "wf_node (MaxIndex kt + 1) h" using assms(1) h by (simp add: wf_trie_def)
  have "leaf_between h [] (path_of kt key) l"
    using leaf_iff [OF w, of l] assms h by (auto simp: leaf_between_def)
  then have "SearchBound kt sfn t key = Some l"
    using bound_spec [OF w, of "[]" h "path_of kt key" kt key _ sfn] h by (auto simp: SearchBound_def path_of_def)
  moreover have "l < path_of kt key" using assms(3) by (auto simp: less_path_iff strict_prefix_def prefix_def)
  ultimately show ?thesis by blast
qed

lemma one_digit:
  "wf_trie TrieKeyNum (fst (emplace TrieKeyNum None (ascii ''7'') x))"
  "dom (trie_map (fst (emplace TrieKeyNum None (ascii ''7'') x))) = {[7]}"
proof -
  have w: "wf_trie TrieKeyNum None" by (simp add: wf_trie_def)
  have p: "path_of TrieKeyNum (ascii ''7'') = [7]" by (simp add: path_of_def TrieKeyNum_def ascii_def)
  note e = emplace_spec [OF index_in_range_types(4) w, of "ascii ''7''" x, unfolded p]
  then show "wf_trie TrieKeyNum (fst (emplace TrieKeyNum None (ascii ''7'') x))"
    "dom (trie_map (fst (emplace TrieKeyNum None (ascii ''7'') x))) = {[7]}" by auto
qed

lemma bounds_are_found_witness:
  "SearchBound TrieKeyNum LowerBound (fst (emplace TrieKeyNum None (ascii ''7'') ''x'')) (ascii ''52'') = Some [7]"
proof -
  let ?t = "fst (emplace TrieKeyNum None (ascii ''7'') ''x'')"
  have p: "path_of TrieKeyNum (ascii ''52'') = [5, 2]" by (simp add: path_of_def TrieKeyNum_def ascii_def)
  have "least {q \<in> {[7]}. behind LowerBound [5, 2] q} (SearchBound TrieKeyNum LowerBound ?t (ascii ''52''))"
    using bounds_are_found [OF one_digit(1) [of "''x''"], of "ascii ''52''" LowerBound] unfolding one_digit(2) p by auto
  then show ?thesis by (cases "SearchBound TrieKeyNum LowerBound ?t (ascii ''52'')") (auto simp: behind_def)
qed

lemma bound_stops_at_a_leaf_witness:
  "SearchBound TrieKeyNum LowerBound (fst (emplace TrieKeyNum None (ascii ''7'') ''x'')) (ascii ''72'') = Some [7]"
proof -
  have p: "path_of TrieKeyNum (ascii ''72'') = [7, 2]" by (simp add: path_of_def TrieKeyNum_def ascii_def)
  show ?thesis
    using bound_stops_at_a_leaf [OF one_digit(1) [of "''x''"], of "[7]" "ascii ''72''" LowerBound]
    unfolding one_digit(2) p by (auto simp: strict_prefix_def)
qed

subsection \<open>Going through all entries\<close>

fun walk_up :: "'v trie \<Rightarrow> nat \<Rightarrow> nat list option \<Rightarrow> nat list list" where
  "walk_up t 0 i = []"
| "walk_up t (Suc n) i = (case i of None \<Rightarrow> [] | Some p \<Rightarrow> p # walk_up t n (ToNext t p))"

fun walk_down :: "'v trie \<Rightarrow> nat \<Rightarrow> nat list option \<Rightarrow> nat list list" where
  "walk_down t 0 i = []"
| "walk_down t (Suc n) i = (case i of None \<Rightarrow> [] | Some p \<Rightarrow> p # walk_down t n (ToPrev t (Some p)))"

lemma walk_None [simp]: "walk_up t n None = []" "walk_down t n None = []"
  by (cases n; simp)+

lemma walk_up_keys:
  assumes w: "wf_node M h"
  shows "least R i \<Longrightarrow> R \<subseteq> keys h \<Longrightarrow> (\<And>q r. q \<in> R \<Longrightarrow> r \<in> keys h \<Longrightarrow> q \<le> r \<Longrightarrow> r \<in> R) \<Longrightarrow> card R \<le> n \<Longrightarrow>
    sorted_wrt (<) (walk_up (Some h) n i) \<and> set (walk_up (Some h) n i) = R"
proof (induction n arbitrary: R i)
  case 0
  have "finite R" by (rule finite_subset [OF 0(2) keys_finite [OF w]])
  then show ?case using 0(4) by simp
next
  case (Suc n)
  show ?case
  proof (cases i)
    case None
    then show ?thesis using Suc.prems by simp
  next
    case (Some p)
    have p: "p \<in> R" "\<forall>s\<in>R. p \<le> s" using Suc.prems(1) Some by simp_all
    let ?R = "{q \<in> keys h. p < q}"
    have R: "R = insert p ?R" using p Suc.prems(2,3) by (auto simp: order_le_less)
    obtain m where m: "get_at h p = Some m" using key_has_node [of p "[]" h] p Suc.prems(2) by auto
    have "card R = Suc (card ?R)" using arg_cong [OF R, of card] keys_finite [OF w] by simp
    then have "sorted_wrt (<) (walk_up (Some h) n (NodeNext h p)) \<and> set (walk_up (Some h) n (NodeNext h p)) = ?R"
      using Suc.prems(4) by (intro Suc.IH NodeNext_least [OF w m]) auto
    then show ?thesis unfolding Some using R [symmetric] by (simp add: ToNext_def)
  qed
qed

lemma walk_down_keys:
  assumes w: "wf_node M h"
  shows "greatest R i \<Longrightarrow> R \<subseteq> keys h \<Longrightarrow> (\<And>q r. q \<in> R \<Longrightarrow> r \<in> keys h \<Longrightarrow> r \<le> q \<Longrightarrow> r \<in> R) \<Longrightarrow> card R \<le> n \<Longrightarrow>
    sorted_wrt (>) (walk_down (Some h) n i) \<and> set (walk_down (Some h) n i) = R"
proof (induction n arbitrary: R i)
  case 0
  have "finite R" by (rule finite_subset [OF 0(2) keys_finite [OF w]])
  then show ?case using 0(4) by simp
next
  case (Suc n)
  show ?case
  proof (cases i)
    case None
    then show ?thesis using Suc.prems by simp
  next
    case (Some p)
    have p: "p \<in> R" "\<forall>s\<in>R. s \<le> p" using Suc.prems(1) Some by simp_all
    let ?R = "{q \<in> keys h. q < p}"
    have R: "R = insert p ?R" using p Suc.prems(2,3) by (auto simp: order_le_less)
    obtain m where m: "get_at h p = Some m" using key_has_node [of p "[]" h] p Suc.prems(2) by auto
    have "card R = Suc (card ?R)" using arg_cong [OF R, of card] keys_finite [OF w] by simp
    then have "sorted_wrt (>) (walk_down (Some h) n (NodePrev h p)) \<and> set (walk_down (Some h) n (NodePrev h p)) = ?R"
      using Suc.prems(4) by (intro Suc.IH NodePrev_greatest [OF w m]) auto
    then show ?thesis unfolding Some using R [symmetric] by (simp add: ToPrev_def)
  qed
qed

text \<open>
  C35: From \<open>begin()\<close> the iterator goes through all entries in ascending order and then stands at
  \<open>end()\<close>; from there it goes back through all of them in descending order.
\<close>

theorem iterators_visit_all_in_order:
  assumes "wf_trie kt t" "card (dom (trie_map t)) \<le> n"
  shows "sorted_wrt (<) (walk_up t n (trie_begin t)) \<and> set (walk_up t n (trie_begin t)) = dom (trie_map t)
    \<and> sorted_wrt (>) (walk_down t n (ToPrev t None)) \<and> set (walk_down t n (ToPrev t None)) = dom (trie_map t)"
proof (cases t)
  case None
  then show ?thesis by (simp add: trie_begin_def ToPrev_def)
next
  case (Some h)
  have w: "wf_node (MaxIndex kt + 1) h" using assms(1) Some by (simp add: wf_trie_def)
  show ?thesis
    using walk_up_keys [OF w First_least [OF w], of n] walk_down_keys [OF w Last_greatest [OF w], of n] assms(2) Some
    by (simp add: trie_begin_def ToPrev_def)
qed

lemma iterators_visit_all_in_order_witness:
  "set (walk_up (fst (emplace TrieKeyNum None (ascii ''7'') ''x'')) 1 (trie_begin (fst (emplace TrieKeyNum None (ascii ''7'') ''x'')))) = {[7]}"
  using iterators_visit_all_in_order [OF one_digit(1) [of "''x''"], of 1] unfolding one_digit(2) by simp

end
