(* ===== verification/ReloadProps.thy ===== *)
theory ReloadProps
  imports ReloadSent
begin

text \<open>
  What \<open>FindNext\<close> of \<open>ReloadSent\<close> delivers: the sent messages of the rest of the file, one after
  the other, however the file is cut into reads. A line must fit the space that is kept for an
  incomplete one.
\<close>

subsection \<open>Lines\<close>

function complete_lines :: "byte list \<Rightarrow> byte list list" where
  "complete_lines data = (if 0xa \<notin> set data then []
     else takeWhile (\<lambda>c. c \<noteq> 0xa) data # complete_lines (tl (dropWhile (\<lambda>c. c \<noteq> 0xa) data)))"
  by auto
termination
proof (relation "measure length")
  fix data :: "byte list" assume "\<not> 0xa \<notin> set data"
  then have "length (dropWhile (\<lambda>c. c \<noteq> 0xa) data) \<le> length data" "0 < length data"
    by (auto simp: length_dropWhile_le)
  then show "(tl (dropWhile (\<lambda>c. c \<noteq> 0xa) data), data) \<in> measure length"
    unfolding in_measure length_tl by linarith
qed simp

declare complete_lines.simps [simp del]

lemma first_newline:
  "0xa \<notin> set L \<Longrightarrow> takeWhile (\<lambda>c. c \<noteq> 0xa) (L @ 0xa # rest) = L \<and> dropWhile (\<lambda>c. c \<noteq> 0xa) (L @ 0xa # rest) = 0xa # rest"
  for L :: "byte list"
  by (induction L) auto

lemma complete_lines_none [simp]: "0xa \<notin> set data \<Longrightarrow> complete_lines data = []"
  by (subst complete_lines.simps) simp

lemma complete_lines_line [simp]: "0xa \<notin> set L \<Longrightarrow> complete_lines (L @ 0xa # data) = L # complete_lines data"
  by (subst complete_lines.simps) (simp add: first_newline)

definition sent_of :: "byte list \<Rightarrow> byte list option" where
  "sent_of line = (if line \<noteq> [] \<and> hd line = 0x53 then SkipTimestamp line else None)"

definition sent_lines :: "byte list \<Rightarrow> byte list list" where
  "sent_lines data = List.map_filter sent_of (complete_lines data)"

lemma sent_lines_simps [simp]:
  "0xa \<notin> set data \<Longrightarrow> sent_lines data = []"
  "0xa \<notin> set L \<Longrightarrow> sent_lines (L @ 0xa # data) = (case sent_of L of None \<Rightarrow> sent_lines data | Some m \<Rightarrow> m # sent_lines data)"
  "sent_lines (0xa # data) = sent_lines data"
proof -
  show "0xa \<notin> set data \<Longrightarrow> sent_lines data = []" by (simp add: sent_lines_def)
  show "0xa \<notin> set L \<Longrightarrow> sent_lines (L @ 0xa # data) = (case sent_of L of None \<Rightarrow> sent_lines data | Some m \<Rightarrow> m # sent_lines data)" for L
    by (simp add: sent_lines_def map_filter_simps split: option.split)
  show "sent_lines (0xa # data) = sent_lines data"
    using complete_lines_line [of "[]" data] by (simp add: sent_lines_def map_filter_simps sent_of_def)
qed

lemma line_cases:
  obtains "0xa \<notin> set data" | L rest where "data = L @ 0xa # rest" "0xa \<notin> set L"
  by (metis split_list_first)

definition short_lines :: "byte list \<Rightarrow> bool" where
  "short_lines data = (\<forall>xs ys zs. data = xs @ ys @ zs \<longrightarrow> 0xa \<notin> set ys \<longrightarrow> length ys \<le> kMaxFixMsgBufferSize)"

lemma short_lines_part: "short_lines (xs @ ys @ zs) \<Longrightarrow> short_lines ys"
  unfolding short_lines_def by (metis append.assoc)

subsection \<open>One buffer\<close>

lemma scan_lines_none: "0xa \<notin> set data \<Longrightarrow> scan_lines data = Inr (take kMaxFixMsgBufferSize data)"
  by (subst scan_lines.simps) auto

lemma scan_lines_line:
  assumes "0xa \<notin> set L"
  shows "scan_lines (L @ 0xa # rest) = (case sent_of L of Some m \<Rightarrow> Inl (m, 0xa # rest) | None \<Rightarrow> scan_lines rest)"
proof -
  note first_newline [OF assms, of rest]
  moreover have "hd (L @ 0xa # rest) = 0x53 \<longleftrightarrow> L \<noteq> [] \<and> hd L = 0x53" by (cases L) simp_all
  moreover have "SkipTimestamp [] = None" by (simp add: SkipTimestamp_def kTimeStampWidth_def)
  ultimately show ?thesis
    by (subst scan_lines.simps) (auto simp: sent_of_def Let_def split: option.split)
qed

text \<open>\<open>ext\<close> is what follows the buffer in the file.\<close>

lemma scan_lines_spec:
  "short_lines data \<Longrightarrow> (case scan_lines data of
      Inl (m, rest) \<Rightarrow> sent_lines (data @ ext) = m # sent_lines (rest @ ext) \<and> (\<exists>pre. data = pre @ rest)
    | Inr remain \<Rightarrow> sent_lines (data @ ext) = sent_lines (remain @ ext) \<and> (\<exists>pre. data = pre @ remain) \<and> 0xa \<notin> set remain)"
proof (induction "length data" arbitrary: data rule: less_induct)
  case less
  show ?case
  proof (rule line_cases [of data])
    assume no: "0xa \<notin> set data"
    then have "length data \<le> kMaxFixMsgBufferSize" using less.prems unfolding short_lines_def by (metis append_Nil append_Nil2)
    then show ?thesis using no by (simp add: scan_lines_none)
  next
    fix L rest assume d: "data = L @ 0xa # rest" "0xa \<notin> set L"
    have "short_lines ((L @ [0xa]) @ rest @ [])" using less.prems d by simp
    then have sh: "short_lines rest" by (rule short_lines_part)
    note IH = less.hyps [OF _ sh]
    show ?thesis
    proof (cases "sent_of L")
      case None
      then show ?thesis using IH d scan_lines_line [OF d(2), of rest]
        by (auto split: sum.splits prod.splits)
    next
      case (Some m)
      then show ?thesis using d scan_lines_line [OF d(2), of rest] by auto
    qed
  qed
qed

subsection \<open>The file\<close>

text \<open>The buffer holds \<open>data\<close> last, which stands in the file in front of the next read.\<close>

definition reload_at :: "byte list \<Rightarrow> byte list \<Rightarrow> reload_sent \<Rightarrow> bool" where
  "reload_at file data r = (\<exists>len pre. FoundDataLen r = Some len \<and> CurBufferPos r + len \<le> length file
     \<and> take (CurBufferPos r + len) file = pre @ data)"

definition reload_rest :: "byte list \<Rightarrow> byte list \<Rightarrow> reload_sent \<Rightarrow> byte list" where
  "reload_rest file data r = data @ drop (CurBufferPos r + the (FoundDataLen r)) file"

lemma read_on: "take n (drop p xs) @ drop (p + length (take n (drop p xs))) xs = drop p xs"
proof -
  have "drop (p + length (take n (drop p xs))) xs = drop (length (take n (drop p xs))) (drop p xs)"
    by (simp only: drop_drop add.commute)
  also have "\<dots> = drop n (drop p xs)" by (cases "n \<le> length (drop p xs)") simp_all
  finally show ?thesis by (simp only: append_take_drop_id)
qed

lemma sent_of_newline: "sent_lines (if data \<noteq> [] \<and> hd data = 0xa then tl data @ ext else data @ ext) = sent_lines (data @ ext)"
  by (cases data) auto

lemma find_next_loop_spec:
  fixes rd :: "nat \<Rightarrow> nat \<Rightarrow> 'e + byte list"
  assumes sh: "short_lines file" and rd: "rd = file_read file"
  shows "reload_at file data r \<Longrightarrow> length file - (CurBufferPos r + the (FoundDataLen r)) < fuel \<Longrightarrow>
    \<exists>r' m. find_next_loop fuel rd data r = Some r' \<and> CurMsg r' = Some m
      \<and> reload_at file (AfterMsg r') r'
      \<and> (case sent_lines (reload_rest file data r) of
           [] \<Rightarrow> m = [] \<and> sent_lines (reload_rest file (AfterMsg r') r') = []
         | x # xs \<Rightarrow> m = x \<and> sent_lines (reload_rest file (AfterMsg r') r') = xs)"
proof (induction fuel arbitrary: data r)
  case (Suc f)
  obtain len pre where r: "FoundDataLen r = Some len" "CurBufferPos r + len \<le> length file"
    "take (CurBufferPos r + len) file = pre @ data"
    using Suc.prems(1) by (auto simp: reload_at_def)
  let ?pos = "CurBufferPos r + len"
  let ?ext = "drop ?pos file"
  define d where "d = (if data \<noteq> [] \<and> hd data = 0xa then tl data else data)"
  have d: "\<exists>p. data = p @ d" by (cases data) (auto simp: d_def)
  have F: "file = pre @ data @ ?ext" using r(3) by (metis append.assoc append_take_drop_id)
  then have "short_lines data" using sh short_lines_part by metis
  then have shd: "short_lines d" using d short_lines_part [of _ d "[]"] by auto
  have scan: "(if data = [] then Inr [] else scan_lines (if hd data = 0xa then tl data else data)) = scan_lines d"
    by (simp add: d_def scan_lines_none)
  have rest: "sent_lines (reload_rest file data r) = sent_lines (d @ ?ext)"
    using sent_of_newline [of data ?ext] r(1) by (auto simp: reload_rest_def d_def split: if_splits)
  show ?case
  proof (cases "scan_lines d")
    case (Inl mr)
    obtain m after where mr: "mr = (m, after)" by fastforce
    have "sent_lines (d @ ?ext) = m # sent_lines (after @ ?ext)" "\<exists>p. d = p @ after"
      using scan_lines_spec [OF shd, of ?ext] Inl mr by auto
    moreover have "reload_at file after (r\<lparr>CurMsg := Some m, AfterMsg := after\<rparr>)"
      using calculation(2) d r by (auto simp: reload_at_def)
    ultimately show ?thesis
      using Inl mr scan rest r(1) by (simp add: reload_rest_def)
  next
    case (Inr remain)
    have rem: "sent_lines (d @ ?ext) = sent_lines (remain @ ?ext)" "0xa \<notin> set remain" "\<exists>p. d = p @ remain"
      using scan_lines_spec [OF shd, of ?ext] Inr by auto
    then obtain p where p: "take ?pos file = p @ remain" using d r(3) by (metis append.assoc)
    then have len_rem: "length remain \<le> ?pos" using r(2) by (metis le_add2 length_append length_take min.absorb2)
    let ?n = "kReloadSentBufferSize div 2"
    let ?bs = "take ?n ?ext"
    define r1 where "r1 = r\<lparr>CurBufferPos := ?pos - length remain, FoundDataLen := Some (length remain + length ?bs)\<rparr>"
    have pos1: "CurBufferPos r1 + the (FoundDataLen r1) = ?pos + length ?bs" using len_rem by (simp add: r1_def)
    have le1: "?pos + length ?bs \<le> length file" using r(2) by simp
    have "take (?pos + length ?bs) file = take ?pos file @ ?bs"
      by (cases "length ?ext \<le> ?n") (simp_all add: take_add)
    moreover have f1: "FoundDataLen r1 = Some (length remain + length ?bs)" by (simp add: r1_def)
    ultimately have at1: "reload_at file (remain @ ?bs) r1"
      using p pos1 le1 unfolding reload_at_def f1 option.sel by (metis append.assoc)
    have rest1: "reload_rest file (remain @ ?bs) r1 = remain @ ?ext"
      unfolding reload_rest_def pos1 by (simp only: append.assoc read_on)
    show ?thesis
    proof (cases "?bs = []")
      case True
      then have e: "?ext = []" by (simp add: kReloadSentBufferSize_def)
      let ?r2 = "r1\<lparr>CurMsg := Some [], AfterMsg := remain\<rparr>"
      have step: "find_next_loop (Suc f) rd data r = Some ?r2"
        using Inr scan r(1) True by (simp add: rd file_read_def r1_def Let_def)
      have at2: "reload_at file (AfterMsg ?r2) ?r2" using at1 True by (simp add: reload_at_def)
      have "reload_rest file (AfterMsg ?r2) ?r2 = remain @ ?ext"
        using rest1 True by (simp add: reload_rest_def)
      then have "sent_lines (reload_rest file (AfterMsg ?r2) ?r2) = []" using rem(2) e by simp
      moreover have "sent_lines (reload_rest file data r) = []" using rest rem(1,2) e by simp
      ultimately show ?thesis unfolding step using at2 by auto
    next
      case False
      have step: "find_next_loop (Suc f) rd data r = find_next_loop f rd (remain @ ?bs) r1"
        using Inr scan r(1) False by (simp add: rd file_read_def r1_def Let_def)
      have a: "length file - ?pos < Suc f" using Suc.prems(2) r(1) by simp
      have "0 < length ?bs" using False by blast
      then have "length file - (CurBufferPos r1 + the (FoundDataLen r1)) < f"
        using a le1 unfolding pos1 by linarith
      then show ?thesis
        using Suc.IH [OF at1] rest1 rem(1) rest unfolding step by simp
    qed
  qed
qed simp

text \<open>Calls of \<open>FindNext\<close> until it finds nothing.\<close>

fun find_all :: "nat \<Rightarrow> nat \<Rightarrow> (nat \<Rightarrow> nat \<Rightarrow> 'e + byte list) \<Rightarrow> reload_sent \<Rightarrow> byte list list" where
  "find_all 0 fuel fdRead r = []"
| "find_all (Suc n) fuel fdRead r = (case FindNext fuel fdRead r of None \<Rightarrow> []
     | Some r' \<Rightarrow> (case CurMsg r' of None \<Rightarrow> []
         | Some m \<Rightarrow> if m = [] then [] else m # find_all n fuel fdRead r'))"

lemma sent_lines_ne: "m \<in> set (sent_lines data) \<Longrightarrow> m \<noteq> []"
  by (auto simp: sent_lines_def map_filter_def sent_of_def SkipTimestamp_def kTimeStampWidth_def kFixMinHeaderWidth_def
      split: if_splits)

lemma find_all_spec:
  assumes sh: "short_lines file" and "length file < fuel"
  shows "reload_at file (AfterMsg r) r \<Longrightarrow> CurMsg r \<noteq> None \<Longrightarrow> length (sent_lines (reload_rest file (AfterMsg r) r)) < n \<Longrightarrow>
    find_all n fuel (file_read file :: nat \<Rightarrow> nat \<Rightarrow> 'e + byte list) r = sent_lines (reload_rest file (AfterMsg r) r)"
proof (induction n arbitrary: r)
  case (Suc n)
  let ?rd = "file_read file :: nat \<Rightarrow> nat \<Rightarrow> 'e + byte list"
  have "length file - (CurBufferPos r + the (FoundDataLen r)) < fuel" using assms(2) by simp
  from find_next_loop_spec [where rd = ?rd, OF sh refl Suc.prems(1) this]
  obtain r' m where r': "FindNext fuel ?rd r = Some r'" "CurMsg r' = Some m" "reload_at file (AfterMsg r') r'"
    "case sent_lines (reload_rest file (AfterMsg r) r) of
           [] \<Rightarrow> m = [] \<and> sent_lines (reload_rest file (AfterMsg r') r') = []
         | x # xs \<Rightarrow> m = x \<and> sent_lines (reload_rest file (AfterMsg r') r') = xs"
    using Suc.prems(1,2) by (auto simp: FindNext_def reload_at_def)
  show ?case
  proof (cases "sent_lines (reload_rest file (AfterMsg r) r)")
    case Nil
    then show ?thesis using r' by simp
  next
    case (Cons x xs)
    then have "x \<noteq> []" using sent_lines_ne [of x "reload_rest file (AfterMsg r) r"] by simp
    then show ?thesis using r' Cons Suc.IH [OF r'(3)] Suc.prems(3) by simp
  qed
qed simp

subsection \<open>Properties\<close>

text \<open>
  C13: From any place where a line ends or begins, the calls of \<open>FindNext\<close> deliver exactly the sent
  messages that stand behind it in the file, in order, whatever part of the file is in the
  buffer and however the lines lie across the blocks that are read.
\<close>

theorem find_next_delivers_the_rest:
  assumes "short_lines file" "length file < fuel"
    and "reload_at file (AfterMsg r) r" "CurMsg r \<noteq> None" "length (sent_lines (reload_rest file (AfterMsg r) r)) < n"
  shows "find_all n fuel (file_read file :: nat \<Rightarrow> nat \<Rightarrow> 'e + byte list) r = sent_lines (reload_rest file (AfterMsg r) r)"
  by (rule find_all_spec [OF assms])

definition sent_line :: "byte \<Rightarrow> byte list" where
  "sent_line c = [0x53, 0x20] @ replicate 21 0x30 @ 0x20 # replicate 20 c"

definition two_sent :: "byte list" where
  "two_sent = sent_line 0x41 @ 0xa # [0x69] @ 0xa # sent_line 0x42 @ 0xa # []"

lemma sent_of_sent_line: "sent_of (sent_line c) = Some (replicate 20 c)"
  by (simp add: sent_line_def sent_of_def SkipTimestamp_def kTimeStampWidth_def kFixMinHeaderWidth_def nth_append nth_Cons')

lemma sent_lines_two: "sent_lines two_sent = [replicate 20 0x41, replicate 20 0x42]"
proof -
  have n: "0xa \<notin> set (sent_line 0x41)" "0xa \<notin> set (sent_line 0x42)" by (simp_all add: sent_line_def)
  have o: "sent_of [0x69] = None" by (simp add: sent_of_def)
  have l: "sent_lines (sent_line 0x42 @ 0xa # []) = [replicate 20 0x42]"
    by (subst sent_lines_simps(2) [OF n(2)]) (simp add: sent_of_sent_line)
  have m: "sent_lines ([0x69] @ 0xa # sent_line 0x42 @ 0xa # []) = [replicate 20 0x42]"
    by (subst sent_lines_simps(2)) (simp, simp only: l o, simp)
  show ?thesis unfolding two_sent_def
    by (subst sent_lines_simps(2) [OF n(1)]) (simp only: m sent_of_sent_line, simp)
qed

lemma find_next_delivers_the_rest_witness:
  "find_all 3 200 (file_read two_sent :: nat \<Rightarrow> nat \<Rightarrow> unit + byte list)
     \<lparr> ReloadParser = FixParser, CurBufferPos = 0, CurMsg = Some [], AfterMsg = [], FoundDataLen = Some 0 \<rparr>
   = [replicate 20 0x41, replicate 20 0x42]"
proof -
  have "length xs \<le> kMaxFixMsgBufferSize" if "two_sent = as @ xs @ zs" for as xs zs
  proof -
    have "length xs \<le> length two_sent" unfolding that by simp
    then show ?thesis by (simp add: two_sent_def sent_line_def kMaxFixMsgBufferSize_def)
  qed
  then have "short_lines two_sent" unfolding short_lines_def by blast
  from find_next_delivers_the_rest [OF this, of 200
      "\<lparr> ReloadParser = FixParser, CurBufferPos = 0, CurMsg = Some [], AfterMsg = [], FoundDataLen = Some 0 \<rparr>" 3,
      where 'e = unit]
  show ?thesis by (simp add: reload_at_def reload_rest_def sent_lines_two) (simp add: two_sent_def sent_line_def)
qed

end
