(* ===== verification/FlowControl.thy ===== *)
theory FlowControl
  imports NumText Decimal
begin

text \<open>
  Limits on what is sent in a time: \<open>fon9/FlowCounter.hpp\<close>, \<open>FlowCounter.cpp\<close> (at most so many in
  a time unit) and \<open>fon9/FlowControlCalc.hpp\<close>, \<open>FlowControlCalc.cpp\<close> (an amount that drains segment
  by segment). A \<open>TimeStamp\<close> or \<open>TimeInterval\<close> is its number of microseconds, an \<open>int\<close>: differences
  of times stay far from the limits of 64 bits. The counts of the calculator are 64 bits wide.
  The lemmas: over any run of either, what was let through in any span of time is bounded, and
  how long it takes until a refused request is let through.
\<close>

subsection \<open>\<open>FlowCounter\<close>\<close>

record flow_counter =
  SentTimes :: "int list"
  NextIndex :: nat
  TimeUnit :: int

definition flow_unused :: flow_counter where
  "flow_unused = \<lparr> SentTimes = [], NextIndex = 0, TimeUnit = 0 \<rparr>"

definition FlowResize :: "nat \<Rightarrow> int \<Rightarrow> flow_counter \<Rightarrow> bool \<times> flow_counter" where
  "FlowResize n timeUnit fc =
     (if 0 < n \<and> 0 < timeUnit then (True, fc\<lparr> SentTimes := replicate n 0, TimeUnit := timeUnit \<rparr>)
      else (False, fc\<lparr> SentTimes := [] \<rparr>))"

definition ClearFlow :: "flow_counter \<Rightarrow> flow_counter" where
  "ClearFlow fc = fc\<lparr> SentTimes := replicate (length (SentTimes fc)) 0 \<rparr>"

definition InternalCheck :: "int \<Rightarrow> nat \<Rightarrow> flow_counter \<Rightarrow> int \<times> flow_counter" where
  "InternalCheck now maxc fc =
     (let fc' = (if NextIndex fc \<ge> maxc then fc\<lparr> NextIndex := 0 \<rparr> else fc);
          ti = TimeUnit fc' - (now - SentTimes fc' ! NextIndex fc')
      in (if ti \<le> 0 then 0 else ti, fc'))"

definition FlowCheck :: "int \<Rightarrow> flow_counter \<Rightarrow> int \<times> flow_counter" where
  "FlowCheck now fc = (if length (SentTimes fc) \<noteq> 0 then InternalCheck now (length (SentTimes fc)) fc else (0, fc))"

definition UseFlow :: "int \<Rightarrow> flow_counter \<Rightarrow> flow_counter" where
  "UseFlow now fc = fc\<lparr> SentTimes := (SentTimes fc)[NextIndex fc := now], NextIndex := NextIndex fc + 1 \<rparr>"

definition FlowFetch :: "int \<Rightarrow> flow_counter \<Rightarrow> int \<times> flow_counter" where
  "FlowFetch now fc =
     (if length (SentTimes fc) \<noteq> 0
      then (case InternalCheck now (length (SentTimes fc)) fc of
              (ti, fc') \<Rightarrow> if 0 < ti then (ti, fc') else (0, UseFlow now fc'))
      else (0, fc))"

text \<open>\<open>ForceUsed\<close> may write behind the array: then the result is \<open>None\<close>.\<close>

definition ForceUsed :: "int \<Rightarrow> flow_counter \<Rightarrow> flow_counter option" where
  "ForceUsed now fc =
     (if SentTimes fc = [] then Some fc
      else if NextIndex fc < length (SentTimes fc) then Some (UseFlow now fc) else None)"

record flow_args =
  FcCount :: nat
  FcTimeMS :: nat

definition FlowArgsClear :: flow_args where
  "FlowArgsClear = \<lparr> FcCount = 0, FcTimeMS = 1000 \<rparr>"

definition FlowOnValue :: "byte list \<Rightarrow> flow_args \<Rightarrow> bool \<times> flow_args" where
  "FlowOnValue val a =
     (case StrTo_u 16 val (FcCount a) of (n, v1) \<Rightarrow>
        let a1 = a\<lparr> FcCount := n \<rparr>
        in case StrTrimHead v1 of
             [] \<Rightarrow> (True, a1)
           | c # v2 \<Rightarrow>
               if c = 0x2f
               then (case StrTo_u 16 v2 (FcTimeMS a1) of (ms, v3) \<Rightarrow> (v3 = [], a1\<lparr> FcTimeMS := ms \<rparr>))
               else (False, a1))"

definition FlowResizeArgs :: "flow_args \<Rightarrow> flow_counter \<Rightarrow> bool \<times> flow_counter" where
  "FlowResizeArgs a fc = FlowResize (FcCount a) (1000 * int (FcTimeMS a)) fc"

text \<open>What a user of the counter does: it asks, it fetches, or it asks and then uses by force.\<close>

datatype flow_event = AskFlow int | FetchFlow int | AskAndUse int

fun flow_step :: "flow_counter \<times> int list \<Rightarrow> flow_event \<Rightarrow> flow_counter \<times> int list" where
  "flow_step (fc, used) (AskFlow now) = (snd (FlowCheck now fc), used)"
| "flow_step (fc, used) (FetchFlow now) =
     (case FlowFetch now fc of (ti, fc') \<Rightarrow> (fc', if 0 < ti then used else used @ [now]))"
| "flow_step (fc, used) (AskAndUse now) =
     (case FlowCheck now fc of (ti, fc') \<Rightarrow>
        if 0 < ti then (fc', used)
        else case ForceUsed now fc' of None \<Rightarrow> (fc', used) | Some fc2 \<Rightarrow> (fc2, used @ [now]))"

subsection \<open>\<open>FlowControlCalc\<close>\<close>

text \<open>\<open>CalcTimeSeg\<close> holds the number of a segment, which is that of a 64-bit time divided.\<close>

record flow_calc =
  UsedCount :: nat
  CalcTimeSeg :: int
  SegLmt :: nat
  SegInterval :: int
  FcMax :: nat
  FcInterval :: int

definition flow_calc_unused :: flow_calc where
  "flow_calc_unused = \<lparr> UsedCount = 0, CalcTimeSeg = 0, SegLmt = 0, SegInterval = 0, FcMax = 0, FcInterval = 0 \<rparr>"

definition ClearArgs :: "flow_calc \<Rightarrow> flow_calc" where
  "ClearArgs c = c\<lparr> FcMax := 0 \<rparr>"

definition HasControl :: "flow_calc \<Rightarrow> bool" where
  "HasControl c \<longleftrightarrow> FcMax c > 0"

definition SetFlowControlArgs :: "nat \<Rightarrow> int \<Rightarrow> nat \<Rightarrow> flow_calc \<Rightarrow> flow_calc" where
  "SetFlowControlArgs fcMax fcInterval segCount c =
     (if fcInterval \<le> 0 then ClearArgs c
      else let c1 = c\<lparr> CalcTimeSeg := 0, UsedCount := 0, FcMax := fcMax, FcInterval := fcInterval \<rparr>;
               lmt = fcMax div segCount; iv = trunc_div fcInterval (int segCount)
        in if segCount > 0 \<and> 0 < lmt \<and> 0 < iv then c1\<lparr> SegLmt := lmt, SegInterval := iv \<rparr>
           else c1\<lparr> SegLmt := fcMax, SegInterval := fcInterval \<rparr>)"

definition drain_to :: "int \<Rightarrow> flow_calc \<Rightarrow> flow_calc" where
  "drain_to nowSeg c =
     (let segCount = nowSeg - CalcTimeSeg c
      in if segCount = 0 then c
         else let allowCount = (nat segCount * SegLmt c) mod 2 ^ 64;
                  u = (if segCount > 0 then (if UsedCount c > allowCount then UsedCount c - allowCount else 0) else UsedCount c)
           in c\<lparr> UsedCount := u, CalcTimeSeg := nowSeg \<rparr>)"

definition CalcUsed :: "int \<Rightarrow> nat \<Rightarrow> flow_calc \<Rightarrow> int \<times> flow_calc" where
  "CalcUsed now usedCount c =
     (if \<not> HasControl c then (0, c)
      else let c1 = drain_to (trunc_div now (SegInterval c)) c
        in if uadd 64 (UsedCount c1) usedCount \<le> FcMax c1 \<or> usedCount > FcMax c1
           then (let c2 = c1\<lparr> UsedCount := uadd 64 (UsedCount c1) usedCount \<rparr>
             in (if UsedCount c2 \<le> SegLmt c2 then 0 else SegInterval c2 * int (UsedCount c2 div SegLmt c2), c2))
           else (- (int (UsedCount c1 div FcMax c1) * FcInterval c1) -
                   (1 + int (UsedCount c1 mod FcMax c1 div SegLmt c1)) * SegInterval c1, c1))"

definition CalcForceUsed :: "int \<Rightarrow> nat \<Rightarrow> flow_calc \<Rightarrow> int \<times> flow_calc" where
  "CalcForceUsed now usedCount c =
     (case CalcUsed now usedCount c of (r, c1) \<Rightarrow>
        (r, if r < 0 then c1\<lparr> UsedCount := uadd 64 (UsedCount c1) usedCount \<rparr> else c1))"

fun calc_run :: "(int \<times> nat) list \<Rightarrow> flow_calc \<Rightarrow> flow_calc \<times> nat" where
  "calc_run [] c = (c, 0)"
| "calc_run ((now, u) # es) c =
     (case CalcUsed now u c of (r, c1) \<Rightarrow>
        case calc_run es c1 of (c2, n) \<Rightarrow> (c2, if r < 0 then n else u + n))"

text \<open>The requests above the limit of a run, and the segments its clock goes forward from the segment \<open>s\<close> on.\<close>

definition over_limit :: "nat \<Rightarrow> (int \<times> nat) list \<Rightarrow> nat" where
  "over_limit m es = sum_list (filter (\<lambda>u. m < u) (map snd es))"

fun passed_from :: "int \<Rightarrow> int \<Rightarrow> (int \<times> nat) list \<Rightarrow> int" where
  "passed_from s iv [] = 0"
| "passed_from s iv ((t, u) # es) = max 0 (t div iv - s) + passed_from (t div iv) iv es"

lemma passed_forward:
  assumes "0 < (iv :: int)" and "es \<noteq> []" "sorted (map fst es)"
  shows "s \<le> fst (hd es) div iv \<Longrightarrow> passed_from s iv es = fst (last es) div iv - s"
  using assms
proof (induction s iv es rule: passed_from.induct)
  case (2 s iv t u es)
  show ?case
  proof (cases es)
    case (Cons e es')
    then have "t \<le> fst e" using 2 by simp
    then have "t div iv \<le> fst e div iv" using 2(2-) by (intro zdiv_mono1) simp_all
    then show ?thesis using 2 Cons by (simp add: max_def)
  qed (use 2 in simp)
qed simp

subsection \<open>The counter\<close>

definition next_slot :: "flow_counter \<Rightarrow> nat" where
  "next_slot fc = (if NextIndex fc \<ge> length (SentTimes fc) then 0 else NextIndex fc)"

text \<open>The last uses are in the array, and uses that are as far apart as it is long are a time unit apart.\<close>

definition flow_inv :: "nat \<Rightarrow> int \<Rightarrow> nat \<Rightarrow> flow_counter \<times> int list \<Rightarrow> bool" where
  "flow_inv n u d st = (case st of (fc, used) \<Rightarrow>
     0 < n \<and> length (SentTimes fc) = n \<and> TimeUnit fc = u \<and> next_slot fc = (d + length used) mod n \<and>
     (\<forall>j. j < length used \<longrightarrow> length used \<le> j + n \<longrightarrow> SentTimes fc ! ((d + j) mod n) = used ! j) \<and>
     (\<forall>i. i + n < length used \<longrightarrow> used ! i + u \<le> used ! (i + n)))"

lemma InternalCheck_eq:
  "length (SentTimes fc) = n \<Longrightarrow> 0 < n \<Longrightarrow> InternalCheck now n fc =
    (max 0 (TimeUnit fc - (now - SentTimes fc ! next_slot fc)), fc\<lparr> NextIndex := next_slot fc \<rparr>)"
  by (auto simp: InternalCheck_def next_slot_def Let_def max_def)

lemma next_slot_set [simp]: "next_slot (fc\<lparr> NextIndex := next_slot fc \<rparr>) = next_slot fc"
  by (simp add: next_slot_def)

lemma flow_inv_ask: "flow_inv n u d (fc, used) \<Longrightarrow> flow_inv n u d (fc\<lparr> NextIndex := next_slot fc \<rparr>, used)"
  unfolding flow_inv_def case_prod_conv next_slot_set by simp

lemma next_slot_use: "next_slot fc < length (SentTimes fc) \<Longrightarrow>
    next_slot (UseFlow now (fc\<lparr> NextIndex := next_slot fc \<rparr>)) = (next_slot fc + 1) mod length (SentTimes fc)"
  by (simp add: UseFlow_def next_slot_def) (auto simp: le_Suc_eq)

lemma mod_slot: "m \<le> j + n \<Longrightarrow> j < m \<Longrightarrow> (d + j) mod n = (d + m) mod n \<longleftrightarrow> j + n = (m :: nat)"
proof
  assume a: "m \<le> j + n" "j < m" "(d + j) mod n = (d + m) mod n"
  then have "n dvd (d + m) - (d + j)" by (metis mod_eq_dvd_iff_nat add_le_cancel_left less_imp_le)
  then obtain k where "m - j = n * k" by (auto elim: dvdE)
  moreover have "m - j \<le> n * 1" "m - j \<noteq> 0" using a(1,2) by simp_all
  ultimately have "n * k \<le> n * 1" "n * k \<noteq> 0" by simp_all
  then have "k = 1" by (auto simp: le_Suc_eq)
  with \<open>m - j = n * k\<close> a(2) show "j + n = m" by simp
next
  assume "m \<le> j + n" "j < m" "j + n = m"
  then show "(d + j) mod n = (d + m) mod n" by (metis add.assoc mod_add_self2)
qed

lemma flow_inv_use:
  assumes inv: "flow_inv n u d (fc, used)" and "TimeUnit fc - (now - SentTimes fc ! next_slot fc) \<le> 0"
  shows "flow_inv n u d (UseFlow now (fc\<lparr> NextIndex := next_slot fc \<rparr>), used @ [now])"
proof -
  let ?m = "length used"
  have n: "0 < n" "length (SentTimes fc) = n" and slot: "next_slot fc = (d + ?m) mod n" "next_slot fc < n"
    using inv by (simp_all add: flow_inv_def)
  have "used ! i + u \<le> now" if "i + n = ?m" for i
  proof -
    have "(d + i) mod n = next_slot fc" using slot that by (metis add.assoc mod_add_self2)
    moreover have "i < ?m" "?m \<le> i + n" using that n by simp_all
    then have "SentTimes fc ! ((d + i) mod n) = used ! i" using inv by (simp add: flow_inv_def)
    ultimately have "SentTimes fc ! next_slot fc = used ! i" by simp
    then show ?thesis using assms by (simp add: flow_inv_def)
  qed
  moreover have "(SentTimes fc)[next_slot fc := now] ! ((d + j) mod n) = (used @ [now]) ! j"
    if j: "j < Suc ?m" "Suc ?m \<le> j + n" for j
  proof (cases "j = ?m")
    case True
    then show ?thesis using slot n by simp
  next
    case False
    then have "(d + j) mod n \<noteq> next_slot fc" using mod_slot [of ?m j n d] j slot by auto
    then show ?thesis using inv j False n by (auto simp: flow_inv_def nth_append)
  qed
  moreover have "next_slot (UseFlow now (fc\<lparr> NextIndex := next_slot fc \<rparr>)) = (d + Suc ?m) mod n"
    using next_slot_use [of fc now] slot(2) n by (simp add: slot(1) [symmetric]) (simp add: slot(1) mod_simps)
  ultimately show ?thesis using inv n by (auto simp: flow_inv_def UseFlow_def nth_append less_Suc_eq)
qed

lemma FlowCheck_eq:
  "flow_inv n u d (fc, used) \<Longrightarrow> FlowCheck now fc =
    (max 0 (TimeUnit fc - (now - SentTimes fc ! next_slot fc)), fc\<lparr> NextIndex := next_slot fc \<rparr>)"
  by (auto simp: FlowCheck_def flow_inv_def InternalCheck_eq)

lemma FlowFetch_eq:
  "flow_inv n u d (fc, used) \<Longrightarrow> FlowFetch now fc =
    (let ti = TimeUnit fc - (now - SentTimes fc ! next_slot fc); fc' = fc\<lparr> NextIndex := next_slot fc \<rparr>
     in if 0 < ti then (ti, fc') else (0, UseFlow now fc'))"
  by (auto simp: FlowFetch_def flow_inv_def InternalCheck_eq Let_def)

lemma ForceUsed_eq:
  "flow_inv n u d (fc, used) \<Longrightarrow> ForceUsed now (fc\<lparr> NextIndex := next_slot fc \<rparr>) = Some (UseFlow now (fc\<lparr> NextIndex := next_slot fc \<rparr>))"
  by (auto simp: ForceUsed_def flow_inv_def)

lemma flow_step_inv: "flow_inv n u d st \<Longrightarrow> flow_inv n u d (flow_step st e)"
proof (cases st; cases e)
  fix fc used now assume a: "flow_inv n u d st" "st = (fc, used)"
  { assume "e = AskFlow now"
    then show ?thesis using a flow_inv_ask [of n u d fc used] by (simp add: FlowCheck_eq [of n u d fc used]) }
  { assume "e = FetchFlow now"
    then show ?thesis using a flow_inv_ask [of n u d fc used] flow_inv_use [of n u d fc used now]
      by (simp add: FlowFetch_eq [of n u d fc used] Let_def not_less) }
  { assume "e = AskAndUse now"
    then show ?thesis using a flow_inv_ask [of n u d fc used] flow_inv_use [of n u d fc used now]
      by (simp add: FlowCheck_eq [of n u d fc used] ForceUsed_eq [of n u d fc used] max_def) }
qed

lemma flow_run_inv: "flow_inv n u d st \<Longrightarrow> flow_inv n u d (foldl flow_step st es)"
  by (induction es arbitrary: st) (simp_all add: flow_step_inv)

lemma apart_by_rounds:
  "(\<forall>i. i + n < length used \<longrightarrow> used ! i + u \<le> used ! (i + n)) \<Longrightarrow> 0 \<le> u \<Longrightarrow>
   i + Suc k * n < length used \<Longrightarrow> used ! i + (u :: int) \<le> used ! (i + Suc k * n)"
proof (induction k)
  case (Suc k)
  then have "used ! i + u \<le> used ! (i + Suc k * n)" by simp
  moreover have e: "i + Suc k * n + n = i + Suc (Suc k) * n" by simp
  then have "used ! (i + Suc k * n) + u \<le> used ! (i + Suc k * n + n)" using Suc.prems(1,3) by metis
  ultimately show ?case using Suc.prems(2) unfolding e by linarith
qed simp

lemma window_bound:
  assumes inv: "flow_inv n u d (fc, used)" and "0 \<le> u"
  shows "length (filter (\<lambda>x. t \<le> x \<and> x < t + u) used) \<le> n"
proof -
  let ?W = "{i. i < length used \<and> t \<le> used ! i \<and> used ! i < t + u}"
  have n: "0 < n" and gap: "\<forall>i. i + n < length used \<longrightarrow> used ! i + u \<le> used ! (i + n)"
    using inv by (simp_all add: flow_inv_def)
  have no: False if w: "i \<in> ?W" "j \<in> ?W" "i < j" "i mod n = j mod n" for i j
  proof -
    have "n dvd j - i" using w(3,4) by (metis mod_eq_dvd_iff_nat less_imp_le)
    then obtain k where "j - i = n * k" by (rule dvdE)
    then have "j = i + n * k" using w(3) by simp
    moreover from this obtain k' where "k = Suc k'" using w(3) by (cases k) auto
    ultimately have j: "i + Suc k' * n = j" by (simp add: mult.commute)
    have "used ! i + u \<le> used ! j"
      using apart_by_rounds [OF gap assms(2), of i k'] w(2) unfolding j by simp
    then show False using w(1,2) by simp
  qed
  have "inj_on (\<lambda>i. i mod n) ?W"
  proof (rule inj_onI)
    fix i j assume "i \<in> ?W" "j \<in> ?W" "i mod n = j mod n"
    then show "i = j" using no [of i j] no [of j i] by (cases i j rule: linorder_cases) simp_all
  qed
  moreover have "(\<lambda>i. i mod n) ` ?W \<subseteq> {..<n}" using n by auto
  ultimately have "card ?W \<le> card {..<n}" by (rule card_inj_on_le) simp
  then show ?thesis by (simp add: length_filter_conv_card)
qed

lemma FlowResize_inv: "FlowResize n u fc0 = (True, fc) \<Longrightarrow> flow_inv n u (next_slot fc) (fc, []) \<and> 0 < u \<and> 0 < n"
  by (auto simp: FlowResize_def flow_inv_def next_slot_def split: if_splits)

subsection \<open>The calculator\<close>

definition calc_ok :: "flow_calc \<Rightarrow> bool" where
  "calc_ok c \<longleftrightarrow> 0 < FcMax c \<and> FcMax c < 2 ^ 63 \<and> 0 < SegInterval c \<and> 0 < SegLmt c \<and> SegLmt c \<le> FcMax c \<and> 0 < FcInterval c \<and> UsedCount c \<le> FcMax c"

lemma trunc_div_pos: "0 \<le> a \<Longrightarrow> 0 < b \<Longrightarrow> trunc_div a b = a div b"
  by (cases "a = 0") (simp_all add: trunc_div_def)

lemma drain_to_fields [simp]:
  "SegLmt (drain_to s c) = SegLmt c" "SegInterval (drain_to s c) = SegInterval c" "FcMax (drain_to s c) = FcMax c"
  "FcInterval (drain_to s c) = FcInterval c" "CalcTimeSeg (drain_to s c) = s" "drain_to s (drain_to s c) = drain_to s c"
  by (simp_all add: drain_to_def Let_def)

lemma drain_to_used: "UsedCount (drain_to s c) \<le> UsedCount c"
  by (simp add: drain_to_def Let_def)

lemma drain_to_enough:
  "CalcTimeSeg c \<le> s \<Longrightarrow> int (UsedCount c) \<le> int (UsedCount (drain_to s c)) + (s - CalcTimeSeg c) * int (SegLmt c)"
proof -
  assume s: "CalcTimeSeg c \<le> s"
  let ?k = "nat (s - CalcTimeSeg c)"
  have "?k * SegLmt c mod 2 ^ 64 \<le> ?k * SegLmt c" by simp
  moreover have "int (?k * SegLmt c) = (s - CalcTimeSeg c) * int (SegLmt c)" using s by simp
  ultimately have "int (?k * SegLmt c mod 2 ^ 64) \<le> (s - CalcTimeSeg c) * int (SegLmt c)" by linarith
  then show ?thesis using s by (auto simp: drain_to_def Let_def)
qed

text \<open>What a request does: it is counted, or there is no room for it.\<close>

lemma CalcUsed_eq:
  assumes ok: "calc_ok c" and "u \<le> FcMax c" "0 \<le> now" and d: "d = drain_to (now div SegInterval c) c"
  shows "CalcUsed now u c =
    (if UsedCount d + u \<le> FcMax c
     then (if UsedCount d + u \<le> SegLmt c then 0 else SegInterval c * int ((UsedCount d + u) div SegLmt c),
           d\<lparr> UsedCount := UsedCount d + u \<rparr>)
     else (- (int (UsedCount d div FcMax c) * FcInterval c) -
           (1 + int (UsedCount d mod FcMax c div SegLmt c)) * SegInterval c, d))"
proof -
  have "UsedCount d \<le> FcMax c" using ok drain_to_used [of _ c] unfolding d calc_ok_def by (meson le_trans)
  then have "uadd 64 (UsedCount d) u = UsedCount d + u" using ok assms(2) by (intro uadd_eq) (simp add: calc_ok_def)
  moreover have "trunc_div now (SegInterval c) = now div SegInterval c"
    using ok assms(3) by (intro trunc_div_pos) (simp_all add: calc_ok_def)
  ultimately show ?thesis using ok assms(2) by (simp add: CalcUsed_def HasControl_def calc_ok_def d Let_def)
qed

lemma refusal_sign:
  "calc_ok c \<Longrightarrow> - (int a * FcInterval c) - (1 + int b) * SegInterval c < 0" 
  "calc_ok c \<Longrightarrow> \<not> SegInterval c * int a < 0"
proof -
  assume ok: "calc_ok c"
  then have "0 \<le> int a * FcInterval c" "0 < (1 + int b) * SegInterval c" by (simp_all add: calc_ok_def)
  then show "- (int a * FcInterval c) - (1 + int b) * SegInterval c < 0" by linarith
  show "\<not> SegInterval c * int a < 0" using ok by (simp add: calc_ok_def not_less)
qed

text \<open>
  Without the bound on what is counted, which a single request above the limit exceeds.
\<close>

definition calc_fit :: "flow_calc \<Rightarrow> bool" where
  "calc_fit c \<longleftrightarrow> 0 < FcMax c \<and> 0 < SegInterval c \<and> 0 < SegLmt c \<and> 0 < FcInterval c"

lemma drain_to_any:
  "int (UsedCount c) \<le> int (UsedCount (drain_to s c)) + max 0 (s - CalcTimeSeg c) * int (SegLmt c)"
proof (cases "CalcTimeSeg c \<le> s")
  case True
  then show ?thesis using drain_to_enough [OF True] by (simp add: max_def)
qed (simp add: drain_to_def Let_def)

lemma CalcUsed_any:
  assumes ok: "calc_fit c" and "UsedCount c + u < 2 ^ 64" "0 \<le> now" and d: "d = drain_to (now div SegInterval c) c"
  shows "(fst (CalcUsed now u c) < 0) = (\<not> (UsedCount d + u \<le> FcMax c \<or> FcMax c < u)) \<and>
    snd (CalcUsed now u c) = (if fst (CalcUsed now u c) < 0 then d else d\<lparr> UsedCount := UsedCount d + u \<rparr>)"
proof -
  have "uadd 64 (UsedCount d) u = UsedCount d + u"
    using assms(2) drain_to_used [of "now div SegInterval c" c] unfolding d by (intro uadd_eq) linarith
  moreover have "trunc_div now (SegInterval c) = now div SegInterval c"
    using ok assms(3) by (intro trunc_div_pos) (simp_all add: calc_fit_def)
  moreover have "- (int a * FcInterval c) - (1 + int b) * SegInterval c < 0" "\<not> SegInterval c * int a < 0" for a b
  proof -
    have "0 \<le> int a * FcInterval c" "0 < (1 + int b) * SegInterval c" using ok by (simp_all add: calc_fit_def)
    then show "- (int a * FcInterval c) - (1 + int b) * SegInterval c < 0" by linarith
    show "\<not> SegInterval c * int a < 0" using ok by (simp add: calc_fit_def not_less)
  qed
  ultimately show ?thesis using ok by (simp add: CalcUsed_def HasControl_def calc_fit_def d Let_def)
qed

lemma calc_run_drained:
  assumes "calc_fit c" "UsedCount c + u < 2 ^ 64" "0 \<le> now"
  shows "calc_run ((now, u) # es) (drain_to (now div SegInterval c) c) = calc_run ((now, u) # es) c"
proof -
  have "trunc_div now (SegInterval c) = now div SegInterval c"
    using assms(1,3) by (intro trunc_div_pos) (simp_all add: calc_fit_def)
  then have "CalcUsed now u (drain_to (now div SegInterval c) c) = CalcUsed now u c"
    using assms(1) by (simp add: CalcUsed_def HasControl_def calc_fit_def)
  then show ?thesis by simp
qed

text \<open>
  What is counted in a run was there before, is still counted, or has been drained by the segments
  that have passed.
\<close>

lemma calc_run_drains:
  assumes "calc_fit c" "\<forall>(t, u) \<in> set es. 0 \<le> t" "FcMax c \<le> k" "UsedCount c \<le> k"
    and "k + FcMax c + over_limit (FcMax c) es < 2 ^ 64" "calc_run es c = (c2, n)"
  shows "calc_fit c2 \<and> FcMax c2 = FcMax c \<and> SegLmt c2 = SegLmt c \<and> SegInterval c2 = SegInterval c \<and>
    UsedCount c2 \<le> k + over_limit (FcMax c) es \<and>
    int (UsedCount c + n) \<le> int (UsedCount c2) + passed_from (CalcTimeSeg c) (SegInterval c) es * int (SegLmt c)"
  using assms
proof (induction es arbitrary: c n k)
  case (Cons e es)
  obtain now u where e: "e = (now, u)" by force
  define d where "d = drain_to (now div SegInterval c) c"
  obtain r c1 where c1: "CalcUsed now u c = (r, c1)" by force
  have over: "over_limit (FcMax c) (e # es) = (if FcMax c < u then u else 0) + over_limit (FcMax c) es"
    by (simp add: over_limit_def e)
  have "UsedCount c + u < 2 ^ 64" using Cons.prems(4,5) over by (auto split: if_splits)
  note cu = CalcUsed_any [OF Cons.prems(1) this _ d_def]
  define g where "g = (if r < 0 then 0 else u)"
  define k1 where "k1 = (if FcMax c < u then k + u else k)"
  have fit1: "calc_fit c1 \<and> FcMax c1 = FcMax c \<and> SegLmt c1 = SegLmt c \<and> SegInterval c1 = SegInterval c \<and>
      CalcTimeSeg c1 = now div SegInterval c \<and> UsedCount c1 = UsedCount d + g"
    using cu c1 Cons.prems(1,2) e by (auto simp: g_def d_def calc_fit_def)
  have used: "UsedCount d \<le> UsedCount c" unfolding d_def by (rule drain_to_used)
  have "UsedCount c1 \<le> k1" "FcMax c1 \<le> k1"
    using cu c1 fit1 used Cons.prems(2,3,4) e by (auto simp: g_def k1_def split: if_splits)
  moreover have "k1 + FcMax c1 + over_limit (FcMax c1) es < 2 ^ 64" 
    using Cons.prems(5) over fit1 by (auto simp: k1_def split: if_splits)
  moreover obtain n' where n': "calc_run es c1 = (c2, n')" "n = g + n'"
    using Cons.prems(6) e c1 by (auto simp: g_def split: prod.splits if_splits)
  ultimately have ih: "calc_fit c2 \<and> FcMax c2 = FcMax c1 \<and> SegLmt c2 = SegLmt c1 \<and> SegInterval c2 = SegInterval c1 \<and>
      UsedCount c2 \<le> k1 + over_limit (FcMax c1) es \<and>
      int (UsedCount c1 + n') \<le> int (UsedCount c2) + passed_from (CalcTimeSeg c1) (SegInterval c1) es * int (SegLmt c1)"
    using Cons.IH [of c1 k1 n'] fit1 Cons.prems(2) by simp
  have "int (UsedCount c) \<le> int (UsedCount d) + max 0 (now div SegInterval c - CalcTimeSeg c) * int (SegLmt c)"
    unfolding d_def by (rule drain_to_any)
  then show ?case using ih fit1 n' over e by (auto simp: k1_def algebra_simps)
qed (simp add: over_limit_def)

lemma waited_segments:
  assumes "calc_ok c" "UsedCount c < FcMax c" "k = 1 + UsedCount c div SegLmt c"
  shows "UsedCount (drain_to (CalcTimeSeg c + int k) c) = 0"
proof -
  have "UsedCount c < k * SegLmt c"
    using assms by (simp add: calc_ok_def dividend_less_div_times add.commute)
  moreover have "k * SegLmt c \<le> UsedCount c + SegLmt c"
    unfolding assms(3) by (simp add: div_times_less_eq_dividend)
  then have "k * SegLmt c mod 2 ^ 64 = k * SegLmt c" using assms(1,2) by (simp add: calc_ok_def)
  moreover have "k \<noteq> 0" using assms(3) by simp
  ultimately show ?thesis by (simp add: drain_to_def Let_def)
qed

subsection \<open>Properties\<close>

text \<open>
  C36: However the counter is asked and used, and whatever the clock does, no span of the time unit
  sees more than \<open>n\<close> uses; a use by force after an answer that there is room never writes behind
  the array; and the time a refused fetch returns is exact: the same fetch succeeds from then on
  and not before.
\<close>

theorem flow_is_limited:
  assumes "FlowResize n unit fc0 = (True, fc1)" and "foldl flow_step (fc1, []) es = (fc, used)"
  shows "length (filter (\<lambda>x. t \<le> x \<and> x < t + unit) used) \<le> n \<and>
    (\<forall>now fc'. FlowCheck now fc = (0, fc') \<longrightarrow> ForceUsed now fc' \<noteq> None) \<and>
    (\<forall>now ti fc' later. FlowFetch now fc = (ti, fc') \<longrightarrow> 0 < ti \<longrightarrow> (fst (FlowFetch later fc') = 0) = (now + ti \<le> later))"
proof -
  have start: "flow_inv n unit (next_slot fc1) (fc1, [])" and "0 < unit" using FlowResize_inv [OF assms(1)] by simp_all
  then have inv: "flow_inv n unit (next_slot fc1) (fc, used)" using flow_run_inv [OF start, of es] assms(2) by simp
  have "length (filter (\<lambda>x. t \<le> x \<and> x < t + unit) used) \<le> n" using inv \<open>0 < unit\<close> by (intro window_bound) simp_all
  moreover have "\<forall>now fc'. FlowCheck now fc = (0, fc') \<longrightarrow> ForceUsed now fc' \<noteq> None"
    using FlowCheck_eq [OF inv] ForceUsed_eq [OF inv] by auto
  moreover have "(fst (FlowFetch later fc') = 0) = (now + ti \<le> later)"
    if "FlowFetch now fc = (ti, fc')" "0 < ti" for now ti fc' later
    using that FlowFetch_eq [OF inv] FlowFetch_eq [OF flow_inv_ask [OF inv], of later]
    by (auto simp: Let_def split: if_splits)
  ultimately show ?thesis by blast
qed

lemma flow_is_limited_witness:
  "length (filter (\<lambda>x. 5 \<le> x \<and> x < 5 + 10) [100, 101, 110 :: int]) \<le> 2 \<and> fst (FlowFetch 109 (snd (FlowResize 2 10 flow_unused))) = 0"
proof -
  have "FlowResize 2 10 flow_unused = (True, \<lparr> SentTimes = [0, 0], NextIndex = 0, TimeUnit = 10 \<rparr>)"
    by (simp add: FlowResize_def flow_unused_def numeral_2_eq_2)
  moreover have "foldl flow_step (\<lparr> SentTimes = [0, 0], NextIndex = 0, TimeUnit = 10 \<rparr>, []) [FetchFlow 100, AskAndUse 101, FetchFlow 103, FetchFlow 110]
      = (\<lparr> SentTimes = [110, 101], NextIndex = 1, TimeUnit = 10 \<rparr>, [100, 101, 110])" by code_simp
  ultimately show ?thesis using flow_is_limited [of 2 10 flow_unused _ _ _ "[100, 101, 110]" 5]
    by (simp add: FlowFetch_def InternalCheck_def)
qed

text \<open>
  C37: Whatever came before and wherever the clock goes, what a run of requests is granted is at
  most the limit, and the requests of the run that are above the limit by themselves, and what the
  segments allow that the clock has gone forward since the first request of the run. (A request
  above the limit is always granted, as \<open>oversize_request_is_granted\<close> shows. A segment the clock
  goes through again after it was set back counts again. The counts do not reach \<open>2 ^ 64\<close>.)
\<close>

theorem calc_is_limited:
  assumes c: "c = SetFlowControlArgs m iv sc c0" and args: "0 < m" "0 < iv"
    and runs: "calc_run before c = (c1, n1)" "calc_run es c1 = (c2, n)" "es \<noteq> []"
    and times: "\<forall>(t, u) \<in> set (before @ es). 0 \<le> t" and room: "2 * m + over_limit m (before @ es) < 2 ^ 64"
  shows "int n \<le> int m + int (over_limit m es) +
    passed_from (fst (hd es) div SegInterval c) (SegInterval c) es * int (SegLmt c)"
proof -
  have ok: "calc_fit c" "FcMax c = m" "UsedCount c = 0"
    using args unfolding c by (simp_all add: SetFlowControlArgs_def calc_fit_def Let_def)
  have over: "over_limit m (before @ es) = over_limit m before + over_limit m es" by (simp add: over_limit_def)
  obtain now u es' where es: "es = (now, u) # es'" using runs(3) by (cases es) auto
  have c1: "calc_fit c1 \<and> FcMax c1 = m \<and> SegLmt c1 = SegLmt c \<and> SegInterval c1 = SegInterval c \<and> UsedCount c1 \<le> m + over_limit m before"
    using calc_run_drains [OF ok(1) _ _ _ _ runs(1), of m] ok times room over by auto
  define d where "d = drain_to (now div SegInterval c1) c1"
  define k where "k = max m (UsedCount d)"
  have "u \<le> m \<or> u \<le> over_limit m es" by (auto simp: over_limit_def es)
  then have u: "UsedCount c1 + u < 2 ^ 64" using c1 room over by auto
  have run: "calc_run es d = (c2, n)"
    unfolding d_def es using runs(2) es c1 u times by (subst calc_run_drained) auto
  have d: "calc_fit d" "FcMax d = m" "SegLmt d = SegLmt c" "SegInterval d = SegInterval c" "CalcTimeSeg d = now div SegInterval c"
    using c1 by (simp_all add: d_def calc_fit_def)
  have used: "UsedCount d \<le> UsedCount c1" unfolding d_def by (rule drain_to_used)
  have "k \<le> m + over_limit m before" using used c1 unfolding k_def by simp
  then have "k + m + over_limit m es < 2 ^ 64" using room over by linarith
  then have "UsedCount c2 \<le> k + over_limit m es \<and>
      int (UsedCount d + n) \<le> int (UsedCount c2) + passed_from (now div SegInterval c) (SegInterval c) es * int (SegLmt c)"
    using calc_run_drains [OF d(1) _ _ _ _ run, of k] d times by (auto simp: k_def)
  moreover have "k \<le> m + UsedCount d" by (simp add: k_def)
  ultimately show ?thesis using es by simp
qed

lemma calc_is_limited_witness:
  "calc_run [(0, 80), (500, 80), (500, 10), (300, 100)] (SetFlowControlArgs 80 2000 10 flow_calc_unused) =
     (\<lparr> UsedCount = 174, CalcTimeSeg = 1, SegLmt = 8, SegInterval = 200, FcMax = 80, FcInterval = 2000 \<rparr>, 190)
   \<and> int 190 \<le> int 80 + int 100 + (500 div 200 - 0 div 200) * (8 :: int)"
proof -
  let ?c = "SetFlowControlArgs 80 2000 10 flow_calc_unused"
  have r: "calc_run [(0, 80), (500, 80), (500, 10), (300, 100)] ?c =
     (\<lparr> UsedCount = 174, CalcTimeSeg = 1, SegLmt = 8, SegInterval = 200, FcMax = 80, FcInterval = 2000 \<rparr>, 190)"
    by (simp add: SetFlowControlArgs_def CalcUsed_def drain_to_def uadd_def trunc_div_def Let_def HasControl_def flow_calc_unused_def)
  have f: "SegInterval ?c = 200 \<and> SegLmt ?c = 8" by (simp add: SetFlowControlArgs_def trunc_div_def Let_def)
  from calc_is_limited [of ?c 80 2000 10 flow_calc_unused "[]", OF refl _ _ _ r] f r show ?thesis
    by (simp add: over_limit_def)
qed

text \<open>
  A single request above the limit is granted at any time, however much is in use: the limit is no
  bound for it. The time returned says how long to wait after it.
\<close>

theorem oversize_request_is_granted:
  assumes "calc_fit c" "0 \<le> now" "FcMax c < u" "UsedCount c + u < 2 ^ 64"
  shows "0 \<le> fst (CalcUsed now u c) \<and>
    UsedCount (snd (CalcUsed now u c)) = UsedCount (drain_to (now div SegInterval c) c) + u"
  using CalcUsed_any [OF assms(1,4,2) refl] assms(3) by auto

lemma oversize_request_is_granted_witness:
  "0 \<le> fst (CalcUsed 50 100 \<lparr> UsedCount = 70, CalcTimeSeg = 0, SegLmt = 8, SegInterval = 200, FcMax = 80, FcInterval = 2000 \<rparr>)"
  using oversize_request_is_granted [of "\<lparr> UsedCount = 70, CalcTimeSeg = 0, SegLmt = 8, SegInterval = 200, FcMax = 80, FcInterval = 2000 \<rparr>" 50 100]
  by (simp add: calc_fit_def)

text \<open>
  While less than the limit is in use, waiting for the time a refused request returns is enough:
  then nothing is in use any more, and any request up to the limit is granted.
\<close>

theorem calc_wait_is_enough:
  assumes "calc_ok c" "u \<le> FcMax c" "0 \<le> now" "CalcUsed now u c = (r, c1)" "r < 0" "UsedCount c1 < FcMax c"
    and "v \<le> FcMax c"
  shows "0 \<le> fst (CalcUsed (now - r) v c1) \<and> UsedCount (snd (CalcUsed (now - r) v c1)) = v"
proof -
  define d where "d = drain_to (now div SegInterval c) c"
  have c1: "c1 = d" and r: "- r = int (1 + UsedCount d div SegLmt d) * SegInterval d"
    using CalcUsed_eq [OF assms(1-3) d_def] assms(4-6) refusal_sign(2) [OF assms(1)]
    by (auto simp: d_def split: if_splits)
  have ok: "calc_ok d" "UsedCount d < FcMax d" "FcMax d = FcMax c"
    using assms(1,6) c1 drain_to_used [of "now div SegInterval c" c] by (auto simp: calc_ok_def d_def)
  have seg: "(now - r) div SegInterval d = CalcTimeSeg d + int (1 + UsedCount d div SegLmt d)"
  proof -
    have "now - r = now + int (1 + UsedCount d div SegLmt d) * SegInterval d" using r by linarith
    then show ?thesis using ok(1) by (simp only: div_mult_self1 calc_ok_def) (simp add: d_def)
  qed
  have "UsedCount (drain_to ((now - r) div SegInterval d) d) = 0"
    unfolding seg by (rule waited_segments [OF ok(1,2) refl])
  then show ?thesis
    using CalcUsed_eq [OF ok(1) _ _ refl, of v "now - r"] assms(3,5,7) ok refusal_sign(2) [OF ok(1)]
    by (auto simp: c1 not_less)
qed

lemma calc_wait_is_enough_witness:
  "fst (CalcUsed 450 70 (snd (CalcUsed 50 70 \<lparr> UsedCount = 15, CalcTimeSeg = 0, SegLmt = 8, SegInterval = 200, FcMax = 80, FcInterval = 2000 \<rparr>))) \<ge> 0"
proof -
  let ?c = "\<lparr> UsedCount = 15, CalcTimeSeg = 0, SegLmt = 8, SegInterval = 200, FcMax = 80, FcInterval = 2000 \<rparr>"
  have "CalcUsed 50 70 ?c = (-400, ?c)" "calc_ok ?c"
    by (simp_all add: CalcUsed_def drain_to_def uadd_def trunc_div_def Let_def HasControl_def calc_ok_def)
  with calc_wait_is_enough [of ?c 70 50 "-400" ?c 70] show ?thesis by simp
qed

text \<open>
  When the limit is used up whole, the time returned may be too short: the request is refused
  again after it.
\<close>

theorem full_limit_waits_too_short:
  "CalcUsed 0 119 (SetFlowControlArgs 119 20 20 flow_calc_unused) = (23, c1) \<Longrightarrow>
   CalcUsed 0 119 c1 = (-21, c1) \<and> fst (CalcUsed 21 119 c1) < 0"
proof -
  assume "CalcUsed 0 119 (SetFlowControlArgs 119 20 20 flow_calc_unused) = (23, c1)"
  moreover have "CalcUsed 0 119 (SetFlowControlArgs 119 20 20 flow_calc_unused) =
    (23, \<lparr> UsedCount = 119, CalcTimeSeg = 0, SegLmt = 5, SegInterval = 1, FcMax = 119, FcInterval = 20 \<rparr>)"
    by (simp add: SetFlowControlArgs_def CalcUsed_def drain_to_def uadd_def trunc_div_def Let_def HasControl_def flow_calc_unused_def)
  ultimately have "c1 = \<lparr> UsedCount = 119, CalcTimeSeg = 0, SegLmt = 5, SegInterval = 1, FcMax = 119, FcInterval = 20 \<rparr>" by simp
  then show ?thesis by (simp add: CalcUsed_def drain_to_def uadd_def trunc_div_def Let_def HasControl_def)
qed

end
