(* ===== verification/Base64.thy ===== *)
theory Base64
  imports NumText
begin

text \<open>
  \<open>fon9/Base64.hpp\<close>, \<open>fon9/Base64.cpp\<close>. The destination is the list of the bytes written to it,
  the end-of-string included where there is room for one; \<open>dstSize\<close> is its capacity. The decoder
  keeps its 32-bit \<open>value\<close> from one group of four characters to the next, as the code does.
  What is encoded is decoded, with any white space in between, and no text makes the decoder
  write more than \<open>Base64DecodeLength\<close> announces or than there is room for.
\<close>

datatype b64_error = no_buffer_space | bad_message

subsection \<open>Encoding\<close>

definition chB64Enc :: "byte list" where
  "chB64Enc = ascii ''ABCDEFGHIJKLMNOPQRSTUVWXYZabcdefghijklmnopqrstuvwxyz0123456789+/''"

definition enc64 :: "byte \<Rightarrow> byte" where
  "enc64 v = chB64Enc ! unat (v AND 0x3F)"

fun encode_loop :: "byte list \<Rightarrow> byte list" where
  "encode_loop (C1 # C2 # C3 # src) =
     enc64 (drop_bit 2 C1) # enc64 (push_bit 4 (C1 AND 3) + drop_bit 4 C2) #
     enc64 (push_bit 2 (C2 AND 15) + drop_bit 6 C3) # enc64 C3 # encode_loop src"
| "encode_loop [C1, C2] =
     [enc64 (drop_bit 2 C1), enc64 (push_bit 4 (C1 AND 3) + drop_bit 4 C2), enc64 (push_bit 2 (C2 AND 15)), 0x3d]"
| "encode_loop [C1] = [enc64 (drop_bit 2 C1), enc64 (push_bit 4 (C1 AND 3)), 0x3d, 0x3d]"
| "encode_loop [] = []"

definition Base64EncodeLengthNoEOS :: "nat \<Rightarrow> nat" where
  "Base64EncodeLengthNoEOS srcSize = (srcSize div 3 + (if srcSize mod 3 \<noteq> 0 then 1 else 0)) * 4"

definition Base64Encode :: "nat \<Rightarrow> byte list \<Rightarrow> b64_error + byte list \<times> nat" where
  "Base64Encode dstSize src =
     (if src = [] then Inr (if 0 < dstSize then [0] else [], 0)
      else let minOutSize = Base64EncodeLengthNoEOS (length src)
        in if dstSize < minOutSize then Inl no_buffer_space
           else Inr (encode_loop src @ (if minOutSize < dstSize then [0] else []), minOutSize))"

definition RevPutB64 :: "byte list \<Rightarrow> byte list \<Rightarrow> byte list" where
  "RevPutB64 rbuf src =
     (let b64Size = Base64EncodeLengthNoEOS (length src)
      in if b64Size = 0 then rbuf
         else case Base64Encode b64Size src of Inr (bs, _) \<Rightarrow> bs @ rbuf | Inl _ \<Rightarrow> rbuf)"

subsection \<open>Decoding\<close>

definition E64 :: byte where
  "E64 = 127"

definition chB64Dec :: "byte list" where
  "chB64Dec = replicate 43 E64 @ [62] @ replicate 3 E64 @ [63] @ map of_nat [52..<62] @ replicate 3 E64 @ [64] @
     replicate 3 E64 @ map of_nat [0..<26] @ replicate 6 E64 @ map of_nat [26..<52] @ replicate 5 E64"

definition kB64DecSize :: nat where
  "kB64DecSize = 128"

definition dec64 :: "byte \<Rightarrow> byte" where
  "dec64 ch = (if kB64DecSize \<le> unat ch then E64 else chB64Dec ! unat ch)"

definition DecodeLengthMax :: "nat \<Rightarrow> nat" where
  "DecodeLengthMax srcSize = 6 * (srcSize div 8) + (6 * (srcSize mod 8) + 7) div 8"

fun decode_length_loop :: "byte list \<Rightarrow> nat \<Rightarrow> nat \<Rightarrow> b64_error + nat" where
  "decode_length_loop [] dstSize tailCount = Inr (DecodeLengthMax dstSize - tailCount)"
| "decode_length_loop (ch # src) dstSize tailCount =
     (if isspace ch then decode_length_loop src dstSize tailCount
      else if dec64 ch = E64 then Inl bad_message
      else if dec64 ch < 64
      then (if tailCount \<noteq> 0 then Inl bad_message else decode_length_loop src (dstSize + 1) tailCount)
      else if tailCount + 1 > 2 then Inl bad_message
      else decode_length_loop src (dstSize + 1) (tailCount + 1))"

definition Base64DecodeLength :: "byte list \<Rightarrow> b64_error + nat" where
  "Base64DecodeLength src = decode_length_loop src 0 0"

definition b64_group :: "nat \<Rightarrow> u32 \<Rightarrow> byte list" where
  "b64_group tails v = take tails [ucast (drop_bit 16 v), ucast (drop_bit 8 v), ucast v]"

fun decode_loop :: "nat \<Rightarrow> byte list \<Rightarrow> nat \<Rightarrow> u32 \<Rightarrow> nat \<Rightarrow> byte list \<Rightarrow> b64_error + byte list" where
  "decode_loop dstSize [] tails val cnt out = (if cnt \<noteq> 0 then Inl bad_message else Inr out)"
| "decode_loop dstSize (ch # src) tails val cnt out =
     (if isspace ch then decode_loop dstSize src tails val cnt out
      else if dec64 ch = E64 then Inl bad_message
      else if dec64 ch < 64 \<and> tails \<noteq> 3 then Inl bad_message
      else if \<not> dec64 ch < 64 \<and> tails - 1 = 0 then Inl bad_message
      else
        let v = (if dec64 ch < 64 then push_bit 6 val OR (ucast (dec64 ch) AND 0x3F) else push_bit 6 val);
            t = (if dec64 ch < 64 then tails else tails - 1)
        in if cnt + 1 = 4
           then (if length out + t > dstSize then Inl no_buffer_space
                 else decode_loop dstSize src t v 0 (out @ b64_group t v))
           else decode_loop dstSize src t v (cnt + 1) out)"

definition Base64Decode :: "nat \<Rightarrow> byte list \<Rightarrow> b64_error + byte list" where
  "Base64Decode dstSize srcB64 = decode_loop dstSize srcB64 3 0 0 []"

subsection \<open>The alphabet\<close>

lemma dec64_enc64_all:
  "list_all (\<lambda>i. let c = chB64Enc ! i in dec64 c = of_nat i \<and> \<not> isspace c) [0..<64]"
  by code_simp

lemma dec64_nth: "i < 64 \<Longrightarrow> dec64 (chB64Enc ! i) = of_nat i \<and> \<not> isspace (chB64Enc ! i)"
  using dec64_enc64_all by (auto simp: list_all_iff Let_def)

lemma dec64_tail [simp]: "dec64 0x3d = 64" "\<not> isspace 0x3d"
  by code_simp+

lemma unat_bits:
  "unat (take_bit n (v :: 'a::len word)) = unat v mod 2 ^ n"
  "unat (push_bit n v) = unat v * 2 ^ n mod 2 ^ LENGTH('a)"
  "unat (drop_bit n v) = unat v div 2 ^ n"
proof -
  show "unat (take_bit n v) = unat v mod 2 ^ n" unfolding unsigned_take_bit_eq by (rule take_bit_eq_mod)
  show "unat (push_bit n v) = unat v * 2 ^ n mod 2 ^ LENGTH('a)"
    unfolding unsigned_push_bit_eq push_bit_eq_mult [of n "unat v"] by (rule take_bit_eq_mod)
  show "unat (drop_bit n v) = unat v div 2 ^ n" unfolding unat_drop_bit_eq by (rule drop_bit_eq_div)
qed

lemma low_bits: "(3 :: 'a::len word) = mask 2" "(15 :: 'a word) = mask 4" "(0x3F :: 'a word) = mask 6"
  by (simp_all add: mask_eq_exp_minus_1)

lemma unat_and_3f: "unat ((v :: byte) AND 0x3F) = unat v mod 64"
  unfolding low_bits take_bit_eq_mask [symmetric] unat_bits by simp

lemma enc64_eq: "enc64 v = chB64Enc ! (unat v mod 64)"
  by (simp add: enc64_def unat_and_3f)

lemma dec64_enc64 [simp]: "dec64 (enc64 v) = of_nat (unat v mod 64)" "\<not> isspace (enc64 v)"
  using dec64_nth [of "unat v mod 64"] by (simp_all add: enc64_eq)

subsection \<open>Groups of four characters\<close>

lemma unat_low_bits: "unat ((v :: byte) AND 3) = unat v mod 4" "unat (v AND 15) = unat v mod 16"
  unfolding low_bits take_bit_eq_mask [symmetric] unat_bits by simp_all

lemma unat_byte_shift: "unat (push_bit n (v :: byte)) = unat v * 2 ^ n mod 256" "unat (drop_bit n v) = unat v div 2 ^ n"
  unfolding unat_bits by simp_all

lemma unat_byte_less: "unat (v :: byte) < 256"
  using unsigned_less [of v] by simp

lemma sextets:
  "unat (drop_bit 2 (C1 :: byte)) mod 64 = unat C1 div 4"
  "unat (push_bit 4 (C1 AND 3) + drop_bit 4 (C2 :: byte)) mod 64 = unat C1 mod 4 * 16 + unat C2 div 16"
  "unat (push_bit 2 (C2 AND 15) + drop_bit 6 (C3 :: byte)) mod 64 = unat C2 mod 16 * 4 + unat C3 div 64"
  "unat (push_bit 4 (C1 AND 3)) mod 64 = unat C1 mod 4 * 16"
  "unat (push_bit 2 (C2 AND 15)) mod 64 = unat C2 mod 16 * 4"
proof -
  have less: "unat C1 < 256" "unat C2 < 256" "unat C3 < 256" by (rule unat_byte_less)+
  show "unat (drop_bit 2 C1) mod 64 = unat C1 div 4" using less by (simp add: unat_byte_shift)
  show "unat (push_bit 4 (C1 AND 3) + drop_bit 4 C2) mod 64 = unat C1 mod 4 * 16 + unat C2 div 16"
    unfolding unat_word_ariths unat_byte_shift unat_low_bits using less by simp
  show "unat (push_bit 2 (C2 AND 15) + drop_bit 6 C3) mod 64 = unat C2 mod 16 * 4 + unat C3 div 64"
    unfolding unat_word_ariths unat_byte_shift unat_low_bits using less by simp
  show "unat (push_bit 4 (C1 AND 3)) mod 64 = unat C1 mod 4 * 16"
    unfolding unat_byte_shift unat_low_bits using less by simp
  show "unat (push_bit 2 (C2 AND 15)) mod 64 = unat C2 mod 16 * 4"
    unfolding unat_byte_shift unat_low_bits using less by simp
qed

lemma value_step:
  assumes "c < 64"
  shows "unat (push_bit 6 (v :: u32) OR (ucast (of_nat c :: byte) AND 0x3F)) = (unat v * 64 + c) mod 2 ^ 32"
proof -
  let ?x = "ucast (of_nat c :: byte) AND 0x3F :: u32"
  have m: "(0x3F :: u32) = mask 6" by (simp add: mask_eq_exp_minus_1)
  have "\<not> bit (push_bit 6 v) n \<or> \<not> bit ?x n" for n unfolding m by (auto simp: bit_simps)
  then have "push_bit 6 v OR ?x = push_bit 6 v + ?x" by (simp add: disjunctive_add)
  moreover have "unat ?x = c"
    using assms unfolding m take_bit_eq_mask [symmetric]
    by (simp add: unat_bits(1) unsigned_ucast_eq unat_of_nat take_bit_nat_eq_self)
  ultimately show ?thesis
    by (simp only: unat_word_ariths unat_bits) (simp add: mod_simps)
qed

definition six :: "u32 \<Rightarrow> nat \<Rightarrow> u32" where
  "six v c = push_bit 6 v OR (ucast (of_nat c :: byte) AND 0x3F)"

lemma unat_six: "c < 64 \<Longrightarrow> unat (six v c) = (unat v * 64 + c) mod 2 ^ 32"
  unfolding six_def by (rule value_step)

lemma unat_push6: "unat (push_bit 6 (v :: u32)) = unat v * 64 mod 2 ^ 32"
  unfolding unat_bits by simp

lemma mod_div_swap: "0 < b \<Longrightarrow> x mod (b * c) div b = x div b mod (c :: nat)"
  by (simp add: mod_mult2_eq)

lemma byte_parts:
  assumes "a < 256" "b < 256" "c < (256 :: nat)"
  shows "(a * 65536 + b * 256 + c) div 65536 = a" "(a * 65536 + b * 256 + c) div 256 mod 256 = b"
    "(a * 65536 + b * 256 + c) mod 256 = c"
proof -
  have e: "a * 65536 + b * 256 + c = c + (b + a * 256) * 256" by simp
  have d: "(c + (b + a * 256) * 256) div 256 = b + a * 256" using assms by (subst div_mult_self1) simp_all
  show "(a * 65536 + b * 256 + c) div 65536 = a" using assms by (intro div_nat_eqI) simp_all
  show "(a * 65536 + b * 256 + c) div 256 mod 256 = b" unfolding e d using assms by (subst mod_mult_self1) simp
  show "(a * 65536 + b * 256 + c) mod 256 = c" unfolding e using assms by (subst mod_mult_self1) simp
qed

lemma b64_group_bytes:
  assumes "unat (v :: u32) mod 2 ^ 24 = unat A * 65536 + unat B * 256 + unat C"
  shows "b64_group t v = take t [A, B, C]"
proof -
  have less: "unat A < 256" "unat B < 256" "unat C < 256" by (rule unat_byte_less)+
  have u: "unat (ucast w :: byte) = unat (w :: u32) mod 256" for w
    by (simp add: unsigned_ucast_eq take_bit_eq_mod)
  let ?n = "unat v"
  have m: "?n mod 2 ^ 24 mod 256 = ?n mod 256" "?n mod 2 ^ 24 div 256 mod 256 = ?n div 256 mod 256"
    "?n mod 2 ^ 24 div 65536 = ?n div 65536 mod 256"
    by (simp_all add: mod_mod_cancel mod_div_swap [of 256 ?n 65536, simplified] mod_div_swap [of 65536 ?n 256, simplified])
  have "?n div 65536 mod 256 = unat A" "?n div 256 mod 256 = unat B" "?n mod 256 = unat C"
    unfolding m [symmetric] assms by (rule byte_parts [OF less])+
  then have "ucast (drop_bit 16 v) = A" "ucast (drop_bit 8 v) = B" "ucast v = C"
    by (simp_all add: word_unat_eq_iff u unat_bits(3))
  then show ?thesis by (simp add: b64_group_def)
qed

lemma four_sextets:
  assumes "i1 < 64" "i2 < 64" "i3 < 64" "i4 < 64"
  shows "unat (six (six (six (six v i1) i2) i3) i4) mod 2 ^ 24 = ((i1 * 64 + i2) * 64 + i3) * 64 + i4"
    and "unat (push_bit 6 (six (six (six v i1) i2) i3)) mod 2 ^ 24 = ((i1 * 64 + i2) * 64 + i3) * 64"
    and "unat (push_bit 6 (push_bit 6 (six (six v i1) i2))) mod 2 ^ 24 = ((i1 * 64 + i2) * 64) * 64"
proof -
  have m: "x mod 2 ^ 32 mod 2 ^ 24 = x mod 2 ^ 24" for x :: nat by (rule mod_mod_cancel) (simp add: le_imp_power_dvd)
  have d: "k mod 2 ^ 24 = w" if "w < 2 ^ 24" "k = x * 2 ^ 24 + w" for w k x :: nat using that by simp
  have c: "x mod 2 ^ 32 * 64 mod 2 ^ 32 = x * 64 mod 2 ^ 32" "(x mod 2 ^ 32 * 64 + i) mod 2 ^ 32 = (x * 64 + i) mod 2 ^ 32" for x i :: nat
    by (simp add: mod_simps) (metis mod_add_left_eq mod_mult_left_eq)
  note u = unat_six [OF assms(1)] unat_six [OF assms(2)] unat_six [OF assms(3)] unat_six [OF assms(4)] unat_push6
  have e: "unat (six (six (six (six v i1) i2) i3) i4) mod 2 ^ 24 = ((((unat v * 64 + i1) * 64 + i2) * 64 + i3) * 64 + i4) mod 2 ^ 24"
    by (simp only: u c m)
  show "unat (six (six (six (six v i1) i2) i3) i4) mod 2 ^ 24 = ((i1 * 64 + i2) * 64 + i3) * 64 + i4"
    unfolding e using assms by (intro d [of _ _ "unat v"]) simp_all
  have e: "unat (push_bit 6 (six (six (six v i1) i2) i3)) mod 2 ^ 24 = ((((unat v * 64 + i1) * 64 + i2) * 64 + i3) * 64) mod 2 ^ 24"
    by (simp only: u c m)
  show "unat (push_bit 6 (six (six (six v i1) i2) i3)) mod 2 ^ 24 = ((i1 * 64 + i2) * 64 + i3) * 64"
    unfolding e using assms by (intro d [of _ _ "unat v"]) simp_all
  have e: "unat (push_bit 6 (push_bit 6 (six (six v i1) i2))) mod 2 ^ 24 = ((((unat v * 64 + i1) * 64 + i2) * 64) * 64) mod 2 ^ 24"
    by (simp only: u c m)
  show "unat (push_bit 6 (push_bit 6 (six (six v i1) i2))) mod 2 ^ 24 = ((i1 * 64 + i2) * 64) * 64"
    unfolding e using assms by (intro d [of _ _ "unat v"]) simp_all
qed

subsection \<open>Decoding what was encoded\<close>

lemma decode_skip: "decode_loop dst cs t v n out = decode_loop dst (filter (\<lambda>c. \<not> isspace c) cs) t v n out"
proof (induction cs arbitrary: t v n out)
  case (Cons c cs)
  show ?case
  proof (cases "isspace c")
    case True
    then show ?thesis by (simp add: Cons.IH [symmetric] del: decode_loop.simps) (simp add: True)
  next
    case False
    then have "filter (\<lambda>c. \<not> isspace c) (c # cs) = c # filter (\<lambda>c. \<not> isspace c) cs" by simp
    then show ?thesis using Cons.IH [symmetric] by (simp only: decode_loop.simps(2))
  qed
qed simp

lemma length_skip: "decode_length_loop cs n t = decode_length_loop (filter (\<lambda>c. \<not> isspace c) cs) n t"
  by (induction cs n t rule: decode_length_loop.induct) simp_all

lemma sextet_less: "n < 64 \<Longrightarrow> (of_nat n :: byte) < 64" "n < 64 \<Longrightarrow> (of_nat n :: byte) \<noteq> E64"
proof -
  assume n: "n < 64"
  show l: "(of_nat n :: byte) < 64" using n by (simp add: word_less_nat_alt unat_of_nat)
  show "(of_nat n :: byte) \<noteq> E64" using l by (auto simp: E64_def)
qed

lemma decode_enc64 [simp]:
  "decode_loop dst (enc64 x # src) 3 v n out =
     (let v' = six v (unat x mod 64)
      in if n + 1 = 4 then (if length out + 3 > dst then Inl no_buffer_space
           else decode_loop dst src 3 v' 0 (out @ b64_group 3 v'))
         else decode_loop dst src 3 v' (n + 1) out)"
  using sextet_less [of "unat x mod 64"] by (simp add: six_def Let_def)

lemma decode_Nil [simp]: "decode_loop dst [] t v 0 out = Inr out"
  by simp

lemma decode_tail [simp]:
  "decode_loop dst (0x3d # src) 3 v n out =
     (if n + 1 = 4 then (if length out + 2 > dst then Inl no_buffer_space
           else decode_loop dst src 2 (push_bit 6 v) 0 (out @ b64_group 2 (push_bit 6 v)))
      else decode_loop dst src 2 (push_bit 6 v) (n + 1) out)"
  "decode_loop dst (0x3d # src) 2 v n out =
     (if n + 1 = 4 then (if length out + 1 > dst then Inl no_buffer_space
           else decode_loop dst src 1 (push_bit 6 v) 0 (out @ b64_group 1 (push_bit 6 v)))
      else decode_loop dst src 1 (push_bit 6 v) (n + 1) out)"
  by (simp_all add: E64_def Let_def)

lemma sextet_sum:
  "((a div 4 * 64 + (a mod 4 * 16 + b div 16)) * 64 + (b mod 16 * 4 + c div 64)) * 64 + c mod 64 = a * 65536 + b * 256 + (c :: nat)"
  "((a div 4 * 64 + (a mod 4 * 16 + b div 16)) * 64 + b mod 16 * 4) * 64 = a * 65536 + (b :: nat) * 256"
  "((a div 4 * 64 + a mod 4 * 16) * 64) * 64 = (a :: nat) * 65536"
proof -
  have *: "((q * 64 + (r * 16 + s)) * 64 + (t * 4 + u)) * 64 + v = (4 * q + r) * 65536 + (16 * s + t) * 256 + (64 * u + v)"
    for q r s t u v :: nat by simp
  show "((a div 4 * 64 + (a mod 4 * 16 + b div 16)) * 64 + (b mod 16 * 4 + c div 64)) * 64 + c mod 64 = a * 65536 + b * 256 + c"
    unfolding * by (simp only: mult_div_mod_eq)
  show "((a div 4 * 64 + (a mod 4 * 16 + b div 16)) * 64 + b mod 16 * 4) * 64 = a * 65536 + b * 256"
    using * [of "a div 4" "a mod 4" "b div 16" "b mod 16" 0 0] by (simp only: mult_div_mod_eq) simp
  show "((a div 4 * 64 + a mod 4 * 16) * 64) * 64 = a * 65536"
    using * [of "a div 4" "a mod 4" 0 0 0 0] by (simp only: mult_div_mod_eq) simp
qed

lemma decode_encode_loop:
  "length out \<le> dst \<Longrightarrow> decode_loop dst (encode_loop src) 3 v 0 out =
     (if length out + length src \<le> dst then Inr (out @ src) else Inl no_buffer_space)"
proof (induction src arbitrary: v out rule: encode_loop.induct)
  case (1 C1 C2 C3 src)
  let ?v = "six (six (six (six v (unat C1 div 4)) (unat C1 mod 4 * 16 + unat C2 div 16)) (unat C2 mod 16 * 4 + unat C3 div 64)) (unat C3 mod 64)"
  have less: "unat C1 < 256" "unat C2 < 256" "unat C3 < 256" by (rule unat_byte_less)+
  have "unat ?v mod 2 ^ 24 = ((unat C1 div 4 * 64 + (unat C1 mod 4 * 16 + unat C2 div 16)) * 64 + (unat C2 mod 16 * 4 + unat C3 div 64)) * 64 + unat C3 mod 64"
    using less by (intro four_sextets(1)) simp_all
  then have "unat ?v mod 2 ^ 24 = unat C1 * 65536 + unat C2 * 256 + unat C3"
    unfolding sextet_sum by simp
  then have g: "b64_group 3 ?v = [C1, C2, C3]" by (subst b64_group_bytes) auto
  show ?case by (simp only: encode_loop.simps decode_enc64 sextets Let_def) (use 1 in \<open>simp add: g del: decode_loop.simps decode_enc64 decode_tail\<close>)
next
  case (2 C1 C2)
  let ?v = "push_bit 6 (six (six (six v (unat C1 div 4)) (unat C1 mod 4 * 16 + unat C2 div 16)) (unat C2 mod 16 * 4))"
  have less: "unat C1 < 256" "unat C2 < 256" by (rule unat_byte_less)+
  have "unat ?v mod 2 ^ 24 = ((unat C1 div 4 * 64 + (unat C1 mod 4 * 16 + unat C2 div 16)) * 64 + unat C2 mod 16 * 4) * 64"
    using less by (intro four_sextets(2) [where ?i4.0 = 0]) simp_all
  then have "unat ?v mod 2 ^ 24 = unat C1 * 65536 + unat C2 * 256 + unat (0 :: byte)"
    unfolding sextet_sum by simp
  then have g: "b64_group 2 ?v = [C1, C2]" by (subst b64_group_bytes [where C = 0]) auto
  show ?case by (simp only: encode_loop.simps decode_enc64 decode_tail sextets Let_def) (simp add: g del: decode_loop.simps(2))
next
  case (3 C1)
  let ?v = "push_bit 6 (push_bit 6 (six (six v (unat C1 div 4)) (unat C1 mod 4 * 16)))"
  have less: "unat C1 < 256" by (rule unat_byte_less)+
  have "unat ?v mod 2 ^ 24 = ((unat C1 div 4 * 64 + unat C1 mod 4 * 16) * 64) * 64"
    using less by (intro four_sextets(3) [where ?i3.0 = 0 and ?i4.0 = 0]) simp_all
  then have "unat ?v mod 2 ^ 24 = unat C1 * 65536 + unat (0 :: byte) * 256 + unat (0 :: byte)"
    unfolding sextet_sum by simp
  then have g: "b64_group 1 ?v = [C1]" by (subst b64_group_bytes [where B = 0 and C = 0]) auto
  show ?case by (simp only: encode_loop.simps decode_enc64 decode_tail sextets Let_def) (simp add: g [simplified] del: decode_loop.simps(2))
qed simp

lemma encode_loop_chars: "filter (\<lambda>c. \<not> isspace c) (encode_loop src) = encode_loop src"
  by (induction src rule: encode_loop.induct) simp_all

lemma EncodeLength_step: "Base64EncodeLengthNoEOS (Suc (Suc (Suc n))) = 4 + Base64EncodeLengthNoEOS n"
proof -
  have "Suc (Suc (Suc n)) = n + 3" "(n + 3) div 3 = n div 3 + 1" "(n + 3) mod 3 = n mod 3" by simp_all
  then show ?thesis by (simp only: Base64EncodeLengthNoEOS_def) (simp add: distrib_right)
qed

lemma length_encode_loop: "length (encode_loop src) = Base64EncodeLengthNoEOS (length src)"
  by (induction src rule: encode_loop.induct) (simp_all add: EncodeLength_step, simp_all add: Base64EncodeLengthNoEOS_def)

lemma length_enc64 [simp]:
  "decode_length_loop (enc64 x # src) n 0 = decode_length_loop src (n + 1) 0"
  using sextet_less [of "unat x mod 64"] by simp

lemma length_tail [simp]:
  "decode_length_loop (0x3d # src) n t = (if t < 2 then decode_length_loop src (n + 1) (t + 1) else Inl bad_message)"
  by (simp add: E64_def)

lemma DecodeLengthMax_step: "DecodeLengthMax (4 * k) = 3 * k"
proof (cases "even k")
  case True
  then show ?thesis by (auto simp: DecodeLengthMax_def elim!: evenE)
next
  case False
  then obtain j where "k = 2 * j + 1" by (rule oddE)
  moreover have "(8 * j + 4) div 8 = j" "(8 * j + 4) mod 8 = 4" by simp_all
  ultimately show ?thesis by (simp add: DecodeLengthMax_def)
qed

lemma decode_length_encode_loop:
  "decode_length_loop (encode_loop src) (4 * k) 0 = Inr (3 * k + length src)"
proof (induction src arbitrary: k rule: encode_loop.induct)
  case (1 C1 C2 C3 src)
  have e: "4 * k + 1 + 1 + 1 + 1 = 4 * (k + 1)" by simp
  show ?case by (simp only: encode_loop.simps length_enc64 e 1) simp
next
  case (2 C1 C2)
  have e: "4 * k + 1 + 1 + 1 + 1 = 4 * (k + 1)" by simp
  show ?case by (simp only: encode_loop.simps length_enc64 length_tail e decode_length_loop.simps(1) DecodeLengthMax_step) simp
next
  case (3 C1)
  have e: "4 * k + 1 + 1 + 1 + 1 = 4 * (k + 1)" by simp
  show ?case by (simp only: encode_loop.simps length_enc64 length_tail e decode_length_loop.simps(1) DecodeLengthMax_step) simp
qed (simp add: DecodeLengthMax_step)

subsection \<open>What the decoder accepts\<close>

lemma length_b64_group [simp]: "t \<le> 3 \<Longrightarrow> length (b64_group t v) = t"
  by (simp add: b64_group_def)

lemma decode_stuck:
  "t = 1 \<and> 0 < n \<or> t = 2 \<and> 0 < n \<and> n < 3 \<Longrightarrow> decode_loop dst cs t v n out \<noteq> Inr res"
proof (induction cs arbitrary: t v n)
  case (Cons c cs)
  then show ?case by (auto simp: Let_def split: if_splits)
qed auto

lemma decode_result:
  assumes "t = 3 \<or> n = 0 \<and> 0 < t \<and> t \<le> 3 \<or> t = 2 \<and> n = 3" and "n < 4" "length out \<le> dst"
    and "length out + (if n = 0 then 3 - t else 0) = 3 * g" and "decode_loop dst cs t v n out = Inr res"
  shows "decode_length_loop cs (4 * g + n) (3 - t) = Inr (length res) \<and> length res \<le> dst"
  using assms
proof (induction cs arbitrary: t v n out g)
  case Nil
  then show ?case by (auto simp: DecodeLengthMax_step split: if_splits)
next
  case (Cons c cs)
  consider "isspace c" | "\<not> isspace c" "dec64 c < 64" | "\<not> isspace c" "\<not> dec64 c < 64" "dec64 c \<noteq> E64"
    using Cons.prems(5) by (auto split: if_splits)
  then show ?case
  proof cases
    case 1
    then show ?thesis using Cons.IH [OF Cons.prems(1-4)] Cons.prems(5) by simp
  next
    case 2
    then have t: "t = 3" "dec64 c \<noteq> E64" using Cons.prems(5) by (auto split: if_splits)
    then have l: "length out = 3 * g" using Cons.prems(4) by (simp split: if_splits)
    show ?thesis
    proof (cases "n = 3")
      case True
      then show ?thesis
        using Cons.IH [of 3 0 "out @ b64_group 3 (push_bit 6 v OR (ucast (dec64 c) AND 0x3F))" "Suc g"] Cons.prems 2 t
        by (auto simp: Let_def split: if_splits)
    next
      case False
      then show ?thesis
        using Cons.IH [of 3 "n + 1" out g "push_bit 6 v OR (ucast (dec64 c) AND 0x3F)"] Cons.prems 2 t l
        by (simp add: Let_def)
    qed
  next
    case 3
    then have t: "t - 1 \<noteq> 0" using Cons.prems(5) by (auto split: if_splits)
    show ?thesis
    proof (cases "n = 3")
      case True
      then show ?thesis
        using Cons.IH [of "t - 1" 0 "out @ b64_group (t - 1) (push_bit 6 v)" "Suc g" "push_bit 6 v"] Cons.prems 3 t
        by (auto simp: Let_def numeral_2_eq_2 [symmetric] split: if_splits)
    next
      case False
      have "decode_loop dst cs (t - 1) (push_bit 6 v) (n + 1) out = Inr res"
        using Cons.prems(5) 3 t False Cons.prems(2) by (auto simp: Let_def split: if_splits)
      moreover have "t - 1 = 1 \<and> 0 < n + 1 \<or> t - 1 = 2 \<and> 0 < n + 1 \<and> n + 1 < 3 \<or> t = 3 \<and> n = 2"
        using Cons.prems(1,2) t False by auto
      ultimately have n: "t = 3" "n = 2"
        using decode_stuck [of "t - 1" "n + 1" dst cs "push_bit 6 v" out res] by auto
      then show ?thesis using Cons.IH [of 2 3 out g "push_bit 6 v"] Cons.prems 3 t
        by (auto simp: Let_def numeral_3_eq_3 numeral_2_eq_2 split: if_splits)
    qed
  qed
qed

subsection \<open>Properties\<close>

text \<open>
  C38: What is encoded is decoded: a text that is the encoding of some bytes with any white space in
  between is read back as these bytes when there is room for them, and refused for want of room
  when there is not; the announced lengths are those of the encoding and of the bytes.
\<close>

theorem base64_roundtrip:
  assumes "filter (\<lambda>c. \<not> isspace c) cs = take n enc" "Base64Encode encSize src = Inr (enc, n)"
  shows "n = Base64EncodeLengthNoEOS (length src) \<and> length enc = n + (if n < encSize then 1 else 0) \<and>
    Base64DecodeLength cs = Inr (length src) \<and>
    Base64Decode dstSize cs = (if length src \<le> dstSize then Inr src else Inl no_buffer_space)"
proof -
  have e: "n = Base64EncodeLengthNoEOS (length src)" "enc = encode_loop src @ (if n < encSize then [0] else [])"
    using assms by (auto simp: Base64Encode_def Let_def not_less Base64EncodeLengthNoEOS_def [of 0] split: if_splits)
  then have f: "filter (\<lambda>c. \<not> isspace c) cs = encode_loop src" using assms(1) by (simp add: length_encode_loop [symmetric])
  show ?thesis
    using decode_length_encode_loop [of src 0] e
    by (simp add: Base64Decode_def Base64DecodeLength_def decode_skip [of _ cs] length_skip [of cs] f decode_encode_loop length_encode_loop)
qed

lemma base64_roundtrip_witness:
  "Base64Encode 9 (ascii ''fon9'') = Inr (ascii ''Zm9uOQ=='' @ [0], 8) \<and>
   Base64Decode 4 (ascii ''Zm9u OQ =='') = Inr (ascii ''fon9'')"
proof -
  have e: "Base64Encode 9 (ascii ''fon9'') = Inr (ascii ''Zm9uOQ=='' @ [0], 8)" by code_simp
  have "filter (\<lambda>c. \<not> isspace c) (ascii ''Zm9u OQ =='') = take 8 (ascii ''Zm9uOQ=='' @ [0])" by code_simp+
  from base64_roundtrip [OF this e, of 4] e show ?thesis by simp
qed

text \<open>
  No text makes the decoder write behind its buffer: whatever it accepts, it writes exactly as
  many bytes as \<open>Base64DecodeLength\<close> announces for the text, and no more than there is room for.
\<close>

theorem decoded_length_is_announced:
  assumes "Base64Decode dstSize cs = Inr out"
  shows "Base64DecodeLength cs = Inr (length out) \<and> length out \<le> dstSize"
  using decode_result [of 3 0 "[]" dstSize 0 cs 0 out] assms by (simp add: Base64Decode_def Base64DecodeLength_def)

lemma decoded_length_is_announced_witness:
  "Base64DecodeLength (ascii ''Zm9u OQ=='') = Inr 4"
proof -
  have "Base64Decode 7 (ascii ''Zm9u OQ=='') = Inr (ascii ''fon9'')" by code_simp
  from decoded_length_is_announced [OF this] show ?thesis by simp
qed

end
