(* ===== verification/DateTime.thy ===== *)
theory DateTime
  imports NumText Decimal
begin

text \<open>
  Points of time as dates (\<open>fon9/TimeStamp.hpp\<close>, the conversions of \<open>TimeStamp.cpp\<close>) and times of
  a day (\<open>fon9/TimeInterval.hpp\<close>). A \<open>TimeStamp\<close> is its number of microseconds since the epoch, an
  \<open>int\<close>; a \<open>DateTime14T\<close> the number whose decimal digits are \<open>YYYYMMDDHHMMSS\<close>. \<open>gmtime\<close> and \<open>timegm\<close>
  are the functions of the C library: the first counts years and months from the epoch, the
  second takes fields that may lie outside their ranges, as POSIX has it.
  Dates are read through the cache of the calling thread, \<open>time_cache\<close>, which every such function takes and
  returns. The lemmas: \<open>gmtime\<close> gives the one date of a day, the conversions are inverse, and what the
  cache answers.
\<close>

subsection \<open>The calendar of the C library\<close>

record tm =
  tm_sec :: int
  tm_min :: int
  tm_hour :: int
  tm_mday :: int
  tm_mon :: int
  tm_year :: int
  tm_wday :: int

definition is_leap :: "int \<Rightarrow> bool" where
  "is_leap y \<longleftrightarrow> 4 dvd y \<and> (\<not> 100 dvd y \<or> 400 dvd y)"

definition year_days :: "int \<Rightarrow> int" where
  "year_days y = (if is_leap y then 366 else 365)"

definition month_days :: "int \<Rightarrow> nat \<Rightarrow> int" where
  "month_days y m = (if m = 1 then (if is_leap y then 29 else 28) else if m \<in> {3, 5, 8, 10} then 30 else 31)"

definition leaps_until :: "int \<Rightarrow> int" where
  "leaps_until y = y div 4 - y div 100 + y div 400"

text \<open>The days from 1970-01-01 to the first day of a year.\<close>

definition days_before :: "int \<Rightarrow> int" where
  "days_before y = 365 * (y - 1970) + leaps_until (y - 1) - leaps_until 1969"

primrec month_start :: "int \<Rightarrow> nat \<Rightarrow> int" where
  "month_start y 0 = 0"
| "month_start y (Suc m) = month_start y m + month_days y m"

lemma year_days_bounds: "365 \<le> year_days y" "year_days y \<le> 366"
  by (simp_all add: year_days_def)

function year_of :: "int \<Rightarrow> int \<Rightarrow> int \<times> int" where
  "year_of y d = (if d < 0 then year_of (y - 1) (d + year_days (y - 1))
     else if year_days y \<le> d then year_of (y + 1) (d - year_days y) else (y, d))"
  by auto
termination
proof (relation "measure (\<lambda>(y, d). if d < 0 then nat (- d) + 400 else nat d)", goal_cases)
  case (2 y d)
  then show ?case using year_days_bounds [of "y - 1"] by auto
next
  case (3 y d)
  then show ?case using year_days_bounds [of y] by auto
qed simp

function month_of :: "int \<Rightarrow> nat \<Rightarrow> int \<Rightarrow> nat \<times> int" where
  "month_of y m d = (if 11 \<le> m \<or> d < month_days y m then (m, d) else month_of y (Suc m) (d - month_days y m))"
  by auto
termination by (relation "measure (\<lambda>(y, m, d). 11 - m)") auto

declare year_of.simps [simp del] month_of.simps [simp del]

definition gmtime :: "int \<Rightarrow> tm" where
  "gmtime secs = (let days = secs div 86400; s = secs mod 86400; (y, yd) = year_of 1970 days; (m, md) = month_of y 0 yd
     in \<lparr> tm_sec = s mod 60, tm_min = s div 60 mod 60, tm_hour = s div 3600, tm_mday = md + 1, tm_mon = int m,
          tm_year = y - 1900, tm_wday = (days + 4) mod 7 \<rparr>)"

definition timegm :: "tm \<Rightarrow> int" where
  "timegm t = (let y = tm_year t + 1900 + tm_mon t div 12; m = nat (tm_mon t mod 12)
     in (((days_before y + month_start y m + (tm_mday t - 1)) * 24 + tm_hour t) * 60 + tm_min t) * 60 + tm_sec t)"

subsection \<open>The cache of a thread\<close>

text \<open>
  A thread keeps the date of the last second it asked for, and the texts of \<open>TimeText\<close>. \<open>gmtime_r\<close> fails when
  the year does not fit into an \<open>int\<close>; no number of microseconds in 64 bits comes that far, but \<open>EpochSecondsInfo\<close>
  takes a number of seconds. (The number of a date whose year is above nine hundred million does
  not fit into 64 bits; the model has the number that is meant.)
\<close>

definition gmtime_r :: "int \<Rightarrow> tm option" where
  "gmtime_r es = (let t = gmtime es in if - (2 ^ 31) \<le> tm_year t \<and> tm_year t < 2 ^ 31 then Some t else None)"

definition tm_to_number :: "tm \<Rightarrow> int" where
  "tm_to_number t = (tm_year t + 1900) * 10000000000 + (tm_mon t + 1) * 100000000 + tm_mday t * 1000000 +
     tm_hour t * 10000 + tm_min t * 100 + tm_sec t"

record time_cache =
  CacheTm :: tm
  CacheNumber :: int
  CacheEpoch :: int
  PartUS :: nat
  PartFIXMS :: nat
  BufTime :: "byte list"
  BufFix :: "byte list"

definition zero_tm :: tm where
  "zero_tm = \<lparr> tm_sec = 0, tm_min = 0, tm_hour = 0, tm_mday = 0, tm_mon = 0, tm_year = 0, tm_wday = 0 \<rparr>"

definition new_time_cache :: time_cache where
  "new_time_cache = \<lparr> CacheTm = zero_tm, CacheNumber = 0, CacheEpoch = 0, PartUS = 0, PartFIXMS = 0,
     BufTime = (replicate 22 0)[14 := 0x2e],
     BufFix = (replicate 22 0)[8 := 0x2d, 11 := 0x3a, 14 := 0x3a, 17 := 0x2e] \<rparr>"

definition CheckCachedTm :: "int \<Rightarrow> time_cache \<Rightarrow> bool \<times> time_cache" where
  "CheckCachedTm es c = (if CacheEpoch c = es then (False, c)
     else let c1 = c\<lparr> CacheEpoch := es \<rparr>;
              c2 = (case gmtime_r es of Some t \<Rightarrow> c1\<lparr> CacheTm := t, CacheNumber := tm_to_number t \<rparr>
                    | None \<Rightarrow> c1\<lparr> CacheTm := zero_tm, CacheNumber := 0 \<rparr>)
       in (True, c2\<lparr> BufTime := (BufTime c2)[0 := 0], BufFix := (BufFix c2)[0 := 0] \<rparr>))"

definition EpochSecondsInfo :: "int \<Rightarrow> time_cache \<Rightarrow> tm \<times> time_cache" where
  "EpochSecondsInfo es c = (case CheckCachedTm es c of (_, c1) \<Rightarrow> (CacheTm c1, c1))"

definition EpochSecondsToYYYYMMDDHHMMSS :: "int \<Rightarrow> time_cache \<Rightarrow> int \<times> time_cache" where
  "EpochSecondsToYYYYMMDDHHMMSS es c = (case CheckCachedTm es c of (_, c1) \<Rightarrow> (CacheNumber c1, c1))"

subsection \<open>Conversions of \<open>TimeStamp\<close>\<close>

definition TsDivisor :: int where
  "TsDivisor = 1000000"

definition kOneDaySeconds :: int where
  "kOneDaySeconds = 24 * 60 * 60"

definition kDivHHMMSS :: int where
  "kDivHHMMSS = 1000000"

definition TsNull :: int where
  "TsNull = - (2 ^ 63)"

definition c_mod :: "int \<Rightarrow> int \<Rightarrow> int" where
  "c_mod a b = a - b * trunc_div a b"

definition ToEpochSeconds :: "int \<Rightarrow> int" where
  "ToEpochSeconds ts = trunc_div ts TsDivisor"

definition YYYYMMDDHHMMSS_ToEpochSeconds :: "int \<Rightarrow> int" where
  "YYYYMMDDHHMMSS_ToEpochSeconds n0 =
     (let n1 = trunc_div n0 100; n2 = trunc_div n1 100; n3 = trunc_div n2 100; n4 = trunc_div n3 100; n5 = trunc_div n4 100
      in timegm \<lparr> tm_sec = c_mod n0 100, tm_min = c_mod n1 100, tm_hour = c_mod n2 100, tm_mday = c_mod n3 100,
           tm_mon = c_mod n4 100 - 1, tm_year = n5 - 1900, tm_wday = 0 \<rparr>)"

definition NumToEpochSeconds :: "int \<Rightarrow> int" where
  "NumToEpochSeconds inum = (if inum \<le> 9999999999 then inum else YYYYMMDDHHMMSS_ToEpochSeconds inum)"

definition EpochSecondsToTimeStamp :: "int \<Rightarrow> int" where
  "EpochSecondsToTimeStamp es = es * TsDivisor"

definition YYYYMMDDHHMMSS_ToTimeStamp :: "int \<Rightarrow> int" where
  "YYYYMMDDHHMMSS_ToTimeStamp n = YYYYMMDDHHMMSS_ToEpochSeconds n * TsDivisor"

text \<open>What is read from a point of time comes from the cache of the thread, which is passed on.\<close>

definition GetDateTimeInfo :: "int \<Rightarrow> time_cache \<Rightarrow> tm \<times> time_cache" where
  "GetDateTimeInfo ts c = EpochSecondsInfo (ToEpochSeconds ts) c"

definition GetYYYYMMDDHHMMSS :: "int \<Rightarrow> time_cache \<Rightarrow> int \<times> time_cache" where
  "GetYYYYMMDDHHMMSS ts c = EpochSecondsToYYYYMMDDHHMMSS (ToEpochSeconds ts) c"

definition GetYYYYMMDD :: "int \<Rightarrow> time_cache \<Rightarrow> int \<times> time_cache" where
  "GetYYYYMMDD ts c = (case GetYYYYMMDDHHMMSS ts c of (n, c1) \<Rightarrow> (trunc_div n kDivHHMMSS mod 2 ^ 32, c1))"

definition GetHHMMSS :: "int \<Rightarrow> time_cache \<Rightarrow> int \<times> time_cache" where
  "GetHHMMSS ts c = (case GetYYYYMMDDHHMMSS ts c of (n, c1) \<Rightarrow> (c_mod n kDivHHMMSS mod 2 ^ 32, c1))"

definition GetWeekday :: "int \<Rightarrow> time_cache \<Rightarrow> int \<times> time_cache" where
  "GetWeekday ts c = (case GetDateTimeInfo ts c of (t, c1) \<Rightarrow> (tm_wday t, c1))"

definition TimeStampResetHHMMSS :: "int \<Rightarrow> int \<Rightarrow> time_cache \<Rightarrow> int \<times> time_cache" where
  "TimeStampResetHHMMSS ts hhmmss c =
     (case GetYYYYMMDDHHMMSS ts c of (n, c1) \<Rightarrow> (YYYYMMDDHHMMSS_ToTimeStamp (n - c_mod n kDivHHMMSS + hhmmss), c1))"

definition GetDayTime :: "int \<Rightarrow> time_cache \<Rightarrow> int \<times> time_cache" where
  "GetDayTime now c = (case GetDateTimeInfo now c of (t, c1) \<Rightarrow>
     (((tm_hour t * 60 + tm_min t) * 60 + tm_sec t) mod 2 ^ 32 * TsDivisor + \<bar>c_mod now TsDivisor\<bar>, c1))"

subsection \<open>The calendar\<close>

lemma days_before_Suc: "days_before (y + 1) = days_before y + year_days y"
proof -
  have step: "y div k - (y - 1) div k = (if k dvd y then 1 else 0)" if "1 < k" for k :: int
  proof (cases "k dvd y")
    case True
    then obtain q where q: "y = k * q" by (rule dvdE)
    have "(y - 1) div k = q - 1" unfolding q using that
      by (intro int_div_pos_eq [where r = "k - 1"]) (simp_all add: algebra_simps)
    then show ?thesis using q that by simp
  next
    case False
    have "(y - 1) div k = y div k"
    proof (intro int_div_pos_eq [where r = "y mod k - 1"])
      show "y - 1 = k * (y div k) + (y mod k - 1)" by simp
      have "y mod k \<noteq> 0" using False by (simp add: dvd_eq_mod_eq_0)
      moreover have "0 \<le> y mod k" "y mod k < k" using that by simp_all
      ultimately show "0 \<le> y mod k - 1" "y mod k - 1 < k" by linarith+
    qed
    then show ?thesis using False by simp
  qed
  have imp: "400 dvd y \<Longrightarrow> 100 dvd y" "100 dvd y \<Longrightarrow> 4 dvd y" by (erule dvd_trans [rotated], simp)+
  have b: "(if P then 1 else 0) - (if Q then 1 else 0) + (if R then 1 else 0) = (if P \<and> (\<not> Q \<or> R) then 1 else 0 :: int)"
    if "R \<Longrightarrow> Q" "Q \<Longrightarrow> P" for P Q R using that by auto
  have "leaps_until y - leaps_until (y - 1) = (if is_leap y then 1 else 0)"
    unfolding leaps_until_def is_leap_def
    using step [of 4, simplified] step [of 100, simplified] step [of 400, simplified] b [where P = "4 dvd y" and Q = "100 dvd y" and R = "400 dvd y", OF imp] by linarith
  then show ?thesis by (simp add: days_before_def year_days_def split: if_splits)
qed

lemma days_before_1970 [simp]: "days_before 1970 = 0"
  by (simp add: days_before_def)

lemma year_of_spec:
  "year_of y d = (y', d') \<Longrightarrow> 0 \<le> d' \<and> d' < year_days y' \<and> days_before y' + d' = days_before y + d"
proof (induction y d arbitrary: y' d' rule: year_of.induct)
  case (1 y d)
  consider "d < 0" | "0 \<le> d" "year_days y \<le> d" | "0 \<le> d" "d < year_days y" by linarith
  then show ?case
  proof cases
    case 1
    then show ?thesis using "1.IH"(1) [of y' d'] "1.prems" days_before_Suc [of "y - 1"] by (simp add: year_of.simps [of y d])
  next
    case 2
    then show ?thesis using "1.IH"(2) [of y' d'] "1.prems" days_before_Suc [of y] by (simp add: year_of.simps [of y d])
  next
    case 3
    then show ?thesis using "1.prems" by (simp add: year_of.simps [of y d])
  qed
qed

lemma days_before_mono: "y < z \<Longrightarrow> days_before y + year_days y \<le> days_before z"
proof (induction "nat (z - y)" arbitrary: z)
  case (Suc n)
  show ?case
  proof (cases "z = y + 1")
    case True
    then show ?thesis by (simp add: days_before_Suc)
  next
    case False
    then have "days_before y + year_days y \<le> days_before (z - 1)" using Suc by (intro Suc.hyps(1)) auto
    then show ?thesis using days_before_Suc [of "z - 1"] year_days_bounds(1) [of "z - 1"] by simp
  qed
qed simp

lemma year_unique:
  "days_before y + d = days_before z + e \<Longrightarrow> 0 \<le> d \<Longrightarrow> d < year_days y \<Longrightarrow> 0 \<le> e \<Longrightarrow> e < year_days z \<Longrightarrow> y = z \<and> d = e"
  using days_before_mono [of y z] days_before_mono [of z y] by (cases y z rule: linorder_cases) auto

lemma year_of_eq: "0 \<le> d \<Longrightarrow> d < year_days y \<Longrightarrow> year_of 1970 (days_before y + d) = (y, d)"
proof -
  assume d: "0 \<le> d" "d < year_days y"
  obtain a b where ab: "year_of 1970 (days_before y + d) = (a, b)" by force
  from year_of_spec [OF this] have "y = a \<and> d = b" using d by (intro year_unique) auto
  then show ?thesis using ab by simp
qed

lemma month_days_pos: "0 < month_days y m"
  by (simp add: month_days_def)

lemma month_start_12: "month_start y 12 = year_days y"
  by (simp add: eval_nat_numeral month_days_def year_days_def)

lemma month_start_mono: "m < n \<Longrightarrow> month_start y m + month_days y m \<le> month_start y n"
proof (induction n)
  case (Suc n)
  then show ?case using month_days_pos [of y n] by (cases "m = n") auto
qed simp

lemma month_of_eq:
  "0 \<le> d \<Longrightarrow> d < month_days y n \<Longrightarrow> n \<le> 11 \<Longrightarrow> m \<le> n \<Longrightarrow> month_of y m (month_start y n - month_start y m + d) = (n, d)"
proof (induction "n - m" arbitrary: m)
  case 0
  then show ?case by (simp add: month_of.simps [of y m])
next
  case (Suc k)
  then have "month_start y m + month_days y m \<le> month_start y n" by (intro month_start_mono) simp
  moreover have "month_of y (Suc m) (month_start y n - month_start y (Suc m) + d) = (n, d)" using Suc by (intro Suc.hyps(1)) auto
  moreover have "\<not> 11 \<le> m" using Suc by simp
  ultimately show ?case using Suc.prems Suc.hyps(2) by (simp add: month_of.simps [of y m] algebra_simps)
qed

lemma month_of_spec:
  "0 \<le> d \<Longrightarrow> d < month_start y 12 - month_start y m \<Longrightarrow> m \<le> 11 \<Longrightarrow>
   month_of y m d = (n, e) \<Longrightarrow> n \<le> 11 \<and> 0 \<le> e \<and> e < month_days y n \<and> month_start y n + e = month_start y m + d"
proof (induction y m d rule: month_of.induct)
  case (1 y m d)
  show ?case
  proof (cases "11 \<le> m \<or> d < month_days y m")
    case True
    then have "m = 11 \<or> d < month_days y m" using "1.prems"(3) by auto
    then have "d < month_days y m" using "1.prems"(2) by (auto simp: numeral_eq_Suc)
    then show ?thesis using "1.prems" True by (simp add: month_of.simps [of y m])
  next
    case False
    then show ?thesis using "1.IH" "1.prems" by (auto simp: month_of.simps [of y m])
  qed
qed

definition valid_tm :: "tm \<Rightarrow> bool" where
  "valid_tm t \<longleftrightarrow> 0 \<le> tm_mon t \<and> tm_mon t \<le> 11 \<and> 1 \<le> tm_mday t \<and> tm_mday t \<le> month_days (tm_year t + 1900) (nat (tm_mon t)) \<and>
     0 \<le> tm_hour t \<and> tm_hour t < 24 \<and> 0 \<le> tm_min t \<and> tm_min t < 60 \<and> 0 \<le> tm_sec t \<and> tm_sec t < 60"

definition day_of :: "tm \<Rightarrow> int" where
  "day_of t = days_before (tm_year t + 1900) + month_start (tm_year t + 1900) (nat (tm_mon t)) + (tm_mday t - 1)"

lemma timegm_eq: "valid_tm t \<Longrightarrow> timegm t = day_of t * 86400 + (tm_hour t * 3600 + tm_min t * 60 + tm_sec t)"
  by (simp add: timegm_def valid_tm_def day_of_def Let_def)

lemma gmtime_spec:
  "valid_tm (gmtime s)" "day_of (gmtime s) = s div 86400" "tm_wday (gmtime s) = (s div 86400 + 4) mod 7"
  "tm_hour (gmtime s) * 3600 + tm_min (gmtime s) * 60 + tm_sec (gmtime s) = s mod 86400"
proof -
  obtain y yd where y: "year_of 1970 (s div 86400) = (y, yd)" by force
  obtain m md where m: "month_of y 0 yd = (m, md)" by force
  note ys = year_of_spec [OF y]
  have ms: "m \<le> 11 \<and> 0 \<le> md \<and> md < month_days y m \<and> month_start y m + md = yd"
    using month_of_spec [of yd y 0 m md] ys m by (simp add: month_start_12)
  have r: "0 \<le> s mod 86400" "s mod 86400 < 86400" by simp_all
  have "s mod 86400 div 3600 < 24" using r by (simp add: div_less_iff_less_mult)
  then show "valid_tm (gmtime s)"
    using ms r by (simp add: gmtime_def y m valid_tm_def Let_def pos_imp_zdiv_nonneg_iff)
  show "day_of (gmtime s) = s div 86400" using ys ms by (simp add: gmtime_def y m day_of_def Let_def)
  show "tm_wday (gmtime s) = (s div 86400 + 4) mod 7" by (simp add: gmtime_def y m Let_def)
  have "r div 3600 * 3600 + r div 60 mod 60 * 60 + r mod 60 = r" for r :: int
  proof -
    have "r div 3600 = r div 60 div 60" using zdiv_zmult2_eq [of 60 r 60] by simp
    moreover have "r = 60 * (r div 60) + r mod 60" "r div 60 = 60 * (r div 60 div 60) + r div 60 mod 60"
      by (simp_all only: mult_div_mod_eq)
    ultimately show ?thesis by (simp only: mult.commute)
  qed
  then show "tm_hour (gmtime s) * 3600 + tm_min (gmtime s) * 60 + tm_sec (gmtime s) = s mod 86400"
    by (simp add: gmtime_def y m Let_def)
qed

lemma timegm_gmtime: "timegm (gmtime s) = s"
  using gmtime_spec [of s] by (simp add: timegm_eq)

lemma gmtime_timegm: "valid_tm t \<Longrightarrow> (gmtime (timegm t))\<lparr> tm_wday := w \<rparr> = t\<lparr> tm_wday := w \<rparr>"
proof -
  assume v: "valid_tm t"
  let ?h = "tm_hour t * 3600 + tm_min t * 60 + tm_sec t"
  have h: "0 \<le> ?h" "?h < 86400" using v by (auto simp: valid_tm_def)
  have d: "timegm t div 86400 = day_of t" "timegm t mod 86400 = ?h" using h v by (simp_all add: timegm_eq)
  let ?y = "tm_year t + 1900" and ?m = "nat (tm_mon t)"
  have m: "0 \<le> tm_mday t - 1" "tm_mday t - 1 < month_days ?y ?m" "?m \<le> 11" using v by (auto simp: valid_tm_def)
  have "month_start ?y ?m + month_days ?y ?m \<le> month_start ?y 12" using m(3) by (intro month_start_mono) simp
  moreover have "0 \<le> month_start ?y ?m" using month_start_mono [of 0 ?m ?y] month_days_pos [of ?y 0] by (cases "?m = 0") auto
  ultimately have y: "year_of 1970 (day_of t) = (?y, month_start ?y ?m + (tm_mday t - 1))"
    unfolding day_of_def add.assoc using m by (intro year_of_eq) (auto simp: month_start_12)
  have mo: "month_of ?y 0 (month_start ?y ?m + (tm_mday t - 1)) = (?m, tm_mday t - 1)"
    using month_of_eq [of "tm_mday t - 1" ?y ?m 0] m by simp
  have s: "?h mod 60 = tm_sec t" "?h div 60 mod 60 = tm_min t" "?h div 3600 = tm_hour t"
  proof -
    have e: "?h = tm_sec t + (tm_min t + tm_hour t * 60) * 60" by simp
    have q: "?h div 60 = tm_min t + tm_hour t * 60" unfolding e using v by (subst div_mult_self1) (auto simp: valid_tm_def)
    show "?h mod 60 = tm_sec t" unfolding e using v by (subst mod_mult_self1) (auto simp: valid_tm_def)
    show "?h div 60 mod 60 = tm_min t" unfolding q using v by (subst mod_mult_self1) (auto simp: valid_tm_def)
    show "?h div 3600 = tm_hour t" using v by (intro int_div_pos_eq [where r = "tm_min t * 60 + tm_sec t"]) (auto simp: valid_tm_def)
  qed
  show ?thesis using v unfolding gmtime_def d Let_def y case_prod_conv mo s by (auto simp: valid_tm_def)
qed

lemma timegm_inj: "valid_tm t \<Longrightarrow> valid_tm u \<Longrightarrow> timegm t = timegm u \<Longrightarrow> t\<lparr> tm_wday := 0 \<rparr> = u\<lparr> tm_wday := 0 \<rparr>"
  using gmtime_timegm [of t 0] gmtime_timegm [of u 0] by simp

subsection \<open>The conversions\<close>

lemma c_mod_pos: "0 \<le> a \<Longrightarrow> 0 < b \<Longrightarrow> c_mod a b = a mod b"
  by (cases "a = 0") (simp_all add: c_mod_def trunc_div_def minus_mult_div_eq_mod)

lemma trunc_div_nonneg: "0 \<le> a \<Longrightarrow> 0 < b \<Longrightarrow> trunc_div a b = a div b"
  by (cases "a = 0") (simp_all add: trunc_div_def)

lemma next_field: "0 \<le> f \<Longrightarrow> f < b \<Longrightarrow> (x * b + f) div b = x \<and> (x * b + f) mod b = (f :: int)"
  by simp

lemma number_fields:
  assumes v: "valid_tm t" and y: "0 \<le> tm_year t + 1900"
  shows "YYYYMMDDHHMMSS_ToEpochSeconds (tm_to_number t) = timegm (t\<lparr> tm_wday := 0 \<rparr>)"
proof -
  define n5 where "n5 = tm_year t + 1900"
  define n4 where "n4 = n5 * 100 + (tm_mon t + 1)"
  define n3 where "n3 = n4 * 100 + tm_mday t"
  define n2 where "n2 = n3 * 100 + tm_hour t"
  define n1 where "n1 = n2 * 100 + tm_min t"
  have f: "0 \<le> tm_mon t + 1" "tm_mon t + 1 < 100" "0 \<le> tm_mday t" "tm_mday t < 100" "0 \<le> tm_hour t" "tm_hour t < 100"
    "0 \<le> tm_min t" "tm_min t < 100" "0 \<le> tm_sec t" "tm_sec t < 100"
    using v by (auto simp: valid_tm_def month_days_def split: if_splits)
  have n: "tm_to_number t = n1 * 100 + tm_sec t"
    by (simp add: tm_to_number_def n1_def n2_def n3_def n4_def n5_def)
  have p: "0 \<le> n5" "0 \<le> n4" "0 \<le> n3" "0 \<le> n2" "0 \<le> n1" "0 \<le> n1 * 100 + tm_sec t"
    using y f by (simp_all add: n1_def n2_def n3_def n4_def n5_def)
  have d: "trunc_div (n1 * 100 + tm_sec t) 100 = n1" "trunc_div n1 100 = n2" "trunc_div n2 100 = n3" "trunc_div n3 100 = n4"
    "trunc_div n4 100 = n5"
    using p f next_field [of "tm_sec t" 100 n1] next_field [of "tm_min t" 100 n2] next_field [of "tm_hour t" 100 n3]
      next_field [of "tm_mday t" 100 n4] next_field [of "tm_mon t + 1" 100 n5]
    by (simp_all add: trunc_div_nonneg, simp_all only: n1_def [symmetric] n2_def [symmetric] n3_def [symmetric] n4_def [symmetric])
  have m: "c_mod (n1 * 100 + tm_sec t) 100 = tm_sec t" "c_mod n1 100 = tm_min t" "c_mod n2 100 = tm_hour t"
    "c_mod n3 100 = tm_mday t" "c_mod n4 100 = tm_mon t + 1"
    unfolding c_mod_def d by (simp_all add: n1_def n2_def n3_def n4_def)
  show ?thesis unfolding YYYYMMDDHHMMSS_ToEpochSeconds_def Let_def n d m n5_def by (cases t) simp
qed

lemma timegm_wday [simp]: "timegm (t\<lparr> tm_wday := w \<rparr>) = timegm t"
  by (simp add: timegm_def)

lemma tm_to_number_wday [simp]: "tm_to_number (t\<lparr> tm_wday := w \<rparr>) = tm_to_number t"
  by (simp add: tm_to_number_def)

lemma ToEpochSeconds_pos: "0 \<le> ts \<Longrightarrow> ToEpochSeconds ts = ts div 1000000"
  by (simp add: ToEpochSeconds_def TsDivisor_def trunc_div_nonneg)

text \<open>The years of times from the epoch on.\<close>

lemma year_from_epoch: "0 \<le> s \<Longrightarrow> 1970 \<le> tm_year (gmtime s) + 1900"
proof (rule ccontr)
  assume s: "0 \<le> s" and "\<not> 1970 \<le> tm_year (gmtime s) + 1900"
  let ?t = "gmtime s"
  have v: "valid_tm ?t" by (rule gmtime_spec)
  have "month_start (tm_year ?t + 1900) (nat (tm_mon ?t)) + month_days (tm_year ?t + 1900) (nat (tm_mon ?t))
      \<le> month_start (tm_year ?t + 1900) 12" using v by (intro month_start_mono) (auto simp: valid_tm_def)
  then have "day_of ?t < days_before (tm_year ?t + 1900) + year_days (tm_year ?t + 1900)"
    using v unfolding month_start_12 day_of_def valid_tm_def by linarith
  also have "\<dots> \<le> days_before 1970"
    using \<open>\<not> 1970 \<le> tm_year (gmtime s) + 1900\<close> by (intro days_before_mono) simp
  finally have "s div 86400 < 0" by (simp add: gmtime_spec)
  then show False using s by (simp add: pos_imp_zdiv_nonneg_iff)
qed

lemma epoch_number_roundtrip: "0 \<le> s \<Longrightarrow> YYYYMMDDHHMMSS_ToEpochSeconds (tm_to_number (gmtime s)) = s"
  using number_fields [OF gmtime_spec(1), of s] year_from_epoch [of s] by (simp add: timegm_gmtime)

lemma number_epoch_roundtrip:
  "valid_tm t \<Longrightarrow> 0 \<le> tm_year t + 1900 \<Longrightarrow>
   tm_to_number (gmtime (YYYYMMDDHHMMSS_ToEpochSeconds (tm_to_number t))) = tm_to_number t"
proof -
  assume t: "valid_tm t" "0 \<le> tm_year t + 1900"
  have "tm_to_number ((gmtime (timegm t))\<lparr> tm_wday := 0 \<rparr>) = tm_to_number (t\<lparr> tm_wday := 0 \<rparr>)"
    using gmtime_timegm [OF t(1), of 0] by simp
  then show ?thesis using number_fields [OF t] by simp
qed

lemma midnight: "0 \<le> s \<Longrightarrow> YYYYMMDDHHMMSS_ToEpochSeconds
    (tm_to_number (gmtime s) - c_mod (tm_to_number (gmtime s)) kDivHHMMSS) = s div 86400 * 86400"
proof -
  assume s: "0 \<le> s"
  let ?t = "gmtime s" and ?u = "gmtime (s div 86400 * 86400)"
  have v: "valid_tm ?t" "0 \<le> tm_year ?t + 1900" using gmtime_spec(1) [of s] year_from_epoch [OF s] by auto
  let ?d = "((tm_year ?t + 1900) * 100 + (tm_mon ?t + 1)) * 100 + tm_mday ?t" 
  let ?h = "tm_hour ?t * 10000 + tm_min ?t * 100 + tm_sec ?t"
  have h: "0 \<le> ?h" "?h < 1000000" "0 \<le> ?d" using v by (auto simp: valid_tm_def)
  have n: "tm_to_number ?t = ?d * 1000000 + ?h" by (simp add: tm_to_number_def)
  have "c_mod (tm_to_number ?t) kDivHHMMSS = ?h"
    unfolding n using h next_field [of ?h 1000000 ?d] by (subst c_mod_pos) (auto simp: kDivHHMMSS_def)
  then have e: "tm_to_number ?t - c_mod (tm_to_number ?t) kDivHHMMSS = tm_to_number (?t\<lparr> tm_hour := 0, tm_min := 0, tm_sec := 0 \<rparr>)"
    unfolding n by (simp add: tm_to_number_def)
  let ?w = "?t\<lparr> tm_hour := 0, tm_min := 0, tm_sec := 0 \<rparr>"
  have w: "valid_tm ?w" using v by (auto simp: valid_tm_def)
  have "YYYYMMDDHHMMSS_ToEpochSeconds (tm_to_number ?w) = timegm ?w"
    using number_fields [OF w] v(2) by simp
  also have "\<dots> = day_of ?w * 86400" using timegm_eq [OF w] by simp
  also have "\<dots> = s div 86400 * 86400" using gmtime_spec(2) [of s] by (simp add: day_of_def)
  finally show ?thesis unfolding e .
qed

subsection \<open>What the cache answers\<close>

text \<open>
  \<open>date_of\<close> and \<open>number_of\<close> are what belongs to a second. A cache holds them for its second
  (\<open>date_primed\<close>) or is as the thread found it (\<open>date_fresh\<close>): then the second is 0, but not its date.
  \<open>date_known\<close>: the second is answered right.
\<close>

definition date_of :: "int \<Rightarrow> tm" where
  "date_of es = (case gmtime_r es of Some t \<Rightarrow> t | None \<Rightarrow> zero_tm)"

definition number_of :: "int \<Rightarrow> int" where
  "number_of es = (case gmtime_r es of Some t \<Rightarrow> tm_to_number t | None \<Rightarrow> 0)"

definition date_primed :: "time_cache \<Rightarrow> bool" where
  "date_primed c \<longleftrightarrow> CacheTm c = date_of (CacheEpoch c) \<and> CacheNumber c = number_of (CacheEpoch c)"

definition date_fresh :: "time_cache \<Rightarrow> bool" where
  "date_fresh c \<longleftrightarrow> CacheTm c = zero_tm \<and> CacheNumber c = 0 \<and> CacheEpoch c = 0"

definition date_known :: "time_cache \<Rightarrow> int \<Rightarrow> bool" where
  "date_known c es \<longleftrightarrow> date_primed c \<or> date_fresh c \<and> es \<noteq> 0"

definition date_ok :: "time_cache \<Rightarrow> bool" where
  "date_ok c \<longleftrightarrow> date_primed c \<or> date_fresh c"

lemma CheckCachedTm_eq: "CheckCachedTm es c = (if CacheEpoch c = es then (False, c)
     else (True, c\<lparr> CacheEpoch := es, CacheTm := date_of es, CacheNumber := number_of es,
            BufTime := (BufTime c)[0 := 0], BufFix := (BufFix c)[0 := 0] \<rparr>))"
  by (simp add: CheckCachedTm_def date_of_def number_of_def Let_def split: option.split)

lemma date_fresh_new: "date_fresh new_time_cache"
  by (simp add: date_fresh_def new_time_cache_def)

lemma date_ok_known: "date_ok c \<Longrightarrow> es \<noteq> 0 \<Longrightarrow> date_known c es"
  by (auto simp: date_ok_def date_known_def)

lemma date_known_primed: "date_primed c \<Longrightarrow> date_known c es"
  by (simp add: date_known_def)

lemma CheckCachedTm_known:
  assumes "date_known c es"
  shows "date_primed (snd (CheckCachedTm es c)) \<and> CacheEpoch (snd (CheckCachedTm es c)) = es"
  using assms by (auto simp: CheckCachedTm_eq date_known_def date_primed_def date_fresh_def)

lemma CheckCachedTm_date_ok: "date_ok c \<Longrightarrow> date_ok (snd (CheckCachedTm es c))"
  by (auto simp: CheckCachedTm_eq date_ok_def date_primed_def date_fresh_def)

lemma date_read:
  assumes "date_known c es"
  obtains c1 where "date_primed c1" "EpochSecondsInfo es c = (date_of es, c1)"
    "EpochSecondsToYYYYMMDDHHMMSS es c = (number_of es, c1)"
proof
  let ?c = "snd (CheckCachedTm es c)"
  note k = CheckCachedTm_known [OF assms]
  show "date_primed ?c" using k by simp
  show "EpochSecondsInfo es c = (date_of es, ?c)" "EpochSecondsToYYYYMMDDHHMMSS es c = (number_of es, ?c)"
    using k by (simp_all add: EpochSecondsInfo_def EpochSecondsToYYYYMMDDHHMMSS_def date_primed_def case_prod_beta)
qed

lemma days_before_bound: "365 * int n \<le> days_before (1970 + int n)"
proof (induction n)
  case (Suc n)
  then show ?case using days_before_Suc [of "1970 + int n"] year_days_bounds(1) [of "1970 + int n"] by (simp add: algebra_simps)
qed simp

lemma gmtime_r_eq: "0 \<le> s \<Longrightarrow> s < 2 ^ 44 \<Longrightarrow> gmtime_r s = Some (gmtime s)"
proof -
  assume s: "0 \<le> s" "s < 2 ^ 44"
  let ?t = "gmtime s" and ?y = "tm_year (gmtime s) + 1900"
  have v: "valid_tm ?t" "1970 \<le> ?y" using gmtime_spec(1) year_from_epoch [OF s(1)] by auto
  have "0 \<le> month_start ?y (nat (tm_mon ?t))"
    using month_start_mono [of 0 "nat (tm_mon ?t)" ?y] month_days_pos [of ?y 0] by (cases "nat (tm_mon ?t) = 0") auto
  then have "days_before ?y \<le> day_of ?t" using v by (simp add: day_of_def valid_tm_def)
  moreover have "365 * (?y - 1970) \<le> days_before ?y" using days_before_bound [of "nat (?y - 1970)"] v by (simp add: add.commute)
  moreover have "86400 * day_of ?t \<le> s" using div_mult_mod_eq [of s 86400] pos_mod_sign [of 86400 s]
    unfolding gmtime_spec(2) by linarith
  ultimately have "86400 * (365 * (?y - 1970)) \<le> s" by linarith
  moreover have "(2 :: int) ^ 44 = 17592186044416" "(2 :: int) ^ 31 = 2147483648" by simp_all
  ultimately show ?thesis using s v unfolding gmtime_r_def Let_def by simp
qed

lemma date_of_eq: "0 \<le> s \<Longrightarrow> s < 2 ^ 44 \<Longrightarrow> date_of s = gmtime s" "0 \<le> s \<Longrightarrow> s < 2 ^ 44 \<Longrightarrow> number_of s = tm_to_number (gmtime s)"
  by (simp_all add: date_of_def number_of_def gmtime_r_eq)

lemma epoch_seconds_range: "0 \<le> ts \<Longrightarrow> ts < 2 ^ 63 \<Longrightarrow> 0 \<le> ToEpochSeconds ts \<and> ToEpochSeconds ts < 2 ^ 44"
proof -
  assume ts: "0 \<le> ts" "ts < 2 ^ 63"
  then have "ts div 1000000 < 2 ^ 44" using zdiv_mono1 [of ts "2 ^ 63" 1000000] by simp
  then show ?thesis using ts(1) by (simp add: ToEpochSeconds_pos pos_imp_zdiv_nonneg_iff)
qed

text \<open>A point of time that can be asked for, in the years a 64-bit number of microseconds has.\<close>

definition ts_known :: "time_cache \<Rightarrow> int \<Rightarrow> bool" where
  "ts_known c ts \<longleftrightarrow> 0 \<le> ts \<and> ts < 2 ^ 63 \<and> date_known c (ToEpochSeconds ts)"

lemma ts_read:
  assumes "ts_known c ts"
  obtains c1 where "date_primed c1" "GetDateTimeInfo ts c = (gmtime (ts div 1000000), c1)"
    "GetYYYYMMDDHHMMSS ts c = (tm_to_number (gmtime (ts div 1000000)), c1)"
proof -
  have ts: "0 \<le> ts" "ts < 2 ^ 63" and k: "date_known c (ToEpochSeconds ts)" using assms by (simp_all add: ts_known_def)
  have e: "ToEpochSeconds ts = ts div 1000000" using ToEpochSeconds_pos [OF ts(1)] .
  obtain c1 where c1: "date_primed c1" "EpochSecondsInfo (ToEpochSeconds ts) c = (date_of (ToEpochSeconds ts), c1)"
    "EpochSecondsToYYYYMMDDHHMMSS (ToEpochSeconds ts) c = (number_of (ToEpochSeconds ts), c1)"
    using date_read [OF k] by blast
  show ?thesis
  proof (rule that [OF c1(1)])
    show "GetDateTimeInfo ts c = (gmtime (ts div 1000000), c1)"
      using c1(2) epoch_seconds_range [OF ts] by (simp add: GetDateTimeInfo_def date_of_eq e)
    show "GetYYYYMMDDHHMMSS ts c = (tm_to_number (gmtime (ts div 1000000)), c1)"
      using c1(3) epoch_seconds_range [OF ts] by (simp add: GetYYYYMMDDHHMMSS_def date_of_eq e)
  qed
qed

lemma ts_known_primed: "date_primed c \<Longrightarrow> 0 \<le> ts \<Longrightarrow> ts < 2 ^ 63 \<Longrightarrow> ts_known c ts"
  by (simp add: ts_known_def date_known_def)

lemma TimeStampResetHHMMSS_eq:
  assumes "ts_known c ts"
  obtains c1 where "date_primed c1" "TimeStampResetHHMMSS ts 0 c = (ts div 86400000000 * 86400000000, c1)"
proof -
  have ts: "0 \<le> ts" using assms by (simp add: ts_known_def)
  obtain c1 where c1: "date_primed c1" "GetYYYYMMDDHHMMSS ts c = (tm_to_number (gmtime (ts div 1000000)), c1)"
    using ts_read [OF assms] by blast
  have "fst (TimeStampResetHHMMSS ts 0 c) = ts div 1000000 div 86400 * 86400 * 1000000"
    using midnight [of "ts div 1000000"] ts c1
    by (simp add: TimeStampResetHHMMSS_def YYYYMMDDHHMMSS_ToTimeStamp_def TsDivisor_def pos_imp_zdiv_nonneg_iff)
  also have "ts div 1000000 div 86400 = ts div 86400000000" using zdiv_zmult2_eq [of 86400 ts 1000000] by simp
  finally show ?thesis using that [OF c1(1)] c1(2) by (simp add: TimeStampResetHHMMSS_def)
qed

subsection \<open>Properties\<close>

text \<open>
  C40: The date of a point of time and the point of time of a date are inverse: from the epoch on every
  second comes back from its number, and every date that exists, from the year 0 on, whose number has 63 bits
  comes back from its second. Resetting the time of the day goes to the midnight before, and a day later is the
  next weekday. All this holds for the cache of a thread that has already asked for a second other than
  the first of the epoch, or asks for another one now; what a new thread reads of that first second
  is 0, as \<open>TimeText.epoch_reads_as_zero\<close> shows.
\<close>

theorem dates_roundtrip:
  assumes ts: "ts_known c ts" "ts + 86400000000 < 2 ^ 63" and t: "valid_tm t" "0 \<le> tm_year t + 1900" "tm_to_number t < 2 ^ 63"
    and c2: "date_known c2 (YYYYMMDDHHMMSS_ToEpochSeconds (tm_to_number t))"
  shows "YYYYMMDDHHMMSS_ToTimeStamp (fst (GetYYYYMMDDHHMMSS ts c)) = ts - ts mod 1000000 \<and>
    fst (EpochSecondsToYYYYMMDDHHMMSS (YYYYMMDDHHMMSS_ToEpochSeconds (tm_to_number t)) c2) = tm_to_number t \<and>
    fst (TimeStampResetHHMMSS ts 0 c) = ts - ts mod 86400000000 \<and>
    fst (GetWeekday (ts + 86400000000) (snd (GetWeekday ts c))) = (fst (GetWeekday ts c) + 1) mod 7"
proof -
  have pos: "0 \<le> ts" using ts by (simp add: ts_known_def)
  obtain c1 where c1: "date_primed c1" "GetDateTimeInfo ts c = (gmtime (ts div 1000000), c1)"
    "GetYYYYMMDDHHMMSS ts c = (tm_to_number (gmtime (ts div 1000000)), c1)" using ts_read [OF ts(1)] by blast
  have "YYYYMMDDHHMMSS_ToTimeStamp (fst (GetYYYYMMDDHHMMSS ts c)) = ts - ts mod 1000000"
    using pos epoch_number_roundtrip [of "ts div 1000000"] unfolding minus_mod_eq_div_mult
    by (simp add: YYYYMMDDHHMMSS_ToTimeStamp_def c1 TsDivisor_def pos_imp_zdiv_nonneg_iff)
  moreover have "fst (EpochSecondsToYYYYMMDDHHMMSS (YYYYMMDDHHMMSS_ToEpochSeconds (tm_to_number t)) c2) = tm_to_number t"
  proof -
    let ?s = "YYYYMMDDHHMMSS_ToEpochSeconds (tm_to_number t)"
    have s: "?s = timegm t" using number_fields [OF t(1,2)] by simp
    then have "tm_year (gmtime ?s) = tm_year t" using gmtime_timegm [OF t(1), of 0] by (metis tm.select_convs(6) tm.ext_inject tm.surjective tm.update_convs(7))
    moreover have "tm_year t < 2 ^ 31" using t by (simp add: tm_to_number_def valid_tm_def)
    ultimately have "gmtime_r ?s = Some (gmtime ?s)" using t by (simp add: gmtime_r_def Let_def)
    then have "number_of ?s = tm_to_number t" using number_epoch_roundtrip [OF t(1,2)] by (simp add: number_of_def)
    then show ?thesis using date_read [OF c2] by (metis fst_conv)
  qed
  moreover have "fst (TimeStampResetHHMMSS ts 0 c) = ts - ts mod 86400000000"
    using TimeStampResetHHMMSS_eq [OF ts(1)] by (metis fst_conv minus_mod_eq_div_mult)
  moreover have "fst (GetWeekday (ts + 86400000000) (snd (GetWeekday ts c))) = (fst (GetWeekday ts c) + 1) mod 7"
  proof -
    have "ts_known c1 (ts + 86400000000)" using ts_known_primed [OF c1(1)] pos ts(2) by simp
    then obtain c3 where c3: "GetDateTimeInfo (ts + 86400000000) c1 = (gmtime ((ts + 86400000000) div 1000000), c3)"
      using ts_read by blast
    have "(ts + 86400000000) div 1000000 = ts div 1000000 + 86400" by simp
    moreover have "(ts div 1000000 + 86400) div 86400 = ts div 1000000 div 86400 + 1" by simp
    ultimately show ?thesis using c3 c1 by (simp add: GetWeekday_def gmtime_spec mod_simps ac_simps)
  qed
  ultimately show ?thesis by blast
qed

lemma dates_roundtrip_witness:
  "YYYYMMDDHHMMSS_ToTimeStamp (fst (GetYYYYMMDDHHMMSS 951782400000007 new_time_cache)) = 951782400000000"
proof -
  let ?t = "\<lparr> tm_sec = 0, tm_min = 0, tm_hour = 0, tm_mday = 29, tm_mon = 1, tm_year = 100, tm_wday = 0 \<rparr>"
  have v: "valid_tm ?t" by (simp add: valid_tm_def month_days_def is_leap_def)
  have p: "date_primed (snd (CheckCachedTm 1 new_time_cache))"
    using CheckCachedTm_known [of new_time_cache 1] date_fresh_new by (simp add: date_known_def)
  have k: "ts_known new_time_cache 951782400000007"
    using date_fresh_new by (simp add: ts_known_def date_known_def ToEpochSeconds_pos)
  show ?thesis using dates_roundtrip [OF k _ v _ _ date_known_primed [OF p]] by (simp add: tm_to_number_def)
qed

end
