(* ===== verification/TimeText.thy ===== *)
theory TimeText
  imports DateTime
begin

text \<open>
  The text of points of time, \<open>fon9/TimeStamp.cpp\<close>: a thread keeps the last date and the last texts
  in \<open>TimeStampThreadLocalCache\<close> and writes only what has changed. The arrays are lists of 22 bytes.
  \<open>SPic9ToStrRev\<close> writes the sign one byte in front of \<open>BufferDateTimeStr_\<close>; in the layout of the
  class that byte is the highest one of \<open>PartFIXMS_\<close>, and so it is in the model.
  The cache itself and its dates are in \<open>DateTime\<close>. The main result: from the first second other than that
  of the epoch on and, for milliseconds, from the first ones other than zero on, every answer is the
  one that would be computed without a cache.
\<close>

definition kDateTimeStrWidth :: nat where
  "kDateTimeStrWidth = 21"

definition kDateTimeStrWidth_FIX :: nat where
  "kDateTimeStrWidth_FIX = 17"

definition kDateTimeStrWidth_FIXMS :: nat where
  "kDateTimeStrWidth_FIXMS = 21"

definition put_at :: "nat \<Rightarrow> byte list \<Rightarrow> byte list \<Rightarrow> byte list" where
  "put_at i bs buf = take i buf @ bs @ drop (i + length bs) buf"

definition two_digits :: "int \<Rightarrow> byte list" where
  "two_digits v = Put2Digs [] (nat (v mod 256))"

definition date_digits :: "int \<Rightarrow> byte list" where
  "date_digits number = Pic9ToStrRev 8 [] (nat (trunc_div number kDivHHMMSS mod 2 ^ 32))"

definition ToStr_FIX :: "int \<Rightarrow> time_cache \<Rightarrow> time_cache" where
  "ToStr_FIX es c = (case CheckCachedTm es c of (renewed, c1) \<Rightarrow>
     if renewed \<or> BufFix c1 ! 0 = 0
     then c1\<lparr> BufFix := put_at 15 (two_digits (tm_sec (CacheTm c1))) (put_at 12 (two_digits (tm_min (CacheTm c1)))
            (put_at 9 (two_digits (tm_hour (CacheTm c1))) (put_at 0 (date_digits (CacheNumber c1)) (BufFix c1)))) \<rparr>
     else c1)"

definition cached_FIX :: "int \<Rightarrow> time_cache \<Rightarrow> byte list \<times> time_cache" where
  "cached_FIX es c = (let c1 = ToStr_FIX es c in (take kDateTimeStrWidth_FIX (BufFix c1), c1))"

definition cached_FIXMS :: "int \<Rightarrow> nat \<Rightarrow> time_cache \<Rightarrow> byte list \<times> time_cache" where
  "cached_FIXMS es ms c =
     (let c1 = ToStr_FIX es c;
          c2 = (if PartFIXMS c1 \<noteq> ms then c1\<lparr> PartFIXMS := ms, BufFix := put_at 18 (Pic9ToStrRev 3 [] ms) (BufFix c1) \<rparr> else c1)
      in (take kDateTimeStrWidth_FIXMS (BufFix c2), c2))"

definition part_us :: "int \<Rightarrow> nat" where
  "part_us ts = nat (\<bar>ts\<bar> mod TsDivisor)"

definition part_ms :: "int \<Rightarrow> nat" where
  "part_ms ts = part_us ts div 1000"

definition set_us :: "nat \<Rightarrow> time_cache \<Rightarrow> time_cache" where
  "set_us us c = c\<lparr> PartUS := us, BufTime := put_at 15 (Pic9ToStrRev 6 [] us) (BufTime c) \<rparr>"

definition ToStrRev_Full :: "int \<Rightarrow> time_cache \<Rightarrow> byte list option \<times> time_cache" where
  "ToStrRev_Full ts c = (if ts = TsNull then (None, c)
     else case CheckCachedTm (ToEpochSeconds ts) c of (renewed, c1) \<Rightarrow>
       let n = CacheNumber c1;
           c2 = (if renewed \<or> BufTime c1 ! 0 = 0
             then set_us (part_us ts) (c1\<lparr> BufTime := put_at 0 (Pic9ToStrRev 14 [] (nat \<bar>n\<bar>)) (BufTime c1),
                    PartFIXMS := PartFIXMS c1 mod 2 ^ 24 + (if n < 0 then 0x2d else 0x2b) * 2 ^ 24 \<rparr>)
             else if PartUS c1 \<noteq> part_us ts then set_us (part_us ts) c1 else c1)
       in (Some (take kDateTimeStrWidth (BufTime c2)), c2))"

definition ToStrRev_FIX :: "int \<Rightarrow> time_cache \<Rightarrow> byte list \<times> time_cache" where
  "ToStrRev_FIX ts c = (if ts = TsNull then (replicate kDateTimeStrWidth_FIX 0x20, c) else cached_FIX (ToEpochSeconds ts) c)"

definition ToStrRev_FIXMS :: "int \<Rightarrow> time_cache \<Rightarrow> byte list \<times> time_cache" where
  "ToStrRev_FIXMS ts c = (if ts = TsNull then (replicate kDateTimeStrWidth_FIXMS 0x20, c)
     else cached_FIXMS (ToEpochSeconds ts) (part_ms ts) c)"

definition ToStrRev_ts :: "int \<Rightarrow> time_cache \<Rightarrow> byte list \<times> time_cache" where
  "ToStrRev_ts ts c = (case ToStrRev_Full ts c of
      (Some pstr, c1) \<Rightarrow> (pstr, c1) | (None, c1) \<Rightarrow> (replicate kDateTimeStrWidth 0x20, c1))"

definition ToStrRev_Date_Time_us :: "int \<Rightarrow> time_cache \<Rightarrow> byte list \<times> time_cache" where
  "ToStrRev_Date_Time_us ts c = (case ToStrRev_Full ts c of
      (Some pstr, c1) \<Rightarrow> (take 8 pstr @ [0x2d] @ take 13 (drop 8 pstr), c1)
    | (None, c1) \<Rightarrow> (replicate (kDateTimeStrWidth + 1) 0x20, c1))"

subsection \<open>The calls of a thread and what they answer without a cache\<close>

datatype time_call = AskFIX int | AskFIXMS int | AskText int | AskDateTime int | AskInfo int | AskNumber int

datatype time_answer = Text "byte list" | Info tm | Number int

fun time_step :: "time_call \<Rightarrow> time_cache \<Rightarrow> time_answer \<times> time_cache" where
  "time_step (AskFIX ts) c = (case ToStrRev_FIX ts c of (s, c1) \<Rightarrow> (Text s, c1))"
| "time_step (AskFIXMS ts) c = (case ToStrRev_FIXMS ts c of (s, c1) \<Rightarrow> (Text s, c1))"
| "time_step (AskText ts) c = (case ToStrRev_ts ts c of (s, c1) \<Rightarrow> (Text s, c1))"
| "time_step (AskDateTime ts) c = (case ToStrRev_Date_Time_us ts c of (s, c1) \<Rightarrow> (Text s, c1))"
| "time_step (AskInfo es) c = (case EpochSecondsInfo es c of (t, c1) \<Rightarrow> (Info t, c1))"
| "time_step (AskNumber es) c = (case EpochSecondsToYYYYMMDDHHMMSS es c of (n, c1) \<Rightarrow> (Number n, c1))"

definition fix_text :: "int \<Rightarrow> byte list" where
  "fix_text es = (let t = date_of es in date_digits (number_of es) @ [0x2d] @ two_digits (tm_hour t) @ [0x3a] @
     two_digits (tm_min t) @ [0x3a] @ two_digits (tm_sec t))"

definition full_text :: "int \<Rightarrow> byte list" where
  "full_text ts = Pic9ToStrRev 14 [] (nat \<bar>number_of (ToEpochSeconds ts)\<bar>) @ [0x2e] @ Pic9ToStrRev 6 [] (part_us ts)"

fun plain_answer :: "time_call \<Rightarrow> time_answer" where
  "plain_answer (AskFIX ts) = Text (if ts = TsNull then replicate 17 0x20 else fix_text (ToEpochSeconds ts))"
| "plain_answer (AskFIXMS ts) = Text (if ts = TsNull then replicate 21 0x20
     else fix_text (ToEpochSeconds ts) @ [0x2e] @ Pic9ToStrRev 3 [] (part_ms ts))"
| "plain_answer (AskText ts) = Text (if ts = TsNull then replicate 21 0x20 else full_text ts)"
| "plain_answer (AskDateTime ts) = Text (if ts = TsNull then replicate 22 0x20
     else take 8 (full_text ts) @ [0x2d] @ drop 8 (full_text ts))"
| "plain_answer (AskInfo es) = Info (date_of es)"
| "plain_answer (AskNumber es) = Number (number_of es)"

text \<open>The second a call asks for, and the milliseconds it shows.\<close>

fun call_second :: "time_call \<Rightarrow> int option" where
  "call_second (AskFIX ts) = (if ts = TsNull then None else Some (ToEpochSeconds ts))"
| "call_second (AskFIXMS ts) = (if ts = TsNull then None else Some (ToEpochSeconds ts))"
| "call_second (AskText ts) = (if ts = TsNull then None else Some (ToEpochSeconds ts))"
| "call_second (AskDateTime ts) = (if ts = TsNull then None else Some (ToEpochSeconds ts))"
| "call_second (AskInfo es) = Some es"
| "call_second (AskNumber es) = Some es"

fun call_ms :: "time_call \<Rightarrow> nat option" where
  "call_ms (AskFIXMS ts) = (if ts = TsNull then None else Some (part_ms ts))"
| "call_ms _ = None"

subsection \<open>The buffers\<close>

lemma length_pic9 [simp]: "length (Pic9ToStrRev w pout v) = w + length pout"
  unfolding Pic9ToStrRev_def by (induction w pout v rule: AuxPic9ToStr.induct) (simp_all add: Put2Digs_def)

lemma length_put2 [simp]: "length (Put2Digs pout v) = 2 + length pout"
  by (simp add: Put2Digs_def)

lemma length_digits [simp]: "length (two_digits v) = 2" "length (date_digits n) = 8"
  by (simp_all add: two_digits_def date_digits_def)

lemma dig_not_0: "n < 10 \<Longrightarrow> dig n \<noteq> 0"
  by (drule less10_cases) (elim disjE; simp add: dig_def)

lemma pic9_first: "0 < w \<Longrightarrow> hd (Pic9ToStrRev w pout v) \<noteq> 0"
  unfolding Pic9ToStrRev_def
proof (induction w pout v rule: AuxPic9ToStr.induct)
  case (2 pout v)
  then show ?case using dig_not_0 [of v] by simp
next
  case (3 pout v)
  then show ?case using dig_not_0 [of "v div 10"] by (auto simp: Put2Digs_eq)
qed simp_all

definition fix_buf :: "byte list \<Rightarrow> byte list \<Rightarrow> byte list \<Rightarrow> byte list \<Rightarrow> byte list \<Rightarrow> byte list \<Rightarrow> byte list" where
  "fix_buf d h m s x z = d @ [0x2d] @ h @ [0x3a] @ m @ [0x3a] @ s @ [0x2e] @ x @ z"

definition time_buf :: "byte list \<Rightarrow> byte list \<Rightarrow> byte list \<Rightarrow> byte list" where
  "time_buf n u z = n @ [0x2e] @ u @ z"

definition fix_parts :: "byte list \<Rightarrow> byte list \<Rightarrow> byte list \<Rightarrow> byte list \<Rightarrow> byte list \<Rightarrow> byte list \<Rightarrow> bool" where
  "fix_parts d h m s x z \<longleftrightarrow> length d = 8 \<and> length h = 2 \<and> length m = 2 \<and> length s = 2 \<and> length x = 3 \<and> length z = 1"

definition time_parts :: "byte list \<Rightarrow> byte list \<Rightarrow> byte list \<Rightarrow> bool" where
  "time_parts n u z \<longleftrightarrow> length n = 14 \<and> length u = 6 \<and> length z = 1"

lemma put_at_middle: "length xs = i \<Longrightarrow> length bs = length ys \<Longrightarrow> put_at i bs (xs @ ys @ zs) = xs @ bs @ zs"
  by (simp add: put_at_def)

lemma fix_buf_put:
  assumes "fix_parts d h m s x z"
  shows "length b = 8 \<Longrightarrow> put_at 0 b (fix_buf d h m s x z) = fix_buf b h m s x z"
    and "length b = 2 \<Longrightarrow> put_at 9 b (fix_buf d h m s x z) = fix_buf d b m s x z"
    and "length b = 2 \<Longrightarrow> put_at 12 b (fix_buf d h m s x z) = fix_buf d h b s x z"
    and "length b = 2 \<Longrightarrow> put_at 15 b (fix_buf d h m s x z) = fix_buf d h m b x z"
    and "length b = 3 \<Longrightarrow> put_at 18 b (fix_buf d h m s x z) = fix_buf d h m s b z"
  using assms put_at_middle [of "[]" 0 b d] put_at_middle [of "d @ [0x2d]" 9 b h]
    put_at_middle [of "d @ [0x2d] @ h @ [0x3a]" 12 b m] put_at_middle [of "d @ [0x2d] @ h @ [0x3a] @ m @ [0x3a]" 15 b s]
    put_at_middle [of "d @ [0x2d] @ h @ [0x3a] @ m @ [0x3a] @ s @ [0x2e]" 18 b x]
  by (simp_all add: fix_buf_def fix_parts_def)

lemma fix_buf_take:
  "fix_parts d h m s x z \<Longrightarrow> take 17 (fix_buf d h m s x z) = d @ [0x2d] @ h @ [0x3a] @ m @ [0x3a] @ s"
  "fix_parts d h m s x z \<Longrightarrow> take 21 (fix_buf d h m s x z) = (d @ [0x2d] @ h @ [0x3a] @ m @ [0x3a] @ s) @ [0x2e] @ x"
  "fix_parts d h m s x z \<Longrightarrow> fix_buf d h m s x z ! 0 = hd d"
  "fix_parts d h m s x z \<Longrightarrow> (fix_buf d h m s x z)[0 := 0] = fix_buf (d[0 := 0]) h m s x z"
  by (cases d; simp add: fix_buf_def fix_parts_def)+

lemma time_buf_put:
  assumes "time_parts n u z"
  shows "length b = 14 \<Longrightarrow> put_at 0 b (time_buf n u z) = time_buf b u z"
    and "length b = 6 \<Longrightarrow> put_at 15 b (time_buf n u z) = time_buf n b z"
  using assms put_at_middle [of "[]" 0 b n] put_at_middle [of "n @ [0x2e]" 15 b u] by (simp_all add: time_buf_def time_parts_def)

lemma time_buf_take:
  "time_parts n u z \<Longrightarrow> take 21 (time_buf n u z) = n @ [0x2e] @ u"
  "time_parts n u z \<Longrightarrow> time_buf n u z ! 0 = hd n"
  "time_parts n u z \<Longrightarrow> (time_buf n u z)[0 := 0] = time_buf (n[0 := 0]) u z"
  by (cases n; simp add: time_buf_def time_parts_def)+

subsection \<open>What the cache holds\<close>

text \<open>
  \<open>primed\<close>: the date is that of the second in the cache, and so are the texts unless marked as old;
  \<open>ms_known\<close>: the milliseconds in the text are those of \<open>PartFIXMS\<close>.
\<close>

definition primed :: "time_cache \<Rightarrow> bool" where
  "primed c \<longleftrightarrow> date_primed c \<and>
     (BufFix c ! 0 \<noteq> 0 \<longrightarrow> take 17 (BufFix c) = fix_text (CacheEpoch c)) \<and>
     (BufTime c ! 0 \<noteq> 0 \<longrightarrow> take 14 (BufTime c) = Pic9ToStrRev 14 [] (nat \<bar>number_of (CacheEpoch c)\<bar>))"

definition ms_known :: "time_cache \<Rightarrow> bool" where
  "ms_known c \<longleftrightarrow> (PartFIXMS c < 1000 \<longrightarrow> take 3 (drop 18 (BufFix c)) = Pic9ToStrRev 3 [] (PartFIXMS c))"

definition fix_ok :: "time_cache \<Rightarrow> bool" where
  "fix_ok c \<longleftrightarrow> (\<exists>d h m s x z. BufFix c = fix_buf d h m s x z \<and> fix_parts d h m s x z)"

definition time_ok :: "time_cache \<Rightarrow> bool" where
  "time_ok c \<longleftrightarrow> (\<exists>n u z. BufTime c = time_buf n u z \<and> time_parts n u z \<and> (hd n \<noteq> 0 \<longrightarrow> u = Pic9ToStrRev 6 [] (PartUS c)))"

definition buffers_ok :: "time_cache \<Rightarrow> bool" where
  "buffers_ok c \<longleftrightarrow> fix_ok c \<and> time_ok c"

lemma fix_okI: "BufFix c = fix_buf d h m s x z \<Longrightarrow> fix_parts d h m s x z \<Longrightarrow> fix_ok c"
  unfolding fix_ok_def by blast

lemma time_okI: "BufTime c = time_buf n u z \<Longrightarrow> time_parts n u z \<Longrightarrow> (hd n \<noteq> 0 \<Longrightarrow> u = Pic9ToStrRev 6 [] (PartUS c)) \<Longrightarrow> time_ok c"
  unfolding time_ok_def by blast

lemma time_ok_cong: "BufTime c' = BufTime c \<Longrightarrow> PartUS c' = PartUS c \<Longrightarrow> time_ok c' = time_ok c"
  by (simp add: time_ok_def)

lemma fix_ok_cong: "BufFix c' = BufFix c \<Longrightarrow> fix_ok c' = fix_ok c"
  by (simp add: fix_ok_def)

definition cache_ok :: "time_cache \<Rightarrow> bool" where
  "cache_ok c \<longleftrightarrow> buffers_ok c \<and> (primed c \<or> CacheEpoch c = 0) \<and> (ms_known c \<or> PartFIXMS c = 0)"

lemma new_time_cache_ok: "cache_ok new_time_cache"
proof -
  have "BufFix new_time_cache = fix_buf (replicate 8 0) [0, 0] [0, 0] [0, 0] [0, 0, 0] [0]"
    "BufTime new_time_cache = time_buf (replicate 14 0) (replicate 6 0) [0]"
    by (simp_all add: new_time_cache_def fix_buf_def time_buf_def eval_nat_numeral)
  then have "buffers_ok new_time_cache"
    unfolding buffers_ok_def by (intro conjI fix_okI time_okI) (assumption | simp add: fix_parts_def time_parts_def)+
  then show ?thesis by (simp add: cache_ok_def new_time_cache_def)
qed

lemma fix_shape: "cache_ok c \<Longrightarrow> \<exists>d h m s x z. BufFix c = fix_buf d h m s x z \<and> fix_parts d h m s x z"
  by (simp add: cache_ok_def buffers_ok_def fix_ok_def time_ok_def)

lemma time_shape: "cache_ok c \<Longrightarrow>
    \<exists>n u z. BufTime c = time_buf n u z \<and> time_parts n u z \<and> (hd n \<noteq> 0 \<longrightarrow> u = Pic9ToStrRev 6 [] (PartUS c))"
  by (simp add: cache_ok_def buffers_ok_def fix_ok_def time_ok_def)

text \<open>The state after a call: the second is in the cache, and what was known stays known.\<close>

definition after_call :: "int \<Rightarrow> time_cache \<Rightarrow> time_cache \<Rightarrow> bool" where
  "after_call es c c' \<longleftrightarrow> cache_ok c' \<and> CacheEpoch c' = es \<and> (primed c \<or> es \<noteq> 0 \<longrightarrow> primed c') \<and> (ms_known c \<longrightarrow> ms_known c')"

lemma CheckCachedTm_ok:
  assumes "cache_ok c" "CheckCachedTm es c = (renewed, c')"
  shows "after_call es c c' \<and> PartUS c' = PartUS c \<and> PartFIXMS c' = PartFIXMS c \<and>
    (renewed \<longrightarrow> BufFix c' ! 0 = 0 \<and> BufTime c' ! 0 = 0)"
proof (cases "CacheEpoch c = es")
  case True
  then show ?thesis using assms by (auto simp: CheckCachedTm_eq after_call_def cache_ok_def)
next
  case False
  then have c': "renewed" "c' = c\<lparr> CacheEpoch := es, CacheTm := date_of es, CacheNumber := number_of es,
            BufTime := (BufTime c)[0 := 0], BufFix := (BufFix c)[0 := 0] \<rparr>"
    using assms(2) by (simp_all add: CheckCachedTm_eq)
  obtain d h m s x z where f: "BufFix c = fix_buf d h m s x z" "fix_parts d h m s x z"
    using fix_shape [OF assms(1)] by blast
  obtain n u y where t: "BufTime c = time_buf n u y" "time_parts n u y" "hd n \<noteq> 0 \<longrightarrow> u = Pic9ToStrRev 6 [] (PartUS c)"
    using time_shape [OF assms(1)] by blast
  have parts: "fix_parts (d[0 := 0]) h m s x z" "time_parts (n[0 := 0]) u y" "hd (d[0 := 0]) = 0" "hd (n[0 := 0]) = 0"
    using f(2) t(2) by (cases d; cases n; simp add: fix_parts_def time_parts_def)+
  have first: "BufFix c' ! 0 = 0" "BufTime c' ! 0 = 0"
    unfolding c' using f t parts by (simp_all add: fix_buf_take time_buf_take)
  have "buffers_ok c'" unfolding buffers_ok_def
  proof
    show "fix_ok c'" by (rule fix_okI [OF _ parts(1)]) (simp add: c' f fix_buf_take(4) [OF f(2)])
    show "time_ok c'" by (rule time_okI [OF _ parts(2)]) (simp_all add: c' t(1) time_buf_take(3) [OF t(2)] parts(4))
  qed
  moreover have "drop 18 (BufFix c') = drop 18 (BufFix c)" by (simp add: c')
  ultimately show ?thesis using first assms(1) c' by (auto simp: after_call_def cache_ok_def primed_def date_primed_def ms_known_def)
qed

lemma fix_text_first: "fix_text es ! 0 \<noteq> 0"
proof -
  have "hd (date_digits (number_of es)) \<noteq> 0" unfolding date_digits_def by (rule pic9_first) simp
  then show ?thesis by (cases "date_digits (number_of es)") (auto simp: fix_text_def Let_def)
qed

lemma ToStr_FIX_ok:
  assumes "cache_ok c"
  shows "after_call es c (ToStr_FIX es c) \<and> PartUS (ToStr_FIX es c) = PartUS c \<and> PartFIXMS (ToStr_FIX es c) = PartFIXMS c \<and>
    BufFix (ToStr_FIX es c) ! 0 \<noteq> 0"
proof -
  obtain renewed c1 where c1: "CheckCachedTm es c = (renewed, c1)" by force
  note k = CheckCachedTm_ok [OF assms c1]
  have ok: "cache_ok c1" "CacheEpoch c1 = es" using k by (simp_all add: after_call_def)
  show ?thesis
  proof (cases "BufFix c1 ! 0 = 0")
    case False
    then show ?thesis using k c1 by (auto simp: ToStr_FIX_def)
  next
    case True
    obtain d h m s x z where f: "BufFix c1 = fix_buf d h m s x z" "fix_parts d h m s x z"
      using fix_shape [OF ok(1)] by blast
    let ?d = "date_digits (CacheNumber c1)" and ?h = "two_digits (tm_hour (CacheTm c1))"
      and ?m = "two_digits (tm_min (CacheTm c1))" and ?s = "two_digits (tm_sec (CacheTm c1))"
    have p: "fix_parts ?d h m s x z" "fix_parts ?d ?h m s x z" "fix_parts ?d ?h ?m s x z" "fix_parts ?d ?h ?m ?s x z"
      using f(2) by (simp_all add: fix_parts_def)
    have e: "ToStr_FIX es c = c1\<lparr> BufFix := fix_buf ?d ?h ?m ?s x z \<rparr>"
      using c1 True f p by (simp add: ToStr_FIX_def fix_buf_put)
    have hd: "hd ?d \<noteq> 0" unfolding date_digits_def by (rule pic9_first) simp
    have "fix_ok (ToStr_FIX es c)" unfolding e by (rule fix_okI [OF _ p(4)]) simp
    then have "buffers_ok (ToStr_FIX es c)"
      using ok(1) time_ok_cong [of "ToStr_FIX es c" c1] by (simp add: buffers_ok_def cache_ok_def e)
    moreover have "primed (ToStr_FIX es c)" if "primed c1"
      using that p(4) ok(2) unfolding e by (simp add: primed_def date_primed_def fix_buf_take fix_text_def Let_def)
    moreover have "drop 18 (fix_buf ?d ?h ?m ?s x z) = drop 18 (BufFix c1)"
      using f p(4) by (simp add: fix_buf_def fix_parts_def)
    then have "ms_known (ToStr_FIX es c) = ms_known c1" by (simp add: e ms_known_def)
    moreover have "BufFix (ToStr_FIX es c) ! 0 \<noteq> 0" using hd p(4) by (simp add: e fix_buf_take)
    ultimately show ?thesis using k ok e by (auto simp: after_call_def cache_ok_def)
  qed
qed

lemma ToStr_FIX_tail: "cache_ok c \<Longrightarrow> drop 18 (BufFix (ToStr_FIX es c)) = drop 18 (BufFix c)"
proof -
  assume ok: "cache_ok c"
  obtain renewed c1 where c1: "CheckCachedTm es c = (renewed, c1)" by force
  have t: "drop 18 (BufFix c1) = drop 18 (BufFix c)" using c1 by (auto simp: CheckCachedTm_eq split: if_splits)
  have "cache_ok c1" using CheckCachedTm_ok [OF ok c1] by (simp add: after_call_def)
  then obtain d h m s x z where f: "BufFix c1 = fix_buf d h m s x z" "fix_parts d h m s x z" using fix_shape by blast
  let ?d = "date_digits (CacheNumber c1)" and ?h = "two_digits (tm_hour (CacheTm c1))"
    and ?m = "two_digits (tm_min (CacheTm c1))" and ?s = "two_digits (tm_sec (CacheTm c1))"
  have p: "fix_parts ?d h m s x z" "fix_parts ?d ?h m s x z" "fix_parts ?d ?h ?m s x z" "fix_parts ?d ?h ?m ?s x z"
    using f(2) by (simp_all add: fix_parts_def)
  have "drop 18 (fix_buf ?d ?h ?m ?s x z) = drop 18 (BufFix c1)" using f p(4) by (simp add: fix_buf_def fix_parts_def)
  then show ?thesis using c1 t f p by (auto simp: ToStr_FIX_def fix_buf_put)
qed

lemma cached_FIX_ok:
  assumes "cache_ok c" "cached_FIX es c = (s, c')"
  shows "after_call es c c' \<and> (primed c' \<longrightarrow> s = fix_text es)"
  using ToStr_FIX_ok [OF assms(1), of es] assms(2)
  by (auto simp: cached_FIX_def Let_def kDateTimeStrWidth_FIX_def primed_def date_primed_def after_call_def)

lemma cached_FIXMS_ok:
  assumes "cache_ok c" "cached_FIXMS es ms c = (s, c')" "ms < 1000"
  shows "after_call es c c' \<and> (ms \<noteq> 0 \<longrightarrow> ms_known c') \<and>
    (primed c' \<and> ms_known c' \<longrightarrow> s = fix_text es @ [0x2e] @ Pic9ToStrRev 3 [] ms)"
proof -
  define c1 where "c1 = ToStr_FIX es c"
  have k: "after_call es c c1" "PartFIXMS c1 = PartFIXMS c" "BufFix c1 ! 0 \<noteq> 0"
    using ToStr_FIX_ok [OF assms(1), of es] by (simp_all add: c1_def)
  then have ok: "cache_ok c1" "CacheEpoch c1 = es" by (simp_all add: after_call_def)
  obtain d h m t x z where f: "BufFix c1 = fix_buf d h m t x z" "fix_parts d h m t x z" using fix_shape [OF ok(1)] by blast
  show ?thesis
  proof (cases "PartFIXMS c1 = ms")
    case True
    then have e: "c' = c1" "s = take 21 (BufFix c1)"
      using assms(2) by (auto simp: cached_FIXMS_def Let_def c1_def [symmetric] kDateTimeStrWidth_FIXMS_def)
    have "s = take 17 (BufFix c1) @ [0x2e] @ take 3 (drop 18 (BufFix c1))"
      unfolding e(2) f(1) fix_buf_take(2) [OF f(2)] fix_buf_take(1) [OF f(2)] using f(2) by (simp add: fix_buf_def fix_parts_def)
    then show ?thesis
      using k ok e True assms(3) by (auto simp: primed_def date_primed_def ms_known_def cache_ok_def)
  next
    case False
    define x' where "x' = Pic9ToStrRev 3 [] ms"
    have p: "fix_parts d h m t x' z" using f(2) by (simp add: fix_parts_def x'_def)
    have e: "c' = c1\<lparr> PartFIXMS := ms, BufFix := fix_buf d h m t x' z \<rparr>" "s = take 21 (fix_buf d h m t x' z)"
      using False assms(2) f by (auto simp: cached_FIXMS_def Let_def c1_def [symmetric] kDateTimeStrWidth_FIXMS_def fix_buf_put x'_def)
    have "fix_ok c'" unfolding e by (rule fix_okI [OF _ p]) simp
    then have "buffers_ok c'" using ok(1) time_ok_cong [of c' c1] by (simp add: buffers_ok_def cache_ok_def e)
    moreover have "take 17 (BufFix c') = take 17 (BufFix c1)" "BufFix c' ! 0 = BufFix c1 ! 0"
      using f p by (simp_all add: e fix_buf_take)
    then have "primed c' = primed c1" by (simp add: primed_def date_primed_def e)
    moreover have "take 3 (drop 18 (BufFix c')) = x'" using p by (simp add: e fix_buf_def fix_parts_def)
    then have "ms_known c'" by (simp add: ms_known_def e x'_def)
    moreover have "s = take 17 (BufFix c1) @ [0x2e] @ x'"
      unfolding e(2) f(1) fix_buf_take(2) [OF p] fix_buf_take(1) [OF f(2)] by simp
    ultimately show ?thesis using k ok e(1) by (auto simp: after_call_def cache_ok_def primed_def date_primed_def x'_def)
  qed
qed

lemma full_text_first: "hd (Pic9ToStrRev 14 [] v) \<noteq> 0"
  by (rule pic9_first) simp

lemma set_us_parts:
  "time_parts n u z \<Longrightarrow> BufTime c = time_buf n u z \<Longrightarrow> BufTime (set_us us c) = time_buf n (Pic9ToStrRev 6 [] us) z"
  by (simp add: set_us_def time_buf_put)

lemma ToStrRev_Full_ok:
  assumes "cache_ok c" "ts \<noteq> TsNull" "ToStrRev_Full ts c = (r, c')"
  shows "after_call (ToEpochSeconds ts) c c' \<and> (primed c' \<longrightarrow> r = Some (full_text ts))"
proof -
  let ?es = "ToEpochSeconds ts" and ?us = "part_us ts"
  obtain renewed c1 where c1: "CheckCachedTm ?es c = (renewed, c1)" by force
  note k = CheckCachedTm_ok [OF assms(1) c1]
  have ok: "cache_ok c1" "CacheEpoch c1 = ?es" using k by (simp_all add: after_call_def)
  obtain n u z where t: "BufTime c1 = time_buf n u z" "time_parts n u z" "hd n \<noteq> 0 \<longrightarrow> u = Pic9ToStrRev 6 [] (PartUS c1)"
    using time_shape [OF ok(1)] by blast
  have p: "time_parts n (Pic9ToStrRev 6 [] ?us) z" using t(2) by (simp add: time_parts_def)
  have us: "BufTime (set_us ?us c1) = time_buf n (Pic9ToStrRev 6 [] ?us) z" using set_us_parts [OF t(2,1)] .
  show ?thesis
  proof (cases "BufTime c1 ! 0 = 0")
    case False
    define c2 where "c2 = (if PartUS c1 \<noteq> ?us then set_us ?us c1 else c1)"
    have hd: "hd n \<noteq> 0" using False t(1,2) by (simp add: time_buf_take)
    have e: "c' = c2" "r = Some (take 21 (BufTime c2))"
      using assms(2,3) c1 False k by (auto simp: ToStrRev_Full_def Let_def c2_def kDateTimeStrWidth_def)
    have b: "BufTime c2 = time_buf n (Pic9ToStrRev 6 [] ?us) z" using us t(1,3) hd by (auto simp: c2_def)
    have same: "CacheEpoch c2 = CacheEpoch c1" "CacheTm c2 = CacheTm c1" "CacheNumber c2 = CacheNumber c1" "BufFix c2 = BufFix c1"
      "PartFIXMS c2 = PartFIXMS c1" "PartUS c2 = ?us" by (simp_all add: c2_def set_us_def)
    have "time_ok c2" by (rule time_okI [OF b p]) (simp add: same)
    then have "buffers_ok c2" using ok(1) fix_ok_cong [OF same(4)] by (simp add: buffers_ok_def cache_ok_def)
    moreover have "take 14 (BufTime c2) = take 14 (BufTime c1)" "BufTime c2 ! 0 = BufTime c1 ! 0"
      unfolding b t(1) time_buf_take(2) [OF p] time_buf_take(2) [OF t(2)] using t(2) by (simp_all add: time_buf_def time_parts_def)
    then have "primed c2 = primed c1" by (simp add: primed_def date_primed_def same)
    moreover have "r = Some (full_text ts)" if "primed c1"
    proof -
      have "n = Pic9ToStrRev 14 [] (nat \<bar>number_of ?es\<bar>)"
        using that False ok(2) t(1,2) by (simp add: primed_def date_primed_def time_buf_def time_parts_def)
      then show ?thesis unfolding e(2) b time_buf_take(1) [OF p] by (simp add: full_text_def)
    qed
    ultimately show ?thesis using k ok e same by (auto simp: after_call_def cache_ok_def ms_known_def)
  next
    case True
    let ?n = "Pic9ToStrRev 14 [] (nat \<bar>CacheNumber c1\<bar>)"
    let ?f = "PartFIXMS c1 mod 2 ^ 24 + (if CacheNumber c1 < 0 then 0x2d else 0x2b) * 2 ^ 24"
    have q: "time_parts ?n u z" "time_parts ?n (Pic9ToStrRev 6 [] ?us) z" using t(2) by (simp_all add: time_parts_def)
    have e: "c' = set_us ?us (c1\<lparr> BufTime := time_buf ?n u z, PartFIXMS := ?f \<rparr>)" "r = Some (take 21 (BufTime c'))"
      using assms(2,3) c1 True t(1) time_buf_put(1) [OF t(2), of ?n]
      by (auto simp: ToStrRev_Full_def Let_def kDateTimeStrWidth_def)
    have b: "BufTime c' = time_buf ?n (Pic9ToStrRev 6 [] ?us) z" unfolding e(1) using set_us_parts [OF q(1)] by simp
    have same: "CacheEpoch c' = CacheEpoch c1" "CacheTm c' = CacheTm c1" "CacheNumber c' = CacheNumber c1" "BufFix c' = BufFix c1"
      "PartFIXMS c' = ?f" "PartUS c' = ?us" by (simp_all add: e(1) set_us_def)
    have "time_ok c'" by (rule time_okI [OF b q(2)]) (simp add: same)
    then have "buffers_ok c'" using ok(1) fix_ok_cong [OF same(4)] by (simp add: buffers_ok_def cache_ok_def)
    moreover have "take 14 (BufTime c') = ?n" unfolding b by (simp add: time_buf_def)
    then have "primed c'" if "primed c1" using that by (simp add: primed_def date_primed_def same)
    moreover have "ms_known c'" by (simp add: ms_known_def same)
    moreover have "r = Some (full_text ts)" if "primed c1"
      unfolding e(2) b time_buf_take(1) [OF q(2)] using that ok(2) by (simp add: primed_def date_primed_def full_text_def)
    moreover have "primed c1" if "primed c'" using that True same by (auto simp: primed_def date_primed_def)
    ultimately show ?thesis using k ok same by (auto simp: after_call_def cache_ok_def)
  qed
qed

subsection \<open>Runs of calls\<close>

lemma length_full_text [simp]: "length (full_text ts) = 21"
  by (simp add: full_text_def)

lemma part_ms_less: "part_ms ts < 1000"
proof -
  have "\<bar>ts\<bar> mod TsDivisor < 1000000" by (simp add: TsDivisor_def)
  then have "part_us ts < 1000000" by (simp add: part_us_def nat_less_iff TsDivisor_def)
  then show ?thesis by (simp add: part_ms_def div_less_iff_less_mult)
qed

lemma time_step_null:
  "call_second e = None \<Longrightarrow> time_step e c = (plain_answer e, c)"
  by (cases e) (simp_all add: ToStrRev_FIX_def ToStrRev_FIXMS_def ToStrRev_ts_def ToStrRev_Date_Time_us_def ToStrRev_Full_def
      kDateTimeStrWidth_FIX_def kDateTimeStrWidth_FIXMS_def kDateTimeStrWidth_def split: if_splits)

lemma time_step_ok:
  assumes "cache_ok c" "time_step e c = (a, c')" "call_second e = Some es"
  shows "after_call es c c' \<and> (\<forall>ms. call_ms e = Some ms \<longrightarrow> ms \<noteq> 0 \<longrightarrow> ms_known c') \<and>
    (primed c' \<and> (call_ms e = None \<or> ms_known c') \<longrightarrow> a = plain_answer e)"
proof (cases e)
  case (AskFIX ts)
  then have ts: "ts \<noteq> TsNull" "es = ToEpochSeconds ts" using assms(3) by (auto split: if_splits)
  then obtain s where s: "cached_FIX es c = (s, c')" "a = Text s" using assms(2) AskFIX by (auto simp: ToStrRev_FIX_def split: prod.splits)
  show ?thesis using cached_FIX_ok [OF assms(1) s(1)] s(2) AskFIX ts by simp
next
  case (AskFIXMS ts)
  then have ts: "ts \<noteq> TsNull" "es = ToEpochSeconds ts" using assms(3) by (auto split: if_splits)
  then obtain s where s: "cached_FIXMS es (part_ms ts) c = (s, c')" "a = Text s"
    using assms(2) AskFIXMS by (auto simp: ToStrRev_FIXMS_def split: prod.splits)
  show ?thesis using cached_FIXMS_ok [OF assms(1) s(1) part_ms_less] s(2) AskFIXMS ts by simp
next
  case (AskText ts)
  then have ts: "ts \<noteq> TsNull" "es = ToEpochSeconds ts" using assms(3) by (auto split: if_splits)
  obtain r where r: "ToStrRev_Full ts c = (r, c')" "a = Text (case r of None \<Rightarrow> replicate kDateTimeStrWidth 0x20 | Some s \<Rightarrow> s)"
    using assms(2) AskText by (auto simp: ToStrRev_ts_def split: prod.splits option.splits)
  show ?thesis using ToStrRev_Full_ok [OF assms(1) ts(1) r(1)] r(2) AskText ts by auto
next
  case (AskDateTime ts)
  then have ts: "ts \<noteq> TsNull" "es = ToEpochSeconds ts" using assms(3) by (auto split: if_splits)
  obtain r where r: "ToStrRev_Full ts c = (r, c')"
    "a = Text (case r of None \<Rightarrow> replicate (kDateTimeStrWidth + 1) 0x20 | Some s \<Rightarrow> take 8 s @ [0x2d] @ take 13 (drop 8 s))"
    using assms(2) AskDateTime by (auto simp: ToStrRev_Date_Time_us_def split: prod.splits option.splits)
  show ?thesis using ToStrRev_Full_ok [OF assms(1) ts(1) r(1)] r(2) AskDateTime ts by auto
next
  case (AskInfo es')
  obtain renewed where r: "CheckCachedTm es c = (renewed, c')" "a = Info (CacheTm c')"
    using assms(2,3) AskInfo by (simp add: EpochSecondsInfo_def split: prod.splits)
  show ?thesis using CheckCachedTm_ok [OF assms(1) r(1)] r(2) assms(3) AskInfo by (simp add: primed_def date_primed_def after_call_def)
next
  case (AskNumber es')
  obtain renewed where r: "CheckCachedTm es c = (renewed, c')" "a = Number (CacheNumber c')"
    using assms(2,3) AskNumber by (simp add: EpochSecondsToYYYYMMDDHHMMSS_def split: prod.splits)
  show ?thesis using CheckCachedTm_ok [OF assms(1) r(1)] r(2) assms(3) AskNumber by (simp add: primed_def date_primed_def after_call_def)
qed

definition time_run :: "time_call list \<Rightarrow> time_cache" where
  "time_run es = foldl (\<lambda>c e. snd (time_step e c)) new_time_cache es"

lemma time_run_ok:
  "cache_ok (time_run es) \<and>
   ((\<exists>e \<in> set es. \<exists>s. call_second e = Some s \<and> s \<noteq> 0) \<longrightarrow> primed (time_run es)) \<and>
   ((\<exists>e \<in> set es. \<exists>ms. call_ms e = Some ms \<and> ms \<noteq> 0) \<longrightarrow> ms_known (time_run es))"
proof (induction es rule: rev_induct)
  case Nil
  show ?case using new_time_cache_ok by (simp add: time_run_def)
next
  case (snoc e es)
  obtain a c' where c': "time_step e (time_run es) = (a, c')" by force
  then have r: "time_run (es @ [e]) = c'" by (simp add: time_run_def)
  show ?case
  proof (cases "call_second e")
    case None
    moreover from None have "call_ms e = None" by (cases e) (simp_all split: if_splits)
    ultimately show ?thesis using snoc time_step_null [of e "time_run es"] c' r by auto
  next
    case (Some s)
    show ?thesis using time_step_ok [OF _ c' Some] snoc Some r by (auto simp: after_call_def)
  qed
qed

text \<open>A text with the milliseconds 0 leaves the three bytes for them as they are when they are remembered as 0.\<close>

lemma whole_second_step:
  assumes "cache_ok c" "ts \<noteq> TsNull" "part_ms ts = 0" "PartFIXMS c = 0 \<and> take 3 (drop 18 (BufFix c)) = [0, 0, 0]"
  shows "PartFIXMS (snd (time_step (AskFIXMS ts) c)) = 0 \<and> take 3 (drop 18 (BufFix (snd (time_step (AskFIXMS ts) c)))) = [0, 0, 0] \<and>
    (primed (snd (time_step (AskFIXMS ts) c)) \<longrightarrow>
      fst (time_step (AskFIXMS ts) c) = Text (fix_text (ToEpochSeconds ts) @ [0x2e] @ [0, 0, 0]))"
proof -
  define c1 where "c1 = ToStr_FIX (ToEpochSeconds ts) c"
  have k: "after_call (ToEpochSeconds ts) c c1" "PartFIXMS c1 = 0" "BufFix c1 ! 0 \<noteq> 0" "take 3 (drop 18 (BufFix c1)) = [0, 0, 0]"
    using ToStr_FIX_ok [OF assms(1), of "ToEpochSeconds ts"] ToStr_FIX_tail [OF assms(1), of "ToEpochSeconds ts"] assms(4)
    by (simp_all add: c1_def)
  then have "cache_ok c1" by (simp add: after_call_def)
  then obtain d h m t x z where f: "BufFix c1 = fix_buf d h m t x z" "fix_parts d h m t x z" using fix_shape by blast
  have "take 21 (BufFix c1) = take 17 (BufFix c1) @ [0x2e] @ take 3 (drop 18 (BufFix c1))"
    unfolding f(1) fix_buf_take(2) [OF f(2)] fix_buf_take(1) [OF f(2)] using f(2) by (simp add: fix_buf_def fix_parts_def)
  then show ?thesis using k assms(2,3)
    by (simp add: ToStrRev_FIXMS_def cached_FIXMS_def Let_def c1_def [symmetric] kDateTimeStrWidth_FIXMS_def primed_def after_call_def)
qed

text \<open>The caches of a thread are those the dates of \<open>DateTime\<close> are read from.\<close>

lemma time_run_dates: "date_ok (time_run es)"
proof (induction es rule: rev_induct)
  case (snoc e es)
  have keep: "date_ok c' = date_ok c" if "CacheTm c' = CacheTm c" "CacheNumber c' = CacheNumber c" "CacheEpoch c' = CacheEpoch c" for c c'
    using that by (simp add: date_ok_def date_primed_def date_fresh_def)
  have same: "CacheTm c' = CacheTm c1 \<and> CacheNumber c' = CacheNumber c1 \<and> CacheEpoch c' = CacheEpoch c1"
    if "time_step e c = (a, c')" "call_second e = Some s" "CheckCachedTm s c = (b, c1)" for a b s c c1 c'
    using that by (cases e) (auto simp: ToStrRev_FIX_def ToStrRev_FIXMS_def ToStrRev_ts_def ToStrRev_Date_Time_us_def ToStrRev_Full_def
        cached_FIX_def cached_FIXMS_def ToStr_FIX_def set_us_def EpochSecondsInfo_def EpochSecondsToYYYYMMDDHHMMSS_def Let_def
        split: if_splits)
  obtain a c' where c': "time_step e (time_run es) = (a, c')" by force
  have "date_ok c'"
  proof (cases "call_second e")
    case None
    then show ?thesis using snoc c' by (simp add: time_step_null)
  next
    case (Some s)
    obtain b c1 where c1: "CheckCachedTm s (time_run es) = (b, c1)" by force
    then show ?thesis using same [OF c' Some c1] keep [of c' c1] CheckCachedTm_date_ok [OF snoc, of s] by simp
  qed
  then show ?case using c' by (simp add: time_run_def)
qed (simp add: time_run_def date_ok_def date_fresh_new)

subsection \<open>Properties\<close>

text \<open>
  C39: Once the cache knows, it does not show: a call answers what is computed from its time alone if it
  or a call of the thread before it asks for a second other than the first of the epoch and, when it
  is for a text with milliseconds, if it or such a call before it has milliseconds other than zero.
  (What is answered before that is in \<open>epoch_reads_as_zero\<close> and \<open>whole_seconds_have_no_digits\<close>.)
\<close>

theorem time_cache_is_transparent:
  assumes "call_second e \<noteq> Some 0 \<or> (\<exists>b \<in> set before. \<exists>s. call_second b = Some s \<and> s \<noteq> 0)"
    and "call_ms e \<noteq> Some 0 \<or> (\<exists>b \<in> set before. \<exists>ms. call_ms b = Some ms \<and> ms \<noteq> 0)"
  shows "fst (time_step e (time_run before)) = plain_answer e"
proof (cases "call_second e")
  case None
  then show ?thesis by (simp add: time_step_null)
next
  case (Some s)
  obtain a c' where c': "time_step e (time_run before) = (a, c')" by force
  note k = time_run_ok [of before]
  note st = time_step_ok [OF conjunct1 [OF k] c' Some]
  have "primed c'" using st k assms(1) Some by (auto simp: after_call_def)
  moreover have "call_ms e = None \<or> ms_known c'" using st k assms(2) by (auto simp: after_call_def)
  ultimately show ?thesis using st c' by simp
qed

lemma example_date: "gmtime 951827696 = \<lparr> tm_sec = 56, tm_min = 34, tm_hour = 12, tm_mday = 29, tm_mon = 1, tm_year = 100, tm_wday = 2 \<rparr>"
  by code_simp

lemma pic9_step: "Pic9ToStrRev (Suc (Suc (Suc k))) pout v = Pic9ToStrRev (Suc k) (Put2Digs pout (v mod 100)) (v div 100)"
  by (simp add: Pic9ToStrRev_def)

lemma pic9_eval:
  "Pic9ToStrRev 8 pout v = Pic9ToStrRev 6 (Put2Digs pout (v mod 100)) (v div 100)"
  "Pic9ToStrRev 6 pout v = Pic9ToStrRev 4 (Put2Digs pout (v mod 100)) (v div 100)"
  "Pic9ToStrRev 4 pout v = Pic9ToStrRev 2 (Put2Digs pout (v mod 100)) (v div 100)"
  "v \<le> 99 \<Longrightarrow> Pic9ToStrRev 2 pout v = Put2Digs pout v"
  "Pic9ToStrRev 3 pout v = Pic9ToStrRev 1 (Put2Digs pout (v mod 100)) (v div 100)"
  "v \<le> 9 \<Longrightarrow> Pic9ToStrRev (Suc 0) pout v = dig v # pout"
  using pic9_step [of 5] pic9_step [of 3] pic9_step [of 1] pic9_step [of 0]
  by (simp_all add: numeral_2_eq_2 [symmetric] numeral_3_eq_3 [symmetric]) (simp_all add: Pic9ToStrRev_def numeral_2_eq_2)

lemma example_fix_text: "fix_text 951827696 = ascii ''20000229-12:34:56''"
  by (simp add: fix_text_def date_of_eq example_date date_digits_def two_digits_def tm_to_number_def kDivHHMMSS_def trunc_div_def
      pic9_eval Put2Digs_eq dig_def ascii_def)

lemma time_cache_is_transparent_witness:
  "fst (time_step (AskFIXMS 951827696789000) (time_run [AskText 1, AskNumber 5])) = Text (ascii ''20000229-12:34:56.789'')"
proof -
  have e: "ToEpochSeconds 951827696789000 = 951827696" by code_simp
  have ms: "part_ms 951827696789000 = 789" by (simp add: part_ms_def part_us_def TsDivisor_def)
  have n: "951827696789000 \<noteq> TsNull" by (simp add: TsNull_def)
  have "fst (time_step (AskFIXMS 951827696789000) (time_run [AskText 1, AskNumber 5])) = plain_answer (AskFIXMS 951827696789000)"
    by (rule time_cache_is_transparent) (simp_all add: e ms n)
  then show ?thesis using n by (simp add: e ms example_fix_text pic9_eval Put2Digs_eq dig_def) (simp add: ascii_def)
qed

text \<open>
  The exceptions are real. Until a thread has shown milliseconds other than zero, every text for a whole
  second has three zero bytes for them, however many there are; and the number of the first
  second of the epoch is zero as long as the thread has asked for no other second.
\<close>

theorem whole_seconds_have_no_digits:
  assumes "\<forall>t \<in> set (before @ [ts]). t \<noteq> TsNull \<and> part_ms t = 0" "ToEpochSeconds ts \<noteq> 0"
  shows "fst (time_step (AskFIXMS ts) (time_run (map AskFIXMS before))) = Text (fix_text (ToEpochSeconds ts) @ [0x2e] @ [0, 0, 0])"
proof -
  have no_digits: "PartFIXMS (time_run (map AskFIXMS before)) = 0 \<and> take 3 (drop 18 (BufFix (time_run (map AskFIXMS before)))) = [0, 0, 0]"
    using assms(1)
  proof (induction before rule: rev_induct)
    case (snoc t ts)
    then show ?case using whole_second_step [of "time_run (map AskFIXMS ts)" t] time_run_ok [of "map AskFIXMS ts"]
      by (simp add: time_run_def)
  qed (simp add: time_run_def new_time_cache_def eval_nat_numeral)
  obtain a c' where c': "time_step (AskFIXMS ts) (time_run (map AskFIXMS before)) = (a, c')" by force
  have "call_second (AskFIXMS ts) = Some (ToEpochSeconds ts)" using assms(1) by simp
  then have "primed c'" using time_step_ok [OF _ c'] time_run_ok assms(2) by (force simp: after_call_def)
  moreover have "ts \<noteq> TsNull" and "part_ms ts = 0" using assms(1) by simp_all
  note step = whole_second_step [OF conjunct1 [OF time_run_ok] this no_digits, unfolded c']
  ultimately show ?thesis unfolding c' using step by simp
qed

lemma whole_seconds_have_no_digits_witness:
  "fst (time_step (AskFIXMS 951827696000000) (time_run [AskFIXMS 1000000])) = Text (ascii ''20000229-12:34:56.'' @ [0, 0, 0])"
proof -
  have e: "ToEpochSeconds 951827696000000 = 951827696" by code_simp
  have "part_ms 951827696000000 = 0" "part_ms 1000000 = 0" by (simp_all add: part_ms_def part_us_def TsDivisor_def)
  then show ?thesis using whole_seconds_have_no_digits [of "[1000000]" 951827696000000] e example_fix_text
    by (simp add: TsNull_def) (simp add: ascii_def)
qed

theorem epoch_reads_as_zero:
  "fst (time_step (AskNumber 0) (time_run [])) = Number 0 \<and> tm_to_number (gmtime 0) = 19700101000000"
proof
  show "fst (time_step (AskNumber 0) (time_run [])) = Number 0"
    by (simp add: EpochSecondsToYYYYMMDDHHMMSS_def CheckCachedTm_eq time_run_def new_time_cache_def)
  have "gmtime 0 = \<lparr> tm_sec = 0, tm_min = 0, tm_hour = 0, tm_mday = 1, tm_mon = 0, tm_year = 70, tm_wday = 4 \<rparr>" by code_simp
  then show "tm_to_number (gmtime 0) = 19700101000000" by (simp add: tm_to_number_def)
qed

text \<open>
  The sign of the number is written in front of the array: a call for the full text changes the
  milliseconds the cache remembers.
\<close>

theorem full_text_overwrites_the_milliseconds:
  assumes "ts \<noteq> TsNull" "CacheEpoch c \<noteq> ToEpochSeconds ts"
  shows "PartFIXMS (snd (ToStrRev_Full ts c)) \<ge> 0x2b000000"
  using assms by (auto simp: ToStrRev_Full_def CheckCachedTm_eq set_us_def Let_def)

lemma full_text_overwrites_the_milliseconds_witness:
  "PartFIXMS (snd (ToStrRev_Full 951827696000000 new_time_cache)) \<ge> 0x2b000000"
proof -
  have "ToEpochSeconds 951827696000000 = 951827696" by code_simp
  then show ?thesis by (intro full_text_overwrites_the_milliseconds) (simp_all add: TsNull_def new_time_cache_def)
qed

end
