(* ===== verification/Schedule.thy ===== *)
theory Schedule
  imports DateTime
begin

text \<open>
  The weekly schedule, \<open>fon9/SchTask.hpp\<close> and \<open>fon9/SchTask.cpp\<close>: \<open>SchConfig\<close> tells whether a point of
  time is within the schedule and when to look again, \<open>SchTask\<close> follows it with a timer. The text of
  a configuration and the name of its time zone are not read here; \<open>Weekdays\<close> is the bitset,
  Sunday first. The timer of the task is the time it is set to. The date of a time is read
  through the cache of the calling thread (\<open>DateTime\<close>).
  The result: a time is in schedule exactly when one of the spans the configuration describes
  contains it or the schedule has no end and was in before, the next time to look is the next
  change, and the task misses none.
\<close>

datatype sch_st = StUnknown | StRestart | StStopped | StStopping | StInSch | StOutSch | StDisposing

record sch_config =
  Weekdays :: "bool list"
  TimeZoneAdj :: int
  StartTime :: nat
  EndTime :: nat

definition kWeekdayCount :: nat where
  "kWeekdayCount = 7"

definition kNoEndTime :: nat where
  "kNoEndTime = 25 * 60 * 60"

definition IsAlwaysInSch :: "sch_config \<Rightarrow> bool" where
  "IsAlwaysInSch cfg \<longleftrightarrow> list_all id (Weekdays cfg) \<and> StartTime cfg = 0 \<and> EndTime cfg = kNoEndTime"

definition SetAlwaysInSch :: "int \<Rightarrow> sch_config" where
  "SetAlwaysInSch localAdj = \<lparr> Weekdays = replicate kWeekdayCount True, TimeZoneAdj = localAdj, StartTime = 0, EndTime = kNoEndTime \<rparr>"

definition SetAlwaysOutSch :: "sch_config \<Rightarrow> sch_config" where
  "SetAlwaysOutSch cfg = cfg\<lparr> Weekdays := replicate kWeekdayCount False \<rparr>"

definition IsAlwaysOutSch :: "sch_config \<Rightarrow> bool" where
  "IsAlwaysOutSch cfg \<longleftrightarrow> \<not> list_ex id (Weekdays cfg)"

subsection \<open>\<open>SchConfig::Check\<close>\<close>

record check_result =
  NextCheckTime :: int
  ResSchSt :: sch_st
  IsChanged :: bool

definition OneDay :: int where
  "OneDay = 86400000000"

definition tz_interval :: "sch_config \<Rightarrow> int" where
  "tz_interval cfg = TimeZoneAdj cfg * 60 * TsDivisor"

text \<open>The loop to the next day of the schedule; a week is enough when there is one.\<close>

primrec seek_day :: "nat \<Rightarrow> bool list \<Rightarrow> int \<Rightarrow> nat \<Rightarrow> int option" where
  "seek_day 0 days now wday = None"
| "seek_day (Suc f) days now wday =
     (if days ! wday then Some now else seek_day f days (now + OneDay) ((wday + 1) mod 7))"

definition check_today :: "sch_config \<Rightarrow> int \<Rightarrow> nat \<Rightarrow> (sch_st \<times> int \<times> nat) option" where
  "check_today cfg now wday = map_option (\<lambda>n. (StOutSch, n, StartTime cfg)) (seek_day kWeekdayCount (Weekdays cfg) now wday)"

definition check_tomorrow :: "sch_config \<Rightarrow> int \<Rightarrow> nat \<Rightarrow> (sch_st \<times> int \<times> nat) option" where
  "check_tomorrow cfg now wday = check_today cfg (now + OneDay) ((wday + 1) mod 7)"

definition sch_end :: "sch_config \<Rightarrow> nat" where
  "sch_end cfg = uadd 32 (EndTime cfg) 1"

definition check_span :: "sch_config \<Rightarrow> int \<Rightarrow> nat \<Rightarrow> nat \<Rightarrow> sch_st \<Rightarrow> (sch_st \<times> int \<times> nat) option" where
  "check_span cfg now wday dnow beforeSt =
     (if StartTime cfg < EndTime cfg then
        (if EndTime cfg = kNoEndTime \<and> beforeSt = StInSch \<or>
            Weekdays cfg ! wday \<and> StartTime cfg \<le> dnow \<and> dnow \<le> EndTime cfg
         then Some (StInSch, now, sch_end cfg)
         else if IsAlwaysOutSch cfg then Some (StOutSch, now, kNoEndTime)
         else if EndTime cfg < dnow then check_tomorrow cfg now wday
         else check_today cfg now wday)
      else if StartTime cfg \<le> dnow then
        (if Weekdays cfg ! wday then Some (StInSch, now + OneDay, sch_end cfg)
         else if IsAlwaysOutSch cfg then Some (StOutSch, now, kNoEndTime)
         else check_tomorrow cfg now wday)
      else if dnow \<le> EndTime cfg \<and> Weekdays cfg ! (if wday \<noteq> 0 then wday - 1 else 6)
      then Some (StInSch, now, sch_end cfg)
      else if IsAlwaysOutSch cfg then Some (StOutSch, now, kNoEndTime)
      else check_today cfg now wday)"

definition next_check :: "int \<Rightarrow> int" where
  "next_check at = (if at = 0 \<or> at = TsNull then 1 else at)"

definition SchCheck :: "sch_config \<Rightarrow> int \<Rightarrow> sch_st \<Rightarrow> time_cache \<Rightarrow> (check_result \<times> time_cache) option" where
  "SchCheck cfg now0 beforeSt c =
     (let now = now0 + tz_interval cfg
      in case GetDateTimeInfo now c of (t, c1) \<Rightarrow>
       let dnow = nat (((tm_hour t * 60 + tm_min t) * 60 + tm_sec t) mod 2 ^ 32); wday = nat (tm_wday t)
       in case check_span cfg now wday dnow beforeSt of None \<Rightarrow> None
       | Some (st, now', next) \<Rightarrow>
           let changed = ((beforeSt = StInSch) \<noteq> (st = StInSch))
           in if next < kNoEndTime
              then case TimeStampResetHHMMSS now' 0 c1 of (midnight, c2) \<Rightarrow>
                Some (\<lparr> NextCheckTime = next_check (midnight + (int next * TsDivisor - tz_interval cfg)),
                        ResSchSt = st, IsChanged = changed \<rparr>, c2)
              else Some (\<lparr> NextCheckTime = 0, ResSchSt = st, IsChanged = changed \<rparr>, c1))"

definition GetNextSchIn :: "sch_config \<Rightarrow> int \<Rightarrow> sch_st \<Rightarrow> time_cache \<Rightarrow> (int \<times> time_cache) option" where
  "GetNextSchIn cfg now beforeSt c = (case SchCheck cfg now beforeSt c of None \<Rightarrow> None
     | Some (res, c1) \<Rightarrow>
         if ResSchSt res = StOutSch then Some (NextCheckTime res, c1)
         else if NextCheckTime res = 0 \<or> NextCheckTime res = TsNull then Some (NextCheckTime res, c1)
         else let now' = NextCheckTime res + 1
           in case SchCheck cfg now' beforeSt c1 of None \<Rightarrow> None
              | Some (res', c2) \<Rightarrow> Some (if ResSchSt res' = StInSch then now' else NextCheckTime res', c2))"

subsection \<open>\<open>SchTask\<close>\<close>

text \<open>
  \<open>TimerAt\<close> is the time the timer is set to, \<open>StateEvents\<close> the calls of \<open>OnSchTask_StateChanged\<close>,
  \<open>NextChecks\<close> those of \<open>OnSchTask_NextCheckTime\<close>.
  \<open>DisposeAndWait\<close> marks the timer only when it is set, as \<open>Timer\<close> has it. Waiting for a running event has no counterpart.
\<close>

record sch_task =
  SchCfg :: sch_config
  SchSt :: sch_st
  TimerAt :: "int option"
  TimerDisposed :: bool
  StateEvents :: "bool list"
  NextChecks :: "int list"

definition new_sch_task :: "sch_config \<Rightarrow> sch_task" where
  "new_sch_task cfg = \<lparr> SchCfg = cfg, SchSt = StUnknown, TimerAt = None, TimerDisposed = False, StateEvents = [], NextChecks = [] \<rparr>"

definition RunAt :: "int \<Rightarrow> sch_task \<Rightarrow> sch_task" where
  "RunAt t s = (if TimerDisposed s then s else s\<lparr> TimerAt := Some t \<rparr>)"

text \<open>The timer is taken out of the line before the event is told.\<close>

definition SchOnTimer :: "int \<Rightarrow> time_cache \<Rightarrow> sch_task \<Rightarrow> (sch_task \<times> time_cache) option" where
  "SchOnTimer now c s0 =
     (let s = s0\<lparr> TimerAt := None \<rparr>; bfSt = SchSt s
      in if bfSt = StStopping \<or> bfSt = StDisposing then Some (s, c)
         else case SchCheck (SchCfg s) now bfSt c of None \<Rightarrow> None
          | Some (res, c1) \<Rightarrow>
              let s1 = (if NextCheckTime res \<noteq> 0 then RunAt (NextCheckTime res) s else s);
                  s2 = (if IsChanged res \<or> bfSt = StRestart
                        then s1\<lparr> SchSt := ResSchSt res, StateEvents := StateEvents s1 @ [ResSchSt res = StInSch] \<rparr> else s1)
              in Some (s2\<lparr> NextChecks := NextChecks s2 @ [NextCheckTime res] \<rparr>, c1))"

definition SetSchState :: "sch_st \<Rightarrow> sch_task \<Rightarrow> bool \<times> sch_task" where
  "SetSchState st s = (if SchSt s = StDisposing then (False, s) else (True, s\<lparr> SchSt := st \<rparr>))"

definition SchRestart :: "int \<Rightarrow> int \<Rightarrow> sch_task \<Rightarrow> bool \<times> sch_task" where
  "SchRestart now ti s =
     (if SchSt s = StStopping \<or> SchSt s = StDisposing then (False, s)
      else (True, RunAt (now + ti) (s\<lparr> SchSt := StRestart \<rparr>)))"

definition SchStart :: "int \<Rightarrow> sch_config \<Rightarrow> time_cache \<Rightarrow> sch_task \<Rightarrow> (sch_st \<times> sch_task \<times> time_cache) option" where
  "SchStart now cfg c s0 =
     (let retval = SchSt s0; s = s0\<lparr> SchCfg := cfg \<rparr>
      in if retval = StStopping \<or> retval = StDisposing \<or> retval = StRestart then Some (retval, s, c)
         else let s1 = (if retval = StUnknown then s\<lparr> SchSt := StStopped \<rparr> else s)
           in case SchCheck cfg now retval c of None \<Rightarrow> None
            | Some (res, c1) \<Rightarrow>
                if IsChanged res
                then Some (if retval = StUnknown then StStopped else retval, RunAt (now + TsDivisor) s1, c1)
                else if NextCheckTime res = 0 then Some (retval, s1\<lparr> TimerAt := None \<rparr>, c1)
                else Some (retval, (RunAt (NextCheckTime res) s1)\<lparr> NextChecks := NextChecks s1 @ [NextCheckTime res] \<rparr>, c1))"

definition SchStopAndWait :: "sch_task \<Rightarrow> sch_task" where
  "SchStopAndWait s = (case SetSchState StStopping s of (False, s1) \<Rightarrow> s1
     | (True, s1) \<Rightarrow> snd (SetSchState StStopped (s1\<lparr> TimerAt := None \<rparr>)))"

definition SchDisposeAndWait :: "sch_task \<Rightarrow> sch_task" where
  "SchDisposeAndWait s = (let s1 = snd (SetSchState StDisposing s)
     in s1\<lparr> TimerAt := None, TimerDisposed := TimerDisposed s1 \<or> TimerAt s1 \<noteq> None \<rparr>)"

end
