(* ===== verification/ScheduleSpec.thy ===== *)
theory ScheduleSpec
  imports Schedule
begin

text \<open>
  What a weekly schedule promises: every day whose weekday is set opens one span, from \<open>StartTime\<close> to
  \<open>EndTime\<close> of the same day or, when the end does not come after the start, of the next day. Without an
  end the span lasts to the end of the day, and who was in schedule stays in. \<open>SchCheck\<close> decides this and
  finds the next change. The times are times of a day, up to 86399 as \<open>DayTimeSec\<close> has it.
  There is one second the code cuts off: \<open>cut_sec\<close>.
\<close>

definition day_on :: "sch_config \<Rightarrow> int \<Rightarrow> bool" where
  "day_on cfg d \<longleftrightarrow> Weekdays cfg ! nat ((d + 4) mod 7)"

text \<open>The last second of a span, counted from the midnight before its start.\<close>

definition span_end :: "sch_config \<Rightarrow> int" where
  "span_end cfg = (if EndTime cfg = kNoEndTime then 86399
     else (if StartTime cfg < EndTime cfg then 0 else 86400) + int (EndTime cfg))"

definition in_span :: "sch_config \<Rightarrow> int \<Rightarrow> int \<Rightarrow> bool" where
  "in_span cfg d l \<longleftrightarrow> d * 86400 + int (StartTime cfg) \<le> l \<and> l \<le> d * 86400 + span_end cfg"

definition scheduled_sec :: "sch_config \<Rightarrow> int \<Rightarrow> bool" where
  "scheduled_sec cfg l \<longleftrightarrow> (\<exists>d. day_on cfg d \<and> in_span cfg d l)"

definition in_sch_sec :: "sch_config \<Rightarrow> bool \<Rightarrow> int \<Rightarrow> bool" where
  "in_sch_sec cfg was l \<longleftrightarrow> was \<and> EndTime cfg = kNoEndTime \<or> scheduled_sec cfg l"

text \<open>
  When the end is the start, the comment of the class counts the second of the end to the span; the code
  looks in it at the new day only. \<open>cut_sec\<close>: that second, when no span begins with it.
\<close>

definition cut_sec :: "sch_config \<Rightarrow> int \<Rightarrow> bool" where
  "cut_sec cfg l \<longleftrightarrow> StartTime cfg = EndTime cfg \<and> l mod 86400 = int (StartTime cfg) \<and>
     \<not> day_on cfg (l div 86400) \<and> day_on cfg (l div 86400 - 1)"

definition local_sec :: "sch_config \<Rightarrow> int \<Rightarrow> int" where
  "local_sec cfg t = (t + tz_interval cfg) div TsDivisor"

text \<open>The same for points of time; \<open>was\<close>: the state before was in schedule.\<close>

definition in_schedule :: "sch_config \<Rightarrow> bool \<Rightarrow> int \<Rightarrow> bool" where
  "in_schedule cfg was t \<longleftrightarrow> in_sch_sec cfg was (local_sec cfg t)"

definition cut_second :: "sch_config \<Rightarrow> int \<Rightarrow> bool" where
  "cut_second cfg t \<longleftrightarrow> cut_sec cfg (local_sec cfg t)"

definition valid_cfg :: "sch_config \<Rightarrow> bool" where
  "valid_cfg cfg \<longleftrightarrow> length (Weekdays cfg) = 7 \<and> StartTime cfg < 86400 \<and> (EndTime cfg < 86400 \<or> EndTime cfg = kNoEndTime)"

subsection \<open>Which spans reach a second\<close>

lemma scheduled_same_day:
  assumes "valid_cfg cfg" "StartTime cfg < EndTime cfg" "0 \<le> s" "s < 86400"
  shows "scheduled_sec cfg (D * 86400 + s) \<longleftrightarrow> day_on cfg D \<and> int (StartTime cfg) \<le> s \<and> s \<le> int (EndTime cfg)"
proof -
  have "d = D" if "in_span cfg d (D * 86400 + s)" for d
    using that assms by (auto simp: in_span_def span_end_def valid_cfg_def split: if_splits)
  moreover have "in_span cfg D (D * 86400 + s) \<longleftrightarrow> int (StartTime cfg) \<le> s \<and> s \<le> int (EndTime cfg)"
    using assms by (auto simp: in_span_def span_end_def kNoEndTime_def)
  ultimately show ?thesis unfolding scheduled_sec_def by blast
qed

lemma scheduled_next_day:
  assumes "valid_cfg cfg" "\<not> StartTime cfg < EndTime cfg" "0 \<le> s" "s < 86400"
  shows "scheduled_sec cfg (D * 86400 + s) \<longleftrightarrow>
    day_on cfg D \<and> int (StartTime cfg) \<le> s \<or> day_on cfg (D - 1) \<and> s \<le> int (EndTime cfg)"
proof -
  have e: "span_end cfg = 86400 + int (EndTime cfg)" "EndTime cfg < 86400"
    using assms(1,2) by (auto simp: span_end_def valid_cfg_def kNoEndTime_def)
  have "d = D \<or> d = D - 1" if "in_span cfg d (D * 86400 + s)" for d
    using that assms e by (simp add: in_span_def) arith
  moreover have "in_span cfg D (D * 86400 + s) \<longleftrightarrow> int (StartTime cfg) \<le> s"
    using assms e by (simp add: in_span_def)
  moreover have "in_span cfg (D - 1) (D * 86400 + s) \<longleftrightarrow> s \<le> int (EndTime cfg)"
    using assms e by (simp add: in_span_def valid_cfg_def)
  ultimately show ?thesis unfolding scheduled_sec_def by blast
qed

text \<open>Between the last span and the opening of the next day there is no schedule.\<close>

lemma start_in_span: "valid_cfg cfg \<Longrightarrow> in_span cfg d (d * 86400 + int (StartTime cfg))"
  by (auto simp: in_span_def span_end_def valid_cfg_def)

lemma gap_before_opening:
  assumes "valid_cfg cfg" "day_on cfg D'" "\<And>d. D0 \<le> d \<Longrightarrow> d < D' \<Longrightarrow> \<not> day_on cfg d"
    and "\<And>d. d < D0 \<Longrightarrow> day_on cfg d \<Longrightarrow> d * 86400 + span_end cfg < l"
  shows "scheduled_sec cfg (D' * 86400 + int (StartTime cfg))"
    and "l \<le> l' \<Longrightarrow> l' < D' * 86400 + int (StartTime cfg) \<Longrightarrow> \<not> scheduled_sec cfg l'"
proof -
  show "scheduled_sec cfg (D' * 86400 + int (StartTime cfg))"
    using assms(2) start_in_span [OF assms(1)] by (auto simp: scheduled_sec_def)
next
  assume l: "l \<le> l'" "l' < D' * 86400 + int (StartTime cfg)"
  show "\<not> scheduled_sec cfg l'" unfolding scheduled_sec_def
  proof clarify
    fix d assume d: "day_on cfg d" "in_span cfg d l'"
    have "D0 \<le> d" using assms(4) [of d] d l by (force simp: in_span_def)
    moreover have "d < D'" using d l by (simp add: in_span_def)
    ultimately show False using assms(3) d by blast
  qed
qed

subsection \<open>The loop over the days\<close>

lemma seek_day_spec:
  "seek_day f days now w = Some r \<Longrightarrow>
    \<exists>j<f. r = now + int j * OneDay \<and> days ! ((w + j) mod 7) \<and> (\<forall>i<j. \<not> days ! ((w + i) mod 7))"
  if "w < 7"
  using that
proof (induction f arbitrary: now w)
  case (Suc f)
  show ?case
  proof (cases "days ! w")
    case True
    then show ?thesis using Suc.prems by (intro exI [of _ 0]) simp
  next
    case False
    then obtain j where j: "j < f" "r = now + OneDay + int j * OneDay" "days ! (((w + 1) mod 7 + j) mod 7)"
      "\<forall>i<j. \<not> days ! (((w + 1) mod 7 + i) mod 7)"
      using Suc.IH [of "now + OneDay" "(w + 1) mod 7"] Suc.prems by auto
    have shift: "((w + 1) mod 7 + i) mod 7 = (w + Suc i) mod 7" for i by presburger
    show ?thesis
    proof (intro exI [of _ "Suc j"] conjI allI impI)
      fix i assume "i < Suc j"
      then show "\<not> days ! ((w + i) mod 7)" using j(4) False shift Suc.prems(2) by (cases i) auto
    qed (use j shift in \<open>auto simp: distrib_right\<close>)
  qed
qed simp

lemma seek_day_finds: "w < 7 \<Longrightarrow> i < f \<Longrightarrow> days ! ((w + i) mod 7) \<Longrightarrow> seek_day f days now w \<noteq> None"
proof (induction f arbitrary: now w i)
  case (Suc f)
  show ?case
  proof (cases i)
    case 0
    then show ?thesis using Suc.prems by simp
  next
    case (Suc k)
    have "((w + 1) mod 7 + k) mod 7 = (w + i) mod 7" using Suc by presburger
    then show ?thesis using Suc.IH [of "(w + 1) mod 7" k "now + OneDay"] Suc.prems Suc by simp
  qed
qed simp

lemma some_day_within_a_week:
  assumes "length days = 7" "list_ex id days" "w < 7"
  shows "\<exists>i<7. days ! ((w + i) mod 7)"
proof -
  obtain k where k: "k < 7" "days ! k" using assms by (auto simp: list_ex_iff in_set_conv_nth)
  have "(w + (k + 7 - w) mod 7) mod 7 = k" using k(1) assms(3) by (simp add: mod_add_right_eq)
  then show ?thesis using k by (intro exI [of _ "(k + 7 - w) mod 7"]) simp
qed

lemma weekday_shift: "(nat ((D + 4) mod 7) + j) mod 7 = nat ((D + int j + 4) mod 7)"
proof -
  have "int ((nat ((D + 4) mod 7) + j) mod 7) = (D + int j + 4) mod 7"
    by (simp add: zmod_int mod_simps algebra_simps)
  then show ?thesis by (metis nat_int)
qed

lemma check_today_spec:
  assumes "valid_cfg cfg" "\<not> IsAlwaysOutSch cfg"
  shows "\<exists>D'. check_today cfg now (nat ((D + 4) mod 7)) = Some (StOutSch, now + (D' - D) * OneDay, StartTime cfg)
    \<and> D \<le> D' \<and> D' \<le> D + 7 \<and> day_on cfg D' \<and> (\<forall>d. D \<le> d \<and> d < D' \<longrightarrow> \<not> day_on cfg d)"
proof -
  let ?w = "nat ((D + 4) mod 7)"
  have w: "?w < 7" by (simp add: nat_less_iff)
  have "\<exists>i<7. Weekdays cfg ! ((?w + i) mod 7)"
    using some_day_within_a_week [of "Weekdays cfg" ?w] w assms by (simp add: valid_cfg_def IsAlwaysOutSch_def)
  then obtain r where r: "seek_day kWeekdayCount (Weekdays cfg) now ?w = Some r"
    using seek_day_finds [OF w] unfolding kWeekdayCount_def by blast
  then obtain j where j: "r = now + int j * OneDay" "day_on cfg (D + int j)" "\<forall>i<j. \<not> day_on cfg (D + int i)" "j < 7"
    using seek_day_spec [OF w r [unfolded kWeekdayCount_def]] unfolding weekday_shift day_on_def by blast
  have "\<not> day_on cfg d" if "D \<le> d" "d < D + int j" for d
    using j(3) [rule_format, of "nat (d - D)"] that by simp
  then show ?thesis using r j by (intro exI [of _ "D + int j"]) (simp add: check_today_def)
qed

lemma check_tomorrow_spec:
  assumes "valid_cfg cfg" "\<not> IsAlwaysOutSch cfg"
  shows "\<exists>D'. check_tomorrow cfg now (nat ((D + 4) mod 7)) = Some (StOutSch, now + (D' - D) * OneDay, StartTime cfg)
    \<and> D + 1 \<le> D' \<and> D' \<le> D + 8 \<and> day_on cfg D' \<and> (\<forall>d. D + 1 \<le> d \<and> d < D' \<longrightarrow> \<not> day_on cfg d)"
proof -
  have "(nat ((D + 4) mod 7) + 1) mod 7 = nat ((D + 1 + 4) mod 7)" using weekday_shift [of D 1] by simp
  then show ?thesis using check_today_spec [OF assms, of "now + OneDay" "D + 1"]
    by (auto simp: check_tomorrow_def algebra_simps)
qed

subsection \<open>One check\<close>

text \<open>What a check found: the state of now, and the second until which it does not change.\<close>

definition steady :: "sch_config \<Rightarrow> sch_st \<Rightarrow> int \<Rightarrow> bool" where
  "steady cfg st l \<longleftrightarrow> cut_sec cfg l \<or> in_sch_sec cfg (st = StInSch) l = (st = StInSch)"

definition span_facts :: "sch_config \<Rightarrow> bool \<Rightarrow> int \<Rightarrow> int \<Rightarrow> int \<Rightarrow> (sch_st \<times> int \<times> nat) \<Rightarrow> bool" where
  "span_facts cfg was u D l r = (case r of (st, now', next) \<Rightarrow>
     st = (if in_sch_sec cfg was l \<and> \<not> cut_sec cfg l then StInSch else StOutSch) \<and>
     (if next < kNoEndTime
      then \<exists>D'\<ge>D. D' \<le> D + 8 \<and> now' = u + (D' - D) * OneDay \<and> l < D' * 86400 + int next \<and>
        (\<forall>l'. l \<le> l' \<and> l' < D' * 86400 + int next \<longrightarrow> steady cfg st l') \<and>
        (st = StOutSch \<longrightarrow> scheduled_sec cfg (D' * 86400 + int next))
      else \<forall>l'\<ge>l. steady cfg st l'))"

lemma never_scheduled: "valid_cfg cfg \<Longrightarrow> IsAlwaysOutSch cfg \<Longrightarrow> \<not> scheduled_sec cfg l"
  by (auto simp: IsAlwaysOutSch_def scheduled_sec_def day_on_def valid_cfg_def list_ex_length nat_less_iff)

lemma span_facts_never:
  "valid_cfg cfg \<Longrightarrow> IsAlwaysOutSch cfg \<Longrightarrow> \<not> in_sch_sec cfg was l \<Longrightarrow> span_facts cfg was u D l (StOutSch, u, kNoEndTime)"
  by (auto simp: span_facts_def never_scheduled in_sch_sec_def steady_def)

lemma span_facts_opening:
  assumes "valid_cfg cfg" "\<not> in_sch_sec cfg was l \<or> cut_sec cfg l" "D \<le> D'" "D' \<le> D + 8" "day_on cfg D'"
    and "l < D' * 86400 + int (StartTime cfg)" "\<And>d. D0 \<le> d \<Longrightarrow> d < D' \<Longrightarrow> \<not> day_on cfg d"
    and "\<And>d. d < D0 \<Longrightarrow> day_on cfg d \<Longrightarrow> d * 86400 + span_end cfg < (if cut_sec cfg l then l + 1 else l)"
  shows "span_facts cfg was u D l (StOutSch, u + (D' - D) * OneDay, StartTime cfg)"
proof -
  have "StartTime cfg < kNoEndTime" using assms(1) by (simp add: valid_cfg_def kNoEndTime_def)
  moreover have "steady cfg StOutSch l'" if "l \<le> l'" "l' < D' * 86400 + int (StartTime cfg)" for l'
  proof (cases "cut_sec cfg l \<and> l' = l")
    case False
    then have "(if cut_sec cfg l then l + 1 else l) \<le> l'" using that(1) by auto
    from gap_before_opening(2) [OF assms(1,5,7,8) this that(2)] show ?thesis by (simp add: steady_def in_sch_sec_def)
  qed (simp add: steady_def)
  moreover have "scheduled_sec cfg (D' * 86400 + int (StartTime cfg))" by (rule gap_before_opening(1) [OF assms(1,5,7,8)])
  ultimately show ?thesis using assms(2,3,4,6) by (auto simp: span_facts_def)
qed

lemma span_facts_closing:
  assumes "valid_cfg cfg" "day_on cfg d" "in_span cfg d l" "\<not> cut_sec cfg l" "EndTime cfg \<noteq> kNoEndTime"
    and k: "k = (if StartTime cfg < EndTime cfg then 0 else 1)" and D: "D = d \<or> D = d + k"
  shows "span_facts cfg was u D l (StInSch, u + (d + k - D) * OneDay, sch_end cfg)"
proof -
  have e: "sch_end cfg = EndTime cfg + 1" "EndTime cfg + 1 < kNoEndTime" "span_end cfg = k * 86400 + int (EndTime cfg)"
    using assms(1,5) by (auto simp: sch_end_def uadd_def valid_cfg_def kNoEndTime_def span_end_def k)
  have "steady cfg StInSch l'" if "l \<le> l'" "l' < (d + k) * 86400 + int (sch_end cfg)" for l'
  proof -
    have "in_span cfg d l'" using that assms(3) e by (simp add: in_span_def)
    then show ?thesis using assms(2) by (auto simp: steady_def in_sch_sec_def scheduled_sec_def)
  qed
  moreover have "l < (d + k) * 86400 + int (sch_end cfg)" using assms(3) e by (simp add: in_span_def)
  moreover have "in_sch_sec cfg was l" using assms(2,3) by (auto simp: in_sch_sec_def scheduled_sec_def)
  moreover have "D \<le> d + k \<and> d + k \<le> D + 8" using D k by auto
  ultimately show ?thesis using e assms(4) by (auto simp: span_facts_def intro!: exI [of _ "d + k"])
qed

lemma span_facts_open_end:
  assumes "EndTime cfg = kNoEndTime" "StartTime cfg < kNoEndTime" "in_sch_sec cfg was l"
  shows "span_facts cfg was u D l (StInSch, u, sch_end cfg)"
  using assms by (simp add: span_facts_def steady_def in_sch_sec_def cut_sec_def sch_end_def uadd_def kNoEndTime_def)

lemma check_span_same_day:
  assumes cfg: "valid_cfg cfg" "StartTime cfg < EndTime cfg" and s: "s < 86400"
  shows "\<exists>r. check_span cfg u (nat ((D + 4) mod 7)) s st = Some r \<and> span_facts cfg (st = StInSch) u D (D * 86400 + int s) r"
proof -
  let ?w = "nat ((D + 4) mod 7)" and ?l = "D * 86400 + int s" and ?was = "st = StInSch"
  have nocut: "\<not> cut_sec cfg ?l" using cfg(2) by (simp add: cut_sec_def)
  have sch: "scheduled_sec cfg ?l \<longleftrightarrow> Weekdays cfg ! ?w \<and> StartTime cfg \<le> s \<and> s \<le> EndTime cfg"
    using scheduled_same_day [OF cfg, of "int s" D] s by (simp add: day_on_def)
  have in_sch: "in_sch_sec cfg ?was ?l \<longleftrightarrow> EndTime cfg = kNoEndTime \<and> ?was \<or> scheduled_sec cfg ?l"
    by (auto simp: in_sch_sec_def)
  have ended: "d * 86400 + span_end cfg < ?l" if "d < D" for d
    using that cfg by (auto simp: span_end_def valid_cfg_def)
  consider "in_sch_sec cfg ?was ?l" | "\<not> in_sch_sec cfg ?was ?l" "IsAlwaysOutSch cfg"
    | "\<not> in_sch_sec cfg ?was ?l" "\<not> IsAlwaysOutSch cfg" "EndTime cfg < s"
    | "\<not> in_sch_sec cfg ?was ?l" "\<not> IsAlwaysOutSch cfg" "s \<le> EndTime cfg" by linarith
  then show ?thesis
  proof cases
    case 1
    then have r: "check_span cfg u ?w s st = Some (StInSch, u, sch_end cfg)"
      using sch cfg(2) unfolding in_sch check_span_def by auto
    show ?thesis
    proof (cases "EndTime cfg = kNoEndTime")
      case True
      then show ?thesis using r span_facts_open_end [OF True _ 1] cfg(2) by auto
    next
      case False
      then have d: "day_on cfg D" "in_span cfg D ?l" using 1 sch cfg(2) unfolding in_sch
        by (simp_all add: day_on_def in_span_def span_end_def)
      show ?thesis using r span_facts_closing [OF cfg(1) d nocut False refl, of D ?was u] cfg(2) by simp
    qed
  next
    case 2
    then show ?thesis using span_facts_never [OF cfg(1) 2(2,1)] sch cfg(2) unfolding in_sch by (auto simp: check_span_def)
  next
    case 3
    obtain D' where D': "check_tomorrow cfg u ?w = Some (StOutSch, u + (D' - D) * OneDay, StartTime cfg)"
      "D + 1 \<le> D'" "D' \<le> D + 8" "day_on cfg D'" "\<forall>d. D + 1 \<le> d \<and> d < D' \<longrightarrow> \<not> day_on cfg d"
      using check_tomorrow_spec [OF cfg(1) 3(2)] by blast
    have E: "span_end cfg = int (EndTime cfg)" using 3(3) s cfg by (auto simp: span_end_def valid_cfg_def kNoEndTime_def)
    have "span_facts cfg ?was u D ?l (StOutSch, u + (D' - D) * OneDay, StartTime cfg)"
    proof (rule span_facts_opening [of cfg ?was ?l D D' "D + 1" u])
      show "d * 86400 + span_end cfg < (if cut_sec cfg ?l then ?l + 1 else ?l)" if "d < D + 1" for d
        using that ended [of d] 3 nocut by (cases "d = D") (simp_all add: E)
    qed (use cfg(1) 3 D' s in auto)
    then show ?thesis using D' 3 sch cfg unfolding in_sch by (auto simp add: check_span_def)
  next
    case 4
    obtain D' where D': "check_today cfg u ?w = Some (StOutSch, u + (D' - D) * OneDay, StartTime cfg)"
      "D \<le> D'" "D' \<le> D + 7" "day_on cfg D'" "\<forall>d. D \<le> d \<and> d < D' \<longrightarrow> \<not> day_on cfg d"
      using check_today_spec [OF cfg(1) 4(2)] by blast
    have l: "?l < D' * 86400 + int (StartTime cfg)"
      using D' 4 sch s unfolding in_sch by (cases "D' = D") (auto simp: day_on_def)
    have "span_facts cfg ?was u D ?l (StOutSch, u + (D' - D) * OneDay, StartTime cfg)"
      using span_facts_opening [OF cfg(1) disjI1 [OF 4(1)], where D = D and D' = D' and D0 = D] D' ended l nocut by auto
    then show ?thesis using D' 4 sch cfg unfolding in_sch by (auto simp add: check_span_def)
  qed
qed

lemma check_span_next_day:
  assumes cfg: "valid_cfg cfg" "\<not> StartTime cfg < EndTime cfg" and s: "s < 86400"
  shows "\<exists>r. check_span cfg u (nat ((D + 4) mod 7)) s st = Some r \<and> span_facts cfg (st = StInSch) u D (D * 86400 + int s) r"
proof -
  let ?w = "nat ((D + 4) mod 7)" and ?l = "D * 86400 + int s" and ?was = "st = StInSch"
  have E: "EndTime cfg \<noteq> kNoEndTime" "EndTime cfg \<le> StartTime cfg" using cfg by (auto simp: valid_cfg_def kNoEndTime_def)
  then have k: "span_end cfg = 86400 + int (EndTime cfg)" using cfg(2) by (simp add: span_end_def)
  have sch: "in_sch_sec cfg ?was ?l \<longleftrightarrow>
      day_on cfg D \<and> StartTime cfg \<le> s \<or> day_on cfg (D - 1) \<and> s \<le> EndTime cfg"
    using scheduled_next_day [OF cfg, of "int s" D] s E by (simp add: in_sch_sec_def)
  have day: "?l div 86400 = D" "?l mod 86400 = int s" using s by simp_all
  have cut: "cut_sec cfg ?l \<longleftrightarrow> StartTime cfg = EndTime cfg \<and> s = StartTime cfg \<and> \<not> day_on cfg D \<and> day_on cfg (D - 1)"
    unfolding cut_sec_def day by auto
  have before: "Weekdays cfg ! (if ?w \<noteq> 0 then ?w - 1 else 6) = day_on cfg (D - 1)"
  proof -
    have "(D - 1 + 4) mod 7 = (if (D + 4) mod 7 = 0 then 6 else (D + 4) mod 7 - 1)" by presburger
    moreover have "0 \<le> (D + 4) mod 7" by simp
    ultimately have "(if ?w \<noteq> 0 then ?w - 1 else 6) = nat ((D - 1 + 4) mod 7)" by (auto simp: nat_diff_distrib)
    then show ?thesis by (simp only: day_on_def)
  qed
  have today: "Weekdays cfg ! ?w = day_on cfg D" by (simp add: day_on_def)
  have ended: "d * 86400 + span_end cfg < ?l" if "d < D - 1" for d
    using that cfg E by (simp add: k valid_cfg_def)
  have yesterday: "(D - 1) * 86400 + span_end cfg < (if cut_sec cfg ?l then ?l + 1 else ?l)"
    if "\<not> in_sch_sec cfg ?was ?l \<or> cut_sec cfg ?l" "day_on cfg (D - 1)"
    using that sch cut by (auto simp: k)
  let ?out = "\<not> in_sch_sec cfg ?was ?l \<or> cut_sec cfg ?l"
  consider (n1) "StartTime cfg \<le> s" "day_on cfg D" | (n2) "s < StartTime cfg" "s \<le> EndTime cfg" "day_on cfg (D - 1)"
    | (never) "?out" "IsAlwaysOutSch cfg" "\<not> in_sch_sec cfg ?was ?l"
    | (tomorrow) "?out" "\<not> IsAlwaysOutSch cfg" "StartTime cfg \<le> s" "\<not> day_on cfg D"
    | (today) "?out" "\<not> IsAlwaysOutSch cfg" "s < StartTime cfg" "\<not> (s \<le> EndTime cfg \<and> day_on cfg (D - 1))"
  proof -
    have "\<not> in_sch_sec cfg ?was ?l" if "IsAlwaysOutSch cfg" using never_scheduled [OF cfg(1) that] E by (simp add: in_sch_sec_def)
    moreover have "?out" if "\<not> (StartTime cfg \<le> s \<and> day_on cfg D)" "\<not> (s < StartTime cfg \<and> s \<le> EndTime cfg \<and> day_on cfg (D - 1))"
      using that sch cut E(2) by auto
    ultimately show ?thesis using that by (meson not_le)
  qed
  then show ?thesis
  proof cases
    case n1
    then have d: "in_span cfg D ?l" "\<not> cut_sec cfg ?l" using s cut by (simp_all add: in_span_def k)
    show ?thesis using span_facts_closing [OF cfg(1) n1(2) d E(1) refl, of D ?was u] n1 today cfg
      by (simp add: check_span_def)
  next
    case n2
    then have d: "in_span cfg (D - 1) ?l" "\<not> cut_sec cfg ?l" using cfg(1) cut by (simp_all add: in_span_def k valid_cfg_def)
    show ?thesis using span_facts_closing [OF cfg(1) n2(3) d E(1) refl, of D ?was u] n2 before cfg
      by (simp add: check_span_def)
  next
    case never
    then show ?thesis using span_facts_never [OF cfg(1) never(2,3)] sch cfg today before by (auto simp: check_span_def)
  next
    case tomorrow
    obtain D' where D': "check_tomorrow cfg u ?w = Some (StOutSch, u + (D' - D) * OneDay, StartTime cfg)"
      "D + 1 \<le> D'" "D' \<le> D + 8" "day_on cfg D'" "\<forall>d. D + 1 \<le> d \<and> d < D' \<longrightarrow> \<not> day_on cfg d"
      using check_tomorrow_spec [OF cfg(1) tomorrow(2)] by blast
    have "span_facts cfg ?was u D ?l (StOutSch, u + (D' - D) * OneDay, StartTime cfg)"
    proof (rule span_facts_opening [of cfg ?was ?l D D' "D + 1" u])
      show "d * 86400 + span_end cfg < (if cut_sec cfg ?l then ?l + 1 else ?l)" if "d < D + 1" "day_on cfg d" for d
        using that tomorrow ended [of d] yesterday by (cases "d = D"; cases "d = D - 1") auto
    qed (use cfg(1) tomorrow D' s in auto)
    then show ?thesis using D' tomorrow cfg today by (auto simp add: check_span_def)
  next
    case today
    obtain D' where D': "check_today cfg u ?w = Some (StOutSch, u + (D' - D) * OneDay, StartTime cfg)"
      "D \<le> D'" "D' \<le> D + 7" "day_on cfg D'" "\<forall>d. D \<le> d \<and> d < D' \<longrightarrow> \<not> day_on cfg d"
      using check_today_spec [OF cfg(1) today(2)] by blast
    have "span_facts cfg ?was u D ?l (StOutSch, u + (D' - D) * OneDay, StartTime cfg)"
    proof (rule span_facts_opening [of cfg ?was ?l D D' D u])
      show "d * 86400 + span_end cfg < (if cut_sec cfg ?l then ?l + 1 else ?l)" if "d < D" "day_on cfg d" for d
        using that ended [of d] yesterday today by (cases "d = D - 1") auto
    qed (use cfg(1) D' today in auto)
    then show ?thesis using D' today cfg before by (auto simp add: check_span_def)
  qed
qed

lemma check_span_spec:
  "valid_cfg cfg \<Longrightarrow> s < 86400 \<Longrightarrow>
    \<exists>r. check_span cfg u (nat ((D + 4) mod 7)) s st = Some r \<and> span_facts cfg (st = StInSch) u D (D * 86400 + int s) r"
  using check_span_same_day check_span_next_day by blast

lemma SchCheck_local:
  assumes u: "ts_known c u" "u = now + tz_interval cfg" "l = u div TsDivisor" "D = l div 86400"
    and span: "check_span cfg u (nat ((D + 4) mod 7)) (nat (l mod 86400)) st = Some (st', now', nx)"
    and day: "nx < kNoEndTime \<Longrightarrow> 0 \<le> now' \<and> now' < 2 ^ 63"
  shows "\<exists>c'. date_primed c' \<and> SchCheck cfg now st c =
    Some (\<lparr> NextCheckTime = (if nx < kNoEndTime then next_check (now' div OneDay * OneDay + (int nx * TsDivisor - tz_interval cfg)) else 0),
            ResSchSt = st', IsChanged = ((st = StInSch) \<noteq> (st' = StInSch)) \<rparr>, c')"
proof -
  obtain c1 where c1: "date_primed c1" "GetDateTimeInfo u c = (gmtime l, c1)"
    using ts_read [OF u(1)] unfolding u(3) TsDivisor_def by blast
  have "(tm_hour (gmtime l) * 60 + tm_min (gmtime l)) * 60 + tm_sec (gmtime l) = l mod 86400"
    using gmtime_spec(4) [of l] by (simp add: algebra_simps)
  moreover have "\<exists>c2. date_primed c2 \<and> TimeStampResetHHMMSS now' 0 c1 = (now' div OneDay * OneDay, c2)" if "nx < kNoEndTime"
    using TimeStampResetHHMMSS_eq [of c1 now'] ts_known_primed [OF c1(1), of now'] day [OF that] unfolding OneDay_def by metis
  ultimately show ?thesis using c1 span u(2,4)
    by (cases "nx < kNoEndTime") (auto simp: SchCheck_def Let_def gmtime_spec(3) mod_mod_trivial)
qed

lemma second_before: "x div 1000000 < n \<longleftrightarrow> x < n * (1000000 :: int)"
  using div_mult_mod_eq [of x 1000000] pos_mod_bound [of 1000000 x] pos_mod_sign [of 1000000 x] by linarith

text \<open>A time of the schedule that a check can be asked for.\<close>

definition check_time :: "sch_config \<Rightarrow> int \<Rightarrow> bool" where
  "check_time cfg now \<longleftrightarrow> 0 \<le> now \<and> TsDivisor \<le> now + tz_interval cfg \<and> now + tz_interval cfg < 2 ^ 62"

lemma check_time_known: "check_time cfg now \<Longrightarrow> date_ok c \<Longrightarrow> ts_known c (now + tz_interval cfg)"
proof -
  assume now: "check_time cfg now" and c: "date_ok c"
  let ?u = "now + tz_interval cfg"
  have "1 \<le> ?u div 1000000" using now zdiv_mono1 [of 1000000 ?u 1000000] by (simp add: check_time_def TsDivisor_def)
  then have "ToEpochSeconds ?u \<noteq> 0" using now ToEpochSeconds_pos [of ?u] by (simp add: check_time_def TsDivisor_def)
  then show ?thesis using now date_ok_known [OF c] by (simp add: check_time_def ts_known_def TsDivisor_def)
qed

text \<open>What a check promises, by the state before.\<close>

definition check_promise :: "sch_config \<Rightarrow> int \<Rightarrow> bool \<Rightarrow> check_result \<Rightarrow> bool" where
  "check_promise cfg now was res \<longleftrightarrow>
    ResSchSt res = (if in_schedule cfg was now \<and> \<not> cut_second cfg now then StInSch else StOutSch) \<and>
    IsChanged res = (was \<noteq> (ResSchSt res = StInSch)) \<and>
    (NextCheckTime res = 0 \<or> now < NextCheckTime res) \<and>
    (\<forall>t\<ge>now. NextCheckTime res = 0 \<or> t < NextCheckTime res \<longrightarrow>
       cut_second cfg t \<or> in_schedule cfg (ResSchSt res = StInSch) t = (ResSchSt res = StInSch)) \<and>
    (NextCheckTime res \<noteq> 0 \<and> ResSchSt res = StOutSch \<longrightarrow> in_schedule cfg False (NextCheckTime res))"

lemma check_followed:
  assumes cfg: "valid_cfg cfg" and now: "check_time cfg now" and c: "date_ok c"
  shows "\<exists>res c'. SchCheck cfg now st c = Some (res, c') \<and> date_primed c' \<and> check_promise cfg now (st = StInSch) res"
proof -
  define u where "u = now + tz_interval cfg"
  define l where "l = u div TsDivisor"
  define D where "D = l div 86400"
  note defs = u_def l_def D_def
  have u: "ts_known c u" "0 \<le> u" "u < 2 ^ 62" using check_time_known [OF now c] now by (simp_all add: u_def check_time_def TsDivisor_def)
  have l: "D * 86400 + int (nat (l mod 86400)) = l" "nat (l mod 86400) < 86400" using defs by auto
  obtain st' now' nx where r: "check_span cfg u (nat ((D + 4) mod 7)) (nat (l mod 86400)) st = Some (st', now', nx)"
    and facts: "span_facts cfg (st = StInSch) u D l (st', now', nx)"
    using check_span_spec [OF cfg l(2), of u D st] l(1) by auto
  have sec: "local_sec cfg now = l" by (simp add: local_sec_def defs)
  have mono: "l \<le> local_sec cfg t" if "now \<le> t" for t
    using that by (simp add: local_sec_def defs zdiv_mono1 TsDivisor_def)
  have st': "st' = (if in_schedule cfg (st = StInSch) now \<and> \<not> cut_second cfg now then StInSch else StOutSch)"
    using facts by (simp add: span_facts_def in_schedule_def cut_second_def sec)
  show ?thesis
  proof (cases "nx < kNoEndTime")
    case False
    then obtain c' where c': "date_primed c'" "SchCheck cfg now st c =
        Some (\<lparr> NextCheckTime = 0, ResSchSt = st', IsChanged = ((st = StInSch) \<noteq> (st' = StInSch)) \<rparr>, c')"
      using SchCheck_local [OF u(1) defs r] by auto
    have "\<forall>l'\<ge>l. steady cfg st' l'" using facts unfolding span_facts_def prod.case if_not_P [OF False] by blast
    then have "cut_second cfg t \<or> in_schedule cfg (st' = StInSch) t = (st' = StInSch)" if "now \<le> t" for t
      using mono [OF that] unfolding steady_def cut_second_def in_schedule_def by blast
    then show ?thesis using c' st' by (intro exI conjI) (assumption | simp add: check_promise_def)+
  next
    case True
    then obtain D' where D': "D \<le> D'" "D' \<le> D + 8" "now' = u + (D' - D) * OneDay" "l < D' * 86400 + int nx"
      "\<forall>l'. l \<le> l' \<and> l' < D' * 86400 + int nx \<longrightarrow> steady cfg st' l'"
      "st' = StOutSch \<longrightarrow> scheduled_sec cfg (D' * 86400 + int nx)"
      using facts unfolding span_facts_def prod.case if_P [OF True] by blast
    define n where "n = D' * 86400 + int nx"
    define at where "at = n * TsDivisor - tz_interval cfg"
    have "u div 86400000000 = D" using zdiv_zmult2_eq [of 86400 u 1000000] by (simp add: defs TsDivisor_def)
    then have "now' div OneDay = D'" unfolding D'(3) OneDay_def by (simp add: div_mult_self2)
    then have at: "now' div OneDay * OneDay + (int nx * TsDivisor - tz_interval cfg) = at"
      by (simp add: n_def at_def OneDay_def TsDivisor_def algebra_simps)
    have before: "t < at \<longleftrightarrow> local_sec cfg t < n" for t
      using second_before [of "t + tz_interval cfg" n] by (simp add: at_def TsDivisor_def local_sec_def) arith
    have later: "now < at" using before [of now] D'(4) by (simp add: n_def sec)
    then have real: "next_check at = at" "at \<noteq> 0" using now by (simp_all add: TsNull_def next_check_def check_time_def)
    have opens: "local_sec cfg at = n" by (simp add: local_sec_def at_def TsDivisor_def)
    have const: "cut_second cfg t \<or> in_schedule cfg (st' = StInSch) t = (st' = StInSch)" if "now \<le> t" "t < at" for t
      using D'(5) mono [OF that(1)] before [of t] that(2) unfolding n_def cut_second_def in_schedule_def steady_def by blast
    have range: "0 \<le> now' \<and> now' < 2 ^ 63"
      using u(2,3) D'(1,2,3) mult_mono [of "D' - D" 8 OneDay OneDay] by (simp add: OneDay_def)
    obtain c' where c': "date_primed c'" "SchCheck cfg now st c =
        Some (\<lparr> NextCheckTime = at, ResSchSt = st', IsChanged = ((st = StInSch) \<noteq> (st' = StInSch)) \<rparr>, c')"
      using SchCheck_local [OF u(1) defs r range] True by (auto simp: at real)
    have "check_promise cfg now (st = StInSch) \<lparr> NextCheckTime = at, ResSchSt = st', IsChanged = ((st = StInSch) \<noteq> (st' = StInSch)) \<rparr>"
      using const later real(2) D'(6) opens st' by (simp add: check_promise_def in_schedule_def in_sch_sec_def n_def)
    then show ?thesis using c' by blast
  qed
qed

text \<open>
  C22: The configuration is followed, be it with an end on the same day, on the next day or without one: for
  every time the check tells whether a span of the schedule contains it, or the schedule has no end and
  was in schedule before, and, if the answer may change at all, gives a later time before which it
  does not; out of schedule that time is the start of the next span. The search over the days
  always ends. The cache of the thread may have read any second before, or none: the times are from the
  second local second of the epoch on, into the year 148000. The one second \<open>cut_second\<close>, the
  end of a span that ends when it starts, is left out: \<open>last_second_is_cut\<close>.
\<close>

theorem schedule_is_followed:
  assumes "valid_cfg cfg" "check_time cfg now" "date_ok c"
  shows "\<exists>res c'. SchCheck cfg now st c = Some (res, c') \<and> date_primed c' \<and>
    ResSchSt res = (if in_schedule cfg (st = StInSch) now \<and> \<not> cut_second cfg now then StInSch else StOutSch) \<and>
    IsChanged res = ((st = StInSch) \<noteq> (ResSchSt res = StInSch)) \<and>
    (NextCheckTime res = 0 \<or> now < NextCheckTime res) \<and>
    (\<forall>t\<ge>now. NextCheckTime res = 0 \<or> t < NextCheckTime res \<longrightarrow>
       cut_second cfg t \<or> in_schedule cfg (ResSchSt res = StInSch) t = (ResSchSt res = StInSch)) \<and>
    (NextCheckTime res \<noteq> 0 \<and> ResSchSt res = StOutSch \<longrightarrow> in_schedule cfg False (NextCheckTime res))"
  using check_followed [OF assms, of st] unfolding check_promise_def .

definition office_hours :: sch_config where
  "office_hours = \<lparr> Weekdays = [False, True, True, True, True, True, False], TimeZoneAdj = 480, StartTime = 30600, EndTime = 48600 \<rparr>"

lemma office_hours_valid: "valid_cfg office_hours"
  by (simp add: valid_cfg_def office_hours_def)

lemma seek_day_numeral: "seek_day (numeral k) days now w =
    (if days ! w then Some now else seek_day (pred_numeral k) days (now + OneDay) ((w + 1) mod 7))"
  by (simp add: numeral_eq_Suc)

lemmas check_example = check_span_def check_today_def check_tomorrow_def IsAlwaysOutSch_def tz_interval_def TsDivisor_def
  OneDay_def kWeekdayCount_def kNoEndTime_def sch_end_def uadd_def TsNull_def seek_day_numeral next_check_def

lemma office_hours_check:
  assumes "date_ok c"
  obtains c1 c2 c3 where "date_primed c1" "date_primed c2" "date_primed c3"
    "SchCheck office_hours 1700000000000000 StUnknown c =
      Some (\<lparr> NextCheckTime = 1700008200000000, ResSchSt = StOutSch, IsChanged = False \<rparr>, c1)"
    "SchCheck office_hours 1700008200000000 StStopped c =
      Some (\<lparr> NextCheckTime = 1700026201000000, ResSchSt = StInSch, IsChanged = True \<rparr>, c2)"
    "SchCheck office_hours 1700026201000001 StStopped c =
      Some (\<lparr> NextCheckTime = 1700094600000000, ResSchSt = StOutSch, IsChanged = False \<rparr>, c3)"
proof -
  let ?t = "\<lambda>now. now + 28800000000 :: int"
  have k: "ts_known c (?t now)" if "now = 1700000000000000 \<or> now = 1700008200000000 \<or> now = 1700026201000001" for now
    using that check_time_known [OF _ assms, of office_hours now] by (auto simp: check_time_def office_hours_def tz_interval_def TsDivisor_def)
  note loc = SchCheck_local [OF k _ refl refl, where cfg = office_hours]
  have "\<exists>c1. date_primed c1 \<and> SchCheck office_hours 1700000000000000 StUnknown c =
      Some (\<lparr> NextCheckTime = 1700008200000000, ResSchSt = StOutSch, IsChanged = False \<rparr>, c1)"
    using loc [of 1700000000000000, where now = 1700000000000000 and st = StUnknown and st' = StOutSch and now' = 1700028800000000 and nx = 30600]
    by (simp add: office_hours_def check_example)
  moreover have "\<exists>c2. date_primed c2 \<and> SchCheck office_hours 1700008200000000 StStopped c =
      Some (\<lparr> NextCheckTime = 1700026201000000, ResSchSt = StInSch, IsChanged = True \<rparr>, c2)"
    using loc [of 1700008200000000, where now = 1700008200000000 and st = StStopped and st' = StInSch and now' = 1700037000000000 and nx = 48601]
    by (simp add: office_hours_def check_example)
  moreover have "\<exists>c3. date_primed c3 \<and> SchCheck office_hours 1700026201000001 StStopped c =
      Some (\<lparr> NextCheckTime = 1700094600000000, ResSchSt = StOutSch, IsChanged = False \<rparr>, c3)"
    using loc [of 1700026201000001, where now = 1700026201000001 and st = StStopped and st' = StOutSch and now' = 1700141401000001 and nx = 30600]
    by (simp add: office_hours_def check_example)
  ultimately show ?thesis using that by blast
qed

lemma new_cache_ok: "date_ok new_time_cache"
  by (simp add: date_ok_def date_fresh_new)

lemma schedule_is_followed_witness:
  "\<not> in_schedule office_hours False 1700000000000000 \<and> in_schedule office_hours False 1700008200000000"
proof -
  have "check_time office_hours 1700000000000000"
    by (simp add: check_time_def office_hours_def tz_interval_def TsDivisor_def)
  note f = schedule_is_followed [OF office_hours_valid this new_cache_ok, of StUnknown]
  have "\<not> cut_second office_hours 1700000000000000" by (simp add: cut_second_def cut_sec_def office_hours_def)
  moreover obtain c1 where "SchCheck office_hours 1700000000000000 StUnknown new_time_cache =
      Some (\<lparr> NextCheckTime = 1700008200000000, ResSchSt = StOutSch, IsChanged = False \<rparr>, c1)"
    using office_hours_check [OF new_cache_ok] by metis
  ultimately show ?thesis using f by (auto split: if_splits)
qed

text \<open>
  When the end is the start, the comment of the class still counts the last second of a span, at which the code
  looks at the new day only.
\<close>

definition round_the_clock :: sch_config where
  "round_the_clock = \<lparr> Weekdays = [False, True, False, False, False, False, False], TimeZoneAdj = 0, StartTime = 30600, EndTime = 30600 \<rparr>"

theorem last_second_is_cut:
  "in_schedule round_the_clock True (5 * OneDay + 30600 * TsDivisor) \<and>
   map_option (ResSchSt \<circ> fst) (SchCheck round_the_clock (5 * OneDay + 30600 * TsDivisor) StInSch new_time_cache) = Some StOutSch"
proof -
  have l: "local_sec round_the_clock (5 * OneDay + 30600 * TsDivisor) = 5 * 86400 + 30600"
    by (simp add: local_sec_def tz_interval_def round_the_clock_def TsDivisor_def OneDay_def)
  have d: "day_on round_the_clock 4" "\<not> day_on round_the_clock 5" by (simp_all add: day_on_def round_the_clock_def)
  have "in_span round_the_clock 4 (5 * 86400 + 30600)"
    by (simp add: in_span_def span_end_def round_the_clock_def kNoEndTime_def)
  then have "in_schedule round_the_clock True (5 * OneDay + 30600 * TsDivisor)"
    using d(1) unfolding in_schedule_def in_sch_sec_def scheduled_sec_def l by blast
  moreover have "cut_second round_the_clock (5 * OneDay + 30600 * TsDivisor)"
    using d unfolding cut_second_def cut_sec_def l by (simp add: round_the_clock_def)
  moreover have "valid_cfg round_the_clock" "check_time round_the_clock (5 * OneDay + 30600 * TsDivisor)"
    by (simp_all add: valid_cfg_def check_time_def round_the_clock_def tz_interval_def TsDivisor_def OneDay_def)
  ultimately show ?thesis using check_followed [OF _ _ new_cache_ok, of round_the_clock _ StInSch]
    by (fastforce simp: check_promise_def)
qed

text \<open>
  The comment of \<open>GetNextSchIn\<close> gives \<open>now\<close> itself when the schedule has opened and the caller was not in it yet; the code
  looks for the opening after the end of the open span.
\<close>

theorem next_in_skips_the_open_span:
  "in_schedule office_hours False 1700008200000000 \<and>
   map_option fst (GetNextSchIn office_hours 1700008200000000 StStopped new_time_cache) = Some 1700094600000000"
proof
  obtain c1 c2 c3 where c: "date_primed c2" "SchCheck office_hours 1700008200000000 StStopped new_time_cache =
      Some (\<lparr> NextCheckTime = 1700026201000000, ResSchSt = StInSch, IsChanged = True \<rparr>, c2)"
    using office_hours_check [OF new_cache_ok] by metis
  have "date_ok c2" using c(1) by (simp add: date_ok_def)
  then obtain c4 where "SchCheck office_hours 1700026201000001 StStopped c2 =
      Some (\<lparr> NextCheckTime = 1700094600000000, ResSchSt = StOutSch, IsChanged = False \<rparr>, c4)"
    using office_hours_check by metis
  then show "map_option fst (GetNextSchIn office_hours 1700008200000000 StStopped new_time_cache) = Some 1700094600000000"
    using c(2) by (simp add: GetNextSchIn_def TsNull_def Let_def)
  have "check_time office_hours 1700008200000000" by (simp add: check_time_def office_hours_def tz_interval_def TsDivisor_def)
  then show "in_schedule office_hours False 1700008200000000"
    using check_followed [OF office_hours_valid _ new_cache_ok, of 1700008200000000 StStopped] c(2)
    by (auto simp: check_promise_def split: if_splits)
qed

end
