(* ===== verification/ScheduleTask.thy ===== *)
theory ScheduleTask
  imports ScheduleSpec
begin

text \<open>
  A task over time: the clock advances but not past the timer, the timer thread delivers a timer that
  is due, and clients start, restart, stop and dispose the task. The caches of the dates are those of
  the threads; between two steps of the task they may be used for anything, so each step may find any
  cache that a thread can have. An invariant of all reachable states relates the state of the task with
  the schedule; a second one gives the order of the events.
\<close>

definition kLastTime :: int where
  "kLastTime = 2 ^ 61"

text \<open>A configuration and a time at which it may be started: the local time is past the epoch and stays within 62 bits.\<close>

definition start_ok :: "sch_config \<Rightarrow> int \<Rightarrow> bool" where
  "start_ok cfg now \<longleftrightarrow> valid_cfg cfg \<and> TsDivisor \<le> now + tz_interval cfg \<and> tz_interval cfg < kLastTime"

inductive sch_step :: "bool \<Rightarrow> int \<times> sch_task \<Rightarrow> int \<times> sch_task \<Rightarrow> bool" for rs where
  tick: "now \<le> t \<Longrightarrow> t < kLastTime \<Longrightarrow> (\<forall>a. TimerAt s = Some a \<longrightarrow> t \<le> a) \<Longrightarrow> sch_step rs (now, s) (t, s)"
| timer: "TimerAt s = Some a \<Longrightarrow> a \<le> now \<Longrightarrow> date_ok c \<Longrightarrow> SchOnTimer now c s = Some (s', c') \<Longrightarrow> sch_step rs (now, s) (now, s')"
| start: "start_ok cfg now \<Longrightarrow> date_ok c \<Longrightarrow> SchStart now cfg c s = Some (r, s', c') \<Longrightarrow> sch_step rs (now, s) (now, s')"
| restart: "rs \<Longrightarrow> 0 \<le> ti \<Longrightarrow> SchRestart now ti s = (r, s') \<Longrightarrow> sch_step rs (now, s) (now, s')"
| stop: "sch_step rs (now, s) (now, SchStopAndWait s)"
| dispose: "sch_step rs (now, s) (now, SchDisposeAndWait s)"

inductive sch_reach :: "bool \<Rightarrow> int \<times> sch_task \<Rightarrow> bool" for rs where
  new_task: "start_ok cfg now \<Longrightarrow> 0 \<le> now \<Longrightarrow> now < kLastTime \<Longrightarrow> sch_reach rs (now, new_sch_task cfg)"
| next_step: "sch_reach rs x \<Longrightarrow> sch_step rs x y \<Longrightarrow> sch_reach rs y"

text \<open>The state is the one of the schedule; in the second that is cut off it may be either.\<close>

definition right_state :: "sch_config \<Rightarrow> bool \<Rightarrow> int \<Rightarrow> bool" where
  "right_state cfg isin t \<longleftrightarrow> cut_second cfg t \<or> in_schedule cfg isin t = isin"

definition right_until_timer :: "int \<Rightarrow> sch_task \<Rightarrow> bool" where
  "right_until_timer now s \<longleftrightarrow>
     (\<forall>t\<ge>now. (\<forall>a. TimerAt s = Some a \<longrightarrow> t < a) \<longrightarrow> right_state (SchCfg s) (SchSt s = StInSch) t)"

definition timer_soon :: "int \<Rightarrow> sch_task \<Rightarrow> bool" where
  "timer_soon now s \<longleftrightarrow> (\<exists>a. TimerAt s = Some a \<and> a \<le> now + TsDivisor)"

definition sch_running :: "sch_task \<Rightarrow> bool" where
  "sch_running s \<longleftrightarrow> SchSt s = StInSch \<or> SchSt s = StOutSch \<or> SchSt s = StStopped \<and> TimerAt s \<noteq> None"

definition sch_inv :: "int \<times> sch_task \<Rightarrow> bool" where
  "sch_inv x = (case x of (now, s) \<Rightarrow>
     0 \<le> now \<and> now < kLastTime \<and> start_ok (SchCfg s) now \<and>
     SchSt s \<noteq> StStopping \<and> (SchSt s = StUnknown \<longrightarrow> TimerAt s = None) \<and>
     (SchSt s = StDisposing \<longrightarrow> TimerAt s = None) \<and> (TimerDisposed s \<longrightarrow> SchSt s = StDisposing) \<and>
     (\<forall>a. TimerAt s = Some a \<longrightarrow> now \<le> a) \<and>
     (sch_running s \<longrightarrow> timer_soon now s \<or> right_until_timer now s))"

definition settled :: "sch_config \<Rightarrow> bool \<Rightarrow> int \<Rightarrow> int \<Rightarrow> bool" where
  "settled cfg isin now n \<longleftrightarrow> (\<forall>t\<ge>now. n = 0 \<or> t < n \<longrightarrow> right_state cfg isin t)"

lemma settledD: "settled cfg isin now n \<Longrightarrow> now \<le> t \<Longrightarrow> n = 0 \<or> t < n \<Longrightarrow> right_state cfg isin t"
  unfolding settled_def by blast

lemma start_ok_later: "start_ok cfg now \<Longrightarrow> now \<le> t \<Longrightarrow> start_ok cfg t"
  by (simp add: start_ok_def)

text \<open>What a check tells a task: either the state is right, until the next check, or it changes.\<close>

lemma check_cases:
  assumes "0 \<le> now" "now < kLastTime" "start_ok cfg now" "date_ok c"
  obtains isin n c' where "SchCheck cfg now st c = Some (\<lparr> NextCheckTime = n, ResSchSt = (if isin then StInSch else StOutSch),
      IsChanged = ((st = StInSch) \<noteq> isin) \<rparr>, c')"
    "n = 0 \<or> now < n" "settled cfg isin now n"
proof -
  have "check_time cfg now" using assms by (simp add: check_time_def start_ok_def kLastTime_def)
  then obtain res c' where c': "SchCheck cfg now st c = Some (res, c')" and p: "check_promise cfg now (st = StInSch) res"
    using check_followed assms by (metis start_ok_def)
  define isin where "isin = (ResSchSt res = StInSch)"
  have "res = \<lparr> NextCheckTime = NextCheckTime res, ResSchSt = (if isin then StInSch else StOutSch), IsChanged = ((st = StInSch) \<noteq> isin) \<rparr>"
    using p unfolding check_promise_def isin_def by (cases res) (simp split: if_splits)
  moreover have "NextCheckTime res = 0 \<or> now < NextCheckTime res" "settled cfg isin now (NextCheckTime res)"
    using p unfolding check_promise_def settled_def right_state_def isin_def by blast+
  ultimately show ?thesis using c' that by metis
qed

lemma SchOnTimer_inv:
  assumes "sch_inv (now, s)" "TimerAt s = Some a" "date_ok c" "SchOnTimer now c s = Some (s', c')"
  shows "sch_inv (now, s') \<and> right_until_timer now s'"
proof -
  note inv = assms(1) [unfolded sch_inv_def prod.case]
  obtain isin n c1 where n: "SchCheck (SchCfg s) now (SchSt s) c = Some (\<lparr> NextCheckTime = n,
      ResSchSt = (if isin then StInSch else StOutSch), IsChanged = ((SchSt s = StInSch) \<noteq> isin) \<rparr>, c1)"
    "n = 0 \<or> now < n" "settled (SchCfg s) isin now n"
    using check_cases inv assms(3) by metis
  have st: "SchSt s \<noteq> StDisposing" "SchSt s \<noteq> StStopping" "SchSt s \<noteq> StUnknown" "\<not> TimerDisposed s"
    using inv assms(2) by auto
  have cfg: "SchCfg s' = SchCfg s" "TimerDisposed s' = TimerDisposed s"
    and at: "TimerAt s' = (if n = 0 then None else Some n)"
    and new: "(SchSt s' = StInSch) = isin" "SchSt s' \<in> {StInSch, StOutSch, SchSt s}"
    using assms(4) n(1) st by (auto simp: SchOnTimer_def RunAt_def Let_def split: if_splits)
  have "right_state (SchCfg s) (SchSt s' = StInSch) t" if "now \<le> t" "\<forall>a. TimerAt s' = Some a \<longrightarrow> t < a" for t
    using settledD [OF n(3) that(1)] that(2) new(1) at by (cases "n = 0") simp_all
  then have r: "right_until_timer now s'" unfolding right_until_timer_def cfg by blast
  then show ?thesis using inv n(2) new st by (auto simp: sch_inv_def cfg at)
qed

lemma SchStart_inv:
  assumes "sch_inv (now, s)" "start_ok cfg now" "date_ok c" "SchStart now cfg c s = Some (r, s', c')"
  shows "sch_inv (now, s')"
proof -
  note inv = assms(1) [unfolded sch_inv_def prod.case]
  obtain isin n c1 where n: "SchCheck cfg now (SchSt s) c = Some (\<lparr> NextCheckTime = n,
      ResSchSt = (if isin then StInSch else StOutSch), IsChanged = ((SchSt s = StInSch) \<noteq> isin) \<rparr>, c1)"
    "n = 0 \<or> now < n" "settled cfg isin now n"
    using check_cases assms(2,3) inv by metis
  show ?thesis
  proof (cases "SchSt s \<in> {StDisposing, StRestart}")
    case True
    then have "s' = s\<lparr> SchCfg := cfg \<rparr>" using assms(4) by (auto simp: SchStart_def)
    then show ?thesis using inv assms(2) True by (auto simp: sch_inv_def sch_running_def)
  next
    case False
    define st' where "st' = (if SchSt s = StUnknown then StStopped else SchSt s)"
    have live: "\<not> TimerDisposed s" "SchSt s \<noteq> StStopping" using inv False by auto
    have eq: "SchCfg s' = cfg" "SchSt s' = st'" "\<not> TimerDisposed s'"
      "TimerAt s' = (if (SchSt s = StInSch) \<noteq> isin then Some (now + TsDivisor) else if n = 0 then None else Some n)"
      using assms(4) False n(1) live by (auto simp: SchStart_def RunAt_def Let_def st'_def split: if_splits)
    have "timer_soon now s' \<or> right_until_timer now s'"
    proof (cases "(SchSt s = StInSch) = isin")
      case True
      then have "right_state cfg (SchSt s' = StInSch) t" if "now \<le> t" "\<forall>a. TimerAt s' = Some a \<longrightarrow> t < a" for t
        using settledD [OF n(3) that(1)] that(2) by (cases "n = 0") (auto simp: eq st'_def)
      then show ?thesis unfolding right_until_timer_def eq(1) by blast
    qed (simp add: timer_soon_def eq)
    then show ?thesis using inv n(2) live False assms(2) by (auto simp: sch_inv_def eq st'_def TsDivisor_def)
  qed
qed

lemma sch_inv_step: "sch_step rs x y \<Longrightarrow> sch_inv x \<Longrightarrow> sch_inv y"
proof (induction rule: sch_step.induct)
  case (tick now t s)
  have "timer_soon t s" if "timer_soon now s" using that tick(1) by (auto simp: timer_soon_def)
  moreover have "right_until_timer t s" if "right_until_timer now s"
    using that tick(1) unfolding right_until_timer_def by (meson order_trans)
  ultimately show ?case using tick start_ok_later by (auto simp: sch_inv_def)
next
  case (timer s a now c s' c')
  then show ?case using SchOnTimer_inv by blast
next
  case (start cfg now c s r s' c')
  then show ?case using SchStart_inv by blast
next
  case (restart ti now s r s')
  then show ?case by (auto simp: SchRestart_def RunAt_def sch_inv_def sch_running_def split: if_splits)
next
  case (stop now s)
  then show ?case by (auto simp: SchStopAndWait_def SetSchState_def sch_inv_def sch_running_def)
next
  case (dispose now s)
  then show ?case by (auto simp: SchDisposeAndWait_def SetSchState_def sch_inv_def sch_running_def)
qed

lemma sch_inv_reach: "sch_reach rs x \<Longrightarrow> sch_inv x"
proof (induction rule: sch_reach.induct)
  case (new_task cfg now)
  then show ?case by (simp add: sch_inv_def sch_running_def new_sch_task_def)
qed (rule sch_inv_step)

text \<open>
  C21: A running task never lies for long: at every moment it is in its \<open>InSch\<close> state exactly when the
  time is in schedule (when the schedule has no end: it is in \<open>InSch\<close> whenever the time is in
  schedule), or its timer is set to a moment at most one second ahead, or it is the one second that
  \<open>last_second_is_cut\<close> shows. The timer thread is not late here: the clock does not pass the timer.
\<close>

theorem task_state_is_current:
  assumes "sch_reach True (now, s)" "sch_running s"
  shows "(SchSt s = StInSch) = in_schedule (SchCfg s) (SchSt s = StInSch) now \<or> cut_second (SchCfg s) now \<or>
    (\<exists>a. TimerAt s = Some a \<and> now \<le> a \<and> a \<le> now + TsDivisor)"
proof -
  have inv: "sch_inv (now, s)" using sch_inv_reach [OF assms(1)] .
  show ?thesis
  proof (cases "timer_soon now s")
    case False
    then have "right_until_timer now s" using inv assms(2) by (simp add: sch_inv_def)
    then have "(\<forall>a. TimerAt s = Some a \<longrightarrow> now < a) \<longrightarrow> right_state (SchCfg s) (SchSt s = StInSch) now"
      unfolding right_until_timer_def by blast
    then show ?thesis using False inv unfolding right_state_def
      by (cases "TimerAt s") (auto simp: timer_soon_def TsDivisor_def)
  qed (use inv in \<open>auto simp: timer_soon_def sch_inv_def\<close>)
qed

subsection \<open>The order of the events\<close>

definition out_after_in :: "bool list \<Rightarrow> bool" where
  "out_after_in es \<longleftrightarrow> (\<forall>i<length es. \<not> es ! i \<longrightarrow> 0 < i \<and> es ! (i - 1))"

definition events_inv :: "sch_task \<Rightarrow> bool" where
  "events_inv s \<longleftrightarrow> SchSt s \<noteq> StRestart \<and> (SchSt s = StInSch \<longrightarrow> StateEvents s \<noteq> [] \<and> last (StateEvents s)) \<and>
     out_after_in (StateEvents s)"

lemma out_after_in_append: "out_after_in es \<Longrightarrow> b \<or> es \<noteq> [] \<and> last es \<Longrightarrow> out_after_in (es @ [b])"
  by (auto simp: out_after_in_def nth_append last_conv_nth less_Suc_eq)

lemma SchOnTimer_events: "SchOnTimer now c s = Some (s', c') \<Longrightarrow> date_ok c \<Longrightarrow> sch_inv (now, s) \<Longrightarrow> events_inv s \<Longrightarrow> events_inv s'"
proof -
  assume fire: "SchOnTimer now c s = Some (s', c')" and c: "date_ok c" and inv: "sch_inv (now, s)" and ev: "events_inv s"
  note inv = inv [unfolded sch_inv_def prod.case]
  obtain isin n c1 where n: "SchCheck (SchCfg s) now (SchSt s) c = Some (\<lparr> NextCheckTime = n,
      ResSchSt = (if isin then StInSch else StOutSch), IsChanged = ((SchSt s = StInSch) \<noteq> isin) \<rparr>, c1)"
    using check_cases inv c by metis
  show ?thesis using fire n ev
    by (auto simp: SchOnTimer_def RunAt_def Let_def events_inv_def intro!: out_after_in_append split: if_splits)
qed

lemma events_inv_step: "sch_step False x y \<Longrightarrow> sch_inv x \<Longrightarrow> events_inv (snd x) \<Longrightarrow> events_inv (snd y)"
proof (induction rule: sch_step.induct)
  case (timer s a now c s' c')
  then show ?case using SchOnTimer_events by simp
next
  case (start cfg now c s r s' c')
  then show ?case
    by (auto simp: SchStart_def RunAt_def Let_def events_inv_def split: option.splits if_splits)
qed (auto simp: events_inv_def SchStopAndWait_def SchDisposeAndWait_def SetSchState_def split: if_splits)

text \<open>
  As long as nobody restarts the task, every end of schedule it tells comes right after the begin of one: the
  first event after the creation or after a stop is a begin, and no end is told twice.
\<close>

theorem end_follows_begin:
  assumes "sch_reach False x"
  shows "out_after_in (StateEvents (snd x))"
proof -
  have "sch_inv x \<and> events_inv (snd x)" using assms
  proof (induction rule: sch_reach.induct)
    case (next_step x y)
    then show ?case using sch_inv_step events_inv_step by blast
  qed (auto simp: events_inv_def out_after_in_def new_sch_task_def sch_inv_def sch_running_def)
  then show ?thesis by (simp add: events_inv_def)
qed

subsection \<open>A run\<close>

definition told_task :: sch_task where
  "told_task = \<lparr> SchCfg = office_hours, SchSt = StInSch, TimerAt = Some 1700026201000000, TimerDisposed = False,
     StateEvents = [True], NextChecks = [1700008200000000, 1700026201000000] \<rparr>"

lemma told_task_reached: "sch_reach rs (1700008200000000, told_task)"
proof -
  let ?now = "1700000000000000" and ?at = "1700008200000000"
  have ok: "start_ok office_hours ?now" using office_hours_valid
    by (simp add: start_ok_def office_hours_def tz_interval_def TsDivisor_def kLastTime_def)
  then have made: "sch_reach rs (?now, new_sch_task office_hours)" by (intro new_task) (simp_all add: kLastTime_def)
  obtain c1 c2 where c1: "SchCheck office_hours ?now StUnknown new_time_cache =
      Some (\<lparr> NextCheckTime = ?at, ResSchSt = StOutSch, IsChanged = False \<rparr>, c1)"
    and c2: "SchCheck office_hours ?at StStopped new_time_cache =
      Some (\<lparr> NextCheckTime = 1700026201000000, ResSchSt = StInSch, IsChanged = True \<rparr>, c2)"
    using office_hours_check [OF new_cache_ok] by metis
  have "SchStart ?now office_hours new_time_cache (new_sch_task office_hours) = Some (StUnknown,
      (new_sch_task office_hours)\<lparr> SchSt := StStopped, TimerAt := Some ?at, NextChecks := [?at] \<rparr>, c1)"
    by (simp add: SchStart_def new_sch_task_def c1 RunAt_def)
  with made have "sch_reach rs (?now, (new_sch_task office_hours)\<lparr> SchSt := StStopped, TimerAt := Some ?at, NextChecks := [?at] \<rparr>)"
    using ok new_cache_ok by (blast intro: next_step start)
  then have "sch_reach rs (?at, (new_sch_task office_hours)\<lparr> SchSt := StStopped, TimerAt := Some ?at, NextChecks := [?at] \<rparr>)"
    by (rule next_step [OF _ tick]) (simp_all add: kLastTime_def)
  moreover have fire: "SchOnTimer ?at new_time_cache
      ((new_sch_task office_hours)\<lparr> SchSt := StStopped, TimerAt := Some ?at, NextChecks := [?at] \<rparr>) = Some (told_task, c2)"
    by (simp add: SchOnTimer_def new_sch_task_def c2 RunAt_def told_task_def)
  have "sch_step rs (?at, (new_sch_task office_hours)\<lparr> SchSt := StStopped, TimerAt := Some ?at, NextChecks := [?at] \<rparr>)
      (?at, told_task)"
    by (rule timer [OF _ order_refl new_cache_ok fire]) simp
  ultimately show ?thesis by (rule next_step)
qed

lemma task_state_is_current_witness:
  "sch_reach True (1700008200000000, told_task) \<and> in_schedule office_hours True 1700008200000000"
proof -
  have "\<not> cut_second office_hours 1700008200000000" by (simp add: cut_second_def cut_sec_def office_hours_def)
  then show ?thesis using task_state_is_current [OF told_task_reached] told_task_reached
    by (simp add: told_task_def sch_running_def TsDivisor_def)
qed

lemma end_follows_begin_witness: "out_after_in (StateEvents told_task)"
  using end_follows_begin [OF told_task_reached] by simp

end
