(* ===== verification/Timer.thy ===== *)
theory Timer
  imports SortedVector DateTime
begin

text \<open>
  The timer thread, \<open>fon9/Timer.hpp\<close> and \<open>fon9/Timer.cpp\<close>: one sorted vector of the timers in line,
  the earliest at its end, and a thread that sleeps until the earliest is due. An entry is a number; \<open>EntryKey\<close> is
  the \<open>Key_\<close> each carries. An operation is atomic, as it holds the lock of the thread; the
  thread itself and its condition variable are the \<open>timer_thr\<close> of a state, times are microseconds.
  The reference counts of the entries are not modelled.
\<close>

datatype timer_key = TimerKey (EmitTime: int) (SeqNo: nat)

definition NoWaiting :: nat where
  "NoWaiting = 0"

definition Disposed :: nat where
  "Disposed = 1"

definition WaitInLine :: nat where
  "WaitInLine = 2"

definition IsTimerWaitInLine :: "nat \<Rightarrow> bool" where
  "IsTimerWaitInLine seqno \<longleftrightarrow> WaitInLine \<le> seqno"

text \<open>The order of the vector: later times, and at the same time later starts, come first.\<close>

definition timer_key_less :: "timer_key \<Rightarrow> timer_key \<Rightarrow> bool" where
  "timer_key_less a b \<longleftrightarrow> (if EmitTime a = EmitTime b then SeqNo b < SeqNo a else EmitTime b < EmitTime a)"

instantiation timer_key :: linorder
begin

definition less_timer_key :: "timer_key \<Rightarrow> timer_key \<Rightarrow> bool" where
  "less_timer_key = timer_key_less"

definition less_eq_timer_key :: "timer_key \<Rightarrow> timer_key \<Rightarrow> bool" where
  "less_eq_timer_key a b \<longleftrightarrow> a = b \<or> a < b"

instance
  by standard (auto simp: less_timer_key_def timer_key_less_def less_eq_timer_key_def timer_key.expand split: if_splits)

end

record timer_data =
  LastSeqNo :: nat
  Timers :: "(timer_key \<times> nat) list"
  CvWaitSecs :: int
  CurrEntry :: "nat option"
  EntryKey :: "nat \<Rightarrow> timer_key"
  ThreadEnding :: bool

definition new_timer_data :: timer_data where
  "new_timer_data = \<lparr> LastSeqNo = WaitInLine, Timers = [], CvWaitSecs = 0, CurrEntry = None,
     EntryKey = (\<lambda>_. TimerKey TsNull NoWaiting), ThreadEnding = False \<rparr>"

definition TimersErase :: "timer_key \<Rightarrow> timer_data \<Rightarrow> timer_data" where
  "TimersErase k d = (if SeqNo k = NoWaiting then d
     else let i = sv_find kless (Timers d) (k, 0)
       in if i \<noteq> length (Timers d) then d\<lparr> Timers := sv_erase (Timers d) i (i + 1) \<rparr> else d)"

definition set_key :: "nat \<Rightarrow> timer_key \<Rightarrow> timer_data \<Rightarrow> timer_data" where
  "set_key e k d = d\<lparr> EntryKey := (EntryKey d)(e := k) \<rparr>"

text \<open>The thread that fires \<open>e\<close> does not wait for itself.\<close>

definition CheckCurrEmit :: "bool \<Rightarrow> nat \<Rightarrow> timer_data \<Rightarrow> bool" where
  "CheckCurrEmit inThisThread e d \<longleftrightarrow> CurrEntry d = Some e \<and> \<not> inThisThread"

text \<open>One round of the loop of \<open>DisposeAndWait\<close> and of \<open>StopAndWait\<close>; the flag asks for another round.\<close>

definition DisposeAndWait :: "bool \<Rightarrow> nat \<Rightarrow> timer_data \<Rightarrow> bool \<times> timer_data" where
  "DisposeAndWait me e d =
     (if ThreadEnding d then (False, d)
      else let d1 = (if IsTimerWaitInLine (SeqNo (EntryKey d e))
                 then set_key e (TimerKey TsNull Disposed) (TimersErase (EntryKey d e) d) else d)
        in (CheckCurrEmit me e d1, d1))"

definition StopAndWait :: "bool \<Rightarrow> nat \<Rightarrow> timer_data \<Rightarrow> bool \<times> timer_data" where
  "StopAndWait me e d =
     (if ThreadEnding d \<or> SeqNo (EntryKey d e) = Disposed then (False, d)
      else let d1 = set_key e (TimerKey TsNull NoWaiting) (TimersErase (EntryKey d e) d)
        in (CheckCurrEmit me e d1, d1))"

definition DisposeNoWait :: "nat \<Rightarrow> timer_data \<Rightarrow> timer_data" where
  "DisposeNoWait e d =
     (if ThreadEnding d then d
      else let k = EntryKey d e; d1 = (if IsTimerWaitInLine (SeqNo k) then TimersErase k d else d)
        in set_key e (TimerKey (EmitTime k) Disposed) d1)"

definition StopNoWait :: "nat \<Rightarrow> timer_data \<Rightarrow> timer_data" where
  "StopNoWait e d =
     (if ThreadEnding d then d
      else let k = EntryKey d e
        in if IsTimerWaitInLine (SeqNo k) then set_key e (TimerKey (EmitTime k) NoWaiting) (TimersErase k d) else d)"

definition next_seqno :: "nat \<Rightarrow> nat" where
  "next_seqno n = (let n' = uadd 64 n 1 in if IsTimerWaitInLine n' then n' else WaitInLine)"

text \<open>The flag tells whether the sleeping thread is notified.\<close>

definition SetupRun :: "int \<Rightarrow> nat \<Rightarrow> int \<Rightarrow> int option \<Rightarrow> timer_data \<Rightarrow> bool \<times> timer_data" where
  "SetupRun now e atTimePoint after d =
     (if ThreadEnding d \<or> SeqNo (EntryKey d e) = Disposed then (False, d)
      else let d1 = (if IsTimerWaitInLine (SeqNo (EntryKey d e)) then TimersErase (EntryKey d e) d else d);
               k = TimerKey atTimePoint (next_seqno (LastSeqNo d1));
               d2 = set_key e k (d1\<lparr> LastSeqNo := next_seqno (LastSeqNo d1) \<rparr>)
        in case sv_insert kless (Timers d2) (k, e) of (ts, i, _) \<Rightarrow>
          let d3 = d2\<lparr> Timers := ts \<rparr>; wsecs = (case after of Some a \<Rightarrow> a | None \<Rightarrow> atTimePoint - now)
          in if i \<noteq> length ts - 1 then (False, d3)
             else if CvWaitSecs d3 = wsecs then (False, d3)
             else (True, d3\<lparr> CvWaitSecs := wsecs \<rparr>))"

definition TimerRunAt :: "int \<Rightarrow> nat \<Rightarrow> int \<Rightarrow> timer_data \<Rightarrow> bool \<times> timer_data" where
  "TimerRunAt now e t d = SetupRun now e t None d"

definition TimerRunAfter :: "int \<Rightarrow> nat \<Rightarrow> int \<Rightarrow> timer_data \<Rightarrow> bool \<times> timer_data" where
  "TimerRunAfter now e after d = SetupRun now e (now + after) (Some after) d"

subsection \<open>The thread\<close>

text \<open>
  The thread is looking at the line, has taken a timer out to emit it (the lock is free again and its
  \<open>EmitOnTimer\<close> not yet called), is in that call, sleeps, or has ended.
\<close>

datatype timer_thr = Looking | Emitting nat | Calling nat | Sleeping "int option" bool | Ended

text \<open>
  One round of the loop of \<open>RunTimer\<close>, up to the call of \<open>EmitOnTimer\<close>; when it finds nothing to do the
  thread sleeps as \<open>ThrRun\<close> tells it.
\<close>

definition thr_sleep :: "int \<Rightarrow> timer_data \<Rightarrow> timer_thr" where
  "thr_sleep now d = Sleeping (if CvWaitSecs d < 0 then None else Some (now + CvWaitSecs d)) False"

definition RunTimer :: "int \<Rightarrow> timer_data \<Rightarrow> timer_thr \<times> timer_data" where
  "RunTimer now d =
     (if ThreadEnding d then (Ended, d)
      else if Timers d = [] then (let d1 = d\<lparr> CvWaitSecs := - TsDivisor \<rparr> in (thr_sleep now d1, d1))
      else let e = snd (last (Timers d)); k = EntryKey d e; ti = EmitTime k - now
        in if 0 < ti then (let d1 = d\<lparr> CvWaitSecs := ti \<rparr> in (thr_sleep now d1, d1))
           else (Emitting e, (set_key e (TimerKey (EmitTime k) NoWaiting) d)\<lparr> Timers := butlast (Timers d), CurrEntry := Some e \<rparr>))"

definition AfterEmit :: "timer_data \<Rightarrow> timer_data" where
  "AfterEmit d = d\<lparr> CurrEntry := None \<rparr>"

definition TimerNotify :: "timer_thr \<Rightarrow> timer_thr" where
  "TimerNotify th = (case th of Sleeping w _ \<Rightarrow> Sleeping w True | _ \<Rightarrow> th)"

definition NotifyForEndNow :: "timer_thr \<times> timer_data \<Rightarrow> timer_thr \<times> timer_data" where
  "NotifyForEndNow x = (TimerNotify (fst x), (snd x)\<lparr> ThreadEnding := True \<rparr>)"

text \<open>The rest of \<open>WaitForEndNow\<close>, when the thread has ended.\<close>

definition WaitForEndNow_clear :: "timer_data \<Rightarrow> timer_data" where
  "WaitForEndNow_clear d = d\<lparr> Timers := [] \<rparr>"

end
