(* ===== verification/TimerProps.thy ===== *)
theory TimerProps
  imports Timer
begin

text \<open>
  The timer thread in all interleavings of its own rounds with the operations of any client: the line is
  well formed, the thread never sleeps past a timer unless one was started with a waiting time of minus one
  second, timers are taken in the order of their times and of their starts, and a stopped timer is called at
  most once more, and not at all once a stop that waits has returned.
\<close>

text \<open>
  \<open>ATake\<close>: a timer leaves the line to be emitted; \<open>AFire\<close>: its \<open>EmitOnTimer\<close> is called; \<open>ADone\<close>: it has returned. A
  start carries its waiting time. A round of a stop that waits carries whether it runs in the
  timer thread and whether it asks for another round.
\<close>

datatype timer_act = ATick | AStart nat int | AStop nat | AStopAndWait bool nat bool | ADisposeAndWait bool nat bool
  | ARound | ATake nat | AFire nat | ADone | AWake | AEnd

type_synonym timer_sys = "int \<times> timer_thr \<times> timer_data"

definition notified :: "bool \<Rightarrow> timer_thr \<Rightarrow> timer_thr" where
  "notified b th = (if b then TimerNotify th else th)"

definition in_call :: "timer_thr \<Rightarrow> bool" where
  "in_call th \<longleftrightarrow> (case th of Calling _ \<Rightarrow> True | _ \<Rightarrow> False)"

text \<open>
  A step. The numbers of the starts do not wrap around, which takes 2^64 of them. Only in a call of
  \<open>EmitOnTimer\<close> a client runs in the timer thread.
\<close>

inductive tt_step :: "timer_act \<Rightarrow> timer_sys \<Rightarrow> timer_sys \<Rightarrow> bool" where
  tick: "now \<le> t \<Longrightarrow> tt_step ATick (now, th, d) (t, th, d)"
| run_at: "LastSeqNo d < 2 ^ 64 - 1 \<Longrightarrow> TimerRunAt now e at d = (b, d') \<Longrightarrow>
    tt_step (AStart e (at - now)) (now, th, d) (now, notified b th, d')"
| run_after: "LastSeqNo d < 2 ^ 64 - 1 \<Longrightarrow> TimerRunAfter now e ti d = (b, d') \<Longrightarrow>
    tt_step (AStart e ti) (now, th, d) (now, notified b th, d')"
| stop: "tt_step (AStop e) (now, th, d) (now, th, StopNoWait e d)"
| stop_wait: "me \<longrightarrow> in_call th \<Longrightarrow> StopAndWait me e d = (b, d') \<Longrightarrow> tt_step (AStopAndWait me e b) (now, th, d) (now, th, d')"
| dispose: "tt_step (AStop e) (now, th, d) (now, th, DisposeNoWait e d)"
| dispose_wait: "me \<longrightarrow> in_call th \<Longrightarrow> DisposeAndWait me e d = (b, d') \<Longrightarrow>
    tt_step (ADisposeAndWait me e b) (now, th, d) (now, th, d')"
| round: "RunTimer now d = (th, d') \<Longrightarrow> (\<nexists>e. th = Emitting e) \<Longrightarrow> tt_step ARound (now, Looking, d) (now, th, d')"
| take_out: "RunTimer now d = (Emitting e, d') \<Longrightarrow> tt_step (ATake e) (now, Looking, d) (now, Emitting e, d')"
| fire: "tt_step (AFire e) (now, Emitting e, d) (now, Calling e, d)"
| emitted: "tt_step ADone (now, Calling e, d) (now, Looking, AfterEmit d)"
| wake: "tt_step AWake (now, Sleeping w b, d) (now, Looking, d)"
| end_now: "NotifyForEndNow (th, d) = (th', d') \<Longrightarrow> tt_step AEnd (now, th, d) (now, th', d')"
| end_clear: "ThreadEnding d \<Longrightarrow> tt_step AEnd (now, Ended, d) (now, Ended, WaitForEndNow_clear d)"

inductive tt_run :: "timer_sys \<Rightarrow> timer_act list \<Rightarrow> timer_sys \<Rightarrow> bool" where
  run_nil: "tt_run s [] s"
| run_snoc: "tt_run s as t \<Longrightarrow> tt_step a t u \<Longrightarrow> tt_run s (as @ [a]) u"

definition tt_reach :: "timer_sys \<Rightarrow> bool" where
  "tt_reach s \<longleftrightarrow> (\<exists>now as. tt_run (now, Looking, new_timer_data) as s)"

subsection \<open>The line of timers\<close>

definition in_line :: "timer_data \<Rightarrow> nat \<Rightarrow> bool" where
  "in_line d e \<longleftrightarrow> IsTimerWaitInLine (SeqNo (EntryKey d e))"

definition timers_wf :: "timer_data \<Rightarrow> bool" where
  "timers_wf d \<longleftrightarrow> ksorted (Timers d) \<and> WaitInLine \<le> LastSeqNo d \<and> LastSeqNo d < 2 ^ 64 \<and>
     (\<forall>(k, e)\<in>set (Timers d). EntryKey d e = k \<and> in_line d e) \<and>
     (\<forall>e. SeqNo (EntryKey d e) \<le> LastSeqNo d) \<and>
     (\<forall>e e'. in_line d e \<and> SeqNo (EntryKey d e) = SeqNo (EntryKey d e') \<longrightarrow> e = e') \<and>
     (\<not> ThreadEnding d \<longrightarrow> (\<forall>e. in_line d e \<longrightarrow> (EntryKey d e, e) \<in> set (Timers d)))"

lemma timers_wfD:
  assumes "timers_wf d"
  shows "ksorted (Timers d)" "WaitInLine \<le> LastSeqNo d" "LastSeqNo d < 2 ^ 64"
    "(k, e) \<in> set (Timers d) \<Longrightarrow> EntryKey d e = k" "(k, e) \<in> set (Timers d) \<Longrightarrow> in_line d e"
    "SeqNo (EntryKey d e) \<le> LastSeqNo d" "in_line d e \<Longrightarrow> SeqNo (EntryKey d e) = SeqNo (EntryKey d e') \<Longrightarrow> e = e'"
    "\<not> ThreadEnding d \<Longrightarrow> in_line d e \<Longrightarrow> (EntryKey d e, e) \<in> set (Timers d)"
  using assms unfolding timers_wf_def by blast+

lemma timers_wf_same:
  assumes "timers_wf d" "LastSeqNo d' = LastSeqNo d" "Timers d' = Timers d" "EntryKey d' = EntryKey d"
    and "ThreadEnding d' = ThreadEnding d"
  shows "timers_wf d'"
  using assms(1) unfolding timers_wf_def in_line_def assms(2-5) .

lemma timers_wf_ending:
  assumes "timers_wf d" "ThreadEnding d'" "LastSeqNo d' = LastSeqNo d" "EntryKey d' = EntryKey d" "Timers d' = Timers d \<or> Timers d' = []"
  shows "timers_wf d'"
  using assms(5)
proof
  assume eq: "Timers d' = Timers d"
  show ?thesis using assms(1,2) unfolding timers_wf_def in_line_def assms(3,4) eq by blast
next
  assume eq: "Timers d' = []"
  have "ksorted (Timers d')" "\<forall>x\<in>set (Timers d'). P x" for P by (simp_all add: eq)
  then show ?thesis using assms(1,2) unfolding timers_wf_def in_line_def assms(3,4) by blast
qed

lemma ksorted_filter: "ksorted xs \<Longrightarrow> ksorted (filter P xs)"
  by (simp add: ksorted_def sorted_wrt_map sorted_wrt_filter)

lemma sv_erase_found:
  assumes "ksorted xs" "i = sv_find kless xs (k, v)"
  shows "(if i \<noteq> length xs then sv_erase xs i (i + 1) else xs) = filter (\<lambda>x. fst x \<noteq> k) xs"
proof (cases "i = length xs")
  case True
  then have "k \<notin> fst ` set xs" using sv_find_spec [OF assms(1), of k v] assms(2) by (simp add: map_of_eq_None_iff)
  then have "filter (\<lambda>x. fst x \<noteq> k) xs = xs" by (auto simp: filter_id_conv)
  then show ?thesis using True by simp
next
  case False
  then have i: "i < length xs" "fst (xs ! i) = k" using sv_find_spec [OF assms(1), of k v] assms(2) by auto
  then have xs: "xs = take i xs @ xs ! i # drop (Suc i) xs" by (simp add: id_take_nth_drop)
  have "\<forall>x\<in>set (take i xs). fst x \<noteq> k" "\<forall>x\<in>set (drop (Suc i) xs). fst x \<noteq> k"
    using assms(1) i(2) by (subst (asm) xs; force simp: ksorted_append ksorted_Cons)+
  then have "filter (\<lambda>x. fst x \<noteq> k) (take i xs @ xs ! i # drop (Suc i) xs) = take i xs @ drop (Suc i) xs"
    using i(2) by (simp add: filter_id_conv)
  then show ?thesis using False xs by (simp add: sv_erase_def)
qed

lemma TimersErase_eq:
  assumes "timers_wf d"
  shows "TimersErase k d = d\<lparr> Timers := filter (\<lambda>x. fst x \<noteq> k) (Timers d) \<rparr>"
proof (cases "SeqNo k = NoWaiting")
  case True
  then have "filter (\<lambda>x. fst x \<noteq> k) (Timers d) = Timers d"
    using timers_wfD(4,5) [OF assms] by (fastforce simp: filter_id_conv in_line_def IsTimerWaitInLine_def WaitInLine_def NoWaiting_def)
  then show ?thesis using True by (simp add: TimersErase_def)
next
  case False
  have "ksorted (Timers d)" using timers_wfD(1) [OF assms] .
  then show ?thesis using sv_erase_found [OF _ refl, of "Timers d" k 0] False
    by (auto simp: TimersErase_def Let_def split: if_splits)
qed

lemmas seq_simps = IsTimerWaitInLine_def WaitInLine_def NoWaiting_def Disposed_def

text \<open>An entry that leaves the line.\<close>

lemma leave_line:
  assumes "timers_wf d" "SeqNo k < WaitInLine"
    and "set ts = {(k', e') \<in> set (Timers d). e' \<noteq> e}" "ksorted ts"
  shows "timers_wf (set_key e k (d\<lparr> Timers := ts \<rparr>))"
proof -
  let ?d = "set_key e k (d\<lparr> Timers := ts \<rparr>)"
  note wf = timers_wfD [OF assms(1)]
  have out: "in_line ?d e' \<longleftrightarrow> e' \<noteq> e \<and> in_line d e'" for e'
    using assms(2) by (auto simp: in_line_def set_key_def seq_simps)
  have key: "EntryKey ?d e' = (if e' = e then k else EntryKey d e')" for e' by (simp add: set_key_def)
  show ?thesis unfolding timers_wf_def out key
  proof (intro conjI)
    show "\<forall>(k', e')\<in>set (Timers ?d). (if e' = e then k else EntryKey d e') = k' \<and> e' \<noteq> e \<and> in_line d e'"
      using wf(4,5) assms(3) by (auto simp: set_key_def)
    show "\<forall>e'. SeqNo (if e' = e then k else EntryKey d e') \<le> LastSeqNo ?d"
      using wf(2,6) assms(2) by (auto simp: set_key_def)
    show "\<forall>e1 e2. (e1 \<noteq> e \<and> in_line d e1) \<and>
        SeqNo (if e1 = e then k else EntryKey d e1) = SeqNo (if e2 = e then k else EntryKey d e2) \<longrightarrow> e1 = e2"
      using wf(7) assms(2) by (auto simp: in_line_def seq_simps)
    show "\<not> ThreadEnding ?d \<longrightarrow> (\<forall>e'. e' \<noteq> e \<and> in_line d e' \<longrightarrow>
        ((if e' = e then k else EntryKey d e'), e') \<in> set (Timers ?d))"
      using wf(8) assms(3) by (auto simp: set_key_def)
  qed (use wf(2,3) assms(4) in \<open>auto simp: set_key_def\<close>)
qed

lemma other_keys: "timers_wf d \<Longrightarrow>
    set (filter (\<lambda>x. fst x \<noteq> EntryKey d e) (Timers d)) = {(k', e') \<in> set (Timers d). e' \<noteq> e}"
proof (intro set_eqI)
  fix x :: "timer_key \<times> nat" assume wf: "timers_wf d"
  obtain k' e' where x: "x = (k', e')" by force
  have "EntryKey d e' = EntryKey d e \<Longrightarrow> e' = e" if "(k', e') \<in> set (Timers d)"
    using timers_wfD(5,7) [OF wf] that by metis
  then show "x \<in> set (filter (\<lambda>x. fst x \<noteq> EntryKey d e) (Timers d)) \<longleftrightarrow> x \<in> {(k', e') \<in> set (Timers d). e' \<noteq> e}"
    using timers_wfD(4) [OF wf, of k' e'] by (auto simp: x)
qed

lemma leave_line_wf:
  assumes "timers_wf d" "SeqNo k < WaitInLine"
  shows "timers_wf (set_key e k (TimersErase (EntryKey d e) d))"
  unfolding TimersErase_eq [OF assms(1)]
  using leave_line [OF assms other_keys [OF assms(1), of e]] timers_wfD(1) [OF assms(1)] by (simp add: ksorted_filter)

lemma idle_key_wf:
  assumes "timers_wf d" "\<not> in_line d e" "SeqNo k < WaitInLine"
  shows "timers_wf (set_key e k d)"
proof -
  have "set (Timers d) = {(k', e') \<in> set (Timers d). e' \<noteq> e}" using timers_wfD(5) [OF assms(1)] assms(2) by blast
  then show ?thesis using leave_line [OF assms(1,3)] timers_wfD(1) [OF assms(1)] by fastforce
qed

lemma StopAndWait_wf: "timers_wf d \<Longrightarrow> timers_wf (snd (StopAndWait me e d))"
  by (auto simp: StopAndWait_def Let_def NoWaiting_def WaitInLine_def intro!: leave_line_wf)

lemma DisposeAndWait_wf: "timers_wf d \<Longrightarrow> timers_wf (snd (DisposeAndWait me e d))"
  by (auto simp: DisposeAndWait_def Let_def Disposed_def WaitInLine_def intro!: leave_line_wf)

lemma StopNoWait_wf: "timers_wf d \<Longrightarrow> timers_wf (StopNoWait e d)"
  by (auto simp: StopNoWait_def Let_def NoWaiting_def WaitInLine_def intro!: leave_line_wf)

lemma DisposeNoWait_wf: "timers_wf d \<Longrightarrow> timers_wf (DisposeNoWait e d)"
  by (auto simp: DisposeNoWait_def Let_def Disposed_def WaitInLine_def in_line_def intro!: leave_line_wf idle_key_wf)

subsection \<open>Starting a timer\<close>

lemma next_seqno_eq: "WaitInLine \<le> n \<Longrightarrow> n < 2 ^ 64 - 1 \<Longrightarrow> next_seqno n = n + 1"
  by (simp add: next_seqno_def uadd_def Let_def IsTimerWaitInLine_def)

lemma enter_line:
  assumes "timers_wf d" "\<not> in_line d e" "n = LastSeqNo d + 1" "n < 2 ^ 64"
    and "set ts = insert (TimerKey at n, e) (set (Timers d))" "ksorted ts"
  shows "timers_wf (set_key e (TimerKey at n) (d\<lparr> LastSeqNo := n, Timers := ts, CvWaitSecs := cv \<rparr>))"
proof -
  let ?k = "TimerKey at n"
  let ?d = "set_key e ?k (d\<lparr> LastSeqNo := n, Timers := ts, CvWaitSecs := cv \<rparr>)"
  note wf = timers_wfD [OF assms(1)]
  have line: "in_line ?d e' \<longleftrightarrow> e' = e \<or> in_line d e'" for e'
    using assms(3) wf(2) by (auto simp: in_line_def set_key_def seq_simps)
  have key: "EntryKey ?d e' = (if e' = e then ?k else EntryKey d e')" for e' by (simp add: set_key_def)
  have small: "SeqNo (EntryKey d e') \<noteq> n" for e' using wf(6) [of e'] assms(3) by linarith
  show ?thesis unfolding timers_wf_def line key
  proof (intro conjI)
    show "\<forall>(k', e')\<in>set (Timers ?d). (if e' = e then ?k else EntryKey d e') = k' \<and> (e' = e \<or> in_line d e')"
      using wf(4,5) assms(2,5) by (auto simp: set_key_def)
    show "\<forall>e'. SeqNo (if e' = e then ?k else EntryKey d e') \<le> LastSeqNo ?d"
      using wf(6) assms(3) by (auto simp: set_key_def le_SucI)
    show "\<forall>e1 e2. (e1 = e \<or> in_line d e1) \<and>
        SeqNo (if e1 = e then ?k else EntryKey d e1) = SeqNo (if e2 = e then ?k else EntryKey d e2) \<longrightarrow> e1 = e2"
      using wf(7) small by (auto split: if_splits)
    show "\<not> ThreadEnding ?d \<longrightarrow> (\<forall>e'. e' = e \<or> in_line d e' \<longrightarrow>
        ((if e' = e then ?k else EntryKey d e'), e') \<in> set (Timers ?d))"
      using wf(8) assms(5) by (auto simp: set_key_def)
  qed (use wf(2,3) assms(3,4,6) in \<open>auto simp: set_key_def\<close>)
qed

definition wait_secs :: "int \<Rightarrow> int \<Rightarrow> int option \<Rightarrow> int" where
  "wait_secs now at after = (case after of Some a \<Rightarrow> a | None \<Rightarrow> at - now)"

text \<open>What a start does to the line, and when it notifies the thread.\<close>

lemma SetupRun_spec:
  assumes "timers_wf d" "LastSeqNo d < 2 ^ 64 - 1" "\<not> ThreadEnding d" "SeqNo (EntryKey d e) \<noteq> Disposed"
    and k: "k = TimerKey at (LastSeqNo d + 1)"
  obtains ts cv b where "SetupRun now e at after d = (b, set_key e k (d\<lparr> LastSeqNo := LastSeqNo d + 1, Timers := ts, CvWaitSecs := cv \<rparr>))"
    "ksorted ts" "set ts = insert (k, e) {(k', e') \<in> set (Timers d). e' \<noteq> e}"
    "if b then cv = wait_secs now at after
     else cv = CvWaitSecs d \<and> (cv = wait_secs now at after \<or> (\<exists>(k', e')\<in>set (Timers d). EmitTime k' \<le> at))"
proof -
  note wf = timers_wfD [OF assms(1)]
  define ts0 where "ts0 = (if in_line d e then filter (\<lambda>x. fst x \<noteq> EntryKey d e) (Timers d) else Timers d)"
  have erase: "(if IsTimerWaitInLine (SeqNo (EntryKey d e)) then TimersErase (EntryKey d e) d else d) = d\<lparr> Timers := ts0 \<rparr>"
    by (simp add: ts0_def TimersErase_eq [OF assms(1)] in_line_def)
  have set0: "set ts0 = {(k', e') \<in> set (Timers d). e' \<noteq> e}"
  proof (cases "in_line d e")
    case False
    then show ?thesis using wf(5) by (auto simp: ts0_def)
  qed (use other_keys [OF assms(1), of e] in \<open>simp add: ts0_def\<close>)
  have sorted0: "ksorted ts0" using wf(1) by (simp add: ts0_def ksorted_filter)
  have "SeqNo k' \<le> LastSeqNo d" if "(k', e') \<in> set ts0" for k' e'
    using wf(4) [of k' e'] wf(6) [of e'] that by (simp add: set0)
  then have new: "k \<notin> fst ` set ts0" by (force simp: k)
  define i where "i = lower_i kless ts0 (k, e)"
  define ts where "ts = vec_insert ts0 i (k, e)"
  have ins: "sv_insert kless ts0 (k, e) = (ts, i, True)"
    using sv_insert_cases [OF sorted0, of k e] new unfolding i_def ts_def by (force intro: rev_image_eqI)
  have i: "i \<le> length ts0" using ksorted_split(1) [OF sorted0, of k e] by (simp add: i_def)
  have len: "length ts = Suc (length ts0)" by (simp add: ts_def vec_insert_def i)
  have later: "\<exists>(k', e')\<in>set (Timers d). EmitTime k' \<le> at" if "i \<noteq> length ts - 1"
  proof -
    have "i < length ts0" using that i len by simp
    then obtain k' e' where e': "ts0 ! i = (k', e')" "(k', e') \<in> set ts0" by (metis nth_mem prod.exhaust)
    have "k \<le> k'" using ksorted_at(1) [OF sorted0, of k e] \<open>i < length ts0\<close> e'(1) by (simp add: i_def)
    then have "EmitTime k' \<le> at" by (auto simp: k less_eq_timer_key_def less_timer_key_def timer_key_less_def split: if_splits)
    then show ?thesis using e'(2) set0 by auto
  qed
  have seq: "next_seqno (LastSeqNo d) = LastSeqNo d + 1" using next_seqno_eq wf(2) assms(2) .
  define b where "b \<longleftrightarrow> i = length ts - 1 \<and> CvWaitSecs d \<noteq> wait_secs now at after"
  define cv where "cv = (if b then wait_secs now at after else CvWaitSecs d)"
  have "SetupRun now e at after d = (b, set_key e k (d\<lparr> LastSeqNo := LastSeqNo d + 1, Timers := ts, CvWaitSecs := cv \<rparr>))"
    using assms(3,4) ins unfolding SetupRun_def erase
    by (auto simp: Let_def seq set_key_def k wait_secs_def b_def cv_def)
  moreover have "ksorted ts" using ksorted_vec_insert [OF sorted0 new] by (simp add: ts_def i_def)
  moreover have "set ts = insert (k, e) {(k', e') \<in> set (Timers d). e' \<noteq> e}" by (simp add: ts_def set0)
  moreover have "if b then cv = wait_secs now at after
     else cv = CvWaitSecs d \<and> (cv = wait_secs now at after \<or> (\<exists>(k', e')\<in>set (Timers d). EmitTime k' \<le> at))"
    using later by (auto simp: cv_def b_def)
  ultimately show ?thesis using that by blast
qed

lemma SetupRun_refused: "ThreadEnding d \<or> SeqNo (EntryKey d e) = Disposed \<Longrightarrow> SetupRun now e at after d = (False, d)"
  by (simp add: SetupRun_def)

lemma SetupRun_wf:
  assumes "timers_wf d" "LastSeqNo d < 2 ^ 64 - 1"
  shows "timers_wf (snd (SetupRun now e at after d))"
proof (cases "ThreadEnding d \<or> SeqNo (EntryKey d e) = Disposed")
  case False
  obtain ts cv b where r: "SetupRun now e at after d =
      (b, set_key e (TimerKey at (LastSeqNo d + 1)) (d\<lparr> LastSeqNo := LastSeqNo d + 1, Timers := ts, CvWaitSecs := cv \<rparr>))"
    "ksorted ts" "set ts = insert (TimerKey at (LastSeqNo d + 1), e) {(k', e') \<in> set (Timers d). e' \<noteq> e}"
    by (rule SetupRun_spec [OF assms _ _ refl, where e = e and at = at and now = now and after = after]) (use False in auto)
  define d0 where "d0 = set_key e (TimerKey TsNull NoWaiting) (TimersErase (EntryKey d e) d)"
  have "timers_wf d0" using leave_line_wf [OF assms(1)] by (simp add: d0_def NoWaiting_def WaitInLine_def)
  moreover have "\<not> in_line d0 e" by (simp add: d0_def in_line_def set_key_def seq_simps)
  moreover have d0: "LastSeqNo d0 = LastSeqNo d" "set (Timers d0) = {(k', e') \<in> set (Timers d). e' \<noteq> e}"
    using other_keys [OF assms(1), of e] by (simp_all add: d0_def set_key_def TimersErase_eq [OF assms(1)])
  ultimately have "timers_wf (set_key e (TimerKey at (LastSeqNo d + 1)) (d0\<lparr> LastSeqNo := LastSeqNo d + 1, Timers := ts, CvWaitSecs := cv \<rparr>))"
    using enter_line [of d0 e "LastSeqNo d + 1" ts at cv] r assms(2) by simp
  moreover have "set_key e (TimerKey at (LastSeqNo d + 1)) (d0\<lparr> LastSeqNo := LastSeqNo d + 1, Timers := ts, CvWaitSecs := cv \<rparr>)
      = snd (SetupRun now e at after d)"
    by (simp add: r d0_def set_key_def TimersErase_eq [OF assms(1)])
  ultimately show ?thesis by simp
qed (simp add: SetupRun_refused assms)

subsection \<open>The rounds of the thread\<close>

lemma RunTimer_cases:
  assumes "timers_wf d" "\<not> ThreadEnding d"
  obtains (idle) "Timers d = []" "RunTimer now d = (Sleeping None False, d\<lparr> CvWaitSecs := - TsDivisor \<rparr>)"
  | (early) k e where "last (Timers d) = (k, e)" "Timers d \<noteq> []" "now < EmitTime k"
      "RunTimer now d = (Sleeping (Some (EmitTime k)) False, d\<lparr> CvWaitSecs := EmitTime k - now \<rparr>)"
  | (due) k e where "last (Timers d) = (k, e)" "Timers d \<noteq> []" "EmitTime k \<le> now" "EntryKey d e = k"
      "RunTimer now d = (Emitting e, (set_key e (TimerKey (EmitTime k) NoWaiting) d)\<lparr> Timers := butlast (Timers d), CurrEntry := Some e \<rparr>)"
proof (cases "Timers d = []")
  case True
  then show ?thesis using that(1) assms(2) by (simp add: RunTimer_def thr_sleep_def TsDivisor_def Let_def)
next
  case False
  obtain k e where l: "last (Timers d) = (k, e)" by force
  then have "(k, e) \<in> set (Timers d)" using False last_in_set by metis
  then have k: "EntryKey d e = k" using timers_wfD(4) [OF assms(1)] by blast
  show ?thesis
  proof (cases "now < EmitTime k")
    case True
    then show ?thesis using that(2) [OF l False True] False l k assms(2) by (simp add: RunTimer_def thr_sleep_def Let_def)
  next
    case False
    then show ?thesis using that(3) [OF l \<open>Timers d \<noteq> []\<close> _ k] \<open>Timers d \<noteq> []\<close> l k assms(2)
      by (simp add: RunTimer_def Let_def)
  qed
qed

text \<open>The last of the line is the first in time.\<close>

lemma last_is_first:
  assumes "timers_wf d" "last (Timers d) = (k, e)" "(k', e') \<in> set (Timers d)"
  shows "EmitTime k < EmitTime k' \<or> EmitTime k = EmitTime k' \<and> SeqNo k \<le> SeqNo k'"
proof -
  have ne: "Timers d \<noteq> []" using assms(3) by auto
  have app: "Timers d = butlast (Timers d) @ [(k, e)]" using append_butlast_last_id [OF ne] assms(2) by simp
  have "ksorted (butlast (Timers d) @ [(k, e)])" using timers_wfD(1) [OF assms(1)] app by simp
  moreover have "(k', e') \<in> set (butlast (Timers d)) \<or> (k', e') = (k, e)"
    using assms(3) app by (metis Un_iff empty_set list.simps(15) set_append singletonD)
  ultimately have "k' < k \<or> k' = k" unfolding ksorted_append by force
  then show ?thesis by (auto simp: less_timer_key_def timer_key_less_def split: if_splits)
qed

lemma butlast_line:
  assumes "timers_wf d" "Timers d \<noteq> []" "last (Timers d) = (k, e)"
  shows "set (butlast (Timers d)) = {(k', e') \<in> set (Timers d). e' \<noteq> e}" "ksorted (butlast (Timers d))"
proof -
  have app: "Timers d = butlast (Timers d) @ [(k, e)]" using append_butlast_last_id [OF assms(2)] assms(3) by simp
  have srt: "ksorted (butlast (Timers d) @ [(k, e)])" using timers_wfD(1) [OF assms(1)] app by simp
  then show "ksorted (butlast (Timers d))" by (simp add: ksorted_append)
  have "k' \<noteq> k" if "(k', e') \<in> set (butlast (Timers d))" for k' e'
    using srt that by (auto simp: ksorted_append)
  moreover have "(k', e') \<in> set (Timers d) \<longleftrightarrow> (k', e') \<in> set (butlast (Timers d)) \<or> (k', e') = (k, e)" for k' e'
    by (subst app) auto
  moreover have "EntryKey d e' = k'" if "(k', e') \<in> set (Timers d)" for k' e'
    using timers_wfD(4) [OF assms(1) that] .
  moreover have "EntryKey d e = k" using calculation(2) [of k e] calculation(3) by blast
  ultimately have "(k', e') \<in> set (butlast (Timers d)) \<longleftrightarrow> (k', e') \<in> set (Timers d) \<and> e' \<noteq> e" for k' e'
    by blast
  then show "set (butlast (Timers d)) = {(k', e') \<in> set (Timers d). e' \<noteq> e}" by auto
qed

lemma RunTimer_wf: "timers_wf d \<Longrightarrow> timers_wf (snd (RunTimer now d))"
proof (cases "ThreadEnding d")
  case False
  assume wf: "timers_wf d"
  have cv: "timers_wf (d\<lparr> CvWaitSecs := c \<rparr>)" for c by (rule timers_wf_same [OF wf]) simp_all
  from wf False show ?thesis
  proof (cases rule: RunTimer_cases [where now = now])
    case (due k e)
    have "timers_wf (set_key e (TimerKey (EmitTime k) NoWaiting) (d\<lparr> Timers := butlast (Timers d) \<rparr>))"
      using leave_line [OF wf _ butlast_line [OF wf due(2,1)]] by (simp add: NoWaiting_def WaitInLine_def)
    then show ?thesis unfolding due(5) snd_conv by (rule timers_wf_same) (simp_all add: set_key_def)
  qed (simp_all add: cv)
qed (simp add: RunTimer_def)

lemma tt_step_wf: "tt_step a (now, th, d) (now', th', d') \<Longrightarrow> timers_wf d \<Longrightarrow> timers_wf d'"
proof (induction a "(now, th, d)" "(now', th', d')" rule: tt_step.induct)
  case (run_at e at b)
  then show ?case using SetupRun_wf by (metis TimerRunAt_def snd_conv)
next
  case (run_after e ti b)
  then show ?case using SetupRun_wf by (metis TimerRunAfter_def snd_conv)
next
  case (stop_wait me e b)
  then show ?case using StopAndWait_wf by (metis snd_conv)
next
  case (dispose_wait me e b)
  then show ?case using DisposeAndWait_wf by (metis snd_conv)
next
  case round
  then show ?case using RunTimer_wf by (metis snd_conv)
next
  case (take_out e)
  then show ?case using RunTimer_wf by (metis snd_conv)
next
  case end_now
  then show ?case by (auto simp: NotifyForEndNow_def intro: timers_wf_ending)
next
  case end_clear
  then show ?case by (auto simp: WaitForEndNow_clear_def intro: timers_wf_ending)
next
  case (emitted e)
  then show ?case by (auto simp: AfterEmit_def intro: timers_wf_same)
qed (auto intro: StopNoWait_wf DisposeNoWait_wf)

lemma tt_run_wf: "tt_run x as y \<Longrightarrow> timers_wf (snd (snd x)) \<Longrightarrow> timers_wf (snd (snd y))"
proof (induction rule: tt_run.induct)
  case (run_snoc s as t a u)
  then show ?case using tt_step_wf [of a "fst t" "fst (snd t)" "snd (snd t)" "fst u" "fst (snd u)" "snd (snd u)"] by simp
qed

lemma new_timer_wf: "timers_wf new_timer_data"
  by (simp add: timers_wf_def new_timer_data_def in_line_def seq_simps)

lemma tt_reach_wf: "tt_reach (now, th, d) \<Longrightarrow> timers_wf d"
  using tt_run_wf [of _ _ "(now, th, d)"] new_timer_wf unfolding tt_reach_def by fastforce

subsection \<open>The sleep of the thread\<close>

text \<open>
  A sleep that nobody has ended goes on for ever only when no timer is in line, and else ends
  not later than \<open>CvWaitSecs\<close> from now and not later than any timer.
\<close>

definition sleep_ok :: "int \<Rightarrow> timer_thr \<Rightarrow> timer_data \<Rightarrow> bool" where
  "sleep_ok now th d \<longleftrightarrow> (\<forall>w. th = Sleeping w False \<longrightarrow> \<not> ThreadEnding d \<and>
     (case w of None \<Rightarrow> Timers d = [] \<and> CvWaitSecs d = - TsDivisor
      | Some t \<Rightarrow> t \<le> now + CvWaitSecs d \<and> (\<forall>(k, e)\<in>set (Timers d). t \<le> EmitTime k)))"

lemma sleep_ok_other: "(\<And>w. th \<noteq> Sleeping w False) \<Longrightarrow> sleep_ok now th d"
  by (simp add: sleep_ok_def)

lemma sleep_ok_fewer:
  assumes "sleep_ok now th d" "now \<le> now'" "set (Timers d') \<subseteq> set (Timers d)" "CvWaitSecs d' = CvWaitSecs d" "ThreadEnding d' = ThreadEnding d"
  shows "sleep_ok now' th d'"
  using assms by (fastforce simp: sleep_ok_def split: option.splits)

lemma sleep_ok_start:
  assumes "sleep_ok now th d" "timers_wf d" "LastSeqNo d < 2 ^ 64 - 1" "wait_secs now at after \<noteq> - TsDivisor"
    and "at = now + wait_secs now at after" "SetupRun now e at after d = (b, d')"
  shows "sleep_ok now (notified b th) d'"
proof (cases "b \<or> ThreadEnding d \<or> SeqNo (EntryKey d e) = Disposed \<or> (\<nexists>w. th = Sleeping w False)")
  case True
  then show ?thesis using assms(1,6) SetupRun_refused [of d e now at after]
    by (cases th) (auto simp: sleep_ok_def notified_def TimerNotify_def)
next
  case False
  then obtain w where w: "th = Sleeping w False" "\<not> b" by blast
  obtain ts cv b' where r: "SetupRun now e at after d = (b', set_key e (TimerKey at (LastSeqNo d + 1))
        (d\<lparr> LastSeqNo := LastSeqNo d + 1, Timers := ts, CvWaitSecs := cv \<rparr>))"
    "set ts = insert (TimerKey at (LastSeqNo d + 1), e) {(k', e') \<in> set (Timers d). e' \<noteq> e}"
    "if b' then cv = wait_secs now at after
     else cv = CvWaitSecs d \<and> (cv = wait_secs now at after \<or> (\<exists>(k', e')\<in>set (Timers d). EmitTime k' \<le> at))"
    by (rule SetupRun_spec [OF assms(2,3) _ _ refl, where e = e and at = at and now = now and after = after])
      (use False in auto)
  have cv: "cv = CvWaitSecs d" "cv = wait_secs now at after \<or> (\<exists>(k', e')\<in>set (Timers d). EmitTime k' \<le> at)"
    using r(1,3) w(2) assms(6) by auto
  obtain t where t: "w = Some t"
    using assms(1,4) w cv by (cases w) (auto simp: sleep_ok_def)
  then have before: "t \<le> now + CvWaitSecs d" "\<forall>(k, e)\<in>set (Timers d). t \<le> EmitTime k" "\<not> ThreadEnding d"
    using assms(1) w(1) by (auto simp: sleep_ok_def)
  have "t \<le> at" using cv before assms(5) by fastforce
  then show ?thesis using before r(1,2) assms(6) w t cv(1)
    by (auto simp: sleep_ok_def notified_def set_key_def)
qed

lemma StopAndWait_fewer: "timers_wf d \<Longrightarrow> StopAndWait me e d = (b, d') \<Longrightarrow>
    set (Timers d') \<subseteq> set (Timers d) \<and> CvWaitSecs d' = CvWaitSecs d \<and> ThreadEnding d' = ThreadEnding d \<and> LastSeqNo d' = LastSeqNo d"
  by (auto simp: StopAndWait_def Let_def set_key_def TimersErase_eq split: if_splits)

lemma DisposeAndWait_fewer: "timers_wf d \<Longrightarrow> DisposeAndWait me e d = (b, d') \<Longrightarrow>
    set (Timers d') \<subseteq> set (Timers d) \<and> CvWaitSecs d' = CvWaitSecs d \<and> ThreadEnding d' = ThreadEnding d \<and> LastSeqNo d' = LastSeqNo d"
  by (auto simp: DisposeAndWait_def Let_def set_key_def TimersErase_eq split: if_splits)

lemma StopNoWait_fewer: "timers_wf d \<Longrightarrow>
    set (Timers (StopNoWait e d)) \<subseteq> set (Timers d) \<and> CvWaitSecs (StopNoWait e d) = CvWaitSecs d \<and> ThreadEnding (StopNoWait e d) = ThreadEnding d"
  by (auto simp: StopNoWait_def Let_def set_key_def TimersErase_eq)

lemma DisposeNoWait_fewer: "timers_wf d \<Longrightarrow>
    set (Timers (DisposeNoWait e d)) \<subseteq> set (Timers d) \<and> CvWaitSecs (DisposeNoWait e d) = CvWaitSecs d \<and> ThreadEnding (DisposeNoWait e d) = ThreadEnding d"
  by (auto simp: DisposeNoWait_def Let_def set_key_def TimersErase_eq)

lemma round_sleep_ok: "timers_wf d \<Longrightarrow> RunTimer now d = (th, d') \<Longrightarrow> sleep_ok now th d'"
proof (cases "ThreadEnding d")
  case False
  assume wf: "timers_wf d" and r: "RunTimer now d = (th, d')"
  from wf False show ?thesis
  proof (cases rule: RunTimer_cases [where now = now])
    case (early k e)
    have "EmitTime k \<le> EmitTime k'" if "(k', e') \<in> set (Timers d)" for k' e'
      using last_is_first [OF wf early(1) that] by auto
    then show ?thesis using r False by (auto simp: early sleep_ok_def)
  qed (use r False in \<open>auto simp: sleep_ok_def\<close>)
qed (auto simp: RunTimer_def sleep_ok_def)

lemma tt_step_sleep: "tt_step a (now, th, d) (now', th', d') \<Longrightarrow> (\<And>e. a \<noteq> AStart e (- TsDivisor)) \<Longrightarrow>
    timers_wf d \<Longrightarrow> sleep_ok now th d \<Longrightarrow> sleep_ok now' th' d'"
proof (induction a "(now, th, d)" "(now', th', d')" rule: tt_step.induct)
  case tick
  then show ?case using sleep_ok_fewer [of now th d now' d] by auto
next
  case (run_at e at b)
  then show ?case using sleep_ok_start [of now th d at None e b d'] by (simp add: TimerRunAt_def wait_secs_def)
next
  case (run_after e ti b)
  then show ?case using sleep_ok_start [of now th d "now + ti" "Some ti" e b d'] by (simp add: TimerRunAfter_def wait_secs_def)
next
  case (stop e)
  then show ?case using StopNoWait_fewer [of d e] sleep_ok_fewer [of now th d now' d'] by auto
next
  case (stop_wait me e b)
  then show ?case using StopAndWait_fewer [of d me e b d'] sleep_ok_fewer [of now th d now' d'] by auto
next
  case (dispose e)
  then show ?case using DisposeNoWait_fewer [of d e] sleep_ok_fewer [of now th d now' d'] by auto
next
  case (dispose_wait me e b)
  then show ?case using DisposeAndWait_fewer [of d me e b d'] sleep_ok_fewer [of now th d now' d'] by auto
next
  case round
  then show ?case using round_sleep_ok by blast
next
  case end_now
  then show ?case by (auto simp: NotifyForEndNow_def TimerNotify_def sleep_ok_def split: timer_thr.splits)
qed (auto simp: sleep_ok_def)

lemma tt_run_sleep: "tt_run x as y \<Longrightarrow> timers_wf (snd (snd x)) \<Longrightarrow> (\<And>e. AStart e (- TsDivisor) \<notin> set as) \<Longrightarrow>
    sleep_ok (fst x) (fst (snd x)) (snd (snd x)) \<Longrightarrow> sleep_ok (fst y) (fst (snd y)) (snd (snd y))"
proof (induction rule: tt_run.induct)
  case (run_snoc s as t a u)
  then show ?case
    using tt_step_sleep [of a "fst t" "fst (snd t)" "snd (snd t)" "fst u" "fst (snd u)" "snd (snd u)"] tt_run_wf [of s as t] by fastforce
qed

subsection \<open>The promises\<close>

text \<open>
  C26: In every interleaving the line of timers is well formed: sorted, each entry at most once, with the key it
  carries, and as long as the thread runs exactly the entries whose number says so are in it.
\<close>

theorem timer_line_is_well_formed:
  assumes "tt_reach (now, th, d)"
  shows "timers_wf d"
  using tt_reach_wf [OF assms] .

text \<open>
  C23: No wake-up is missed as long as no timer is started with a waiting time of exactly minus one second, which
  is the mark of a sleep without an end (\<open>one_second_ago_is_not_notified\<close> shows what happens then): when the
  thread sleeps and is not notified, it wakes at the latest when the first timer is due, whatever timers
  are started, stopped and disposed.
\<close>

theorem no_wake_up_is_missed:
  assumes "tt_run (start, Looking, new_timer_data) as (now, Sleeping w False, d)" "\<forall>e. AStart e (- TsDivisor) \<notin> set as"
    and "(k, e) \<in> set (Timers d)"
  shows "\<exists>t. w = Some t \<and> t \<le> EmitTime k"
  using tt_run_sleep [OF assms(1)] assms(2,3) new_timer_wf by (cases w) (auto simp: sleep_ok_def)

definition fires_before :: "timer_key \<Rightarrow> timer_key \<Rightarrow> bool" where
  "fires_before k k' \<longleftrightarrow> EmitTime k < EmitTime k' \<or> EmitTime k = EmitTime k' \<and> SeqNo k < SeqNo k'"

text \<open>
  C24: A round of the thread takes a timer out to fire it exactly when one is due, and then the first one:
  of all timers in line its time is the earliest and, among equal times, its start. It leaves the
  line, the others stay.
\<close>

theorem first_due_timer_fires:
  assumes "tt_reach (now, Looking, d)" "\<not> ThreadEnding d"
  shows "if \<exists>e. in_line d e \<and> EmitTime (EntryKey d e) \<le> now
    then \<exists>e d'. RunTimer now d = (Emitting e, d') \<and> in_line d e \<and> EmitTime (EntryKey d e) \<le> now \<and> \<not> in_line d' e \<and>
      (\<forall>e'. e' \<noteq> e \<and> in_line d e' \<longrightarrow> fires_before (EntryKey d e) (EntryKey d e') \<and> in_line d' e')
    else \<exists>w d'. RunTimer now d = (Sleeping w False, d') \<and> Timers d' = Timers d"
proof -
  have wf: "timers_wf d" using tt_reach_wf [OF assms(1)] .
  note wfs = timers_wfD [OF wf]
  from wf assms(2) show ?thesis
  proof (cases rule: RunTimer_cases [where now = now])
    case idle
    then have "\<not> in_line d e" for e using wfs(8) [OF assms(2), of e] by auto
    then show ?thesis using idle by auto
  next
    case (early k e)
    have "\<not> EmitTime (EntryKey d e') \<le> now" if "in_line d e'" for e'
      using last_is_first [OF wf early(1) wfs(8) [OF assms(2) that]] early(3) by auto
    then show ?thesis using early by auto
  next
    case (due k e)
    let ?d = "(set_key e (TimerKey (EmitTime k) NoWaiting) d)\<lparr> Timers := butlast (Timers d), CurrEntry := Some e \<rparr>"
    have in_set: "(k, e) \<in> set (Timers d)" using due(1,2) last_in_set by metis
    have line: "in_line d e" using wfs(5) [OF in_set] .
    have out: "\<not> in_line ?d e" by (simp add: in_line_def set_key_def seq_simps)
    have stay: "in_line ?d e'" if "e' \<noteq> e" "in_line d e'" for e' using that by (simp add: in_line_def set_key_def)
    have first: "fires_before (EntryKey d e) (EntryKey d e')" if "e' \<noteq> e" "in_line d e'" for e'
      using last_is_first [OF wf due(1) wfs(8) [OF assms(2) that(2)]] wfs(7) [OF line, of e'] that(1) due(4)
      by (auto simp: fires_before_def le_less)
    have some: "\<exists>e. in_line d e \<and> EmitTime (EntryKey d e) \<le> now" using line due(3,4) by auto
    show ?thesis unfolding if_P [OF some]
      by (intro exI [of _ e] exI [of _ ?d] conjI allI impI) (use due line out stay first in auto)
  qed
qed

subsection \<open>Stopping\<close>

definition quiet :: "timer_data \<Rightarrow> nat \<Rightarrow> bool" where
  "quiet d e \<longleftrightarrow> ThreadEnding d \<or> \<not> in_line d e"

definition stops :: "timer_act \<Rightarrow> nat \<Rightarrow> bool" where
  "stops a e \<longleftrightarrow> a = AStop e \<or> (\<exists>me b. a = AStopAndWait me e b \<or> a = ADisposeAndWait me e b)"

lemma quiet_stop: "timers_wf d \<Longrightarrow> tt_step a (now, th, d) (now', th', d') \<Longrightarrow> stops a e \<Longrightarrow> quiet d' e"
  by (erule tt_step.cases)
    (auto simp: quiet_def stops_def StopNoWait_def StopAndWait_def DisposeNoWait_def DisposeAndWait_def Let_def in_line_def set_key_def
      seq_simps split: if_splits)

lemma quiet_take: "timers_wf d \<Longrightarrow> quiet d e \<Longrightarrow> \<not> tt_step (ATake e) (now, th, d) (now', th', d')"
proof
  assume wf: "timers_wf d" and q: "quiet d e" and "tt_step (ATake e) (now, th, d) (now', th', d')"
  then obtain d'' where r: "RunTimer now d = (Emitting e, d'')" by (auto elim: tt_step.cases)
  then have live: "\<not> ThreadEnding d" by (auto simp: RunTimer_def)
  from wf live show False
  proof (cases rule: RunTimer_cases [where now = now])
    case (due k e')
    have "(k, e') \<in> set (Timers d)" using due(1,2) last_in_set by metis
    then show False using timers_wfD(5) [OF wf] due r q live by (auto simp: quiet_def)
  qed (use r in auto)
qed

lemma other_key_kept:
  assumes "tt_step a (now, th, d) (now', th', d')" "timers_wf d" "\<forall>w. a \<noteq> AStart e w" "quiet d e"
  shows "quiet d' e"
  using assms
proof (induction a "(now, th, d)" "(now', th', d')" rule: tt_step.induct)
  case (run_at e1 at b)
  then show ?case
    by (auto simp: TimerRunAt_def SetupRun_def Let_def quiet_def in_line_def set_key_def TimersErase_eq split: if_splits prod.splits)
next
  case (run_after e1 ti b)
  then show ?case
    by (auto simp: TimerRunAfter_def SetupRun_def Let_def quiet_def in_line_def set_key_def TimersErase_eq split: if_splits prod.splits)
next
  case (stop e1)
  then show ?case
    by (auto simp: StopNoWait_def Let_def quiet_def in_line_def set_key_def TimersErase_eq seq_simps split: if_splits)
next
  case (stop_wait me e1 b)
  then show ?case
    by (auto simp: StopAndWait_def Let_def quiet_def in_line_def set_key_def TimersErase_eq seq_simps split: if_splits)
next
  case (dispose e1)
  then show ?case
    by (auto simp: DisposeNoWait_def Let_def quiet_def in_line_def set_key_def TimersErase_eq seq_simps split: if_splits)
next
  case (dispose_wait me e1 b)
  then show ?case
    by (auto simp: DisposeAndWait_def Let_def quiet_def in_line_def set_key_def TimersErase_eq seq_simps split: if_splits)
next
  case round
  then show ?case by (auto simp: RunTimer_def Let_def quiet_def in_line_def set_key_def split: if_splits)
next
  case (take_out e1)
  then show ?case by (auto simp: RunTimer_def Let_def quiet_def in_line_def set_key_def seq_simps split: if_splits)
qed (auto simp: quiet_def in_line_def NotifyForEndNow_def AfterEmit_def WaitForEndNow_clear_def)

text \<open>\<open>CurrEntry\<close> is the timer that was taken, until its call has returned.\<close>

definition emitted_entry :: "timer_thr \<Rightarrow> nat option" where
  "emitted_entry th = (case th of Emitting e \<Rightarrow> Some e | Calling e \<Rightarrow> Some e | _ \<Rightarrow> None)"

lemma emitted_entry_simps [simp]:
  "emitted_entry Looking = None" "emitted_entry (Emitting e) = Some e" "emitted_entry (Calling e) = Some e"
  "emitted_entry (Sleeping w b) = None" "emitted_entry Ended = None"
  "emitted_entry (TimerNotify th) = emitted_entry th" "emitted_entry (notified b th) = emitted_entry th"
  by (cases th; simp add: emitted_entry_def TimerNotify_def notified_def)+

lemma SetupRun_curr: "timers_wf d \<Longrightarrow> CurrEntry (snd (SetupRun now e at after d)) = CurrEntry d"
  by (simp add: SetupRun_def Let_def set_key_def TimersErase_eq split: prod.split)

lemma RunTimer_curr:
  "CurrEntry d = None \<Longrightarrow> RunTimer now d = (th, d') \<Longrightarrow> CurrEntry d' = emitted_entry th"
  by (auto simp: RunTimer_def Let_def thr_sleep_def set_key_def split: if_splits)

lemma tt_step_curr:
  "tt_step a (now, th, d) (now', th', d') \<Longrightarrow> timers_wf d \<Longrightarrow> CurrEntry d = emitted_entry th \<Longrightarrow> CurrEntry d' = emitted_entry th'"
proof (induction a "(now, th, d)" "(now', th', d')" rule: tt_step.induct)
  case (run_at e at b)
  then show ?case using SetupRun_curr [of d now e at None] by (auto simp: TimerRunAt_def)
next
  case (run_after e ti b)
  then show ?case using SetupRun_curr [of d now e "now + ti" "Some ti"] by (auto simp: TimerRunAfter_def)
next
  case (stop e)
  then show ?case by (auto simp: StopNoWait_def Let_def set_key_def TimersErase_eq)
next
  case (stop_wait me e b)
  then show ?case by (auto simp: StopAndWait_def Let_def set_key_def TimersErase_eq split: if_splits)
next
  case (dispose e)
  then show ?case by (auto simp: DisposeNoWait_def Let_def set_key_def TimersErase_eq)
next
  case (dispose_wait me e b)
  then show ?case by (auto simp: DisposeAndWait_def Let_def set_key_def TimersErase_eq split: if_splits)
next
  case round
  then show ?case using RunTimer_curr by simp
next
  case (take_out e)
  then show ?case using RunTimer_curr by fastforce
qed (auto simp: NotifyForEndNow_def AfterEmit_def WaitForEndNow_clear_def)

lemma tt_run_curr:
  "tt_run x as y \<Longrightarrow> timers_wf (snd (snd x)) \<Longrightarrow> CurrEntry (snd (snd x)) = emitted_entry (fst (snd x)) \<Longrightarrow>
   CurrEntry (snd (snd y)) = emitted_entry (fst (snd y))"
proof (induction rule: tt_run.induct)
  case (run_snoc s as t a u)
  then show ?case
    using tt_step_curr [of a "fst t" "fst (snd t)" "snd (snd t)" "fst u" "fst (snd u)" "snd (snd u)"] tt_run_wf [of s as t] by simp
qed

lemma tt_reach_curr: "tt_reach (now, th, d) \<Longrightarrow> CurrEntry d = emitted_entry th"
proof -
  assume "tt_reach (now, th, d)"
  then obtain now0 as where run: "tt_run (now0, Looking, new_timer_data) as (now, th, d)" unfolding tt_reach_def by blast
  show ?thesis using tt_run_curr [OF run] new_timer_wf by (simp add: new_timer_data_def)
qed

definition calls_of :: "nat \<Rightarrow> timer_act list \<Rightarrow> nat" where
  "calls_of e as = length (filter (\<lambda>a. a = AFire e) as)"

definition taken :: "timer_thr \<Rightarrow> nat \<Rightarrow> nat" where
  "taken th e = (if th = Emitting e then 1 else 0)"

lemma tt_step_taken:
  "tt_step a (now, th, d) (now', th', d') \<Longrightarrow> a \<noteq> ATake e \<Longrightarrow> calls_of e [a] + taken th' e = taken th e"
  by (erule tt_step.cases)
    (auto simp: calls_of_def taken_def notified_def TimerNotify_def NotifyForEndNow_def split: timer_thr.splits)

lemma quiet_run:
  assumes "tt_run x as y" "timers_wf (snd (snd x))" "quiet (snd (snd x)) e" "\<forall>w. AStart e w \<notin> set as"
  shows "quiet (snd (snd y)) e \<and> calls_of e as + taken (fst (snd y)) e = taken (fst (snd x)) e"
  using assms
proof (induction rule: tt_run.induct)
  case (run_snoc s as t a u)
  have wf: "timers_wf (snd (snd t))" using tt_run_wf [OF run_snoc.hyps(1) run_snoc.prems(1)] .
  have q: "quiet (snd (snd t)) e" "calls_of e as + taken (fst (snd t)) e = taken (fst (snd s)) e"
    using run_snoc.IH run_snoc.prems by auto
  have step: "tt_step a (fst t, fst (snd t), snd (snd t)) (fst u, fst (snd u), snd (snd u))" using run_snoc.hyps(2) by simp
  have a: "a \<noteq> ATake e" using quiet_take [OF wf q(1)] step by blast
  have "quiet (snd (snd u)) e" using other_key_kept [OF step wf _ q(1)] run_snoc.prems(3) by auto
  moreover have "calls_of e (as @ [a]) = calls_of e as + calls_of e [a]" by (simp add: calls_of_def)
  ultimately show ?case using q(2) tt_step_taken [OF step a] by simp
qed (simp add: calls_of_def)

text \<open>A stop that waits and asks for no other round.\<close>

definition waited :: "timer_act \<Rightarrow> nat \<Rightarrow> timer_data \<Rightarrow> bool" where
  "waited a e d \<longleftrightarrow> \<not> ThreadEnding d \<and>
     (\<exists>me. a = ADisposeAndWait me e False \<or> a = AStopAndWait me e False \<and> SeqNo (EntryKey d e) \<noteq> Disposed)"

lemma waited_not_taken:
  assumes "tt_reach (now, th, d)" "tt_step a (now, th, d) y" "waited a e d"
  shows "th \<noteq> Emitting e"
proof
  assume th: "th = Emitting e"
  then have c: "CurrEntry d = Some e" using tt_reach_curr [OF assms(1)] by simp
  have wf: "timers_wf d" using tt_reach_wf [OF assms(1)] .
  have "CurrEntry (set_key e k (TimersErase k' d)) = Some e" for k k' by (simp add: set_key_def TimersErase_eq [OF wf] c)
  then have "fst (StopAndWait False e d) \<or> SeqNo (EntryKey d e) = Disposed" "fst (DisposeAndWait False e d)"
    using assms(3) c by (auto simp: waited_def StopAndWait_def DisposeAndWait_def CheckCurrEmit_def Let_def)
  moreover have "(\<exists>d'. StopAndWait False e d = (False, d')) \<and> SeqNo (EntryKey d e) \<noteq> Disposed \<or> (\<exists>d'. DisposeAndWait False e d = (False, d'))"
    using assms(2,3) by (cases rule: tt_step.cases) (auto simp: waited_def th in_call_def)
  ultimately show False by auto
qed

text \<open>
  C25: A timer that was stopped or disposed is called at most once more before somebody starts it again, and
  only when the thread had already taken it out; and it is not called at all when the stop was one that
  waits and it has returned (not because the thread is ending or, for \<open>StopAndWait\<close>, the timer was disposed
  before: \<open>disposed_timer_is_not_waited_for\<close>). Whatever the thread and the other clients do.
\<close>

theorem stopped_timer_stays_silent:
  assumes "tt_reach (now, th, d)" "tt_step a (now, th, d) y" "stops a e" "tt_run y as z" "\<forall>w. AStart e w \<notin> set as"
  shows "calls_of e as \<le> (if th = Emitting e \<and> \<not> waited a e d then 1 else 0)"
proof -
  have wf: "timers_wf d" using tt_reach_wf [OF assms(1)] .
  obtain now' th' d' where y: "y = (now', th', d')" by (metis prod.exhaust)
  note step = assms(2) [unfolded y]
  have "timers_wf d'" "quiet d' e" using tt_step_wf [OF step wf] quiet_stop [OF wf step assms(3)] by simp_all
  then have "calls_of e as + taken (fst (snd z)) e = taken th' e" using quiet_run [OF assms(4), of e] assms(5) by (simp add: y)
  moreover have "a \<noteq> ATake e" using assms(3) by (auto simp: stops_def)
  ultimately have "calls_of e as \<le> taken th e" using tt_step_taken [OF step] by fastforce
  then show ?thesis using waited_not_taken [OF assms(1,2)] by (auto simp: taken_def split: if_splits)
qed

subsection \<open>A timer of five seconds\<close>

definition five_seconds :: timer_data where
  "five_seconds = new_timer_data\<lparr> LastSeqNo := 3, Timers := [(TimerKey 5000000 3, 1)], CvWaitSecs := 5000000,
     EntryKey := (EntryKey new_timer_data)(1 := TimerKey 5000000 3) \<rparr>"

lemma five_seconds_start: "TimerRunAfter 0 1 5000000 new_timer_data = (True, five_seconds)"
  by (simp add: TimerRunAfter_def SetupRun_def new_timer_data_def five_seconds_def next_seqno_def uadd_def Let_def
      seq_simps set_key_def sv_insert_def find_i_def lower_i_def vec_insert_def)

lemma five_seconds_run: "tt_run (0, Looking, new_timer_data) ([] @ [AStart 1 5000000]) (0, Looking, five_seconds)"
proof -
  have "tt_run (0, Looking, new_timer_data) ([] @ [AStart 1 5000000]) (0, notified True Looking, five_seconds)"
    by (rule run_snoc [OF run_nil run_after [OF _ five_seconds_start]]) (simp add: new_timer_data_def WaitInLine_def)
  then show ?thesis by (simp add: notified_def TimerNotify_def)
qed

lemma five_seconds_reached: "tt_reach (0, Looking, five_seconds)"
  using five_seconds_run unfolding tt_reach_def by blast

lemma tt_reach_step: "tt_reach x \<Longrightarrow> tt_step a x y \<Longrightarrow> tt_reach y"
  unfolding tt_reach_def by (blast intro: run_snoc)

lemma five_seconds_round: "tt_step ARound (0, Looking, five_seconds) (0, Sleeping (Some 5000000) False, five_seconds)"
proof (rule round)
  show "RunTimer 0 five_seconds = (Sleeping (Some 5000000) False, five_seconds)"
    by (simp add: RunTimer_def five_seconds_def new_timer_data_def thr_sleep_def)
qed simp

lemma five_seconds_sleep: "tt_reach (0, Sleeping (Some 5000000) False, five_seconds)"
  using tt_reach_step [OF five_seconds_reached five_seconds_round] .

lemma five_seconds_awake: "tt_reach (5000000, Looking, five_seconds)"
proof -
  have "tt_reach (5000000, Sleeping (Some 5000000) False, five_seconds)"
    using tt_reach_step [OF five_seconds_sleep tick] by simp
  then show ?thesis using tt_reach_step wake by blast
qed

lemma timer_line_is_well_formed_witness: "timers_wf five_seconds"
  using timer_line_is_well_formed [OF five_seconds_reached] .

lemma no_wake_up_is_missed_witness: "\<exists>t. Some 5000000 = Some t \<and> t \<le> EmitTime (TimerKey 5000000 3)"
  using no_wake_up_is_missed [OF run_snoc [OF five_seconds_run five_seconds_round], of "TimerKey 5000000 3" 1]
  by (simp add: five_seconds_def TsDivisor_def)

lemma first_due_timer_fires_witness: "\<exists>e d'. RunTimer 5000000 five_seconds = (Emitting e, d') \<and> in_line five_seconds e"
proof -
  have "in_line five_seconds 1 \<and> EmitTime (EntryKey five_seconds 1) \<le> 5000000"
    by (simp add: in_line_def five_seconds_def seq_simps)
  then have "\<exists>e. in_line five_seconds e \<and> EmitTime (EntryKey five_seconds e) \<le> 5000000" by blast
  then show ?thesis using first_due_timer_fires [OF five_seconds_awake] by (auto simp: five_seconds_def new_timer_data_def)
qed

text \<open>The timer is taken out; then it is stopped, and called all the same.\<close>

definition taken_out :: timer_data where
  "taken_out = five_seconds\<lparr> Timers := [], CurrEntry := Some 1, EntryKey := (EntryKey new_timer_data)(1 := TimerKey 5000000 0) \<rparr>"

lemma taken_out_reached: "tt_reach (5000000, Emitting 1, taken_out)"
proof (rule tt_reach_step [OF five_seconds_awake take_out])
  show "RunTimer 5000000 five_seconds = (Emitting 1, taken_out)"
    by (simp add: RunTimer_def five_seconds_def taken_out_def new_timer_data_def set_key_def NoWaiting_def Let_def)
qed

lemma stopped_timer_stays_silent_witness:
  "calls_of 1 [AFire 1, ADone] \<le> 1 \<and> tt_reach (5000000, Emitting 1, taken_out) \<and> StopNoWait 1 taken_out = taken_out"
proof -
  have s: "StopNoWait 1 taken_out = taken_out"
    by (simp add: StopNoWait_def taken_out_def five_seconds_def new_timer_data_def seq_simps)
  have stop: "tt_step (AStop 1) (5000000, Emitting 1, taken_out) (5000000, Emitting 1, taken_out)"
    using tt_step.stop [of 1 5000000 "Emitting 1" taken_out] s by simp
  have "tt_run (5000000, Emitting 1, taken_out) (([] @ [AFire 1]) @ [ADone]) (5000000, Looking, AfterEmit taken_out)"
    by (rule run_snoc [OF run_snoc [OF run_nil fire] emitted])
  then show ?thesis using stopped_timer_stays_silent [OF taken_out_reached stop] taken_out_reached s
    by (fastforce simp: stops_def waited_def)
qed

text \<open>
  The comment of \<open>StopAndWait\<close> says that it waits for the end of a call that is about to come. It does not
  when the timer was disposed meanwhile: it returns at once, and the call comes after it.
\<close>

theorem disposed_timer_is_not_waited_for:
  "\<exists>d. tt_reach (5000000, Emitting 1, d) \<and>
     tt_step (AStopAndWait False 1 False) (5000000, Emitting 1, d) (5000000, Emitting 1, d) \<and>
     tt_step (AFire 1) (5000000, Emitting 1, d) (5000000, Calling 1, d)"
proof (intro exI conjI)
  let ?d = "DisposeNoWait 1 taken_out"
  show "tt_reach (5000000, Emitting 1, ?d)" by (rule tt_reach_step [OF taken_out_reached dispose])
  have "StopAndWait False 1 ?d = (False, ?d)"
    by (simp add: StopAndWait_def DisposeNoWait_def taken_out_def five_seconds_def new_timer_data_def set_key_def seq_simps)
  then show "tt_step (AStopAndWait False 1 False) (5000000, Emitting 1, ?d) (5000000, Emitting 1, ?d)"
    by (intro stop_wait) simp_all
qed (rule fire)

text \<open>
  \<open>DisposeAndWait\<close> of a timer that is not in line does not mark it, so that it can be started again; \<open>DisposeNoWait\<close> does.
\<close>

theorem dispose_and_wait_forgets_idle_timers:
  "in_line (snd (TimerRunAt 0 e 5000000 (snd (DisposeAndWait False e new_timer_data)))) e \<and>
   \<not> in_line (snd (TimerRunAt 0 e 5000000 (DisposeNoWait e new_timer_data))) e"
  by (simp add: TimerRunAt_def SetupRun_def DisposeAndWait_def DisposeNoWait_def new_timer_data_def next_seqno_def uadd_def Let_def
      seq_simps set_key_def in_line_def sv_insert_def find_i_def lower_i_def vec_insert_def)

text \<open>A timer that was due exactly one second ago is put in line without a word to the thread that sleeps for ever.\<close>

theorem one_second_ago_is_not_notified:
  "fst (RunTimer 0 new_timer_data) = Sleeping None False \<and>
   fst (TimerRunAfter 0 e (- 1000000) (snd (RunTimer 0 new_timer_data))) = False \<and>
   in_line (snd (TimerRunAfter 0 e (- 1000000) (snd (RunTimer 0 new_timer_data)))) e"
  by (simp add: RunTimer_def TimerRunAfter_def SetupRun_def new_timer_data_def next_seqno_def uadd_def Let_def thr_sleep_def
      TsDivisor_def seq_simps set_key_def in_line_def sv_insert_def find_i_def lower_i_def vec_insert_def)

end
