(* ===== verification/Spec2Isabelle.thy ===== *)
theory Spec2Isabelle
  imports SortedVector PkCont NumText FixMessage FixFeeder FixConfig FixSessionSpec
    Endian DcQueueSpec Decimal PkReceiverSpec BitvSpec TrieSpec ReloadProps
    FlowControl Base64 TimeText ScheduleTask TimerProps
begin

text \<open>
  The core of \<^bold>\<open>libfon9\<close>: its FIX engine, its packet feeders, the buffers and encodings they stand
  on and its containers, as functions on records and lists. Every theory names the files of
  \<open>src/\<close> it models; all paths below are relative to \<open>src/fon9/\<close>.

  \<^bold>\<open>The parts and how they work together.\<close>

  A FIX session reads a byte stream and writes one. The bytes that arrive are cut into messages
  (\<open>FixFeeder\<close>, the blocks of the network being arbitrary), parsed and verified (\<open>FixMessage\<close>),
  and given to the session (\<open>FixSession\<close>), which compares the sequence number with the one expected,
  keeps what is behind a gap, asks for what is missing and hands the rest to the application, as
  the table of message types (\<open>FixConfig\<close>) says. Its timer watches the peer. What the session sends
  goes through the sender (\<open>FixSender\<close>), which builds the message with the builder of \<open>FixMessage\<close>
  and its number. Both directions are written to one file (\<open>FixRecorder\<close>); after a restart the
  numbers are found in it by reading it backwards in blocks (\<open>FileRevRead\<close>), and when the peer asks
  for messages again they are looked up in the same file (\<open>ReloadSent\<close>).
  A multicast line is read in two steps: the receiver (\<open>PkReceiver\<close>) cuts packets out of a queue of
  buffers (\<open>DcQueue\<close>), and the feeder (\<open>PkCont\<close>) puts packets that came out of order, or twice, back
  in sequence and counts the ones that never came. \<open>Bitv\<close> is the binary encoding of the messages
  between the servers; it reads from the same queue and stands on \<open>Endian\<close> and \<open>Decimal\<close>.
  \<open>SortedVector\<close> and \<open>TrieMap\<close> are the ordered containers, \<open>NumText\<close> the numbers as text.
  Time is a number of microseconds; \<open>DateTime\<close> and \<open>TimeText\<close> turn it into dates and texts. One thread
  (\<open>Timer\<close>) fires the timers of all objects, in the order of a sorted vector; a \<open>Schedule\<close> opens and closes a
  session at the hours of a week with such a timer. \<open>FlowControl\<close> limits what a line sends in a unit of time.

  \<^bold>\<open>Theories, sources and what is shown.\<close>

  \<^item> \<open>Fon9_Prelude\<close>: types, unsigned arithmetic at a width (\<open>uadd\<close>, \<open>usub\<close>), the locales of the contracts
    several components share, and the lemma collections.
  \<^item> \<open>SortedVector\<close> (\<open>SortedVector.hpp\<close>): lookups and updates of a sorted vector, against the list kept in order.
  \<^item> \<open>NumText\<close> (\<open>StrTools.*\<close>, \<open>StrTo.*\<close>, \<open>ToStr.*\<close>): readers saturate at the limit of their type; writers and
    readers are inverse.
  \<^item> \<open>PkCont\<close> (\<open>PkCont.hpp\<close>, \<open>PkCont.cpp\<close>): the record \<open>pkcont\<close> is the feeder; the packets waiting are
    a sorted list. Delivery in sequence, the account of delivered and lost packets, the timer. Of
    \<open>PkContOnTimer\<close>, which is virtual, the body of the base class.
  \<^item> \<open>FixMessage\<close> (\<open>fix/FixBase.hpp\<close>, \<open>FixParser.*\<close>, \<open>FixBuilder.*\<close>, \<open>FixCompID.*\<close>): \<open>fix_parser\<close> and \<open>fix_builder\<close>;
    what is built is parsed, the bytes are judged by their sum, where the length overflows, and what becomes
    of a body above the limit.
  \<^item> \<open>FixFeeder\<close> (\<open>fix/FixFeeder.*\<close>): the messages delivered do not depend on the blocks.
  \<^item> \<open>FixConfig\<close> (\<open>fix/FixConfig.*\<close>): the table of handlers and the defaults.
  \<^item> \<open>FixSession\<close>, \<open>FixSessionProps\<close>, \<open>FixSessionOrder\<close>, \<open>FixSessionSpec\<close> (\<open>fix/FixReceiver.*\<close>, \<open>FixSession.*\<close>):
    the record \<open>fix_session\<close> with one function per handler; a field \<open>Undefined\<close> is set where the code
    would use a null pointer or pop an empty list, and no run sets it. Order of delivery, recovery
    of a gap, numbers that are too low, the timer (while our own side is idle), and the two ways a
    message is never delivered.
  \<^item> \<open>FileRevRead\<close> (\<open>FileRevRead.*\<close>): the block search sees every segment of the file once, last first.
  \<^item> \<open>FixRecorder\<close>, \<open>FixSender\<close> (\<open>fix/FixRecorder.*\<close>, \<open>FixRecorder_Searcher.*\<close>, \<open>FixSender.*\<close>, \<open>FixAdminMsg.cpp\<close>):
    the file is the list of its bytes; a restart recovers the numbers from it after any run that writes no
    line feed within a text, a message sent is accepted by the other end, a replay rebuilds what was recorded.
  \<^item> \<open>ReloadSent\<close>, \<open>ReloadProps\<close> (\<open>fix/FixRecorder_Searcher.*\<close>): the search for a sent message and of those
    behind it: \<open>FindNext\<close> delivers the rest of the file. The list of messages \<open>FixSender\<close> replays is
    a parameter there; it stands for what these calls deliver.
  \<^item> \<open>Endian\<close>, \<open>Decimal\<close> (\<open>Endian.hpp\<close>, \<open>DecBase.*\<close>, \<open>Decimal.hpp\<close>): round trips, size of packed integers,
    rounding and overflow of a change of scale.
  \<^item> \<open>DcQueue\<close>, \<open>DcQueueProps\<close>, \<open>DcQueueSpec\<close> (\<open>buffer/\<close>): a list of nodes refines a list of bytes; no control
    node is told early, late or twice, but for the error path.
  \<^item> \<open>PkReceiver\<close>, \<open>PkReceiverSpec\<close> (\<open>PkReceiver.*\<close>): packets are found whatever the blocks and whatever lies between.
  \<^item> \<open>Bitv\<close>, \<open>BitvProps\<close>, \<open>BitvBytes\<close>, \<open>BitvDecimal\<close>, \<open>BitvSpec\<close> (\<open>Bitv.h\<close>, \<open>BitvEncode.*\<close>, \<open>BitvDecode.*\<close>, \<open>BitvFixedInt.hpp\<close>):
    the locale \<open>bitv_codec\<close> is the contract of an encoder and its decoder, interpreted on each kind
    of value; round trips, incomplete input, and three defects.
  \<^item> \<open>TrieMap\<close>, \<open>TrieProps\<close>, \<open>TrieUpdate\<close>, \<open>TrieSpec\<close> (\<open>Trie.hpp\<close>): a trie is a finite map, its iterators
    go through it in order, and where a bound is not found.
  \<^item> \<open>Base64\<close> (\<open>Base64.*\<close>), \<open>FlowControl\<close> (\<open>FlowCounter.*\<close>, \<open>FlowControlCalc.*\<close>): the round trip with exact
    lengths; no span of the time unit sees more uses than allowed, and what the calculator grants.
  \<^item> \<open>DateTime\<close>, \<open>TimeText\<close> (\<open>TimeStamp.*\<close>): conversions of dates and their inverses. Dates and texts come from
    the cache of the thread, which is passed on; once it has read a second other than the first of the epoch (for
    milliseconds: other ones than zero) it gives the same answers as no cache. \<open>gmtime\<close> and \<open>timegm\<close> are those of the
    C library, written down as the proleptic Gregorian calendar.
  \<^item> \<open>Timer\<close>, \<open>TimerProps\<close> (\<open>Timer.*\<close>, \<open>ThreadController.hpp\<close>): \<open>tt_step\<close> are the interleavings of the rounds of the
    thread with the operations of the clients; the line is well formed, no wake-up is missed but for
    starts with a waiting time of minus one second, the earliest timer is taken, a stopped one is called at most once
    more and not after a stop that waits.
  \<^item> \<open>Schedule\<close>, \<open>ScheduleSpec\<close>, \<open>ScheduleTask\<close> (\<open>SchTask.*\<close>): a schedule is the set of its spans, with or without an end;
    the check decides it and finds the next change, and the task that follows it is current in every run of \<open>sch_step\<close>.

  \<^bold>\<open>Conventions of the model.\<close> An unsigned integer is a natural number whose additions and
  subtractions wrap at the width of its type, or a word where the code works on bits. A pointer
  into a buffer is an offset or the rest of the list from it; \<open>nullptr\<close> is \<open>None\<close>. A read one byte
  behind a range, as the parser and the readers of numbers do, gets an argument for that byte.
  A virtual function or a callback is an argument, or a field of the record of the environment.

  \<^bold>\<open>Fuel.\<close> Loops end by a measure where the code ensures it. Fuel is used where it does not by itself:
  \<open>FeedBuffer\<close> of the FIX feeder and \<open>feed_loop\<close> of the packet receiver (more than the bytes in the queue),
  \<open>CheckMsgKeeper\<close> (more than the messages kept), \<open>FindNext\<close> (more than the bytes of the file). That the
  fuel is enough is part of the theorem that uses it.

  \<^bold>\<open>Not modelled.\<close> Locks, reference counts and memory: an operation is a step that does not
  interleave with others, as the locks of the code have it, and of the threads only that of the timers is
  modelled. Formats of dates, the reading of dates and the text of a schedule. Sockets, files and the clock: the device, the result
  of reading a file and the time are arguments. The layers on top (seed trees, remote calls, web,
  authentication, market data, the lines of two exchanges) are users of the parts modelled here. The
  manifest lists them with the reason for each.
\<close>

end
